(* ===== verification/Prelude.thy ===== *)
theory Prelude
  imports Main "HOL-Library.Word"
begin

text \<open>
  Shared vocabulary of the development: machine words and byte memory, the outcome
  monad in which every kernel routine is written, and the list and word lemmas the
  components use.

  A kernel routine maps a state to an \<open>outcome\<close>. \<open>Ret v s\<close> is an ordinary return.
  \<open>Panic msg\<close> is a call of \<^verbatim>\<open>panic\<close>. \<open>Fault what\<close> is an access the C program
  must not make (a null pointer, an array element out of range). \<open>Switch s\<close> means the routine reached
  \<^verbatim>\<open>swtch\<close> inside \<^verbatim>\<open>sched\<close> and the processor was given to somebody else in
  state \<open>s\<close>. \<open>Spin s\<close> means the routine is spinning on a lock that another
  processor holds.
\<close>

unbundle bit_operations_syntax

section \<open>Machine types\<close>

type_synonym u8 = "8 word"
type_synonym u16 = "16 word"
type_synonym u32 = "32 word"
type_synonym addr = "32 word"
type_synonym mem = "addr \<Rightarrow> u8"

lemma sint_small: "unat (w::u32) < 2147483648 \<Longrightarrow> sint w = int (unat w)"
proof -
  assume a: "unat w < 2147483648"
  have s: "sint (word_of_int x :: u32) = x" if "0 \<le> x" "x < 2147483648" for x
    using that by (simp add: signed_take_bit_int_eq_self sint_sbintrunc')
  have "uint w < 2147483648" unfolding uint_nat using a by linarith
  then have "sint (word_of_int (uint w) :: u32) = uint w" by (intro s) simp_all
  then have "sint w = uint w" by (simp only: word_of_int_uint)
  then show ?thesis by (simp only: uint_nat)
qed

text \<open>A C \<^verbatim>\<open>int\<close> has 32 bits, and the machine's arithmetic wraps; \<open>int32 x\<close> is what is left of the
  result \<open>x\<close> of an operation.\<close>

definition int32 :: "int \<Rightarrow> int" where
  "int32 x = sint (word_of_int x :: u32)"

lemma int32_mod: "int32 x = (x + 2147483648) mod 4294967296 - 2147483648"
  by (simp add: int32_def sint_sbintrunc' signed_take_bit_eq_take_bit_shift take_bit_eq_mod)

lemma int32_range: "- 2147483648 \<le> int32 x" "int32 x < 2147483648"
  by (simp_all add: int32_mod)

lemma int32_id: "- 2147483648 \<le> x \<Longrightarrow> x < 2147483648 \<Longrightarrow> int32 x = x"
  by (simp add: int32_mod)

lemma int32_le: "- 2147483648 \<le> x \<Longrightarrow> int32 x \<le> x"
  using zmod_le_nonneg_dividend [of "x + 2147483648" 4294967296] by (simp add: int32_mod)

lemma int32_int32: "int32 (int32 x + y) = int32 (x + y)"
proof -
  have "int32 x + y + 2147483648 = (x + 2147483648) mod 4294967296 + y" by (simp add: int32_mod)
  then show ?thesis unfolding int32_mod [of "int32 x + y"] int32_mod [of "x + y"] by (simp add: mod_simps algebra_simps)
qed

lemma int32_digit: "int32 (int32 x * 10 + y) = int32 (x * 10 + y)"
  by (simp add: int32_def flip: wi_hom_add wi_hom_mult)

section \<open>Outcomes\<close>

datatype ('a, 's) outcome =
    Ret 'a 's
  | Panic string
  | Fault string
  | Switch 's
  | Spin 's

type_synonym ('s, 'a) prog = "'s \<Rightarrow> ('a, 's) outcome"

definition ret :: "'a \<Rightarrow> ('s, 'a) prog" where
  "ret v = (\<lambda>s. Ret v s)"

definition panic :: "string \<Rightarrow> ('s, 'a) prog" where
  "panic msg = (\<lambda>s. Panic msg)"

definition fault :: "string \<Rightarrow> ('s, 'a) prog" where
  "fault what = (\<lambda>s. Fault what)"

definition switch :: "('s, 'a) prog" where
  "switch = (\<lambda>s. Switch s)"

definition spin :: "('s, 'a) prog" where
  "spin = (\<lambda>s. Spin s)"

definition reads :: "('s \<Rightarrow> 'a) \<Rightarrow> ('s, 'a) prog" where
  "reads f = (\<lambda>s. Ret (f s) s)"

definition modify :: "('s \<Rightarrow> 's) \<Rightarrow> ('s, unit) prog" where
  "modify f = (\<lambda>s. Ret () (f s))"

definition bindP :: "('s, 'a) prog \<Rightarrow> ('a \<Rightarrow> ('s, 'b) prog) \<Rightarrow> ('s, 'b) prog" where
  "bindP m f = (\<lambda>s. case m s of
       Ret v t \<Rightarrow> f v t
     | Panic msg \<Rightarrow> Panic msg
     | Fault what \<Rightarrow> Fault what
     | Switch t \<Rightarrow> Switch t
     | Spin t \<Rightarrow> Spin t)"

definition thenP :: "('s, 'a) prog \<Rightarrow> ('s, 'b) prog \<Rightarrow> ('s, 'b) prog" where
  "thenP m n = bindP m (\<lambda>_. n)"

definition whenP :: "bool \<Rightarrow> ('s, unit) prog \<Rightarrow> ('s, unit) prog" where
  "whenP b m = (if b then m else ret ())"

primrec forP :: "'i list \<Rightarrow> ('i \<Rightarrow> ('s, unit) prog) \<Rightarrow> ('s, unit) prog" where
  "forP [] body = ret ()"
| "forP (i # is) body = thenP (body i) (forP is body)"

primrec repeatP :: "nat \<Rightarrow> ('s, unit) prog \<Rightarrow> ('s, unit) prog" where
  "repeatP 0 m = ret ()"
| "repeatP (Suc n) m = thenP m (repeatP n m)"

text \<open>\<open>zoom get put m\<close> runs \<open>m\<close> on a part of the state.\<close>

definition zoom :: "('s \<Rightarrow> 't) \<Rightarrow> ('t \<Rightarrow> 's \<Rightarrow> 's) \<Rightarrow> ('t, 'a) prog \<Rightarrow> ('s, 'a) prog" where
  "zoom get put m = (\<lambda>s. case m (get s) of
       Ret v t \<Rightarrow> Ret v (put t s)
     | Panic msg \<Rightarrow> Panic msg
     | Fault what \<Rightarrow> Fault what
     | Switch t \<Rightarrow> Switch (put t s)
     | Spin t \<Rightarrow> Spin (put t s))"

lemma zoom_apply [simp]:
  "zoom get put m s = (case m (get s) of Ret v t \<Rightarrow> Ret v (put t s) | Panic msg \<Rightarrow> Panic msg
     | Fault what \<Rightarrow> Fault what | Switch t \<Rightarrow> Switch (put t s) | Spin t \<Rightarrow> Spin (put t s))"
  by (simp add: zoom_def)

lemma ret_apply [simp]: "ret v s = Ret v s"
  by (simp add: ret_def)

lemma panic_apply [simp]: "panic msg s = Panic msg"
  by (simp add: panic_def)

lemma fault_apply [simp]: "fault what s = Fault what"
  by (simp add: fault_def)

lemma switch_apply [simp]: "switch s = Switch s"
  by (simp add: switch_def)

lemma spin_apply [simp]: "spin s = Spin s"
  by (simp add: spin_def)

lemma reads_apply [simp]: "reads f s = Ret (f s) s"
  by (simp add: reads_def)

lemma modify_apply [simp]: "modify f s = Ret () (f s)"
  by (simp add: modify_def)

lemma bindP_apply [simp]:
  "bindP m f s = (case m s of Ret v t \<Rightarrow> f v t | Panic msg \<Rightarrow> Panic msg | Fault what \<Rightarrow> Fault what
     | Switch t \<Rightarrow> Switch t | Spin t \<Rightarrow> Spin t)"
  by (simp add: bindP_def)

lemma thenP_apply [simp]:
  "thenP m n s = (case m s of Ret v t \<Rightarrow> n t | Panic msg \<Rightarrow> Panic msg | Fault what \<Rightarrow> Fault what
     | Switch t \<Rightarrow> Switch t | Spin t \<Rightarrow> Spin t)"
  by (simp add: thenP_def bindP_def)

lemma repeatP_add: "repeatP (m + n) p s = thenP (repeatP m p) (repeatP n p) s"
  by (induction m arbitrary: s) (auto split: outcome.splits)

lemma whenP_apply [simp]: "whenP b m s = (if b then m s else Ret () s)"
  by (simp add: whenP_def)

lemma bindP_RetE:
  assumes "bindP m f s = Ret v t"
  obtains u s' where "m s = Ret u s'" and "f u s' = Ret v t"
  using assms by (auto simp: bindP_apply split: outcome.splits)

lemma thenP_RetE:
  assumes "thenP m n s = Ret v t"
  obtains u s' where "m s = Ret u s'" and "n s' = Ret v t"
  using assms by (auto simp: thenP_apply split: outcome.splits)

section \<open>First index satisfying a condition\<close>

text \<open>
  The kernel scans its fixed tables with \<^verbatim>\<open>for(p = tab; p < &tab[N]; p++) if(cond) ...\<close>
  and stops at the first entry that satisfies the condition.
\<close>

primrec first_from :: "nat \<Rightarrow> ('a \<Rightarrow> bool) \<Rightarrow> 'a list \<Rightarrow> nat option" where
  "first_from i P [] = None"
| "first_from i P (x # xs) = (if P x then Some i else first_from (Suc i) P xs)"

definition first_idx :: "('a \<Rightarrow> bool) \<Rightarrow> 'a list \<Rightarrow> nat option" where
  "first_idx P xs = first_from 0 P xs"

lemma first_from_Some:
  "first_from i P xs = Some j \<Longrightarrow>
     i \<le> j \<and> j - i < length xs \<and> P (xs ! (j - i)) \<and> (\<forall>k < j - i. \<not> P (xs ! k))"
proof (induction xs arbitrary: i)
  case Nil
  then show ?case by simp
next
  case (Cons x xs)
  show ?case
  proof (cases "P x")
    case True
    with Cons.prems show ?thesis by auto
  next
    case False
    with Cons.prems have "first_from (Suc i) P xs = Some j" by simp
    from Cons.IH [OF this] have IH: "Suc i \<le> j" "j - Suc i < length xs"
      "P (xs ! (j - Suc i))" "\<forall>k < j - Suc i. \<not> P (xs ! k)" by auto
    have "j - i = Suc (j - Suc i)" using IH(1) by simp
    with IH False show ?thesis by (auto simp: less_Suc_eq_0_disj)
  qed
qed

lemma first_from_None: "first_from i P xs = None \<longleftrightarrow> (\<forall>x \<in> set xs. \<not> P x)"
  by (induction xs arbitrary: i) auto

lemma first_idx_Some:
  assumes "first_idx P xs = Some j"
  shows "j < length xs" and "P (xs ! j)" and "\<And>k. k < j \<Longrightarrow> \<not> P (xs ! k)"
  using first_from_Some [of 0 P xs j] assms by (auto simp: first_idx_def)

lemma first_idx_None: "first_idx P xs = None \<longleftrightarrow> (\<forall>x \<in> set xs. \<not> P x)"
  by (simp add: first_idx_def first_from_None)

lemma first_idx_eqI:
  assumes "j < length xs" and "P (xs ! j)" and "\<And>k. k < j \<Longrightarrow> \<not> P (xs ! k)"
  shows "first_idx P xs = Some j"
proof (cases "first_idx P xs")
  case None
  then show ?thesis using assms(1,2) by (auto simp: first_idx_None)
next
  case (Some i)
  note i = first_idx_Some [OF Some]
  have "i = j"
  proof (rule ccontr)
    assume "i \<noteq> j"
    then consider "i < j" | "j < i" by linarith
    then show False using i assms by cases auto
  qed
  with Some show ?thesis by simp
qed

lemma first_idx_exists: "i < length xs \<Longrightarrow> P (xs ! i) \<Longrightarrow> \<exists>j. first_idx P xs = Some j"
  by (metis first_idx_None nth_mem option.exhaust)

section \<open>Exactly one holder\<close>

text \<open>
  \<open>uniq n P b\<close>: among the indices below \<open>n\<close> exactly one satisfies \<open>P\<close> if \<open>b\<close>,
  and none otherwise. It is what a lock word \<open>b\<close> says about its holders.
\<close>

definition uniq :: "nat \<Rightarrow> (nat \<Rightarrow> bool) \<Rightarrow> bool \<Rightarrow> bool" where
  "uniq n P b \<longleftrightarrow> (\<forall>i < n. \<forall>j < n. P i \<and> P j \<longrightarrow> i = j) \<and> (b \<longleftrightarrow> (\<exists>i < n. P i))"

lemma uniqD: "uniq n P b \<Longrightarrow> P i \<Longrightarrow> P j \<Longrightarrow> i < n \<Longrightarrow> j < n \<Longrightarrow> i = j"
  by (auto simp: uniq_def)

lemma uniq_holder: "uniq n P b \<Longrightarrow> P i \<Longrightarrow> i < n \<Longrightarrow> b"
  by (auto simp: uniq_def)

lemma uniq_keep:
  "uniq n P b \<Longrightarrow> (\<And>j. j < n \<Longrightarrow> P' j = P j) \<Longrightarrow> uniq n P' b"
  unfolding uniq_def by metis

lemma uniq_take:
  "uniq n P b \<Longrightarrow> \<not> b \<Longrightarrow> i < n \<Longrightarrow> P' i \<Longrightarrow> (\<And>j. j < n \<Longrightarrow> j \<noteq> i \<Longrightarrow> P' j = P j) \<Longrightarrow> uniq n P' True"
  unfolding uniq_def by metis

lemma uniq_drop:
  "uniq n P b \<Longrightarrow> i < n \<Longrightarrow> P i \<Longrightarrow> \<not> P' i \<Longrightarrow> (\<And>j. j < n \<Longrightarrow> j \<noteq> i \<Longrightarrow> P' j = P j) \<Longrightarrow> uniq n P' False"
  unfolding uniq_def by metis

lemma uniq_pass:
  "uniq n P b \<Longrightarrow> i < n \<Longrightarrow> P i \<Longrightarrow> \<not> P' i \<Longrightarrow> k < n \<Longrightarrow> P' k \<Longrightarrow>
     (\<And>j. j < n \<Longrightarrow> j \<noteq> i \<Longrightarrow> j \<noteq> k \<Longrightarrow> P' j = P j) \<Longrightarrow> uniq n P' b"
  unfolding uniq_def by metis

section \<open>Runs\<close>

text \<open>\<open>runs m k Q\<close>: from \<open>k\<close>, \<open>m\<close> returns, with a result and a state that satisfy \<open>Q\<close>.\<close>

definition runs :: "('s, 'a) prog \<Rightarrow> 's \<Rightarrow> ('a \<Rightarrow> 's \<Rightarrow> bool) \<Rightarrow> bool" where
  "runs m k Q \<longleftrightarrow> (\<exists>v k'. m k = Ret v k' \<and> Q v k')"

lemma runs_bindP: "runs (bindP m f) k Q = runs m k (\<lambda>v k'. runs (f v) k' Q)"
  by (auto simp: runs_def split: outcome.splits)

lemma runs_thenP: "runs (thenP m n) k Q = runs m k (\<lambda>_ k'. runs n k' Q)"
  by (auto simp: runs_def split: outcome.splits)

lemma runs_ret [simp]: "runs (ret v) k Q = Q v k"
  by (simp add: runs_def)

lemma runs_Ret [simp]: "runs (Ret v) k Q = Q v k"
  by (simp add: runs_def)

lemma runs_reads [simp]: "runs (reads f) k Q = Q (f k) k"
  by (simp add: runs_def)

lemma runs_modify [simp]: "runs (modify g) k Q = Q () (g k)"
  by (simp add: runs_def)

lemma runs_whenP [simp]: "runs (whenP b m) k Q = (if b then runs m k Q else Q () k)"
  by (simp add: runs_def)

lemma runs_mono: "runs m k P \<Longrightarrow> (\<And>v k'. P v k' \<Longrightarrow> Q v k') \<Longrightarrow> runs m k Q"
  by (auto simp: runs_def)

end
