(* ===== verification/Kernel_State.thy ===== *)
theory Kernel_State
  imports Prelude
begin

text \<open>
  The state of the kernel: the parameters of \<^verbatim>\<open>include/param.h\<close>, the structures
  declared in the headers and the global variables of the \<^verbatim>\<open>kernel/*.c\<close> files,
  gathered in one record \<open>kernel\<close>.

  Pointers into the fixed tables (\<^verbatim>\<open>struct proc*\<close>, \<^verbatim>\<open>struct file*\<close>,
  \<^verbatim>\<open>struct inode*\<close>, \<^verbatim>\<open>struct buf*\<close>) are table indices, the null pointer is
  \<open>None\<close>. Pointers to pages handed out by \<^verbatim>\<open>kalloc\<close> are 32-bit addresses, null is
  \<open>0\<close>. Pages used as byte storage, page tables and free-list nodes live in the byte
  memory \<open>k_mem\<close>; the trap frames, contexts and pipe structures the kernel overlays on
  other pages are kept in heaps of their own type, indexed by the same addresses.
  The fields \<^verbatim>\<open>name\<close> and \<^verbatim>\<open>pcs\<close> of a spinlock are debugging information no
  routine reads, and are left out.
\<close>

section \<open>Parameters\<close>

definition NPROC :: nat where [simp]: "NPROC = 64"
definition KSTACKSIZE :: u32 where [simp]: "KSTACKSIZE = 4096"
definition NCPU :: nat where [simp]: "NCPU = 8"
definition NOFILE :: nat where [simp]: "NOFILE = 16"
definition NFILE :: nat where [simp]: "NFILE = 100"
definition NBUF :: nat where [simp]: "NBUF = 10"
definition NINODE :: nat where [simp]: "NINODE = 50"
definition NDEV :: nat where [simp]: "NDEV = 10"
definition ROOTDEV :: u32 where [simp]: "ROOTDEV = 1"
definition USERTOP :: u32 where [simp]: "USERTOP = 0xA0000"
definition PHYSTOP :: u32 where [simp]: "PHYSTOP = 0x1000000"
definition MAXARG :: nat where [simp]: "MAXARG = 32"

section \<open>Locks and processors\<close>

record spinlock =
  sl_locked :: u32
  sl_cpu :: "nat option"

datatype lockid =
    PtableLock
  | KmemLock
  | BcacheLock
  | IcacheLock
  | FtableLock
  | IdeLock
  | TicksLock
  | ConsLock
  | InputLock
  | PipeLock addr

record cpu =
  c_id :: nat
  c_ncli :: int
  c_intena :: bool
  c_IF :: bool
  c_proc :: "nat option"
  c_esp0 :: u32
  c_cr3 :: u32

section \<open>Processes\<close>

datatype procstate = UNUSED | EMBRYO | SLEEPING | RUNNABLE | RUNNING | ZOMBIE

datatype chan =
    NoChan
  | ProcChan nat
  | InodeChan nat
  | BufChan nat
  | PipeReadChan addr
  | PipeWriteChan addr
  | TicksChan
  | InputChan

record kcontext =
  ctx_edi :: u32
  ctx_esi :: u32
  ctx_ebx :: u32
  ctx_ebp :: u32
  ctx_eip :: u32

record trapframe =
  tf_edi :: u32
  tf_esi :: u32
  tf_ebp :: u32
  tf_oesp :: u32
  tf_ebx :: u32
  tf_edx :: u32
  tf_ecx :: u32
  tf_eax :: u32
  tf_gs :: u16
  tf_fs :: u16
  tf_es :: u16
  tf_ds :: u16
  tf_trapno :: u32
  tf_err :: u32
  tf_eip :: u32
  tf_cs :: u16
  tf_eflags :: u32
  tf_esp :: u32
  tf_ss :: u16

record proc =
  p_sz :: u32
  p_pgdir :: addr
  p_kstack :: addr
  p_state :: procstate
  p_pid :: int
  p_parent :: "nat option"
  p_tf :: addr
  p_context :: addr
  p_chan :: chan
  p_killed :: int
  p_ofile :: "nat option list"
  p_cwd :: "nat option"
  p_name :: "u8 list"
  p_isParked :: int
  p_immediateUnpark :: int
  p_setPark :: int
  p_isThread :: u32
  p_bsp :: u32

section \<open>Disk blocks, inodes, files, pipes and console input\<close>

record buf =
  b_flags :: u32
  b_dev :: u32
  b_sector :: u32
  b_prev :: nat
  b_next :: nat
  b_qnext :: "nat option"
  b_data :: "u8 list"

record inode =
  i_dev :: u32
  i_inum :: u32
  i_ref :: int
  i_flags :: u32
  i_type :: u16
  i_major :: u16
  i_minor :: u16
  i_nlink :: u16
  i_size :: u32
  i_addrs :: "u32 list"

datatype fdtype = FD_NONE | FD_PIPE | FD_INODE

record kfile =
  f_type :: fdtype
  f_ref :: int
  f_readable :: u8
  f_writable :: u8
  f_pipe :: addr
  f_ip :: nat
  f_off :: u32

record pipe =
  pi_data :: "u8 list"
  pi_nread :: u32
  pi_nwrite :: u32
  pi_readopen :: int
  pi_writeopen :: int

record input =
  in_buf :: "u8 list"
  in_r :: u32
  in_w :: u32
  in_e :: u32

record crt =
  crt_pos :: u16
  crt_mem :: "u16 list"

text \<open>The only device with read and write functions in \<^verbatim>\<open>devsw\<close> is the console.\<close>

datatype devop = ConsoleDev

section \<open>The kernel\<close>

text \<open>
  \<open>k_end\<close> and \<open>k_data\<close> are the linker symbols \<^verbatim>\<open>end\<close> and \<^verbatim>\<open>data\<close>.
  \<open>k_disk\<close> is the content of the two IDE disks, by device and sector; \<open>k_out\<close> is
  what was sent to the serial line so far, latest first; \<open>k_crt\<close> is the cursor register
  and the text memory of the screen; \<open>k_diskerr\<close> says whether the disk reports an error.
\<close>

record kernel =
  k_cpu :: cpu
  k_locks :: "lockid \<Rightarrow> spinlock"
  k_mem :: mem
  k_freelist :: addr
  k_end :: addr
  k_data :: addr
  k_kpgdir :: addr
  k_ptable :: "proc list"
  k_initproc :: "nat option"
  k_nextpid :: int
  k_tframes :: "addr \<Rightarrow> trapframe"
  k_contexts :: "addr \<Rightarrow> kcontext"
  k_ticks :: u32
  k_bufs :: "buf list"
  k_idequeue :: "nat option"
  k_havedisk1 :: bool
  k_diskerr :: bool
  k_disk :: "u32 \<Rightarrow> u32 \<Rightarrow> u8 list"
  k_icache :: "inode list"
  k_ftable :: "kfile list"
  k_pipes :: "addr \<Rightarrow> pipe"
  k_input :: input
  k_panicked :: bool
  k_locking :: bool
  k_out :: "int list"
  k_uart :: bool
  k_crt :: crt
  k_devsw :: "nat \<Rightarrow> devop option"

type_synonym 'a K = "(kernel, 'a) prog"

section \<open>Access to table entries\<close>

definition getproc :: "nat \<Rightarrow> kernel \<Rightarrow> proc" where
  "getproc i k = k_ptable k ! i"

definition setproc :: "nat \<Rightarrow> (proc \<Rightarrow> proc) \<Rightarrow> kernel \<Rightarrow> kernel" where
  "setproc i f k = k\<lparr>k_ptable := (k_ptable k)[i := f (k_ptable k ! i)]\<rparr>"

definition setbuf :: "nat \<Rightarrow> (buf \<Rightarrow> buf) \<Rightarrow> kernel \<Rightarrow> kernel" where
  "setbuf i f k = k\<lparr>k_bufs := (k_bufs k)[i := f (k_bufs k ! i)]\<rparr>"

definition setinode :: "nat \<Rightarrow> (inode \<Rightarrow> inode) \<Rightarrow> kernel \<Rightarrow> kernel" where
  "setinode i f k = k\<lparr>k_icache := (k_icache k)[i := f (k_icache k ! i)]\<rparr>"

definition setfile :: "nat \<Rightarrow> (kfile \<Rightarrow> kfile) \<Rightarrow> kernel \<Rightarrow> kernel" where
  "setfile i f k = k\<lparr>k_ftable := (k_ftable k)[i := f (k_ftable k ! i)]\<rparr>"

definition setpipe :: "addr \<Rightarrow> (pipe \<Rightarrow> pipe) \<Rightarrow> kernel \<Rightarrow> kernel" where
  "setpipe a f k = k\<lparr>k_pipes := (k_pipes k)(a := f (k_pipes k a))\<rparr>"

definition set_tframe :: "addr \<Rightarrow> (trapframe \<Rightarrow> trapframe) \<Rightarrow> kernel \<Rightarrow> kernel" where
  "set_tframe a f k = k\<lparr>k_tframes := (k_tframes k)(a := f (k_tframes k a))\<rparr>"

definition setcpu :: "(cpu \<Rightarrow> cpu) \<Rightarrow> kernel \<Rightarrow> kernel" where
  "setcpu f k = k\<lparr>k_cpu := f (k_cpu k)\<rparr>"

text \<open>
  \<open>curproc\<close> is the per-processor variable \<^verbatim>\<open>proc\<close>; dereferencing it while it is
  null is a fault.
\<close>

definition curproc :: "nat K" where
  "curproc = (\<lambda>k. case c_proc (k_cpu k) of
      Some p \<Rightarrow> Ret p k | None \<Rightarrow> Fault ''proc is null'')"

definition curproc_get :: "(proc \<Rightarrow> 'a) \<Rightarrow> 'a K" where
  "curproc_get f = bindP curproc (\<lambda>p. reads (\<lambda>k. f (getproc p k)))"

definition curproc_set :: "(proc \<Rightarrow> proc) \<Rightarrow> unit K" where
  "curproc_set f = bindP curproc (\<lambda>p. modify (setproc p f))"

lemma curproc_Some [simp]: "c_proc (k_cpu k) = Some p \<Longrightarrow> curproc k = Ret p k"
  by (simp add: curproc_def)

lemma curproc_get_Some [simp]:
  "c_proc (k_cpu k) = Some p \<Longrightarrow> curproc_get f k = Ret (f (getproc p k)) k"
  by (simp add: curproc_get_def)

lemma curproc_set_Some [simp]:
  "c_proc (k_cpu k) = Some p \<Longrightarrow> curproc_set f k = Ret () (setproc p f k)"
  by (simp add: curproc_set_def)

lemma setproc_simps [simp]:
  "k_cpu (setproc i f k) = k_cpu k" "k_locks (setproc i f k) = k_locks k"
  "k_mem (setproc i f k) = k_mem k" "k_freelist (setproc i f k) = k_freelist k"
  "k_end (setproc i f k) = k_end k" "k_data (setproc i f k) = k_data k"
  "k_kpgdir (setproc i f k) = k_kpgdir k" "k_initproc (setproc i f k) = k_initproc k"
  "k_nextpid (setproc i f k) = k_nextpid k" "k_tframes (setproc i f k) = k_tframes k"
  "k_contexts (setproc i f k) = k_contexts k" "k_ticks (setproc i f k) = k_ticks k"
  "k_bufs (setproc i f k) = k_bufs k" "k_idequeue (setproc i f k) = k_idequeue k"
  "k_havedisk1 (setproc i f k) = k_havedisk1 k" "k_diskerr (setproc i f k) = k_diskerr k" "k_disk (setproc i f k) = k_disk k"
  "k_icache (setproc i f k) = k_icache k" "k_ftable (setproc i f k) = k_ftable k"
  "k_pipes (setproc i f k) = k_pipes k" "k_input (setproc i f k) = k_input k"
  "k_panicked (setproc i f k) = k_panicked k" "k_locking (setproc i f k) = k_locking k"
  "k_out (setproc i f k) = k_out k" "k_uart (setproc i f k) = k_uart k"
  "k_crt (setproc i f k) = k_crt k" "k_devsw (setproc i f k) = k_devsw k"
  "length (k_ptable (setproc i f k)) = length (k_ptable k)"
  by (simp_all add: setproc_def)

lemma getproc_setproc [simp]:
  "i < length (k_ptable k) \<Longrightarrow>
     getproc j (setproc i f k) = (if j = i then f (getproc i k) else getproc j k)"
  by (auto simp: getproc_def setproc_def nth_list_update)

lemma setbuf_simps [simp]:
  "k_cpu (setbuf i f k) = k_cpu k" "k_locks (setbuf i f k) = k_locks k"
  "k_mem (setbuf i f k) = k_mem k" "k_freelist (setbuf i f k) = k_freelist k"
  "k_end (setbuf i f k) = k_end k" "k_data (setbuf i f k) = k_data k"
  "k_kpgdir (setbuf i f k) = k_kpgdir k" "k_ptable (setbuf i f k) = k_ptable k"
  "k_initproc (setbuf i f k) = k_initproc k" "k_nextpid (setbuf i f k) = k_nextpid k"
  "k_tframes (setbuf i f k) = k_tframes k" "k_contexts (setbuf i f k) = k_contexts k"
  "k_ticks (setbuf i f k) = k_ticks k" "k_idequeue (setbuf i f k) = k_idequeue k"
  "k_havedisk1 (setbuf i f k) = k_havedisk1 k" "k_diskerr (setbuf i f k) = k_diskerr k" "k_disk (setbuf i f k) = k_disk k"
  "k_icache (setbuf i f k) = k_icache k" "k_ftable (setbuf i f k) = k_ftable k"
  "k_pipes (setbuf i f k) = k_pipes k" "k_input (setbuf i f k) = k_input k"
  "k_panicked (setbuf i f k) = k_panicked k" "k_locking (setbuf i f k) = k_locking k"
  "k_out (setbuf i f k) = k_out k" "k_uart (setbuf i f k) = k_uart k"
  "k_crt (setbuf i f k) = k_crt k" "k_devsw (setbuf i f k) = k_devsw k"
  "length (k_bufs (setbuf i f k)) = length (k_bufs k)"
  by (simp_all add: setbuf_def)

lemma setinode_simps [simp]:
  "k_cpu (setinode i f k) = k_cpu k" "k_locks (setinode i f k) = k_locks k"
  "k_mem (setinode i f k) = k_mem k" "k_freelist (setinode i f k) = k_freelist k"
  "k_end (setinode i f k) = k_end k" "k_data (setinode i f k) = k_data k"
  "k_kpgdir (setinode i f k) = k_kpgdir k" "k_ptable (setinode i f k) = k_ptable k"
  "k_initproc (setinode i f k) = k_initproc k" "k_nextpid (setinode i f k) = k_nextpid k"
  "k_tframes (setinode i f k) = k_tframes k" "k_contexts (setinode i f k) = k_contexts k"
  "k_ticks (setinode i f k) = k_ticks k" "k_bufs (setinode i f k) = k_bufs k"
  "k_idequeue (setinode i f k) = k_idequeue k" "k_havedisk1 (setinode i f k) = k_havedisk1 k" "k_diskerr (setinode i f k) = k_diskerr k"
  "k_disk (setinode i f k) = k_disk k" "k_ftable (setinode i f k) = k_ftable k"
  "k_pipes (setinode i f k) = k_pipes k" "k_input (setinode i f k) = k_input k"
  "k_panicked (setinode i f k) = k_panicked k" "k_locking (setinode i f k) = k_locking k"
  "k_out (setinode i f k) = k_out k" "k_uart (setinode i f k) = k_uart k"
  "k_crt (setinode i f k) = k_crt k" "k_devsw (setinode i f k) = k_devsw k"
  "length (k_icache (setinode i f k)) = length (k_icache k)"
  by (simp_all add: setinode_def)

lemma setfile_simps [simp]:
  "k_cpu (setfile i f k) = k_cpu k" "k_locks (setfile i f k) = k_locks k"
  "k_mem (setfile i f k) = k_mem k" "k_freelist (setfile i f k) = k_freelist k"
  "k_end (setfile i f k) = k_end k" "k_data (setfile i f k) = k_data k"
  "k_kpgdir (setfile i f k) = k_kpgdir k" "k_ptable (setfile i f k) = k_ptable k"
  "k_initproc (setfile i f k) = k_initproc k" "k_nextpid (setfile i f k) = k_nextpid k"
  "k_tframes (setfile i f k) = k_tframes k" "k_contexts (setfile i f k) = k_contexts k"
  "k_ticks (setfile i f k) = k_ticks k" "k_bufs (setfile i f k) = k_bufs k"
  "k_idequeue (setfile i f k) = k_idequeue k" "k_havedisk1 (setfile i f k) = k_havedisk1 k" "k_diskerr (setfile i f k) = k_diskerr k"
  "k_disk (setfile i f k) = k_disk k" "k_icache (setfile i f k) = k_icache k"
  "k_pipes (setfile i f k) = k_pipes k" "k_input (setfile i f k) = k_input k"
  "k_panicked (setfile i f k) = k_panicked k" "k_locking (setfile i f k) = k_locking k"
  "k_out (setfile i f k) = k_out k" "k_uart (setfile i f k) = k_uart k"
  "k_crt (setfile i f k) = k_crt k" "k_devsw (setfile i f k) = k_devsw k"
  "length (k_ftable (setfile i f k)) = length (k_ftable k)"
  by (simp_all add: setfile_def)

lemma setpipe_simps [simp]:
  "k_cpu (setpipe i f k) = k_cpu k" "k_locks (setpipe i f k) = k_locks k"
  "k_mem (setpipe i f k) = k_mem k" "k_freelist (setpipe i f k) = k_freelist k"
  "k_end (setpipe i f k) = k_end k" "k_data (setpipe i f k) = k_data k"
  "k_kpgdir (setpipe i f k) = k_kpgdir k" "k_ptable (setpipe i f k) = k_ptable k"
  "k_initproc (setpipe i f k) = k_initproc k" "k_nextpid (setpipe i f k) = k_nextpid k"
  "k_tframes (setpipe i f k) = k_tframes k" "k_contexts (setpipe i f k) = k_contexts k"
  "k_ticks (setpipe i f k) = k_ticks k" "k_bufs (setpipe i f k) = k_bufs k"
  "k_idequeue (setpipe i f k) = k_idequeue k" "k_havedisk1 (setpipe i f k) = k_havedisk1 k" "k_diskerr (setpipe i f k) = k_diskerr k"
  "k_disk (setpipe i f k) = k_disk k" "k_icache (setpipe i f k) = k_icache k"
  "k_ftable (setpipe i f k) = k_ftable k" "k_input (setpipe i f k) = k_input k"
  "k_panicked (setpipe i f k) = k_panicked k" "k_locking (setpipe i f k) = k_locking k"
  "k_out (setpipe i f k) = k_out k" "k_uart (setpipe i f k) = k_uart k"
  "k_crt (setpipe i f k) = k_crt k" "k_devsw (setpipe i f k) = k_devsw k"
  "k_pipes (setpipe i f k) = (k_pipes k)(i := f (k_pipes k i))"
  by (simp_all add: setpipe_def)

lemma set_tframe_simps [simp]:
  "k_cpu (set_tframe i f k) = k_cpu k" "k_locks (set_tframe i f k) = k_locks k"
  "k_mem (set_tframe i f k) = k_mem k" "k_freelist (set_tframe i f k) = k_freelist k"
  "k_end (set_tframe i f k) = k_end k" "k_data (set_tframe i f k) = k_data k"
  "k_kpgdir (set_tframe i f k) = k_kpgdir k" "k_ptable (set_tframe i f k) = k_ptable k"
  "k_initproc (set_tframe i f k) = k_initproc k" "k_nextpid (set_tframe i f k) = k_nextpid k"
  "k_contexts (set_tframe i f k) = k_contexts k" "k_ticks (set_tframe i f k) = k_ticks k"
  "k_bufs (set_tframe i f k) = k_bufs k" "k_idequeue (set_tframe i f k) = k_idequeue k"
  "k_havedisk1 (set_tframe i f k) = k_havedisk1 k" "k_diskerr (set_tframe i f k) = k_diskerr k" "k_disk (set_tframe i f k) = k_disk k"
  "k_icache (set_tframe i f k) = k_icache k" "k_ftable (set_tframe i f k) = k_ftable k"
  "k_pipes (set_tframe i f k) = k_pipes k" "k_input (set_tframe i f k) = k_input k"
  "k_panicked (set_tframe i f k) = k_panicked k" "k_locking (set_tframe i f k) = k_locking k"
  "k_out (set_tframe i f k) = k_out k" "k_uart (set_tframe i f k) = k_uart k"
  "k_crt (set_tframe i f k) = k_crt k" "k_devsw (set_tframe i f k) = k_devsw k"
  "k_tframes (set_tframe i f k) = (k_tframes k)(i := f (k_tframes k i))"
  by (simp_all add: set_tframe_def)

lemma getbuf_setbuf [simp]:
  "i < length (k_bufs k) \<Longrightarrow> k_bufs (setbuf i f k) ! j = (if j = i then f (k_bufs k ! i) else k_bufs k ! j)"
  by (auto simp: setbuf_def nth_list_update)

lemma getinode_setinode [simp]:
  "i < length (k_icache k) \<Longrightarrow> k_icache (setinode i f k) ! j = (if j = i then f (k_icache k ! i) else k_icache k ! j)"
  by (auto simp: setinode_def nth_list_update)

lemma getfile_setfile [simp]:
  "i < length (k_ftable k) \<Longrightarrow> k_ftable (setfile i f k) ! j = (if j = i then f (k_ftable k ! i) else k_ftable k ! j)"
  by (auto simp: setfile_def nth_list_update)

end
