(* ===== verification/Spinlock.thy ===== *)
theory Spinlock
  imports Kernel_State
begin

text \<open>
  Spin locks and interrupt masking (\<^verbatim>\<open>kernel/spinlock.c\<close>). The state is that of one
  processor \<open>k_cpu\<close>; a lock held by another processor shows in the processor number the
  lock records.
\<close>

section \<open>Operations\<close>

definition free_lock :: spinlock where
  "free_lock = \<lparr>sl_locked = 0, sl_cpu = None\<rparr>"

definition setlock :: "lockid \<Rightarrow> spinlock \<Rightarrow> kernel \<Rightarrow> kernel" where
  "setlock lk l k = k\<lparr>k_locks := (k_locks k)(lk := l)\<rparr>"

definition initlock :: "lockid \<Rightarrow> unit K" where
  "initlock lk = modify (setlock lk \<lparr>sl_locked = 0, sl_cpu = None\<rparr>)"

definition cli :: "unit K" where
  "cli = modify (setcpu (\<lambda>c. c\<lparr>c_IF := False\<rparr>))"

definition sti :: "unit K" where
  "sti = modify (setcpu (\<lambda>c. c\<lparr>c_IF := True\<rparr>))"

definition xchg_locked :: "lockid \<Rightarrow> u32 \<Rightarrow> u32 K" where
  "xchg_locked lk newval = bindP (reads (\<lambda>k. sl_locked (k_locks k lk))) (\<lambda>result.
     thenP (modify (\<lambda>k. setlock lk ((k_locks k lk)\<lparr>sl_locked := newval\<rparr>) k)) (ret result))"

definition holding :: "lockid \<Rightarrow> kernel \<Rightarrow> bool" where
  "holding lk k \<longleftrightarrow> sl_locked (k_locks k lk) \<noteq> 0 \<and> sl_cpu (k_locks k lk) = Some (c_id (k_cpu k))"

definition pushcli :: "unit K" where
  "pushcli = bindP (reads (\<lambda>k. c_IF (k_cpu k))) (\<lambda>eflags.
     thenP cli
    (bindP (reads (\<lambda>k. c_ncli (k_cpu k))) (\<lambda>n.
     thenP (modify (setcpu (\<lambda>c. c\<lparr>c_ncli := n + 1\<rparr>)))
    (whenP (n = 0) (modify (setcpu (\<lambda>c. c\<lparr>c_intena := eflags\<rparr>)))))))"

definition popcli :: "unit K" where
  "popcli = bindP (reads (\<lambda>k. c_IF (k_cpu k))) (\<lambda>eflags.
     if eflags then panic ''popcli - interruptible'' else
     thenP (modify (setcpu (\<lambda>c. c\<lparr>c_ncli := c_ncli c - 1\<rparr>)))
    (bindP (reads k_cpu) (\<lambda>c.
     if c_ncli c < 0 then panic ''popcli'' else
     whenP (c_ncli c = 0 \<and> c_intena c) sti)))"

definition acquire :: "lockid \<Rightarrow> unit K" where
  "acquire lk = thenP pushcli
    (bindP (reads (holding lk)) (\<lambda>h.
     if h then panic ''acquire'' else
     bindP (xchg_locked lk 1) (\<lambda>old.
     if old \<noteq> 0 then spin else
     modify (\<lambda>k. setlock lk ((k_locks k lk)\<lparr>sl_cpu := Some (c_id (k_cpu k))\<rparr>) k))))"

definition release :: "lockid \<Rightarrow> unit K" where
  "release lk = bindP (reads (holding lk)) (\<lambda>h.
     if \<not> h then panic ''release'' else
     thenP (modify (\<lambda>k. setlock lk ((k_locks k lk)\<lparr>sl_cpu := None\<rparr>) k))
    (bindP (xchg_locked lk 0) (\<lambda>_. popcli)))"

section \<open>The states before and after a critical section\<close>

text \<open>
  \<open>enter lk k\<close> is the state in which a successful \<open>acquire\<close> returns, \<open>leave lk k\<close>
  the one in which \<open>release\<close> returns. An acquire/release pair at nesting depth zero
  leaves a trace in \<^verbatim>\<open>cpu->intena\<close>: \<open>touch k\<close>.
\<close>

definition push_cpu :: "cpu \<Rightarrow> cpu" where
  "push_cpu c = c\<lparr>c_IF := False, c_ncli := c_ncli c + 1,
     c_intena := (if c_ncli c = 0 then c_IF c else c_intena c)\<rparr>"

definition pop_cpu :: "cpu \<Rightarrow> cpu" where
  "pop_cpu c = c\<lparr>c_ncli := c_ncli c - 1, c_IF := (c_ncli c = 1 \<and> c_intena c)\<rparr>"

definition enter :: "lockid \<Rightarrow> kernel \<Rightarrow> kernel" where
  "enter lk k = k\<lparr>k_cpu := push_cpu (k_cpu k),
     k_locks := (k_locks k)(lk := \<lparr>sl_locked = 1, sl_cpu = Some (c_id (k_cpu k))\<rparr>)\<rparr>"

definition leave :: "lockid \<Rightarrow> kernel \<Rightarrow> kernel" where
  "leave lk k = k\<lparr>k_cpu := pop_cpu (k_cpu k), k_locks := (k_locks k)(lk := free_lock)\<rparr>"

definition touch :: "kernel \<Rightarrow> kernel" where
  "touch k = k\<lparr>k_cpu := (k_cpu k)\<lparr>c_intena :=
     (if c_ncli (k_cpu k) = 0 then c_IF (k_cpu k) else c_intena (k_cpu k))\<rparr>\<rparr>"

abbreviation unlocked :: "lockid \<Rightarrow> kernel \<Rightarrow> bool" where
  "unlocked lk k \<equiv> k_locks k lk = free_lock"

text \<open>
  \<open>cli_ok\<close>: the nesting depth is not negative, and interrupts are off whenever it is
  positive. Every acquire and release keeps it.
\<close>

definition cli_ok :: "kernel \<Rightarrow> bool" where
  "cli_ok k \<longleftrightarrow> 0 \<le> c_ncli (k_cpu k) \<and> (0 < c_ncli (k_cpu k) \<longrightarrow> \<not> c_IF (k_cpu k))"

lemma push_cpu_simps [simp]:
  "c_id (push_cpu c) = c_id c" "c_ncli (push_cpu c) = c_ncli c + 1"
  "c_IF (push_cpu c) = False" "c_proc (push_cpu c) = c_proc c"
  "c_esp0 (push_cpu c) = c_esp0 c" "c_cr3 (push_cpu c) = c_cr3 c"
  "c_intena (push_cpu c) = (if c_ncli c = 0 then c_IF c else c_intena c)"
  by (simp_all add: push_cpu_def)

lemma pop_cpu_simps [simp]:
  "c_id (pop_cpu c) = c_id c" "c_ncli (pop_cpu c) = c_ncli c - 1"
  "c_IF (pop_cpu c) = (c_ncli c = 1 \<and> c_intena c)" "c_proc (pop_cpu c) = c_proc c"
  "c_esp0 (pop_cpu c) = c_esp0 c" "c_cr3 (pop_cpu c) = c_cr3 c"
  "c_intena (pop_cpu c) = c_intena c"
  by (simp_all add: pop_cpu_def)

lemma enter_sel [simp]:
  "k_mem (enter lk k) = k_mem k"
  "k_freelist (enter lk k) = k_freelist k"
  "k_end (enter lk k) = k_end k"
  "k_data (enter lk k) = k_data k"
  "k_kpgdir (enter lk k) = k_kpgdir k"
  "k_ptable (enter lk k) = k_ptable k"
  "k_initproc (enter lk k) = k_initproc k"
  "k_nextpid (enter lk k) = k_nextpid k"
  "k_tframes (enter lk k) = k_tframes k"
  "k_contexts (enter lk k) = k_contexts k"
  "k_ticks (enter lk k) = k_ticks k"
  "k_bufs (enter lk k) = k_bufs k"
  "k_idequeue (enter lk k) = k_idequeue k"
  "k_havedisk1 (enter lk k) = k_havedisk1 k"
  "k_diskerr (enter lk k) = k_diskerr k"
  "k_disk (enter lk k) = k_disk k"
  "k_icache (enter lk k) = k_icache k"
  "k_ftable (enter lk k) = k_ftable k"
  "k_pipes (enter lk k) = k_pipes k"
  "k_input (enter lk k) = k_input k"
  "k_panicked (enter lk k) = k_panicked k"
  "k_locking (enter lk k) = k_locking k"
  "k_out (enter lk k) = k_out k"
  "k_uart (enter lk k) = k_uart k"
  "k_crt (enter lk k) = k_crt k"
  "k_devsw (enter lk k) = k_devsw k"
  "k_cpu (enter lk k) = push_cpu (k_cpu k)"
  "k_locks (enter lk k) = (k_locks k)(lk := \<lparr>sl_locked = 1, sl_cpu = Some (c_id (k_cpu k))\<rparr>)"
  by (simp_all add: enter_def)

lemma leave_sel [simp]:
  "k_mem (leave lk k) = k_mem k"
  "k_freelist (leave lk k) = k_freelist k"
  "k_end (leave lk k) = k_end k"
  "k_data (leave lk k) = k_data k"
  "k_kpgdir (leave lk k) = k_kpgdir k"
  "k_ptable (leave lk k) = k_ptable k"
  "k_initproc (leave lk k) = k_initproc k"
  "k_nextpid (leave lk k) = k_nextpid k"
  "k_tframes (leave lk k) = k_tframes k"
  "k_contexts (leave lk k) = k_contexts k"
  "k_ticks (leave lk k) = k_ticks k"
  "k_bufs (leave lk k) = k_bufs k"
  "k_idequeue (leave lk k) = k_idequeue k"
  "k_havedisk1 (leave lk k) = k_havedisk1 k"
  "k_diskerr (leave lk k) = k_diskerr k"
  "k_disk (leave lk k) = k_disk k"
  "k_icache (leave lk k) = k_icache k"
  "k_ftable (leave lk k) = k_ftable k"
  "k_pipes (leave lk k) = k_pipes k"
  "k_input (leave lk k) = k_input k"
  "k_panicked (leave lk k) = k_panicked k"
  "k_locking (leave lk k) = k_locking k"
  "k_out (leave lk k) = k_out k"
  "k_uart (leave lk k) = k_uart k"
  "k_crt (leave lk k) = k_crt k"
  "k_devsw (leave lk k) = k_devsw k"
  "k_cpu (leave lk k) = pop_cpu (k_cpu k)"
  "k_locks (leave lk k) = (k_locks k)(lk := free_lock)"
  by (simp_all add: leave_def)

lemma touch_sel [simp]:
  "k_mem (touch k) = k_mem k"
  "k_freelist (touch k) = k_freelist k"
  "k_end (touch k) = k_end k"
  "k_data (touch k) = k_data k"
  "k_kpgdir (touch k) = k_kpgdir k"
  "k_ptable (touch k) = k_ptable k"
  "k_initproc (touch k) = k_initproc k"
  "k_nextpid (touch k) = k_nextpid k"
  "k_tframes (touch k) = k_tframes k"
  "k_contexts (touch k) = k_contexts k"
  "k_ticks (touch k) = k_ticks k"
  "k_bufs (touch k) = k_bufs k"
  "k_idequeue (touch k) = k_idequeue k"
  "k_havedisk1 (touch k) = k_havedisk1 k"
  "k_diskerr (touch k) = k_diskerr k"
  "k_disk (touch k) = k_disk k"
  "k_icache (touch k) = k_icache k"
  "k_ftable (touch k) = k_ftable k"
  "k_pipes (touch k) = k_pipes k"
  "k_input (touch k) = k_input k"
  "k_panicked (touch k) = k_panicked k"
  "k_locking (touch k) = k_locking k"
  "k_out (touch k) = k_out k"
  "k_uart (touch k) = k_uart k"
  "k_crt (touch k) = k_crt k"
  "k_devsw (touch k) = k_devsw k"
  "k_locks (touch k) = k_locks k"
  "c_id (k_cpu (touch k)) = c_id (k_cpu k)" "c_ncli (k_cpu (touch k)) = c_ncli (k_cpu k)"
  "c_IF (k_cpu (touch k)) = c_IF (k_cpu k)" "c_proc (k_cpu (touch k)) = c_proc (k_cpu k)"
  "c_esp0 (k_cpu (touch k)) = c_esp0 (k_cpu k)" "c_cr3 (k_cpu (touch k)) = c_cr3 (k_cpu k)"
  "c_intena (k_cpu (touch k)) =
     (if c_ncli (k_cpu k) = 0 then c_IF (k_cpu k) else c_intena (k_cpu k))"
  by (simp_all add: touch_def)

lemma enter_upd [simp]:
  "enter lk (k\<lparr>k_mem := v0\<rparr>) = (enter lk k)\<lparr>k_mem := v0\<rparr>"
  "enter lk (k\<lparr>k_freelist := v1\<rparr>) = (enter lk k)\<lparr>k_freelist := v1\<rparr>"
  "enter lk (k\<lparr>k_end := v2\<rparr>) = (enter lk k)\<lparr>k_end := v2\<rparr>"
  "enter lk (k\<lparr>k_data := v3\<rparr>) = (enter lk k)\<lparr>k_data := v3\<rparr>"
  "enter lk (k\<lparr>k_kpgdir := v4\<rparr>) = (enter lk k)\<lparr>k_kpgdir := v4\<rparr>"
  "enter lk (k\<lparr>k_ptable := v5\<rparr>) = (enter lk k)\<lparr>k_ptable := v5\<rparr>"
  "enter lk (k\<lparr>k_initproc := v6\<rparr>) = (enter lk k)\<lparr>k_initproc := v6\<rparr>"
  "enter lk (k\<lparr>k_nextpid := v7\<rparr>) = (enter lk k)\<lparr>k_nextpid := v7\<rparr>"
  "enter lk (k\<lparr>k_tframes := v8\<rparr>) = (enter lk k)\<lparr>k_tframes := v8\<rparr>"
  "enter lk (k\<lparr>k_contexts := v9\<rparr>) = (enter lk k)\<lparr>k_contexts := v9\<rparr>"
  "enter lk (k\<lparr>k_ticks := v10\<rparr>) = (enter lk k)\<lparr>k_ticks := v10\<rparr>"
  "enter lk (k\<lparr>k_bufs := v11\<rparr>) = (enter lk k)\<lparr>k_bufs := v11\<rparr>"
  "enter lk (k\<lparr>k_idequeue := v12\<rparr>) = (enter lk k)\<lparr>k_idequeue := v12\<rparr>"
  "enter lk (k\<lparr>k_havedisk1 := v13\<rparr>) = (enter lk k)\<lparr>k_havedisk1 := v13\<rparr>"
  "enter lk (k\<lparr>k_disk := v14\<rparr>) = (enter lk k)\<lparr>k_disk := v14\<rparr>"
  "enter lk (k\<lparr>k_icache := v15\<rparr>) = (enter lk k)\<lparr>k_icache := v15\<rparr>"
  "enter lk (k\<lparr>k_ftable := v16\<rparr>) = (enter lk k)\<lparr>k_ftable := v16\<rparr>"
  "enter lk (k\<lparr>k_pipes := v17\<rparr>) = (enter lk k)\<lparr>k_pipes := v17\<rparr>"
  "enter lk (k\<lparr>k_input := v18\<rparr>) = (enter lk k)\<lparr>k_input := v18\<rparr>"
  "enter lk (k\<lparr>k_panicked := v19\<rparr>) = (enter lk k)\<lparr>k_panicked := v19\<rparr>"
  "enter lk (k\<lparr>k_locking := v20\<rparr>) = (enter lk k)\<lparr>k_locking := v20\<rparr>"
  "enter lk (k\<lparr>k_out := v21\<rparr>) = (enter lk k)\<lparr>k_out := v21\<rparr>"
  "enter lk (k\<lparr>k_diskerr := v25\<rparr>) = (enter lk k)\<lparr>k_diskerr := v25\<rparr>"
  "enter lk (k\<lparr>k_uart := v22\<rparr>) = (enter lk k)\<lparr>k_uart := v22\<rparr>"
  "enter lk (k\<lparr>k_crt := v23\<rparr>) = (enter lk k)\<lparr>k_crt := v23\<rparr>"
  "enter lk (k\<lparr>k_devsw := v24\<rparr>) = (enter lk k)\<lparr>k_devsw := v24\<rparr>"
  by (simp_all add: enter_def)

lemma leave_upd [simp]:
  "leave lk (k\<lparr>k_mem := v0\<rparr>) = (leave lk k)\<lparr>k_mem := v0\<rparr>"
  "leave lk (k\<lparr>k_freelist := v1\<rparr>) = (leave lk k)\<lparr>k_freelist := v1\<rparr>"
  "leave lk (k\<lparr>k_end := v2\<rparr>) = (leave lk k)\<lparr>k_end := v2\<rparr>"
  "leave lk (k\<lparr>k_data := v3\<rparr>) = (leave lk k)\<lparr>k_data := v3\<rparr>"
  "leave lk (k\<lparr>k_kpgdir := v4\<rparr>) = (leave lk k)\<lparr>k_kpgdir := v4\<rparr>"
  "leave lk (k\<lparr>k_ptable := v5\<rparr>) = (leave lk k)\<lparr>k_ptable := v5\<rparr>"
  "leave lk (k\<lparr>k_initproc := v6\<rparr>) = (leave lk k)\<lparr>k_initproc := v6\<rparr>"
  "leave lk (k\<lparr>k_nextpid := v7\<rparr>) = (leave lk k)\<lparr>k_nextpid := v7\<rparr>"
  "leave lk (k\<lparr>k_tframes := v8\<rparr>) = (leave lk k)\<lparr>k_tframes := v8\<rparr>"
  "leave lk (k\<lparr>k_contexts := v9\<rparr>) = (leave lk k)\<lparr>k_contexts := v9\<rparr>"
  "leave lk (k\<lparr>k_ticks := v10\<rparr>) = (leave lk k)\<lparr>k_ticks := v10\<rparr>"
  "leave lk (k\<lparr>k_bufs := v11\<rparr>) = (leave lk k)\<lparr>k_bufs := v11\<rparr>"
  "leave lk (k\<lparr>k_idequeue := v12\<rparr>) = (leave lk k)\<lparr>k_idequeue := v12\<rparr>"
  "leave lk (k\<lparr>k_havedisk1 := v13\<rparr>) = (leave lk k)\<lparr>k_havedisk1 := v13\<rparr>"
  "leave lk (k\<lparr>k_disk := v14\<rparr>) = (leave lk k)\<lparr>k_disk := v14\<rparr>"
  "leave lk (k\<lparr>k_icache := v15\<rparr>) = (leave lk k)\<lparr>k_icache := v15\<rparr>"
  "leave lk (k\<lparr>k_ftable := v16\<rparr>) = (leave lk k)\<lparr>k_ftable := v16\<rparr>"
  "leave lk (k\<lparr>k_pipes := v17\<rparr>) = (leave lk k)\<lparr>k_pipes := v17\<rparr>"
  "leave lk (k\<lparr>k_input := v18\<rparr>) = (leave lk k)\<lparr>k_input := v18\<rparr>"
  "leave lk (k\<lparr>k_panicked := v19\<rparr>) = (leave lk k)\<lparr>k_panicked := v19\<rparr>"
  "leave lk (k\<lparr>k_locking := v20\<rparr>) = (leave lk k)\<lparr>k_locking := v20\<rparr>"
  "leave lk (k\<lparr>k_out := v21\<rparr>) = (leave lk k)\<lparr>k_out := v21\<rparr>"
  "leave lk (k\<lparr>k_diskerr := v25\<rparr>) = (leave lk k)\<lparr>k_diskerr := v25\<rparr>"
  "leave lk (k\<lparr>k_uart := v22\<rparr>) = (leave lk k)\<lparr>k_uart := v22\<rparr>"
  "leave lk (k\<lparr>k_crt := v23\<rparr>) = (leave lk k)\<lparr>k_crt := v23\<rparr>"
  "leave lk (k\<lparr>k_devsw := v24\<rparr>) = (leave lk k)\<lparr>k_devsw := v24\<rparr>"
  by (simp_all add: leave_def)

lemma touch_upd [simp]:
  "touch (k\<lparr>k_mem := v0\<rparr>) = (touch k)\<lparr>k_mem := v0\<rparr>"
  "touch (k\<lparr>k_freelist := v1\<rparr>) = (touch k)\<lparr>k_freelist := v1\<rparr>"
  "touch (k\<lparr>k_end := v2\<rparr>) = (touch k)\<lparr>k_end := v2\<rparr>"
  "touch (k\<lparr>k_data := v3\<rparr>) = (touch k)\<lparr>k_data := v3\<rparr>"
  "touch (k\<lparr>k_kpgdir := v4\<rparr>) = (touch k)\<lparr>k_kpgdir := v4\<rparr>"
  "touch (k\<lparr>k_ptable := v5\<rparr>) = (touch k)\<lparr>k_ptable := v5\<rparr>"
  "touch (k\<lparr>k_initproc := v6\<rparr>) = (touch k)\<lparr>k_initproc := v6\<rparr>"
  "touch (k\<lparr>k_nextpid := v7\<rparr>) = (touch k)\<lparr>k_nextpid := v7\<rparr>"
  "touch (k\<lparr>k_tframes := v8\<rparr>) = (touch k)\<lparr>k_tframes := v8\<rparr>"
  "touch (k\<lparr>k_contexts := v9\<rparr>) = (touch k)\<lparr>k_contexts := v9\<rparr>"
  "touch (k\<lparr>k_ticks := v10\<rparr>) = (touch k)\<lparr>k_ticks := v10\<rparr>"
  "touch (k\<lparr>k_bufs := v11\<rparr>) = (touch k)\<lparr>k_bufs := v11\<rparr>"
  "touch (k\<lparr>k_idequeue := v12\<rparr>) = (touch k)\<lparr>k_idequeue := v12\<rparr>"
  "touch (k\<lparr>k_havedisk1 := v13\<rparr>) = (touch k)\<lparr>k_havedisk1 := v13\<rparr>"
  "touch (k\<lparr>k_disk := v14\<rparr>) = (touch k)\<lparr>k_disk := v14\<rparr>"
  "touch (k\<lparr>k_icache := v15\<rparr>) = (touch k)\<lparr>k_icache := v15\<rparr>"
  "touch (k\<lparr>k_ftable := v16\<rparr>) = (touch k)\<lparr>k_ftable := v16\<rparr>"
  "touch (k\<lparr>k_pipes := v17\<rparr>) = (touch k)\<lparr>k_pipes := v17\<rparr>"
  "touch (k\<lparr>k_input := v18\<rparr>) = (touch k)\<lparr>k_input := v18\<rparr>"
  "touch (k\<lparr>k_panicked := v19\<rparr>) = (touch k)\<lparr>k_panicked := v19\<rparr>"
  "touch (k\<lparr>k_locking := v20\<rparr>) = (touch k)\<lparr>k_locking := v20\<rparr>"
  "touch (k\<lparr>k_out := v21\<rparr>) = (touch k)\<lparr>k_out := v21\<rparr>"
  "touch (k\<lparr>k_diskerr := v25\<rparr>) = (touch k)\<lparr>k_diskerr := v25\<rparr>"
  "touch (k\<lparr>k_uart := v22\<rparr>) = (touch k)\<lparr>k_uart := v22\<rparr>"
  "touch (k\<lparr>k_crt := v23\<rparr>) = (touch k)\<lparr>k_crt := v23\<rparr>"
  "touch (k\<lparr>k_devsw := v24\<rparr>) = (touch k)\<lparr>k_devsw := v24\<rparr>"
  by (simp_all add: touch_def)

lemma enter_set [simp]:
  "enter lk (setproc i f k) = setproc i f (enter lk k)"
  "enter lk (setbuf i g k) = setbuf i g (enter lk k)"
  "enter lk (setinode i h k) = setinode i h (enter lk k)"
  "enter lk (setfile i u k) = setfile i u (enter lk k)"
  "enter lk (setpipe a w k) = setpipe a w (enter lk k)"
  "enter lk (set_tframe a t k) = set_tframe a t (enter lk k)"
  by (simp_all add: setproc_def setbuf_def setinode_def setfile_def setpipe_def set_tframe_def)

lemma leave_set [simp]:
  "leave lk (setproc i f k) = setproc i f (leave lk k)"
  "leave lk (setbuf i g k) = setbuf i g (leave lk k)"
  "leave lk (setinode i h k) = setinode i h (leave lk k)"
  "leave lk (setfile i u k) = setfile i u (leave lk k)"
  "leave lk (setpipe a w k) = setpipe a w (leave lk k)"
  "leave lk (set_tframe a t k) = set_tframe a t (leave lk k)"
  by (simp_all add: setproc_def setbuf_def setinode_def setfile_def setpipe_def set_tframe_def)

lemma touch_set [simp]:
  "touch (setproc i f k) = setproc i f (touch k)"
  "touch (setbuf i g k) = setbuf i g (touch k)"
  "touch (setinode i h k) = setinode i h (touch k)"
  "touch (setfile i u k) = setfile i u (touch k)"
  "touch (setpipe a w k) = setpipe a w (touch k)"
  "touch (set_tframe a t k) = set_tframe a t (touch k)"
  by (simp_all add: setproc_def setbuf_def setinode_def setfile_def setpipe_def set_tframe_def)

lemma touch_touch [simp]: "touch (touch k) = touch k"
  by (simp add: touch_def)

lemma touch_id: "c_ncli (k_cpu k) \<noteq> 0 \<Longrightarrow> touch k = k"
  by (simp add: touch_def)

lemma enter_touch [simp]: "enter lk (touch k) = enter lk k"
  by (simp add: enter_def touch_def push_cpu_def)

lemma touch_enter [simp]: "cli_ok k \<Longrightarrow> touch (enter lk k) = enter lk k"
  by (rule touch_id) (simp add: cli_ok_def)

lemma leave_enter [simp]:
  "unlocked lk k \<Longrightarrow> cli_ok k \<Longrightarrow> leave lk (enter lk k) = touch k"
  by (auto simp: leave_def enter_def touch_def push_cpu_def pop_cpu_def cli_ok_def fun_upd_idem)

lemma cli_ok_enter [simp]: "cli_ok k \<Longrightarrow> cli_ok (enter lk k)"
  by (simp add: cli_ok_def)

lemma cli_ok_touch [simp]: "cli_ok (touch k) = cli_ok k"
  by (simp add: cli_ok_def)

lemma cli_ok_cong: "k_cpu k = k_cpu k' \<Longrightarrow> cli_ok k = cli_ok k'"
  by (simp add: cli_ok_def)

lemma cli_ok_upd [simp]:
  "cli_ok (k\<lparr>k_mem := v0\<rparr>) = cli_ok k"
  "cli_ok (k\<lparr>k_freelist := v1\<rparr>) = cli_ok k"
  "cli_ok (k\<lparr>k_end := v2\<rparr>) = cli_ok k"
  "cli_ok (k\<lparr>k_data := v3\<rparr>) = cli_ok k"
  "cli_ok (k\<lparr>k_kpgdir := v4\<rparr>) = cli_ok k"
  "cli_ok (k\<lparr>k_ptable := v5\<rparr>) = cli_ok k"
  "cli_ok (k\<lparr>k_initproc := v6\<rparr>) = cli_ok k"
  "cli_ok (k\<lparr>k_nextpid := v7\<rparr>) = cli_ok k"
  "cli_ok (k\<lparr>k_tframes := v8\<rparr>) = cli_ok k"
  "cli_ok (k\<lparr>k_contexts := v9\<rparr>) = cli_ok k"
  "cli_ok (k\<lparr>k_ticks := v10\<rparr>) = cli_ok k"
  "cli_ok (k\<lparr>k_bufs := v11\<rparr>) = cli_ok k"
  "cli_ok (k\<lparr>k_idequeue := v12\<rparr>) = cli_ok k"
  "cli_ok (k\<lparr>k_havedisk1 := v13\<rparr>) = cli_ok k"
  "cli_ok (k\<lparr>k_disk := v14\<rparr>) = cli_ok k"
  "cli_ok (k\<lparr>k_icache := v15\<rparr>) = cli_ok k"
  "cli_ok (k\<lparr>k_ftable := v16\<rparr>) = cli_ok k"
  "cli_ok (k\<lparr>k_pipes := v17\<rparr>) = cli_ok k"
  "cli_ok (k\<lparr>k_input := v18\<rparr>) = cli_ok k"
  "cli_ok (k\<lparr>k_panicked := v19\<rparr>) = cli_ok k"
  "cli_ok (k\<lparr>k_locking := v20\<rparr>) = cli_ok k"
  "cli_ok (k\<lparr>k_out := v21\<rparr>) = cli_ok k"
  "cli_ok (k\<lparr>k_diskerr := v25\<rparr>) = cli_ok k"
  "cli_ok (k\<lparr>k_uart := v22\<rparr>) = cli_ok k"
  "cli_ok (k\<lparr>k_crt := v23\<rparr>) = cli_ok k"
  "cli_ok (k\<lparr>k_devsw := v24\<rparr>) = cli_ok k"
  "cli_ok (setproc i f k) = cli_ok k" "cli_ok (setbuf i g k) = cli_ok k"
  "cli_ok (setinode i h k) = cli_ok k" "cli_ok (setfile i u k) = cli_ok k"
  "cli_ok (setpipe a w k) = cli_ok k" "cli_ok (set_tframe a t k) = cli_ok k"
  by (simp_all add: cli_ok_def setbuf_def setinode_def setfile_def setpipe_def set_tframe_def)

section \<open>Behaviour of the operations\<close>

lemma pushcli_eq [simp]: "pushcli k = Ret () (k\<lparr>k_cpu := push_cpu (k_cpu k)\<rparr>)"
  by (simp add: pushcli_def cli_def setcpu_def push_cpu_def)

lemma popcli_eq:
  "\<not> c_IF (k_cpu k) \<Longrightarrow> 1 \<le> c_ncli (k_cpu k) \<Longrightarrow>
     popcli k = Ret () (k\<lparr>k_cpu := pop_cpu (k_cpu k)\<rparr>)"
  by (simp add: popcli_def sti_def setcpu_def pop_cpu_def)

lemma acquire_eq [simp]: "unlocked lk k \<Longrightarrow> acquire lk k = Ret () (enter lk k)"
  by (simp add: acquire_def holding_def xchg_locked_def setlock_def free_lock_def enter_def)

lemma release_eq [simp]:
  "k_locks k lk = \<lparr>sl_locked = 1, sl_cpu = Some (c_id (k_cpu k))\<rparr> \<Longrightarrow> \<not> c_IF (k_cpu k) \<Longrightarrow>
     1 \<le> c_ncli (k_cpu k) \<Longrightarrow> release lk k = Ret () (leave lk k)"
  by (simp add: release_def holding_def xchg_locked_def setlock_def free_lock_def leave_def popcli_eq)

lemma acquire_held_panics:
  "holding lk k \<Longrightarrow> acquire lk k = Panic ''acquire''"
  by (simp add: acquire_def holding_def)

lemma acquire_other_spins:
  "sl_locked (k_locks k lk) \<noteq> 0 \<Longrightarrow> sl_cpu (k_locks k lk) \<noteq> Some (c_id (k_cpu k)) \<Longrightarrow>
     \<exists>k'. acquire lk k = Spin k'"
  by (simp add: acquire_def holding_def xchg_locked_def)

lemma release_unheld_panics:
  "\<not> holding lk k \<Longrightarrow> release lk k = Panic ''release''"
  by (simp add: release_def)

lemma push_times:
  assumes "0 < c_ncli (k_cpu k)" and "\<not> c_IF (k_cpu k)"
  shows "repeatP n pushcli k = Ret () (k\<lparr>k_cpu := (k_cpu k)\<lparr>c_ncli := c_ncli (k_cpu k) + int n\<rparr>\<rparr>)"
  using assms
proof (induction n arbitrary: k)
  case 0
  then show ?case by simp
next
  case (Suc n)
  let ?k = "k\<lparr>k_cpu := push_cpu (k_cpu k)\<rparr>"
  have "repeatP n pushcli ?k = Ret () (?k\<lparr>k_cpu := (k_cpu ?k)\<lparr>c_ncli := c_ncli (k_cpu ?k) + int n\<rparr>\<rparr>)"
    using Suc.prems by (intro Suc.IH) simp_all
  then have "repeatP (Suc n) pushcli k = Ret () (?k\<lparr>k_cpu := (k_cpu ?k)\<lparr>c_ncli := c_ncli (k_cpu ?k) + int n\<rparr>\<rparr>)"
    by (simp only: repeatP.simps thenP_apply pushcli_eq [of k] outcome.case)
  moreover have "?k\<lparr>k_cpu := (k_cpu ?k)\<lparr>c_ncli := c_ncli (k_cpu ?k) + int n\<rparr>\<rparr>
      = k\<lparr>k_cpu := (k_cpu k)\<lparr>c_ncli := c_ncli (k_cpu k) + int (Suc n)\<rparr>\<rparr>"
    using Suc.prems by (simp add: push_cpu_def)
  ultimately show ?case by (simp only:)
qed

lemma pop_times:
  assumes "int n < c_ncli (k_cpu k)" and "\<not> c_IF (k_cpu k)"
  shows "repeatP n popcli k = Ret () (k\<lparr>k_cpu := (k_cpu k)\<lparr>c_ncli := c_ncli (k_cpu k) - int n\<rparr>\<rparr>)"
  using assms
proof (induction n arbitrary: k)
  case 0
  then show ?case by simp
next
  case (Suc n)
  let ?k = "k\<lparr>k_cpu := pop_cpu (k_cpu k)\<rparr>"
  have "repeatP n popcli ?k = Ret () (?k\<lparr>k_cpu := (k_cpu ?k)\<lparr>c_ncli := c_ncli (k_cpu ?k) - int n\<rparr>\<rparr>)"
    using Suc.prems by (intro Suc.IH) simp_all
  moreover have "popcli k = Ret () ?k" using Suc.prems by (intro popcli_eq) simp_all
  ultimately have "repeatP (Suc n) popcli k = Ret () (?k\<lparr>k_cpu := (k_cpu ?k)\<lparr>c_ncli := c_ncli (k_cpu ?k) - int n\<rparr>\<rparr>)"
    by (simp only: repeatP.simps thenP_apply outcome.case)
  moreover have "?k\<lparr>k_cpu := (k_cpu ?k)\<lparr>c_ncli := c_ncli (k_cpu ?k) - int n\<rparr>\<rparr>
      = k\<lparr>k_cpu := (k_cpu k)\<lparr>c_ncli := c_ncli (k_cpu k) - int (Suc n)\<rparr>\<rparr>"
    using Suc.prems by (simp add: pop_cpu_def)
  ultimately show ?case by (simp only:)
qed

section \<open>Properties\<close>

text \<open>\<open>pushcli\<close> and \<open>popcli\<close> nest: any number of \<open>pushcli\<close> calls followed by as many
  \<open>popcli\<close> calls ends with the interrupt flag and the nesting depth of the start, and
  interrupts are off in between.\<close>

theorem pushcli_popcli_nest:
  assumes "cli_ok k" and "0 < n"
  shows "\<exists>k1 k2. repeatP n pushcli k = Ret () k1 \<and> \<not> c_IF (k_cpu k1) \<and> repeatP n popcli k1 = Ret () k2 \<and>
     c_IF (k_cpu k2) = c_IF (k_cpu k) \<and> c_ncli (k_cpu k2) = c_ncli (k_cpu k)"
proof -
  obtain m where n: "n = Suc m" using assms(2) by (cases n) auto
  let ?k = "k\<lparr>k_cpu := push_cpu (k_cpu k)\<rparr>"
  let ?k1 = "?k\<lparr>k_cpu := (k_cpu ?k)\<lparr>c_ncli := c_ncli (k_cpu ?k) + int m\<rparr>\<rparr>"
  have c: "0 \<le> c_ncli (k_cpu k)" "0 < c_ncli (k_cpu k) \<longrightarrow> \<not> c_IF (k_cpu k)"
    using assms(1) by (simp_all add: cli_ok_def)
  have up: "repeatP n pushcli k = Ret () ?k1"
    unfolding n repeatP.simps thenP_apply pushcli_eq [of k] outcome.case by (rule push_times) (use c in simp_all)
  have down: "repeatP m popcli ?k1 = Ret () ?k"
    using pop_times [of m ?k1] c by simp
  have "repeatP n popcli ?k1 = thenP (repeatP m popcli) (repeatP 1 popcli) ?k1"
    unfolding n using repeatP_add [of m 1 popcli ?k1] by simp
  also have "\<dots> = Ret () (k\<lparr>k_cpu := pop_cpu (push_cpu (k_cpu k))\<rparr>)"
    unfolding thenP_apply down using c popcli_eq [of ?k] by simp
  finally show ?thesis using up c by auto
qed

text \<open>C15. A lock excludes: \<open>acquire\<close> returns only when the lock was free, and then this
  processor holds it with interrupts off; on a lock it already holds it panics, and on a lock
  another processor holds it spins.\<close>

theorem acquire_excludes:
  "(acquire lk k = Ret u k' \<longrightarrow> sl_locked (k_locks k lk) = 0 \<and> holding lk k' \<and> \<not> c_IF (k_cpu k')) \<and>
   (holding lk k \<longrightarrow> acquire lk k = Panic ''acquire'') \<and>
   (sl_locked (k_locks k lk) \<noteq> 0 \<and> sl_cpu (k_locks k lk) \<noteq> Some (c_id (k_cpu k)) \<longrightarrow> (\<exists>k'. acquire lk k = Spin k'))"
proof (intro conjI impI)
  assume "acquire lk k = Ret u k'"
  then show "sl_locked (k_locks k lk) = 0" "holding lk k'" "\<not> c_IF (k_cpu k')"
    by (auto simp: acquire_def holding_def xchg_locked_def setlock_def split: if_splits)
qed (use acquire_held_panics acquire_other_spins in blast)+

text \<open>C16. A critical section: from a free lock, \<open>acquire\<close> followed by \<open>release\<close> returns, and
  the lock is free again with the nesting depth, the interrupt flag and everything else in the
  kernel as before, apart from the remembered interrupt state \<^verbatim>\<open>cpu->intena\<close>.\<close>

theorem acquire_release:
  assumes "unlocked lk k" and "cli_ok k"
  shows "\<exists>b. thenP (acquire lk) (release lk) k = Ret () (k\<lparr>k_cpu := (k_cpu k)\<lparr>c_intena := b\<rparr>\<rparr>)"
proof
  show "thenP (acquire lk) (release lk) k = Ret () (k\<lparr>k_cpu := (k_cpu k)\<lparr>c_intena :=
     (if c_ncli (k_cpu k) = 0 then c_IF (k_cpu k) else c_intena (k_cpu k))\<rparr>\<rparr>)"
    using assms unfolding touch_def [symmetric] by (simp add: cli_ok_def)
qed

definition demo_cpu :: cpu where
  "demo_cpu = \<lparr>c_id = 0, c_ncli = 0, c_intena = False, c_IF = True, c_proc = Some 0, c_esp0 = 0, c_cr3 = 0\<rparr>"

definition demo_kernel :: "proc list \<Rightarrow> kernel" where
  "demo_kernel ps = \<lparr>k_cpu = demo_cpu, k_locks = (\<lambda>_. free_lock), k_mem = (\<lambda>_. 0), k_freelist = 0, k_end = 0,
     k_data = 0, k_kpgdir = 0, k_ptable = ps, k_initproc = Some 0, k_nextpid = 10,
     k_tframes = (\<lambda>_. \<lparr>tf_edi = 0, tf_esi = 0, tf_ebp = 0, tf_oesp = 0, tf_ebx = 0, tf_edx = 0, tf_ecx = 0, tf_eax = 0,
       tf_gs = 0, tf_fs = 0, tf_es = 0, tf_ds = 0, tf_trapno = 0, tf_err = 0, tf_eip = 0, tf_cs = 0, tf_eflags = 0,
       tf_esp = 0, tf_ss = 0\<rparr>),
     k_contexts = (\<lambda>_. \<lparr>ctx_edi = 0, ctx_esi = 0, ctx_ebx = 0, ctx_ebp = 0, ctx_eip = 0\<rparr>), k_ticks = 0,
     k_bufs = [], k_idequeue = None, k_havedisk1 = True, k_diskerr = False, k_disk = (\<lambda>_ _. []), k_icache = [], k_ftable = [],
     k_pipes = (\<lambda>_. \<lparr>pi_data = [], pi_nread = 0, pi_nwrite = 0, pi_readopen = 0, pi_writeopen = 0\<rparr>),
     k_input = \<lparr>in_buf = [], in_r = 0, in_w = 0, in_e = 0\<rparr>, k_panicked = False, k_locking = True, k_out = [],
     k_uart = True, k_crt = \<lparr>crt_pos = 0, crt_mem = replicate 2000 0\<rparr>, k_devsw = (\<lambda>_. None)\<rparr>"

lemma demo_kernel_sel [simp]:
  "k_cpu (demo_kernel ps) = demo_cpu" "k_locks (demo_kernel ps) = (\<lambda>_. free_lock)" "k_ptable (demo_kernel ps) = ps"
  "c_proc demo_cpu = Some 0" "c_ncli demo_cpu = 0" "c_IF demo_cpu" "c_id demo_cpu = 0" "cli_ok (demo_kernel ps)"
  by (simp_all add: demo_kernel_def demo_cpu_def cli_ok_def)

theorem pushcli_popcli_nest_witness:
  "\<exists>k1 k2. repeatP 3 pushcli (demo_kernel []) = Ret () k1 \<and> repeatP 3 popcli k1 = Ret () k2 \<and> c_IF (k_cpu k2)"
  using pushcli_popcli_nest [of "demo_kernel []" 3] by auto

theorem acquire_excludes_witness:
  "\<exists>k'. acquire PtableLock (demo_kernel []) = Ret () k' \<and> holding PtableLock k'"
  using acquire_excludes [where lk = PtableLock and k = "demo_kernel []" and u = "()"
    and k' = "enter PtableLock (demo_kernel [])"] by simp

theorem acquire_release_witness:
  "\<exists>b. thenP (acquire PtableLock) (release PtableLock) (demo_kernel []) =
     Ret () ((demo_kernel [])\<lparr>k_cpu := demo_cpu\<lparr>c_intena := b\<rparr>\<rparr>)"
  using acquire_release [where lk = PtableLock and k = "demo_kernel []"] by simp

end
