(* ===== verification/Sched.thy ===== *)
theory Sched
  imports Spinlock
begin

text \<open>
  Blocking, waking and parking of processes: \<^verbatim>\<open>sched\<close>, \<^verbatim>\<open>yield\<close>, \<^verbatim>\<open>sleep\<close>,
  \<^verbatim>\<open>wakeup\<close>, \<^verbatim>\<open>setpark\<close>, \<^verbatim>\<open>park\<close>, \<^verbatim>\<open>unpark\<close> and \<^verbatim>\<open>kill\<close> of
  \<^verbatim>\<open>kernel/proc.c\<close>.

  A routine that gives up the processor takes an argument of type \<open>env option\<close>: what
  happens to the kernel between the \<^verbatim>\<open>swtch\<close> away from the process and the
  \<^verbatim>\<open>swtch\<close> back to it. \<open>None\<close> stands for a process that is not resumed: the outcome
  is then \<open>Switch\<close> with the state at the \<^verbatim>\<open>swtch\<close>.
\<close>

type_synonym env = "kernel \<Rightarrow> kernel"

section \<open>Switching to the scheduler\<close>

definition sched :: "env option \<Rightarrow> unit K" where
  "sched e = bindP (reads (holding PtableLock)) (\<lambda>h.
     if \<not> h then panic ''sched ptable.lock'' else
     bindP (reads k_cpu) (\<lambda>c.
     if c_ncli c \<noteq> 1 then panic ''sched locks'' else
     bindP (curproc_get p_state) (\<lambda>st.
     if st = RUNNING then panic ''sched running'' else
     if c_IF c then panic ''sched interruptible'' else
     (case e of
        None \<Rightarrow> switch
      | Some f \<Rightarrow> thenP (modify f) (modify (setcpu (\<lambda>c'. c'\<lparr>c_intena := c_intena c\<rparr>)))))))"

definition yield :: "env option \<Rightarrow> unit K" where
  "yield e = thenP (acquire PtableLock)
    (thenP (curproc_set (\<lambda>p. p\<lparr>p_state := RUNNABLE\<rparr>))
    (thenP (sched e)
    (release PtableLock)))"

definition forkret :: "unit K" where
  "forkret = release PtableLock"

section \<open>Sleeping on a channel\<close>

definition sleep :: "chan \<Rightarrow> lockid \<Rightarrow> env option \<Rightarrow> unit K" where
  "sleep ch lk e = bindP (reads (\<lambda>k. c_proc (k_cpu k))) (\<lambda>pr.
     if pr = None then panic ''sleep'' else
     thenP (whenP (lk \<noteq> PtableLock) (thenP (acquire PtableLock) (release lk)))
    (thenP (curproc_set (\<lambda>p. p\<lparr>p_chan := ch\<rparr>))
    (thenP (curproc_set (\<lambda>p. p\<lparr>p_state := SLEEPING\<rparr>))
    (thenP (sched e)
    (thenP (curproc_set (\<lambda>p. p\<lparr>p_chan := NoChan\<rparr>))
    (whenP (lk \<noteq> PtableLock) (thenP (release PtableLock) (acquire lk))))))))"

definition wakeup1_proc :: "chan \<Rightarrow> proc \<Rightarrow> proc" where
  "wakeup1_proc ch p =
     (if p_state p = SLEEPING \<and> p_chan p = ch then p\<lparr>p_state := RUNNABLE\<rparr> else p)"

definition wakeup1 :: "chan \<Rightarrow> unit K" where
  "wakeup1 ch = modify (\<lambda>k. k\<lparr>k_ptable := map (wakeup1_proc ch) (k_ptable k)\<rparr>)"

definition wakeup :: "chan \<Rightarrow> unit K" where
  "wakeup ch = thenP (acquire PtableLock) (thenP (wakeup1 ch) (release PtableLock))"

section \<open>Parking\<close>

definition lock_unless_held :: "lockid \<Rightarrow> bool K" where
  "lock_unless_held lk = bindP (reads (holding lk)) (\<lambda>h.
     if \<not> h then thenP (acquire lk) (ret False) else ret True)"

definition setpark :: "int K" where
  "setpark = bindP (lock_unless_held PtableLock) (\<lambda>wasHolding.
     bindP (curproc_get (\<lambda>p. p_immediateUnpark p = 0 \<and> p_setPark p = 0)) (\<lambda>ok.
     bindP (if ok then thenP (curproc_set (\<lambda>p. p\<lparr>p_setPark := 1\<rparr>)) (ret 0) else ret (- 1)) (\<lambda>retValue.
     thenP (whenP (\<not> wasHolding) (release PtableLock))
     (ret retValue))))"

definition park :: "env option \<Rightarrow> unit K" where
  "park e = bindP (reads (\<lambda>k. c_proc (k_cpu k))) (\<lambda>pr.
     if pr = None then panic ''sleep'' else
     bindP (lock_unless_held PtableLock) (\<lambda>wasHolding.
     bindP (curproc_get p_immediateUnpark) (\<lambda>iu.
     thenP (if iu = 0
            then curproc_set (\<lambda>p. p\<lparr>p_state := SLEEPING, p_isParked := 1\<rparr>)
            else curproc_set (\<lambda>p. p\<lparr>p_immediateUnpark := 0\<rparr>))
    (thenP (curproc_set (\<lambda>p. p\<lparr>p_setPark := 0\<rparr>))
    (bindP (curproc_get p_state) (\<lambda>st.
     thenP (whenP (st = SLEEPING) (sched e))
    (whenP (\<not> wasHolding) (release PtableLock))))))))"

definition unpark1 :: "int \<Rightarrow> int K" where
  "unpark1 pid = bindP (reads (\<lambda>k. first_idx
        (\<lambda>p. p_state p = SLEEPING \<and> p_isParked p \<noteq> 0 \<and> p_pid p = pid) (k_ptable k))) (\<lambda>r.
     case r of
       Some i \<Rightarrow> thenP (modify (setproc i (\<lambda>p. p\<lparr>p_state := RUNNABLE, p_isParked := 0\<rparr>)))
                       (reads (\<lambda>k. p_pid (getproc i k)))
     | None \<Rightarrow> ret (- 1))"

text \<open>
  The search loop of \<^verbatim>\<open>unpark\<close> ends with \<^verbatim>\<open>p\<close> at the process it found or, when no
  process has the given pid, one past the end of the table. \<^verbatim>\<open>p\<close> points into the table or just behind it, so the
  test \<^verbatim>\<open>!p\<close> is false in both cases. \<open>deref_proc\<close> is the access to an entry through \<^verbatim>\<open>p\<close>; it
  faults outside the table.
\<close>

definition deref_proc :: "nat \<Rightarrow> proc K" where
  "deref_proc i = (\<lambda>k. if i < length (k_ptable k) then Ret (getproc i k) k else Fault ''ptable.proc[NPROC]'')"

definition unpark :: "int \<Rightarrow> int K" where
  "unpark pid = bindP (lock_unless_held PtableLock) (\<lambda>wasHolding.
     bindP (reads (\<lambda>k. case first_idx (\<lambda>p. p_pid p = pid) (k_ptable k) of Some i \<Rightarrow> i | None \<Rightarrow> length (k_ptable k))) (\<lambda>i.
     bindP (deref_proc i) (\<lambda>p.
     bindP
       (if p_setPark p = 0 \<and> p_isParked p = 0 then ret (- 1)
        else if p_setPark p = 1 \<and> p_isParked p = 0
        then thenP (modify (setproc i (\<lambda>q. q\<lparr>p_immediateUnpark := 1\<rparr>))) (ret (- 1))
        else bindP (unpark1 pid) (\<lambda>rv. ret (if rv \<noteq> - 1 then 0 else rv))) (\<lambda>retValue.
     thenP (whenP (\<not> wasHolding) (release PtableLock))
     (ret retValue)))))"

section \<open>Killing\<close>

definition kill :: "int \<Rightarrow> int K" where
  "kill pid = thenP (acquire PtableLock)
    (bindP (reads (\<lambda>k. first_idx (\<lambda>p. p_pid p = pid) (k_ptable k))) (\<lambda>r.
     case r of
       Some i \<Rightarrow>
         thenP (modify (setproc i (\<lambda>p. p\<lparr>p_killed := 1\<rparr>)))
        (thenP (modify (setproc i (\<lambda>p. if p_state p = SLEEPING then p\<lparr>p_state := RUNNABLE\<rparr> else p)))
        (thenP (release PtableLock) (ret 0)))
     | None \<Rightarrow> thenP (release PtableLock) (ret (- 1))))"

section \<open>The park flags of one process\<close>

text \<open>
  What \<^verbatim>\<open>setpark\<close>, \<^verbatim>\<open>park\<close> and \<^verbatim>\<open>unpark\<close> do to the process table, as
  functions on the table. Each runs under \<^verbatim>\<open>ptable.lock\<close>, so other processes see
  them as one step.
\<close>

definition setpark_proc :: "proc \<Rightarrow> proc" where
  "setpark_proc p = (if p_immediateUnpark p = 0 \<and> p_setPark p = 0 then p\<lparr>p_setPark := 1\<rparr> else p)"

definition park_proc :: "proc \<Rightarrow> proc" where
  "park_proc p = (if p_immediateUnpark p = 0 then p\<lparr>p_state := SLEEPING, p_isParked := 1\<rparr>
     else p\<lparr>p_immediateUnpark := 0\<rparr>)\<lparr>p_setPark := 0\<rparr>"

definition unpark_proc :: "proc \<Rightarrow> proc" where
  "unpark_proc p =
     (if p_setPark p = 0 \<and> p_isParked p = 0 then p
      else if p_setPark p = 1 \<and> p_isParked p = 0 then p\<lparr>p_immediateUnpark := 1\<rparr>
      else if p_state p = SLEEPING \<and> p_isParked p \<noteq> 0 then p\<lparr>p_state := RUNNABLE, p_isParked := 0\<rparr>
      else p)"

definition pids_distinct :: "proc list \<Rightarrow> bool" where
  "pids_distinct ps \<longleftrightarrow> (\<forall>i < length ps. \<forall>j < length ps.
     p_pid (ps ! i) = p_pid (ps ! j) \<and> p_state (ps ! i) \<noteq> UNUSED \<and> p_state (ps ! j) \<noteq> UNUSED \<longrightarrow> i = j)"

section \<open>Equations\<close>

lemma holding_enter [simp]: "holding lk (enter lk k)"
  by (simp add: holding_def)

lemma not_holding_unlocked [simp]: "unlocked lk k \<Longrightarrow> \<not> holding lk k"
  by (simp add: holding_def free_lock_def)

lemma lock_unless_held_eq [simp]:
  "unlocked lk k \<Longrightarrow> lock_unless_held lk k = Ret False (enter lk k)"
  by (simp add: lock_unless_held_def)

lemma wakeup_eq [simp]:
  assumes "unlocked PtableLock k" and "cli_ok k"
  shows "wakeup ch k = Ret () ((touch k)\<lparr>k_ptable := map (wakeup1_proc ch) (k_ptable k)\<rparr>)"
  using assms by (simp add: wakeup_def wakeup1_def cli_ok_def)

lemma getproc_enter [simp]: "getproc i (enter lk k) = getproc i k"
  by (simp add: getproc_def)

lemma getproc_touch [simp]: "getproc i (touch k) = getproc i k"
  by (simp add: getproc_def)

lemma setproc_setproc [simp]:
  "i < length (k_ptable k) \<Longrightarrow> setproc i f (setproc i g k) = setproc i (\<lambda>p. f (g p)) k"
  by (simp add: setproc_def)

lemma setproc_cong:
  "f (getproc i k) = g (getproc i k) \<Longrightarrow> setproc i f k = setproc i g k"
  by (simp add: setproc_def getproc_def)

lemma setproc_id: "setproc i (\<lambda>p. p) k = k"
  by (simp add: setproc_def)

lemma setpark_eq:
  assumes "c_proc (k_cpu k) = Some p" and "p < length (k_ptable k)"
    and "unlocked PtableLock k" and "cli_ok k"
  shows "setpark k = Ret (if p_immediateUnpark (getproc p k) = 0 \<and> p_setPark (getproc p k) = 0 then 0 else - 1)
           (setproc p setpark_proc (touch k))"
proof -
  have n: "1 \<le> c_ncli (k_cpu k) + 1" using assms(4) by (simp add: cli_ok_def)
  show ?thesis
  proof (cases "p_immediateUnpark (getproc p k) = 0 \<and> p_setPark (getproc p k) = 0")
    case True
    have "setproc p (\<lambda>p. p\<lparr>p_setPark := 1\<rparr>) (touch k) = setproc p setpark_proc (touch k)"
      by (rule setproc_cong) (simp add: setpark_proc_def True)
    with True assms n show ?thesis by (simp add: setpark_def)
  next
    case False
    have "setproc p setpark_proc (touch k) = setproc p (\<lambda>p. p) (touch k)"
      by (rule setproc_cong) (use False in \<open>auto simp: setpark_proc_def\<close>)
    with False assms n show ?thesis by (auto simp: setpark_def setproc_id)
  qed
qed

lemma park_returns_eq:
  assumes "c_proc (k_cpu k) = Some p" and "p < length (k_ptable k)"
    and "unlocked PtableLock k" and "cli_ok k"
    and "p_immediateUnpark (getproc p k) \<noteq> 0" and "p_state (getproc p k) \<noteq> SLEEPING"
  shows "park e k = Ret () (setproc p park_proc (touch k))"
proof -
  have n: "1 \<le> c_ncli (k_cpu k) + 1" using assms(4) by (simp add: cli_ok_def)
  have "setproc p (\<lambda>q. q\<lparr>p_immediateUnpark := 0, p_setPark := 0\<rparr>) (touch k)
      = setproc p park_proc (touch k)"
    by (rule setproc_cong) (simp add: park_proc_def assms)
  with assms n show ?thesis by (simp add: park_def)
qed

lemma park_sleeps_eq:
  assumes "c_proc (k_cpu k) = Some p" and "p < length (k_ptable k)"
    and "unlocked PtableLock k" and "c_ncli (k_cpu k) = 0"
    and "p_immediateUnpark (getproc p k) = 0"
  shows "park None k = Switch (setproc p park_proc (enter PtableLock k))"
proof -
  have "setproc p (\<lambda>q. q\<lparr>p_state := SLEEPING, p_isParked := 1, p_setPark := 0\<rparr>) (enter PtableLock k)
      = setproc p park_proc (enter PtableLock k)"
    by (rule setproc_cong) (simp add: park_proc_def assms)
  with assms show ?thesis by (simp add: park_def sched_def holding_def park_proc_def)
qed

definition has_pid :: "proc list \<Rightarrow> int \<Rightarrow> nat \<Rightarrow> bool" where
  "has_pid ps pid i \<longleftrightarrow> i < length ps \<and> p_pid (ps ! i) = pid \<and>
     (\<forall>j < length ps. p_pid (ps ! j) = pid \<longrightarrow> j = i)"

lemma has_pid_first: "has_pid ps pid i \<Longrightarrow> first_idx (\<lambda>p. p_pid p = pid) ps = Some i"
  by (rule first_idx_eqI) (simp_all add: has_pid_def, metis less_irrefl less_trans)

lemma unpark1_search:
  assumes "has_pid ps pid i"
  shows "first_idx (\<lambda>p. p_state p = SLEEPING \<and> p_isParked p \<noteq> 0 \<and> p_pid p = pid) ps =
    (if p_state (ps ! i) = SLEEPING \<and> p_isParked (ps ! i) \<noteq> 0 then Some i else None)"
proof (cases "p_state (ps ! i) = SLEEPING \<and> p_isParked (ps ! i) \<noteq> 0")
  case True
  then have "first_idx (\<lambda>p. p_state p = SLEEPING \<and> p_isParked p \<noteq> 0 \<and> p_pid p = pid) ps = Some i"
    using assms by (intro first_idx_eqI) (simp_all add: has_pid_def, metis less_irrefl less_trans)
  with True show ?thesis by simp
next
  case False
  then have "\<forall>p \<in> set ps. \<not> (p_state p = SLEEPING \<and> p_isParked p \<noteq> 0 \<and> p_pid p = pid)"
    using assms by (auto simp: has_pid_def in_set_conv_nth)
  then have "first_idx (\<lambda>p. p_state p = SLEEPING \<and> p_isParked p \<noteq> 0 \<and> p_pid p = pid) ps = None"
    by (simp add: first_idx_None)
  with False show ?thesis by simp
qed

lemma unpark_idle:
  assumes "first_idx (\<lambda>p. p_pid p = pid) (k_ptable k) = Some i"
    and "unlocked PtableLock k" and "cli_ok k"
    and "p_setPark (getproc i k) = 0" and "p_isParked (getproc i k) = 0"
  shows "unpark pid k = Ret (- 1) (touch k)"
  using assms first_idx_Some(1) [OF assms(1)] by (simp add: unpark_def deref_proc_def cli_ok_def)

lemma unpark_set:
  assumes "first_idx (\<lambda>p. p_pid p = pid) (k_ptable k) = Some i"
    and "unlocked PtableLock k" and "cli_ok k"
    and "p_setPark (getproc i k) = 1" and "p_isParked (getproc i k) = 0"
  shows "unpark pid k = Ret (- 1) (setproc i (\<lambda>p. p\<lparr>p_immediateUnpark := 1\<rparr>) (touch k))"
  using assms first_idx_Some(1) [OF assms(1)] by (simp add: unpark_def deref_proc_def cli_ok_def)

lemma unpark1_wakes:
  assumes "first_idx (\<lambda>p. p_state p = SLEEPING \<and> p_isParked p \<noteq> 0 \<and> p_pid p = pid) (k_ptable k) = Some i"
    and "i < length (k_ptable k)"
  shows "unpark1 pid k = Ret (p_pid (getproc i k))
     (setproc i (\<lambda>p. p\<lparr>p_state := RUNNABLE, p_isParked := 0\<rparr>) k)"
  using assms by (simp add: unpark1_def)

lemma unpark1_none:
  assumes "first_idx (\<lambda>p. p_state p = SLEEPING \<and> p_isParked p \<noteq> 0 \<and> p_pid p = pid) (k_ptable k) = None"
  shows "unpark1 pid k = Ret (- 1) k"
  using assms by (simp add: unpark1_def)

lemma unpark_other:
  assumes "first_idx (\<lambda>p. p_pid p = pid) (k_ptable k) = Some i"
    and "unlocked PtableLock k" and "cli_ok k"
    and "\<not> (p_setPark (getproc i k) = 0 \<and> p_isParked (getproc i k) = 0)"
    and "\<not> (p_setPark (getproc i k) = 1 \<and> p_isParked (getproc i k) = 0)"
  shows "unpark pid k = (case unpark1 pid (enter PtableLock k) of
      Ret rv k' \<Rightarrow> bindP (release PtableLock) (\<lambda>_. ret (if rv \<noteq> - 1 then 0 else rv)) k'
    | Panic m \<Rightarrow> Panic m | Fault w \<Rightarrow> Fault w | Switch k' \<Rightarrow> Switch k' | Spin k' \<Rightarrow> Spin k')"
  using assms first_idx_Some(1) [OF assms(1)] by (cases "unpark1 pid (enter PtableLock k)") (auto simp: unpark_def deref_proc_def)

lemma release_setproc:
  "unlocked lk k \<Longrightarrow> cli_ok k \<Longrightarrow>
     release lk (setproc i f (enter lk k)) = Ret () (setproc i f (touch k))"
  by (simp add: cli_ok_def)

lemma release_enter: "unlocked lk k \<Longrightarrow> cli_ok k \<Longrightarrow> release lk (enter lk k) = Ret () (touch k)"
  by (simp add: cli_ok_def)

lemma unpark_eq:
  assumes i: "has_pid (k_ptable k) pid i" and u: "unlocked PtableLock k" and c: "cli_ok k" and "pid \<noteq> - 1"
  shows "unpark pid k = Ret
     (if p_state (getproc i k) = SLEEPING \<and> p_isParked (getproc i k) \<noteq> 0 then 0 else - 1)
     (setproc i unpark_proc (touch k))"
proof -
  let ?p = "getproc i k"
  have len: "i < length (k_ptable k)" and pid: "p_pid ?p = pid"
    using i by (auto simp: has_pid_def getproc_def)
  note first = has_pid_first [OF i]
  consider (none) "p_setPark ?p = 0" "p_isParked ?p = 0"
    | (set) "p_setPark ?p = 1" "p_isParked ?p = 0"
    | (other) "\<not> (p_setPark ?p = 0 \<and> p_isParked ?p = 0)" "\<not> (p_setPark ?p = 1 \<and> p_isParked ?p = 0)"
    by blast
  then show ?thesis
  proof cases
    case none
    then have "setproc i unpark_proc (touch k) = touch k"
      by (subst setproc_cong [where g = "\<lambda>p. p"]) (simp_all add: unpark_proc_def setproc_id)
    with unpark_idle [OF first u c none] none show ?thesis by simp
  next
    case set
    have "setproc i (\<lambda>p. p\<lparr>p_immediateUnpark := 1\<rparr>) (touch k) = setproc i unpark_proc (touch k)"
      by (rule setproc_cong) (simp add: unpark_proc_def set)
    with unpark_set [OF first u c set] set show ?thesis by simp
  next
    case other
    note U = unpark_other [OF first u c other]
    show ?thesis
    proof (cases "p_state ?p = SLEEPING \<and> p_isParked ?p \<noteq> 0")
      case True
      have eq: "setproc i (\<lambda>p. p\<lparr>p_state := RUNNABLE, p_isParked := 0\<rparr>) (touch k) = setproc i unpark_proc (touch k)"
        by (rule setproc_cong) (use True in \<open>auto simp: unpark_proc_def\<close>)
      have up: "unpark1 pid (enter PtableLock k) = Ret pid
          (setproc i (\<lambda>p. p\<lparr>p_state := RUNNABLE, p_isParked := 0\<rparr>) (enter PtableLock k))"
        using unpark1_search [OF i] True len pid
        by (subst unpark1_wakes [where i = i]) (simp_all add: getproc_def)
      have "unpark pid k = Ret 0 (setproc i unpark_proc (touch k))"
        unfolding U up outcome.case bindP_apply release_setproc [OF u c] ret_apply eq
        using assms(4) by simp
      with True show ?thesis by simp
    next
      case False
      have "unpark_proc ?p = ?p"
        using False other by (simp only: unpark_proc_def if_False refl)
      then have eq: "setproc i unpark_proc (touch k) = touch k"
        by (subst setproc_cong [where g = "\<lambda>p. p"]) (simp_all add: setproc_id)
      have up: "unpark1 pid (enter PtableLock k) = Ret (- 1) (enter PtableLock k)"
        using unpark1_search [OF i] False
        by (intro unpark1_none) (auto simp: getproc_def)
      have "unpark pid k = Ret (- 1) (touch k)"
        unfolding U up outcome.case bindP_apply release_enter [OF u c] ret_apply by simp
      with False eq show ?thesis by (simp only: if_False)
    qed
  qed
qed

lemma unpark_missing_faults:
  assumes "\<forall>p \<in> set (k_ptable k). p_pid p \<noteq> pid" and "unlocked PtableLock k"
  shows "unpark pid k = Fault ''ptable.proc[NPROC]''"
proof -
  have "first_idx (\<lambda>p. p_pid p = pid) (k_ptable k) = None"
    using assms(1) by (simp add: first_idx_None)
  with assms(2) show ?thesis by (simp add: unpark_def deref_proc_def)
qed

lemma kill_eq:
  assumes "has_pid (k_ptable k) pid i" and "unlocked PtableLock k" and "cli_ok k"
  shows "kill pid k = Ret 0 (setproc i (\<lambda>p. p\<lparr>p_killed := 1,
     p_state := (if p_state p = SLEEPING then RUNNABLE else p_state p)\<rparr>) (touch k))"
proof -
  have n: "1 \<le> c_ncli (k_cpu k) + 1" using assms(3) by (simp add: cli_ok_def)
  have len: "i < length (k_ptable k)" using assms(1) by (auto simp: has_pid_def)
  have "kill pid k = Ret 0 (setproc i (\<lambda>p. if p_state p = SLEEPING then p\<lparr>p_killed := 1, p_state := RUNNABLE\<rparr>
      else p\<lparr>p_killed := 1\<rparr>) (touch k))"
    using assms n len has_pid_first [OF assms(1)] by (simp add: kill_def)
  moreover have "\<dots> = Ret 0 (setproc i (\<lambda>p. p\<lparr>p_killed := 1,
     p_state := (if p_state p = SLEEPING then RUNNABLE else p_state p)\<rparr>) (touch k))"
    by (simp, rule setproc_cong, simp)
  ultimately show ?thesis by (rule trans)
qed

lemma kill_missing:
  assumes "\<forall>p \<in> set (k_ptable k). p_pid p \<noteq> pid" and "unlocked PtableLock k" and "cli_ok k"
  shows "kill pid k = Ret (- 1) (touch k)"
proof -
  have "first_idx (\<lambda>p. p_pid p = pid) (k_ptable k) = None"
    using assms(1) by (simp add: first_idx_None)
  with assms(2,3) show ?thesis by (simp add: kill_def cli_ok_def)
qed

section \<open>Properties\<close>

lemma has_pid_setproc:
  "has_pid (k_ptable k) pid i \<Longrightarrow> (\<And>p. p_pid (f p) = p_pid p) \<Longrightarrow> has_pid (k_ptable (setproc j f k)) pid i"
proof -
  assume "has_pid (k_ptable k) pid i" and f: "\<And>p. p_pid (f p) = p_pid p"
  moreover have "p_pid (k_ptable (setproc j f k) ! m) = p_pid (k_ptable k ! m)" for m
    by (cases "j < length (k_ptable k)"; cases "m = j")
      (simp_all add: setproc_def f list_update_beyond)
  ultimately show ?thesis by (simp add: has_pid_def)
qed

lemma park_flag_pid [simp]:
  "p_pid (setpark_proc p) = p_pid p" "p_pid (park_proc p) = p_pid p" "p_pid (unpark_proc p) = p_pid p"
  by (simp_all add: setpark_proc_def park_proc_def unpark_proc_def)

text \<open>C7. No wake-up is lost between \<^verbatim>\<open>setpark\<close> and \<^verbatim>\<open>park\<close>: if another process calls
  \<^verbatim>\<open>unpark\<close> after the current one called \<^verbatim>\<open>setpark\<close>, the coming \<^verbatim>\<open>park\<close> returns without
  sleeping and all three park flags are clear again.\<close>

theorem unpark_before_park:
  assumes cur: "c_proc (k_cpu k) = Some p" and pid: "has_pid (k_ptable k) pid p" "pid \<noteq> - 1"
    and lock: "unlocked PtableLock k" "cli_ok k" and st: "p_state (getproc p k) = RUNNING"
    and fl: "p_setPark (getproc p k) = 0" "p_isParked (getproc p k) = 0" "p_immediateUnpark (getproc p k) = 0"
  shows "\<exists>k1 k2 k3. setpark k = Ret 0 k1 \<and> unpark pid k1 = Ret (- 1) k2 \<and> park e k2 = Ret () k3 \<and>
     getproc p k3 = getproc p k"
proof -
  have len: "p < length (k_ptable k)" using pid(1) by (simp add: has_pid_def)
  let ?k1 = "setproc p setpark_proc (touch k)"
  let ?k2 = "setproc p unpark_proc (touch ?k1)"
  have k1: "setpark k = Ret 0 ?k1" using setpark_eq [OF cur len lock] fl by simp
  have g1: "getproc p ?k1 = (getproc p k)\<lparr>p_setPark := 1\<rparr>" using len fl by (simp add: setpark_proc_def)
  have "has_pid (k_ptable ?k1) pid p" using has_pid_setproc [of "touch k" pid p setpark_proc p] pid(1) by simp
  then have k2: "unpark pid ?k1 = Ret (- 1) ?k2"
    using unpark_eq [of ?k1 pid p] lock pid(2) g1 st fl by simp
  have g2: "getproc p ?k2 = (getproc p k)\<lparr>p_setPark := 1, p_immediateUnpark := 1\<rparr>"
    using len fl g1 by (simp add: unpark_proc_def)
  have k3: "park e ?k2 = Ret () (setproc p park_proc (touch ?k2))"
    by (rule park_returns_eq) (use cur len lock g2 st in simp_all)
  have "getproc p (setproc p park_proc (touch ?k2)) = park_proc ((getproc p k)\<lparr>p_setPark := 1, p_immediateUnpark := 1\<rparr>)"
    using len g2 by simp
  also have "\<dots> = (getproc p k)\<lparr>p_setPark := 0, p_immediateUnpark := 0\<rparr>" by (simp add: park_proc_def)
  also have "\<dots> = getproc p k" using fl by (cases "getproc p k") simp
  finally show ?thesis using k1 k2 k3 by blast
qed

text \<open>C8. \<^verbatim>\<open>unpark\<close> wakes a parked process: a process that goes to sleep in \<^verbatim>\<open>park\<close> is made
  runnable by the next \<^verbatim>\<open>unpark\<close> with its pid, which returns 0, and its park flags are clear.
  \<open>leave PtableLock\<close> is the release of the table lock by whoever runs next.\<close>

theorem unpark_wakes_parked:
  assumes cur: "c_proc (k_cpu k) = Some p" and pid: "has_pid (k_ptable k) pid p" "pid \<noteq> - 1"
    and lock: "unlocked PtableLock k" "c_ncli (k_cpu k) = 0" and imm: "p_immediateUnpark (getproc p k) = 0"
  shows "\<exists>k1 k2. park None k = Switch k1 \<and> holding PtableLock k1 \<and> p_state (getproc p k1) = SLEEPING \<and>
     unpark pid (leave PtableLock k1) = Ret 0 k2 \<and> p_state (getproc p k2) = RUNNABLE \<and>
     p_isParked (getproc p k2) = 0 \<and> p_setPark (getproc p k2) = 0"
proof -
  have len: "p < length (k_ptable k)" using pid(1) by (simp add: has_pid_def)
  let ?k1 = "setproc p park_proc (enter PtableLock k)"
  have k1: "park None k = Switch ?k1" by (rule park_sleeps_eq [OF cur len lock imm])
  have cli: "cli_ok k" using lock(2) by (simp add: cli_ok_def)
  have eq: "leave PtableLock ?k1 = setproc p park_proc (touch k)" using lock(1) cli by simp
  have g: "getproc p ?k1 = park_proc (getproc p k)" "getproc p (setproc p park_proc (touch k)) = park_proc (getproc p k)"
    using len by simp_all
  have "has_pid (k_ptable (setproc p park_proc (touch k))) pid p"
    using has_pid_setproc [of "touch k" pid p park_proc p] pid(1) by simp
  then have "unpark pid (leave PtableLock ?k1) = Ret 0 (setproc p unpark_proc (touch (setproc p park_proc (touch k))))"
    unfolding eq using unpark_eq [of "setproc p park_proc (touch k)" pid p] lock cli pid(2) g(2) imm
    by (simp add: park_proc_def)
  with k1 len imm show ?thesis by (auto simp: holding_def park_proc_def unpark_proc_def)
qed

lemma sleep_commits:
  assumes cur: "c_proc (k_cpu k) = Some p" and len: "p < length (k_ptable k)"
    and lk: "lk \<noteq> PtableLock" "unlocked lk k" "unlocked PtableLock k" "c_ncli (k_cpu k) = 0"
  shows "\<exists>k1 k2. sleep ch lk None (enter lk k) = Switch k1 \<and> holding PtableLock k1 \<and> \<not> holding lk k1 \<and>
     p_state (getproc p k1) = SLEEPING \<and> p_chan (getproc p k1) = ch \<and>
     wakeup ch (leave PtableLock k1) = Ret () k2 \<and> p_state (getproc p k2) = RUNNABLE"
proof -
  let ?e = "enter PtableLock (enter lk k)"
  let ?k1 = "setproc p (\<lambda>q. q\<lparr>p_chan := ch, p_state := SLEEPING\<rparr>) (leave lk ?e)"
  have rel: "release lk ?e = Ret () (leave lk ?e)"
    by (rule release_eq) (use lk in simp_all)
  have k1: "sleep ch lk None (enter lk k) = Switch ?k1"
    using cur len lk rel by (simp add: sleep_def sched_def holding_def free_lock_def)
  have locks: "k_locks (leave PtableLock ?k1) = k_locks k"
    using lk by (auto simp: fun_eq_iff)
  have "p_state (getproc p ?k1) = SLEEPING" "p_chan (getproc p ?k1) = ch" using len by simp_all
  moreover have "cli_ok (leave PtableLock ?k1)" using lk by (simp add: cli_ok_def)
  then have "wakeup ch (leave PtableLock ?k1) = Ret () ((touch (leave PtableLock ?k1))\<lparr>k_ptable :=
      map (wakeup1_proc ch) (k_ptable (leave PtableLock ?k1))\<rparr>)"
    using wakeup_eq [of "leave PtableLock ?k1" ch] locks lk(3) by simp
  moreover have "p_state (getproc p ((touch (leave PtableLock ?k1))\<lparr>k_ptable :=
      map (wakeup1_proc ch) (k_ptable (leave PtableLock ?k1))\<rparr>)) = RUNNABLE"
    using len by (simp add: getproc_def setproc_def wakeup1_proc_def)
  moreover have "holding PtableLock ?k1" "\<not> holding lk ?k1" using lk by (auto simp: holding_def free_lock_def)
  ultimately show ?thesis using k1 by blast
qed

text \<open>C9. \<^verbatim>\<open>sleep\<close> is atomic with respect to \<^verbatim>\<open>wakeup\<close>. A process that calls \<^verbatim>\<open>sleep\<close> holding
  its lock keeps the lock until it has \<^verbatim>\<open>ptable.lock\<close>: while another processor has that, it spins, still holding its lock and not
  asleep. When the processor switches away, the process has given up its lock and is asleep on the channel, with
  \<^verbatim>\<open>ptable.lock\<close> still held; the next \<^verbatim>\<open>wakeup\<close> on the channel makes it runnable.\<close>

theorem sleep_then_wakeup:
  assumes cur: "c_proc (k_cpu k) = Some p" and len: "p < length (k_ptable k)"
    and lk: "lk \<noteq> PtableLock" "unlocked lk k" "c_ncli (k_cpu k) = 0"
  shows "(unlocked PtableLock k \<longrightarrow> (\<exists>k1 k2. sleep ch lk None (enter lk k) = Switch k1 \<and> holding PtableLock k1 \<and> \<not> holding lk k1 \<and>
       p_state (getproc p k1) = SLEEPING \<and> p_chan (getproc p k1) = ch \<and>
       wakeup ch (leave PtableLock k1) = Ret () k2 \<and> p_state (getproc p k2) = RUNNABLE)) \<and>
     (sl_locked (k_locks k PtableLock) \<noteq> 0 \<and> sl_cpu (k_locks k PtableLock) \<noteq> Some (c_id (k_cpu k)) \<longrightarrow>
       (\<exists>k1. sleep ch lk e (enter lk k) = Spin k1 \<and> holding lk k1 \<and> k_ptable k1 = k_ptable k))"
proof (intro conjI impI)
  assume free: "unlocked PtableLock k"
  then show "\<exists>k1 k2. sleep ch lk None (enter lk k) = Switch k1 \<and> holding PtableLock k1 \<and> \<not> holding lk k1 \<and>
       p_state (getproc p k1) = SLEEPING \<and> p_chan (getproc p k1) = ch \<and>
       wakeup ch (leave PtableLock k1) = Ret () k2 \<and> p_state (getproc p k2) = RUNNABLE"
    by (rule sleep_commits [OF cur len lk(1,2) _ lk(3)])
next
  assume busy: "sl_locked (k_locks k PtableLock) \<noteq> 0 \<and> sl_cpu (k_locks k PtableLock) \<noteq> Some (c_id (k_cpu k))"
  then have "sleep ch lk e (enter lk k) = acquire PtableLock (enter lk k)"
    and "\<exists>k1. acquire PtableLock (enter lk k) = Spin k1 \<and> holding lk k1 \<and> k_ptable k1 = k_ptable k"
    using cur lk by (auto simp: sleep_def acquire_def pushcli_def cli_def holding_def xchg_locked_def setlock_def setcpu_def)
  then show "\<exists>k1. sleep ch lk e (enter lk k) = Spin k1 \<and> holding lk k1 \<and> k_ptable k1 = k_ptable k" by simp
qed

definition demo_proc :: "int \<Rightarrow> proc" where
  "demo_proc pid = \<lparr>p_sz = 8192, p_pgdir = 0, p_kstack = 0, p_state = RUNNING, p_pid = pid, p_parent = None,
     p_tf = 0, p_context = 0, p_chan = NoChan, p_killed = 0, p_ofile = replicate NOFILE None, p_cwd = None,
     p_name = [], p_isParked = 0, p_immediateUnpark = 0, p_setPark = 0, p_isThread = 1, p_bsp = 0\<rparr>"

theorem unpark_before_park_witness:
  "\<exists>k1 k2 k3. setpark (demo_kernel [demo_proc 3, demo_proc 4]) = Ret 0 k1 \<and> unpark 3 k1 = Ret (- 1) k2 \<and>
     park None k2 = Ret () k3 \<and> getproc 0 k3 = demo_proc 3"
  using unpark_before_park [of "demo_kernel [demo_proc 3, demo_proc 4]" 0 3 None]
  by (simp add: has_pid_def getproc_def demo_proc_def All_less_Suc)

theorem unpark_wakes_parked_witness:
  "\<exists>k1 k2. park None (demo_kernel [demo_proc 3, demo_proc 4]) = Switch k1 \<and> p_state (getproc 0 k1) = SLEEPING \<and>
     unpark 3 (leave PtableLock k1) = Ret 0 k2 \<and> p_state (getproc 0 k2) = RUNNABLE"
  using unpark_wakes_parked [of "demo_kernel [demo_proc 3, demo_proc 4]" 0 3]
  by (auto simp: has_pid_def getproc_def demo_proc_def All_less_Suc)

theorem sleep_then_wakeup_witness:
  "(\<exists>k1 k2. sleep TicksChan TicksLock None (enter TicksLock (demo_kernel [demo_proc 3])) = Switch k1 \<and>
     p_state (getproc 0 k1) = SLEEPING \<and> wakeup TicksChan (leave PtableLock k1) = Ret () k2 \<and>
     p_state (getproc 0 k2) = RUNNABLE) \<and>
   (\<exists>k1. sleep TicksChan TicksLock None (enter TicksLock
       ((demo_kernel [demo_proc 3])\<lparr>k_locks := (\<lambda>_. free_lock)(PtableLock := \<lparr>sl_locked = 1, sl_cpu = Some 1\<rparr>)\<rparr>)) = Spin k1 \<and> holding TicksLock k1)"
  using sleep_then_wakeup [of "demo_kernel [demo_proc 3]" 0 TicksLock TicksChan None]
    sleep_then_wakeup [of "(demo_kernel [demo_proc 3])\<lparr>k_locks := (\<lambda>_. free_lock)(PtableLock := \<lparr>sl_locked = 1, sl_cpu = Some 1\<rparr>)\<rparr>"
      0 TicksLock TicksChan None] by auto

end
