(* ===== verification/Bytes.thy ===== *)
theory Bytes
  imports Prelude
begin

text \<open>
  Little-endian encodings of 16- and 32-bit values and word access to byte memory, as the
  x86 performs them.
\<close>

section \<open>Little-endian encodings\<close>

definition enc16 :: "u16 \<Rightarrow> u8 list" where
  "enc16 w = [ucast w, ucast (drop_bit 8 w)]"

definition dec16 :: "u8 \<Rightarrow> u8 \<Rightarrow> u16" where
  "dec16 a b = ucast a OR push_bit 8 (ucast b)"

definition enc32 :: "u32 \<Rightarrow> u8 list" where
  "enc32 w = [ucast w, ucast (drop_bit 8 w), ucast (drop_bit 16 w), ucast (drop_bit 24 w)]"

definition dec32 :: "u8 \<Rightarrow> u8 \<Rightarrow> u8 \<Rightarrow> u8 \<Rightarrow> u32" where
  "dec32 a b c d = ucast a OR push_bit 8 (ucast b) OR push_bit 16 (ucast c) OR push_bit 24 (ucast d)"

lemma length_enc16 [simp]: "length (enc16 w) = 2"
  by (simp add: enc16_def)

lemma length_enc32 [simp]: "length (enc32 w) = 4"
  by (simp add: enc32_def)

lemma dec16_enc16 [simp]: "dec16 (ucast w) (ucast (drop_bit 8 w)) = w"
  by (intro bit_word_eqI) (auto simp: dec16_def bit_simps)

lemma dec32_enc32 [simp]:
  "dec32 (ucast w) (ucast (drop_bit 8 w)) (ucast (drop_bit 16 w)) (ucast (drop_bit 24 w)) = w"
proof (intro bit_word_eqI)
  fix n
  assume "n < LENGTH(32)"
  then consider "n < 8" | "8 \<le> n" "n < 16" | "16 \<le> n" "n < 24" | "24 \<le> n" "n < 32"
    by fastforce
  then show "bit (dec32 (ucast w) (ucast (drop_bit 8 w)) (ucast (drop_bit 16 w))
      (ucast (drop_bit 24 w))) n = bit w n"
    by cases (auto simp: dec32_def bit_simps)
qed

lemma enc32_dec32 [simp]: "enc32 (dec32 a b c d) = [a, b, c, d]"
proof -
  have "ucast (dec32 a b c d) = a"
    by (intro bit_word_eqI) (auto simp: dec32_def bit_simps)
  moreover have "ucast (drop_bit 8 (dec32 a b c d)) = b"
    by (intro bit_word_eqI) (auto simp: dec32_def bit_simps dest: bit_imp_le_length)
  moreover have "ucast (drop_bit 16 (dec32 a b c d)) = c"
    by (intro bit_word_eqI) (auto simp: dec32_def bit_simps dest: bit_imp_le_length)
  moreover have "ucast (drop_bit 24 (dec32 a b c d)) = d"
    by (intro bit_word_eqI) (auto simp: dec32_def bit_simps dest: bit_imp_le_length)
  ultimately show ?thesis by (simp add: enc32_def)
qed

lemma enc16_dec16 [simp]: "enc16 (dec16 a b) = [a, b]"
proof -
  have "ucast (dec16 a b) = a"
    by (intro bit_word_eqI) (auto simp: dec16_def bit_simps)
  moreover have "ucast (drop_bit 8 (dec16 a b)) = b"
    by (intro bit_word_eqI) (auto simp: dec16_def bit_simps dest: bit_imp_le_length)
  ultimately show ?thesis by (simp add: enc16_def)
qed

section \<open>Word access to byte memory\<close>

definition load32 :: "mem \<Rightarrow> addr \<Rightarrow> u32" where
  "load32 m a = dec32 (m a) (m (a + 1)) (m (a + 2)) (m (a + 3))"

definition store32 :: "mem \<Rightarrow> addr \<Rightarrow> u32 \<Rightarrow> mem" where
  "store32 m a w = m(a := ucast w, a + 1 := ucast (drop_bit 8 w),
      a + 2 := ucast (drop_bit 16 w), a + 3 := ucast (drop_bit 24 w))"

lemma load32_store32 [simp]: "load32 (store32 m a w) a = w"
  by (simp add: load32_def store32_def)

definition aligned4 :: "addr \<Rightarrow> bool" where
  "aligned4 a \<longleftrightarrow> unat a mod 4 = 0"

lemma aligned4_unat_add:
  assumes "aligned4 a" and "i < 4"
  shows "unat (a + of_nat i) = unat a + i"
proof -
  have "unat a < 4294967296" using unsigned_less [of a] by simp
  moreover have "unat a mod 4 = 0" using assms(1) by (simp add: aligned4_def)
  ultimately have "unat a + i < 4294967296" using assms(2) by presburger
  then show ?thesis using assms(2)
    by (simp add: unat_word_ariths unat_of_nat take_bit_eq_mod)
qed

lemma aligned4_offsets_distinct:
  assumes "aligned4 a" and "aligned4 b" and "a \<noteq> b" and "i < 4" and "j < 4"
  shows "a + of_nat i \<noteq> b + of_nat j"
proof
  assume "a + of_nat i = b + of_nat j"
  then have eq: "unat a + i = unat b + j"
    using aligned4_unat_add [OF assms(1,4)] aligned4_unat_add [OF assms(2,5)] by metis
  moreover have "unat a mod 4 = 0" "unat b mod 4 = 0"
    using assms(1,2) by (simp_all add: aligned4_def)
  ultimately have "unat a = unat b" using assms(4,5) by presburger
  with assms(3) show False by (simp add: word_unat_eq_iff)
qed

lemma load32_store32_other:
  assumes "aligned4 a" and "aligned4 b" and "a \<noteq> b"
  shows "load32 (store32 m a w) b = load32 m b"
proof -
  have d: "b + of_nat j \<noteq> a + of_nat i" if "i < 4" "j < 4" for i j
    using aligned4_offsets_distinct [OF assms that] by metis
  show ?thesis
    using d [of 0 0] d [of 0 1] d [of 0 2] d [of 0 3] d [of 1 0] d [of 1 1] d [of 1 2] d [of 1 3]
      d [of 2 0] d [of 2 1] d [of 2 2] d [of 2 3] d [of 3 0] d [of 3 1] d [of 3 2] d [of 3 3]
    by (simp add: load32_def store32_def)
qed

end
