(* ===== verification/Cstring.thy ===== *)
theory Cstring
  imports Bytes
begin

text \<open>
  The C string and memory routines: \<^verbatim>\<open>kernel/string.c\<close> and those of \<^verbatim>\<open>user/ulib.c\<close>,
  as functions on byte memory. Addresses are 32-bit words and pointer arithmetic wraps. The routines that
  search for a terminating NUL are partial: \<open>None\<close> means they never stop.
\<close>

section \<open>Loops over bytes\<close>

text \<open>\<^verbatim>\<open>stosb\<close>.\<close>

primrec set_bytes :: "nat \<Rightarrow> addr \<Rightarrow> u8 \<Rightarrow> mem \<Rightarrow> mem" where
  "set_bytes 0 a c m = m"
| "set_bytes (Suc n) a c m = set_bytes n (a + 1) c (m(a := c))"

text \<open>\<^verbatim>\<open>while(n-- > 0) *d++ = *s++\<close>\<close>

primrec copy_up :: "nat \<Rightarrow> addr \<Rightarrow> addr \<Rightarrow> mem \<Rightarrow> mem" where
  "copy_up 0 d s m = m"
| "copy_up (Suc n) d s m = copy_up n (d + 1) (s + 1) (m(d := m s))"

text \<open>\<^verbatim>\<open>while(n-- > 0) *--d = *--s\<close>\<close>

primrec copy_down :: "nat \<Rightarrow> addr \<Rightarrow> addr \<Rightarrow> mem \<Rightarrow> mem" where
  "copy_down 0 d s m = m"
| "copy_down (Suc n) d s m = copy_down n (d - 1) (s - 1) (m(d - 1 := m (s - 1)))"

section \<open>kernel/string.c\<close>

definition memset :: "addr \<Rightarrow> u32 \<Rightarrow> u32 \<Rightarrow> mem \<Rightarrow> mem" where
  "memset dst c n m = set_bytes (unat n) dst (ucast c) m"

primrec memcmp_loop :: "nat \<Rightarrow> addr \<Rightarrow> addr \<Rightarrow> mem \<Rightarrow> int" where
  "memcmp_loop 0 s1 s2 m = 0"
| "memcmp_loop (Suc n) s1 s2 m =
     (if m s1 \<noteq> m s2 then uint (m s1) - uint (m s2) else memcmp_loop n (s1 + 1) (s2 + 1) m)"

definition memcmp :: "addr \<Rightarrow> addr \<Rightarrow> u32 \<Rightarrow> mem \<Rightarrow> int" where
  "memcmp v1 v2 n m = memcmp_loop (unat n) v1 v2 m"

definition memmove :: "addr \<Rightarrow> addr \<Rightarrow> u32 \<Rightarrow> mem \<Rightarrow> mem" where
  "memmove dst src n m =
     (if src < dst \<and> src + n > dst
      then copy_down (unat n) (dst + n) (src + n) m
      else copy_up (unat n) dst src m)"

definition memcpy :: "addr \<Rightarrow> addr \<Rightarrow> u32 \<Rightarrow> mem \<Rightarrow> mem" where
  "memcpy dst src n m = memmove dst src n m"

primrec strncmp_loop :: "nat \<Rightarrow> addr \<Rightarrow> addr \<Rightarrow> mem \<Rightarrow> int" where
  "strncmp_loop 0 p q m = 0"
| "strncmp_loop (Suc n) p q m =
     (if m p \<noteq> 0 \<and> m p = m q then strncmp_loop n (p + 1) (q + 1) m else uint (m p) - uint (m q))"

definition strncmp :: "addr \<Rightarrow> addr \<Rightarrow> u32 \<Rightarrow> mem \<Rightarrow> int" where
  "strncmp p q n m = strncmp_loop (unat n) p q m"

primrec strncpy_loop :: "nat \<Rightarrow> addr \<Rightarrow> addr \<Rightarrow> mem \<Rightarrow> mem" where
  "strncpy_loop 0 s t m = m"
| "strncpy_loop (Suc n) s t m =
     (if m t \<noteq> 0 then strncpy_loop n (s + 1) (t + 1) (m(s := m t))
      else set_bytes n (s + 1) 0 (m(s := m t)))"

definition strncpy :: "addr \<Rightarrow> addr \<Rightarrow> int \<Rightarrow> mem \<Rightarrow> mem" where
  "strncpy s t n m = strncpy_loop (nat n) s t m"

primrec safestrcpy_loop :: "nat \<Rightarrow> addr \<Rightarrow> addr \<Rightarrow> mem \<Rightarrow> mem" where
  "safestrcpy_loop 0 s t m = m(s := 0)"
| "safestrcpy_loop (Suc n) s t m =
     (if m t \<noteq> 0 then safestrcpy_loop n (s + 1) (t + 1) (m(s := m t))
      else (m(s := m t))(s + 1 := 0))"

definition safestrcpy :: "addr \<Rightarrow> addr \<Rightarrow> int \<Rightarrow> mem \<Rightarrow> mem" where
  "safestrcpy s t n m = (if n \<le> 0 then m else safestrcpy_loop (nat (n - 1)) s t m)"

partial_function (option) strlen_from :: "mem \<Rightarrow> addr \<Rightarrow> nat \<Rightarrow> nat option" where
  "strlen_from m s n = (if m (s + of_nat n) = 0 then Some n else strlen_from m s (n + 1))"

definition strlen :: "addr \<Rightarrow> mem \<Rightarrow> nat option" where
  "strlen s m = strlen_from m s 0"

section \<open>user/ulib.c\<close>

partial_function (option) strcpy :: "addr \<Rightarrow> addr \<Rightarrow> mem \<Rightarrow> mem option" where
  "strcpy s t m = (if m t = 0 then Some (m(s := 0)) else strcpy (s + 1) (t + 1) (m(s := m t)))"

partial_function (option) strcmp :: "addr \<Rightarrow> addr \<Rightarrow> mem \<Rightarrow> int option" where
  "strcmp p q m = (if m p \<noteq> 0 \<and> m p = m q then strcmp (p + 1) (q + 1) m
     else Some (uint (m p) - uint (m q)))"

definition ulib_strlen :: "addr \<Rightarrow> mem \<Rightarrow> nat option" where
  "ulib_strlen s m = strlen_from m s 0"

definition ulib_memset :: "addr \<Rightarrow> u32 \<Rightarrow> u32 \<Rightarrow> mem \<Rightarrow> mem" where
  "ulib_memset dst c n m = set_bytes (unat n) dst (ucast c) m"

partial_function (option) strchr :: "addr \<Rightarrow> u8 \<Rightarrow> mem \<Rightarrow> addr option" where
  "strchr s c m = (if m s = 0 then Some 0 else if m s = c then Some s else strchr (s + 1) c m)"

text \<open>\<^verbatim>\<open>atoi\<close>; \<^verbatim>\<open>n*10 + *s - '0'\<close> in the 32-bit arithmetic of \<^verbatim>\<open>int\<close>.\<close>

partial_function (option) atoi_from :: "mem \<Rightarrow> addr \<Rightarrow> int \<Rightarrow> int option" where
  "atoi_from m s n = (if 48 \<le> m s \<and> m s \<le> 57 then atoi_from m (s + 1) (int32 (n * 10 + uint (m s) - 48)) else Some n)"

definition atoi :: "addr \<Rightarrow> mem \<Rightarrow> int option" where
  "atoi s m = atoi_from m s 0"

definition ulib_memmove :: "addr \<Rightarrow> addr \<Rightarrow> int \<Rightarrow> mem \<Rightarrow> mem" where
  "ulib_memmove vdst vsrc n m = copy_up (nat n) vdst vsrc m"

text \<open>
  \<^verbatim>\<open>gets\<close>: \<open>input\<close> is the stream of the results of \<^verbatim>\<open>read(0, &c, 1)\<close>, with \<open>None\<close> for a
  call that returned less than 1.
\<close>

fun gets_loop :: "nat \<Rightarrow> u8 option list \<Rightarrow> u8 list \<Rightarrow> u8 list" where
  "gets_loop 0 ins acc = acc @ [0]"
| "gets_loop (Suc room) [] acc = acc @ [0]"
| "gets_loop (Suc room) (None # ins) acc = acc @ [0]"
| "gets_loop (Suc room) (Some c # ins) acc =
     (if c = 10 \<or> c = 13 then acc @ [c] @ [0] else gets_loop room ins (acc @ [c]))"

definition gets :: "u8 option list \<Rightarrow> int \<Rightarrow> u8 list" where
  "gets ins maxn = gets_loop (nat (maxn - 1)) ins []"

section \<open>Ranges of addresses\<close>

lemma add_of_nat_inj:
  "(a :: addr) + of_nat i = a + of_nat j \<Longrightarrow> i < 4294967296 \<Longrightarrow> j < 4294967296 \<Longrightarrow> i = j"
  by (simp add: word_of_nat_eq_iff take_bit_eq_mod)

lemma unat_add_of_nat: "unat (a :: addr) + i < 4294967296 \<Longrightarrow> unat (a + of_nat i) = unat a + i"
  by (simp add: unat_word_ariths unat_of_nat take_bit_eq_mod)

lemma add_of_nat_Suc: "(a :: addr) + 1 + of_nat i = a + of_nat (Suc i)"
  by simp

lemma set_bytes_eq:
  assumes "n \<le> 4294967296"
  shows "set_bytes n a c m = (\<lambda>x. if \<exists>i < n. x = a + of_nat i then c else m x)"
  using assms
proof (induction n arbitrary: a m)
  case 0
  then show ?case by simp
next
  case (Suc n)
  have "(\<exists>i < Suc n. x = a + of_nat i) \<longleftrightarrow> x = a \<or> (\<exists>i < n. x = a + 1 + of_nat i)" for x
    by (auto simp: less_Suc_eq_0_disj add_of_nat_Suc)
  with Suc show ?case by (auto simp: fun_eq_iff)
qed

lemma set_bytes_in: "n \<le> 4294967296 \<Longrightarrow> i < n \<Longrightarrow> set_bytes n a c m (a + of_nat i) = c"
  by (auto simp: set_bytes_eq)

lemma set_bytes_out: "n \<le> 4294967296 \<Longrightarrow> (\<And>i. i < n \<Longrightarrow> x \<noteq> a + of_nat i) \<Longrightarrow> set_bytes n a c m x = m x"
  by (auto simp: set_bytes_eq)

lemma copy_up_out: "(\<And>i. i < n \<Longrightarrow> x \<noteq> d + of_nat i) \<Longrightarrow> copy_up n d s m x = m x"
proof (induction n arbitrary: d s m)
  case 0
  then show ?case by simp
next
  case (Suc n)
  have "x \<noteq> d" using Suc.prems [of 0] by simp
  moreover have "x \<noteq> d + 1 + of_nat i" if "i < n" for i using Suc.prems [of "Suc i"] that by (simp add: add.assoc)
  ultimately show ?case using Suc.IH by simp
qed

lemma copy_up_in:
  assumes "n < 4294967296" and "\<And>i j. i < n \<Longrightarrow> j < i \<Longrightarrow> d + of_nat j \<noteq> s + of_nat i" and "i < n"
  shows "copy_up n d s m (d + of_nat i) = m (s + of_nat i)"
  using assms
proof (induction n arbitrary: d s m i)
  case 0
  then show ?case by simp
next
  case (Suc n)
  show ?case
  proof (cases i)
    case 0
    have "d \<noteq> d + 1 + of_nat j" if "j < n" for j
      using add_of_nat_inj [of d 0 "Suc j"] that Suc.prems(1) by (auto simp: add.assoc)
    then show ?thesis using 0 by (simp add: copy_up_out)
  next
    case (Suc i')
    have "copy_up n (d + 1) (s + 1) (m(d := m s)) (d + 1 + of_nat i') = (m(d := m s)) (s + 1 + of_nat i')"
    proof (rule Suc.IH)
      show "d + 1 + of_nat j \<noteq> s + 1 + of_nat k" if "k < n" "j < k" for k j
        using Suc.prems(2) [of "Suc k" "Suc j"] that by (simp add: add.assoc)
    qed (use Suc.prems Suc in auto)
    moreover have "s + 1 + of_nat i' \<noteq> d" using Suc.prems(2) [of "Suc i'" 0] Suc.prems(3) Suc by (auto simp: add.assoc)
    ultimately show ?thesis using Suc by (simp add: add.assoc)
  qed
qed

lemma copy_down_out: "(\<And>i. i < n \<Longrightarrow> x \<noteq> d - 1 - of_nat i) \<Longrightarrow> copy_down n d s m x = m x"
proof (induction n arbitrary: d s m)
  case 0
  then show ?case by simp
next
  case (Suc n)
  have "x \<noteq> d - 1" using Suc.prems [of 0] by simp
  moreover have "x \<noteq> d - 1 - 1 - of_nat i" if "i < n" for i
    using Suc.prems [of "Suc i"] that by (simp add: algebra_simps)
  ultimately show ?case using Suc.IH by simp
qed

lemma sub_of_nat_inj:
  "(a :: addr) - of_nat i = a - of_nat j \<Longrightarrow> i < 4294967296 \<Longrightarrow> j < 4294967296 \<Longrightarrow> i = j"
  by (simp add: word_of_nat_eq_iff take_bit_eq_mod)

lemma copy_down_in:
  assumes "n < 4294967296" and "\<And>i j. i < n \<Longrightarrow> j < i \<Longrightarrow> d - 1 - of_nat j \<noteq> s - 1 - of_nat i" and "i < n"
  shows "copy_down n d s m (d - 1 - of_nat i) = m (s - 1 - of_nat i)"
  using assms
proof (induction n arbitrary: d s m i)
  case 0
  then show ?case by simp
next
  case (Suc n)
  show ?case
  proof (cases i)
    case 0
    have "d - 1 \<noteq> d - 1 - 1 - of_nat j" if "j < n" for j
      using sub_of_nat_inj [of "d - 1" 0 "Suc j"] that Suc.prems(1) by (auto simp: algebra_simps)
    then show ?thesis using 0 by (simp add: copy_down_out)
  next
    case (Suc i')
    have "copy_down n (d - 1) (s - 1) (m(d - 1 := m (s - 1))) (d - 1 - 1 - of_nat i') = (m(d - 1 := m (s - 1))) (s - 1 - 1 - of_nat i')"
    proof (rule Suc.IH)
      show "d - 1 - 1 - of_nat j \<noteq> s - 1 - 1 - of_nat k" if "k < n" "j < k" for k j
        using Suc.prems(2) [of "Suc k" "Suc j"] that by (simp add: algebra_simps)
    qed (use Suc.prems Suc in auto)
    moreover have "s - 1 - 1 - of_nat i' \<noteq> d - 1" using Suc.prems(2) [of "Suc i'" 0] Suc.prems(3) Suc by (auto simp: algebra_simps)
    ultimately show ?thesis using Suc by (simp add: algebra_simps)
  qed
qed

lemma range_disjoint:
  assumes "unat (a :: addr) + i < 4294967296" and "unat (b :: addr) + j < 4294967296" and "unat a + i \<noteq> unat b + j"
  shows "a + of_nat i \<noteq> b + of_nat j"
  using assms unat_add_of_nat by metis

lemma end_minus: "i < n \<Longrightarrow> (a :: addr) + of_nat n - 1 - of_nat i = a + of_nat (n - 1 - i)"
  by (simp add: of_nat_diff algebra_simps)

section \<open>Properties\<close>

text \<open>C17. \<open>memmove\<close> copies correctly whether or not the two ranges overlap: every byte of the
  destination gets the byte the source had before the call, and no other byte changes.\<close>

theorem memmove_copies:
  assumes d: "unat dst + unat n < 4294967296" and s: "unat src + unat n < 4294967296"
  shows "(\<forall>i < unat n. memmove dst src n m (dst + of_nat i) = m (src + of_nat i)) \<and>
     (\<forall>a. (\<forall>i < unat n. a \<noteq> dst + of_nat i) \<longrightarrow> memmove dst src n m a = m a)"
proof -
  let ?n = "unat n"
  have n: "n = of_nat ?n" and lt: "?n < 4294967296" using unsigned_less [of n] by simp_all
  have end_src: "unat (src + n) = unat src + ?n" using unat_add_of_nat [OF s] by simp
  show ?thesis
  proof (cases "src < dst \<and> src + n > dst")
    case True
    then have sd: "unat src < unat dst" by (simp add: word_less_nat_alt)
    have rd: "dst + n - 1 - of_nat i = dst + of_nat (?n - 1 - i)" "src + n - 1 - of_nat i = src + of_nat (?n - 1 - i)"
      if "i < ?n" for i
      using end_minus [OF that, of dst] end_minus [OF that, of src] by simp_all
    have ok: "dst + n - 1 - of_nat j \<noteq> src + n - 1 - of_nat i" if "i < ?n" "j < i" for i j
    proof -
      have j: "j < ?n" using that by simp
      have "dst + of_nat (?n - 1 - j) \<noteq> src + of_nat (?n - 1 - i)"
        by (rule range_disjoint) (use that sd d s in simp_all)
      then show ?thesis by (simp only: rd(1) [OF j] rd(2) [OF that(1)] not_False_eq_True)
    qed
    have "memmove dst src n m (dst + of_nat i) = m (src + of_nat i)" if i: "i < ?n" for i
    proof -
      have k: "?n - 1 - i < ?n" "?n - 1 - (?n - 1 - i) = i" using i by simp_all
      have "copy_down ?n (dst + n) (src + n) m (dst + n - 1 - of_nat (?n - 1 - i)) = m (src + n - 1 - of_nat (?n - 1 - i))"
        by (rule copy_down_in [OF lt ok k(1)])
      then show ?thesis unfolding rd(1) [OF k(1)] rd(2) [OF k(1)] k(2) using True by (simp add: memmove_def)
    qed
    moreover have "memmove dst src n m a = m a" if a: "\<forall>i < ?n. a \<noteq> dst + of_nat i" for a
    proof -
      have "a \<noteq> dst + n - 1 - of_nat i" if "i < ?n" for i
        unfolding rd(1) [OF that] by (rule a [rule_format]) (use that in simp)
      then show ?thesis using True by (simp add: memmove_def copy_down_out)
    qed
    ultimately show ?thesis by blast
  next
    case False
    have ok: "dst + of_nat j \<noteq> src + of_nat i" if "i < ?n" "j < i" for i j
    proof (rule range_disjoint)
      show "unat dst + j \<noteq> unat src + i"
        using False that end_src by (auto simp: word_less_nat_alt)
    qed (use that d s in simp_all)
    show ?thesis using False copy_up_in [OF lt ok] copy_up_out [of ?n _ dst src m] by (auto simp: memmove_def)
  qed
qed

theorem memmove_copies_witness:
  "memmove 101 100 3 (\<lambda>a. ucast a) 103 = (102 :: u8) \<and> memmove 101 100 3 (\<lambda>a. ucast a) 100 = (100 :: u8)"
proof -
  have "\<forall>i < unat (3 :: u32). memmove 101 100 3 (\<lambda>a. ucast a) (101 + of_nat i) = (ucast (100 + of_nat i :: u32) :: u8)"
    and "\<forall>a. (\<forall>i < unat (3 :: u32). a \<noteq> 101 + of_nat i) \<longrightarrow> memmove 101 100 3 (\<lambda>a. ucast a) a = (ucast a :: u8)"
    using memmove_copies [of 101 3 100 "\<lambda>a. ucast a"] by simp_all
  moreover have "\<forall>i < 3. (100 :: addr) \<noteq> 101 + of_nat i" by (auto simp: less_Suc_eq numeral_3_eq_3)
  moreover have "unat (3 :: u32) = 3" by simp
  ultimately show ?thesis by (auto dest: spec [where x = 2])
qed

lemma safestrcpy_loop_nul:
  "n < 4294967295 \<Longrightarrow> \<exists>i \<le> n. safestrcpy_loop n s t m (s + of_nat i) = 0"
proof (induction n arbitrary: s t m)
  case 0
  then show ?case by simp
next
  case (Suc n)
  show ?case
  proof (cases "m t = 0")
    case True
    then show ?thesis by (intro exI [of _ 1]) simp
  next
    case False
    obtain i where "i \<le> n" "safestrcpy_loop n (s + 1) (t + 1) (m(s := m t)) (s + 1 + of_nat i) = 0"
      using Suc by force
    with False show ?thesis by (intro exI [of _ "Suc i"]) (simp add: add.assoc)
  qed
qed

lemma safestrcpy_loop_out:
  "(\<And>i. i \<le> n \<Longrightarrow> x \<noteq> s + of_nat i) \<Longrightarrow> safestrcpy_loop n s t m x = m x"
proof (induction n arbitrary: s t m)
  case 0
  then show ?case using 0 [of 0] by simp
next
  case (Suc n)
  have "x \<noteq> s" "x \<noteq> s + 1" using Suc.prems [of 0] Suc.prems [of 1] by simp_all
  moreover have "x \<noteq> s + 1 + of_nat i" if "i \<le> n" for i using Suc.prems [of "Suc i"] that by (simp add: add.assoc)
  ultimately show ?case using Suc.IH by simp
qed

text \<open>C18. \<open>safestrcpy\<close> stays within its buffer and terminates it: of a buffer of \<open>n\<close> bytes it
  leaves one that holds a NUL, and it changes nothing outside the buffer.\<close>

theorem safestrcpy_bounded:
  assumes "0 < n" and "n < 4294967295"
  shows "(\<exists>i < nat n. safestrcpy s t n m (s + of_nat i) = 0) \<and>
     (\<forall>a. (\<forall>i < nat n. a \<noteq> s + of_nat i) \<longrightarrow> safestrcpy s t n m a = m a)"
proof -
  have n: "nat n = Suc (nat (n - 1))" and lt: "nat (n - 1) < 4294967295" using assms by simp_all
  obtain i where "i \<le> nat (n - 1)" "safestrcpy_loop (nat (n - 1)) s t m (s + of_nat i) = 0"
    using safestrcpy_loop_nul [OF lt] by blast
  then have "\<exists>i < nat n. safestrcpy s t n m (s + of_nat i) = 0"
    using assms n by (intro exI [of _ i]) (simp add: safestrcpy_def)
  moreover have "safestrcpy s t n m a = m a" if "\<forall>i < nat n. a \<noteq> s + of_nat i" for a
    using that n assms by (simp add: safestrcpy_def safestrcpy_loop_out)
  ultimately show ?thesis by blast
qed

theorem safestrcpy_bounded_witness:
  "(\<exists>i < nat 2. safestrcpy 16 64 2 (\<lambda>a. 7) (16 + of_nat i) = 0) \<and> safestrcpy 16 64 2 (\<lambda>a. 7) 18 = 7"
proof -
  have "(\<forall>i < nat 2. (18 :: addr) \<noteq> 16 + of_nat i)" by (simp add: numeral_2_eq_2 All_less_Suc)
  with safestrcpy_bounded [of 2 16 64 "\<lambda>a. 7"] show ?thesis by auto
qed

lemma strlen_from_step:
  "(\<And>i. i < k \<Longrightarrow> m (s + of_nat (n + i)) \<noteq> 0) \<Longrightarrow> m (s + of_nat (n + k)) = 0 \<Longrightarrow> strlen_from m s n = Some (n + k)"
proof (induction k arbitrary: n)
  case 0
  then show ?case by (simp add: strlen_from.simps)
next
  case (Suc k)
  have "strlen_from m s (n + 1) = Some (n + 1 + k)"
  proof (rule Suc.IH)
    show "m (s + of_nat (n + 1 + i)) \<noteq> 0" if "i < k" for i using Suc.prems(1) [of "Suc i"] that by simp
    show "m (s + of_nat (n + 1 + k)) = 0" using Suc.prems(2) by simp
  qed
  moreover have "m (s + of_nat n) \<noteq> 0" using Suc.prems(1) [of 0] by simp
  ultimately show ?case by (simp add: strlen_from.simps [of m s n])
qed

text \<open>\<open>strlen\<close> returns on every terminated string: its result is the offset of the first NUL.\<close>

theorem strlen_first_nul:
  assumes "m (s + of_nat k) = 0" and "\<forall>i < k. m (s + of_nat i) \<noteq> 0"
  shows "strlen s m = Some k"
  using strlen_from_step [of k m s 0] assms by (simp add: strlen_def)

theorem strlen_first_nul_witness:
  "strlen 100 ((\<lambda>a. 65)(103 := 0)) = Some 3"
  by (rule strlen_first_nul) (simp_all add: numeral_3_eq_3 All_less_Suc)

lemma gets_loop_bound:
  "length (gets_loop room ins acc) \<le> length acc + room + 1 \<and> last (gets_loop room ins acc) = 0 \<and> gets_loop room ins acc \<noteq> []"
  by (induction room ins acc rule: gets_loop.induct) auto

text \<open>\<open>gets\<close> never writes past its buffer: for a buffer of \<open>max\<close> bytes it stores at most
  that many, whatever the input, and the last of them is the terminating NUL.\<close>

theorem gets_bounded:
  assumes "1 \<le> maxn"
  shows "int (length (gets ins maxn)) \<le> maxn \<and> last (gets ins maxn) = 0"
  using gets_loop_bound [of "nat (maxn - 1)" ins "[]"] assms unfolding gets_def by auto

theorem gets_bounded_witness:
  "int (length (gets [Some 97, Some 98, Some 99, Some 10] 3)) \<le> 3"
  using gets_bounded [of 3 "[Some 97, Some 98, Some 99, Some 10]"] by simp

end
