(* ===== verification/Console_Out.thy ===== *)
theory Console_Out
  imports Sched Cstring
begin

text \<open>
  Console output: the serial line (\<^verbatim>\<open>kernel/uart.c\<close>), the screen, formatted printing and the
  message of \<^verbatim>\<open>panic\<close> (\<^verbatim>\<open>kernel/console.c\<close>), the call stack of \<^verbatim>\<open>kernel/spinlock.c\<close> and
  the process listing of \<^verbatim>\<open>kernel/proc.c\<close>. Strings are byte lists without their terminating
  zero; the arguments of \<^verbatim>\<open>cprintf\<close> are a list. The bytes sent to the serial line are collected in
  \<open>k_out\<close>, latest first; waiting for the line to be ready takes no time in the model.
\<close>

definition ch :: "char \<Rightarrow> u8" where
  "ch c = of_char c"

definition bytes :: "string \<Rightarrow> u8 list" where
  "bytes s = map ch s"

section \<open>Serial line and screen\<close>

definition uartputc :: "int \<Rightarrow> unit K" where
  "uartputc c = bindP (reads k_uart) (\<lambda>uart.
     whenP uart (modify (\<lambda>k. k\<lparr>k_out := c mod 256 # k_out k\<rparr>)))"

definition BACKSPACE :: int where [simp]: "BACKSPACE = 0x100"

definition crt_step :: "int \<Rightarrow> crt \<Rightarrow> crt" where
  "crt_step c s =
    (let pos = unat (crt_pos s); mem = crt_mem s;
         (pos1, mem1) = (if c = 10 then (pos + (80 - pos mod 80), mem)
           else if c = BACKSPACE then (if pos > 0 then pos - 1 else pos, mem)
           else (pos + 1, mem[pos := word_of_int c AND 0xff OR 0x0700]));
         (pos2, mem2) = (if pos1 div 80 \<ge> 24
           then (let up = take (23 * 80) (drop 80 mem1) @ drop (23 * 80) mem1; p = pos1 - 80
                 in (p, take p up @ replicate (24 * 80 - p) 0 @ drop (24 * 80) up))
           else (pos1, mem1))
     in \<lparr>crt_pos = of_nat pos2, crt_mem = mem2[pos2 := 0x0720]\<rparr>)"

definition cgaputc :: "int \<Rightarrow> unit K" where
  "cgaputc c = modify (\<lambda>k. k\<lparr>k_crt := crt_step c (k_crt k)\<rparr>)"

definition consputc :: "int \<Rightarrow> unit K" where
  "consputc c = bindP (reads k_panicked) (\<lambda>panicked.
     if panicked then thenP cli spin else
     thenP (if c = BACKSPACE then thenP (uartputc 8) (thenP (uartputc 32) (uartputc 8)) else uartputc c)
       (cgaputc c))"

section \<open>Formatted output\<close>

text \<open>
  The digits the loop of \<^verbatim>\<open>printint\<close> puts into \<^verbatim>\<open>buf\<close>, least significant first. The routine of the user library
  (\<^verbatim>\<open>user/printf.c\<close>) differs in its table of digits, which is the argument \<open>tab\<close>.
\<close>

definition digit :: "nat \<Rightarrow> u8" where
  "digit d = (if d < 10 then 48 + of_nat d else 87 + of_nat d)"

function digits :: "(nat \<Rightarrow> u8) \<Rightarrow> nat \<Rightarrow> nat \<Rightarrow> u8 list" where
  "digits tab base x = tab (x mod base) # (if x div base = 0 \<or> base < 2 then [] else digits tab base (x div base))"
  by pat_completeness auto

termination
proof (relation "measure (snd \<circ> snd)")
  fix tab :: "nat \<Rightarrow> u8" and base x :: nat
  assume "\<not> (x div base = 0 \<or> base < 2)"
  then have "x div base < x" by (intro div_less_dividend) (auto intro: Nat.gr0I)
  then show "((tab, base, x div base), tab, base, x) \<in> measure (snd \<circ> snd)" by simp
qed simp

declare digits.simps [simp del]

definition int_text :: "(nat \<Rightarrow> u8) \<Rightarrow> u32 \<Rightarrow> nat \<Rightarrow> bool \<Rightarrow> u8 list" where
  "int_text tab xx base sign =
    (if sign \<and> sint xx < 0 then 45 # rev (digits tab base (unat (- xx))) else rev (digits tab base (unat xx)))"

definition puts :: "u8 list \<Rightarrow> unit K" where
  "puts s = forP s (\<lambda>c. consputc (uint c))"

definition printint :: "u32 \<Rightarrow> nat \<Rightarrow> bool \<Rightarrow> unit K" where
  "printint xx base sign = puts (int_text digit xx base sign)"

datatype carg = Word u32 | Str "u8 list option"

fun cprintf_loop :: "u8 list \<Rightarrow> carg list \<Rightarrow> unit K" where
  "cprintf_loop [] args = ret ()"
| "cprintf_loop (c # cs) args =
    (if c \<noteq> ch CHR ''%'' then thenP (consputc (uint c)) (cprintf_loop cs args) else
     (case cs of
        [] \<Rightarrow> ret ()
      | d # ds \<Rightarrow>
          if d = ch CHR ''d'' then
            (case args of Word w # as \<Rightarrow> thenP (printint w 10 True) (cprintf_loop ds as) | _ \<Rightarrow> fault ''cprintf argument'')
          else if d = ch CHR ''x'' \<or> d = ch CHR ''p'' then
            (case args of Word w # as \<Rightarrow> thenP (printint w 16 False) (cprintf_loop ds as) | _ \<Rightarrow> fault ''cprintf argument'')
          else if d = ch CHR ''s'' then
            (case args of Str s # as \<Rightarrow> thenP (puts (case s of None \<Rightarrow> bytes ''(null)'' | Some t \<Rightarrow> t)) (cprintf_loop ds as)
             | _ \<Rightarrow> fault ''cprintf argument'')
          else if d = ch CHR ''%'' then thenP (consputc (uint (ch CHR ''%''))) (cprintf_loop ds args)
          else thenP (consputc (uint (ch CHR ''%''))) (thenP (consputc (uint d)) (cprintf_loop ds args))))"

definition cprintf :: "u8 list \<Rightarrow> carg list \<Rightarrow> unit K" where
  "cprintf fmt args = bindP (reads k_locking) (\<lambda>locking.
     thenP (whenP locking (acquire ConsLock))
    (thenP (cprintf_loop fmt args)
    (whenP locking (release ConsLock))))"

section \<open>Panic\<close>

primrec callerpcs :: "nat \<Rightarrow> mem \<Rightarrow> u32 \<Rightarrow> u32 list" where
  "callerpcs 0 m ebp = []"
| "callerpcs (Suc n) m ebp = (if ebp = 0 \<or> ebp < 0x100000 \<or> ebp = 0xffffffff then replicate (Suc n) 0
     else load32 m (ebp + 4) # callerpcs n m (load32 m ebp))"

definition getcallerpcs :: "mem \<Rightarrow> u32 \<Rightarrow> u32 list" where
  "getcallerpcs m v = callerpcs 10 m (v - 8)"

text \<open>
  What \<^verbatim>\<open>panic\<close> does before it stops; \<open>v\<close> is the address of its argument. Elsewhere in the model
  a call of \<^verbatim>\<open>panic\<close> is the outcome \<open>Panic\<close>.
\<close>

definition panic_stop :: "u8 list \<Rightarrow> u32 \<Rightarrow> unit K" where
  "panic_stop s v = thenP cli
    (thenP (modify (\<lambda>k. k\<lparr>k_locking := False\<rparr>))
    (bindP (reads (\<lambda>k. c_id (k_cpu k))) (\<lambda>cid.
     thenP (cprintf (bytes ''cpu%d: panic: '') [Word (of_nat cid)])
    (thenP (cprintf s [])
    (thenP (cprintf [10] [])
    (bindP (reads (\<lambda>k. getcallerpcs (k_mem k) v)) (\<lambda>pcs.
     thenP (forP pcs (\<lambda>pc. cprintf (bytes '' %p'') [Word pc]))
    (thenP (modify (\<lambda>k. k\<lparr>k_panicked := True\<rparr>))
     spin))))))))"

section \<open>Process listing\<close>

definition state_name :: "procstate \<Rightarrow> u8 list" where
  "state_name st = bytes (case st of UNUSED \<Rightarrow> ''unused'' | EMBRYO \<Rightarrow> ''embryo'' | SLEEPING \<Rightarrow> ''sleep ''
     | RUNNABLE \<Rightarrow> ''runble'' | RUNNING \<Rightarrow> ''run   '' | ZOMBIE \<Rightarrow> ''zombie'')"

definition procdump :: "unit K" where
  "procdump = bindP (reads (\<lambda>k. length (k_ptable k))) (\<lambda>n. forP [0..<n] (\<lambda>i.
     bindP (reads (getproc i)) (\<lambda>p.
     if p_state p = UNUSED then ret () else
     thenP (cprintf (bytes ''%d %s %s'') [Word (word_of_int (p_pid p)), Str (Some (state_name (p_state p))), Str (Some (p_name p))])
    (thenP (whenP (p_state p = SLEEPING)
       (bindP (reads (\<lambda>k. getcallerpcs (k_mem k) (ctx_ebp (k_contexts k (p_context p)) + 8))) (\<lambda>pc.
        forP (takeWhile (\<lambda>x. x \<noteq> 0) pc) (\<lambda>x. cprintf (bytes '' %p'') [Word x]))))
    (cprintf [10] [])))))"

end
