(* ===== verification/Ide.thy ===== *)
theory Ide
  imports Sched Bytes
begin

text \<open>
  The disk driver (\<^verbatim>\<open>kernel/ide.c\<close>). The disk is modelled as the array \<open>k_disk\<close> of
  512-byte sectors that the commands written to its registers act on: a write command stores the
  data that follows it, a read command makes the sector available for the transfer the interrupt
  handler does. \<open>idewait\<close> polls the status register until the disk is ready; \<open>k_diskerr\<close> is the
  error bit it then finds. \<^verbatim>\<open>ideinit\<close>, which also routes the interrupt, is in the theory \<open>Devices\<close>.

  A process that waits in \<open>iderw\<close> sleeps while disk interrupts are handled: \<open>disk_env\<close> is what
  happens during one sleep.
\<close>

definition B_BUSY :: u32 where [simp]: "B_BUSY = 1"
definition B_VALID :: u32 where [simp]: "B_VALID = 2"
definition B_DIRTY :: u32 where [simp]: "B_DIRTY = 4"

section \<open>Disk registers\<close>

definition IDE_CMD_READ :: u8 where [simp]: "IDE_CMD_READ = 0x20"
definition IDE_CMD_WRITE :: u8 where [simp]: "IDE_CMD_WRITE = 0x30"

text \<open>The port writes of \<^verbatim>\<open>idestart\<close>, in order.\<close>

definition idestart_ports :: "buf \<Rightarrow> (u16 \<times> u8) list" where
  "idestart_ports b = [
     (0x3f6, 0),
     (0x1f2, 1),
     (0x1f3, ucast (b_sector b AND 0xff)),
     (0x1f4, ucast (drop_bit 8 (b_sector b) AND 0xff)),
     (0x1f5, ucast (drop_bit 16 (b_sector b) AND 0xff)),
     (0x1f6, ucast (0xe0 OR push_bit 4 (b_dev b AND 1) OR (drop_bit 24 (b_sector b) AND 0x0f))),
     (0x1f7, if b_flags b AND B_DIRTY \<noteq> 0 then IDE_CMD_WRITE else IDE_CMD_READ)]"

text \<open>What the disk makes of its registers: the device and the sector they address.\<close>

definition port_value :: "(u16 \<times> u8) list \<Rightarrow> u16 \<Rightarrow> u32" where
  "port_value ports r = (case map_of (rev ports) r of Some v \<Rightarrow> ucast v | None \<Rightarrow> 0)"

definition disk_sector :: "(u16 \<times> u8) list \<Rightarrow> u32" where
  "disk_sector ports = port_value ports 0x1f3 OR push_bit 8 (port_value ports 0x1f4)
     OR push_bit 16 (port_value ports 0x1f5) OR push_bit 24 (port_value ports 0x1f6 AND 0x0f)"

definition disk_dev :: "(u16 \<times> u8) list \<Rightarrow> u32" where
  "disk_dev ports = drop_bit 4 (port_value ports 0x1f6) AND 1"

section \<open>Operations\<close>

definition idewait :: "bool \<Rightarrow> int K" where
  "idewait checkerr = reads (\<lambda>k. if checkerr \<and> k_diskerr k then - 1 else 0)"

definition idestart :: "nat option \<Rightarrow> unit K" where
  "idestart b = (case b of None \<Rightarrow> panic ''idestart'' | Some b \<Rightarrow>
     bindP (idewait False) (\<lambda>_.
     bindP (reads (\<lambda>k. k_bufs k ! b)) (\<lambda>buf.
     let ports = idestart_ports buf in
     whenP (b_flags buf AND B_DIRTY \<noteq> 0)
       (modify (\<lambda>k. k\<lparr>k_disk := (k_disk k)(disk_dev ports :=
          (k_disk k (disk_dev ports))(disk_sector ports := b_data buf))\<rparr>)))))"

definition ideintr :: "unit K" where
  "ideintr = thenP (acquire IdeLock)
    (bindP (reads k_idequeue) (\<lambda>q.
     case q of
       None \<Rightarrow> release IdeLock
     | Some b \<Rightarrow>
         bindP (reads (\<lambda>k. k_bufs k ! b)) (\<lambda>buf.
         thenP (modify (\<lambda>k. k\<lparr>k_idequeue := b_qnext buf\<rparr>))
        (bindP (if b_flags buf AND B_DIRTY = 0 then idewait True else ret (- 1)) (\<lambda>r.
         thenP (whenP (r \<ge> 0)
           (modify (\<lambda>k. setbuf b (\<lambda>x. x\<lparr>b_data :=
              k_disk k (disk_dev (idestart_ports buf)) (disk_sector (idestart_ports buf))\<rparr>) k)))
        (thenP (modify (setbuf b (\<lambda>x. x\<lparr>b_flags := b_flags x OR B_VALID\<rparr>)))
        (thenP (modify (setbuf b (\<lambda>x. x\<lparr>b_flags := b_flags x AND NOT B_DIRTY\<rparr>)))
        (thenP (wakeup (BufChan b))
        (bindP (reads k_idequeue) (\<lambda>q'.
         thenP (whenP (q' \<noteq> None) (idestart q'))
        (release IdeLock))))))))))) "

text \<open>Appending to the request queue: \<open>ide_last\<close> follows \<^verbatim>\<open>qnext\<close> to the last request.\<close>

primrec ide_last :: "nat \<Rightarrow> buf list \<Rightarrow> nat \<Rightarrow> nat" where
  "ide_last 0 bufs b = b"
| "ide_last (Suc fuel) bufs b = (case b_qnext (bufs ! b) of None \<Rightarrow> b | Some c \<Rightarrow> ide_last fuel bufs c)"

definition ide_append :: "nat \<Rightarrow> unit K" where
  "ide_append b = thenP (modify (setbuf b (\<lambda>x. x\<lparr>b_qnext := None\<rparr>)))
    (modify (\<lambda>k. case k_idequeue k of
       None \<Rightarrow> k\<lparr>k_idequeue := Some b\<rparr>
     | Some h \<Rightarrow> setbuf (ide_last NBUF (k_bufs k) h) (\<lambda>x. x\<lparr>b_qnext := Some b\<rparr>) k))"

text \<open>
  One sleep in \<open>iderw\<close>: the scheduler gives up \<^verbatim>\<open>ptable.lock\<close> and lets interrupts in; disk
  interrupts are served until the sleeping process \<open>p\<close> is runnable again, and the scheduler
  switches back to it.
\<close>

primrec disk_interrupts :: "nat \<Rightarrow> nat \<Rightarrow> kernel \<Rightarrow> kernel" where
  "disk_interrupts 0 p k = k"
| "disk_interrupts (Suc fuel) p k = (if p_state (getproc p k) = RUNNABLE then k else
     (case ideintr k of Ret _ k' \<Rightarrow> disk_interrupts fuel p k' | _ \<Rightarrow> k))"

definition disk_env :: "nat \<Rightarrow> kernel \<Rightarrow> kernel" where
  "disk_env p k = setproc p (\<lambda>q. q\<lparr>p_state := RUNNING\<rparr>)
     (enter PtableLock (disk_interrupts (NBUF + 1) p (leave PtableLock k)))"

primrec iderw_wait :: "nat \<Rightarrow> nat \<Rightarrow> unit K" where
  "iderw_wait 0 b = switch"
| "iderw_wait (Suc fuel) b = bindP (reads (\<lambda>k. b_flags (k_bufs k ! b))) (\<lambda>fl.
     if fl AND (B_VALID OR B_DIRTY) \<noteq> B_VALID
     then bindP curproc (\<lambda>p. thenP (sleep (BufChan b) IdeLock (Some (disk_env p))) (iderw_wait fuel b))
     else ret ())"

definition iderw :: "nat \<Rightarrow> unit K" where
  "iderw b = bindP (reads (\<lambda>k. k_bufs k ! b)) (\<lambda>buf.
     if b_flags buf AND B_BUSY = 0 then panic ''iderw: buf not busy'' else
     if b_flags buf AND (B_VALID OR B_DIRTY) = B_VALID then panic ''iderw: nothing to do'' else
     bindP (reads k_havedisk1) (\<lambda>d1.
     if b_dev buf \<noteq> 0 \<and> \<not> d1 then panic ''iderw: ide disk 1 not present'' else
     thenP (acquire IdeLock)
    (thenP (ide_append b)
    (bindP (reads k_idequeue) (\<lambda>q.
     thenP (whenP (q = Some b) (idestart (Some b)))
    (thenP (iderw_wait (NBUF + 1) b)
    (release IdeLock)))))))"

lemma word32_bit_eqI:
  assumes "\<forall>n \<in> {0, 1, 2, 3, 4, 5, 6, 7, 8, 9, 10, 11, 12, 13, 14, 15, 16, 17, 18, 19, 20, 21, 22, 23, 24, 25, 26, 27, 28, 29, 30, 31}.
     bit (a :: u32) n = bit b n"
  shows "a = b"
proof (rule bit_word_eqI)
  have "\<forall>n < 32. bit a n = bit b n" using assms by (simp add: numeral_eq_Suc All_less_Suc)
  then show "bit a n = bit b n" if "n < LENGTH(32)" for n using that by simp
qed

lemma ucast_byte: "(ucast (ucast (w :: u32) :: u8) :: u32) = w AND 0xff"
  by (rule word32_bit_eqI) (simp add: bit_simps)

lemma port_value_start:
  "port_value (idestart_ports b) 0x1f3 = b_sector b AND 0xff"
  "port_value (idestart_ports b) 0x1f4 = drop_bit 8 (b_sector b) AND 0xff"
  "port_value (idestart_ports b) 0x1f5 = drop_bit 16 (b_sector b) AND 0xff"
  "port_value (idestart_ports b) 0x1f6 = (0xe0 OR push_bit 4 (b_dev b AND 1) OR (drop_bit 24 (b_sector b) AND 0x0f)) AND 0xff"
  by (simp_all add: port_value_def idestart_ports_def ucast_byte and.assoc)

lemma disk_dev_start [simp]: "disk_dev (idestart_ports b) = b_dev b AND 1"
  unfolding disk_dev_def port_value_start
  by (rule word32_bit_eqI) (simp add: bit_simps)

lemma disk_sector_start [simp]: "disk_sector (idestart_ports b) = b_sector b AND 0x0fffffff"
  unfolding disk_sector_def port_value_start
  by (rule word32_bit_eqI) (simp add: bit_simps)

section \<open>A request on an idle disk\<close>

definition disk_data :: "kernel \<Rightarrow> u32 \<Rightarrow> u32 \<Rightarrow> u8 list" where
  "disk_data k dev sec = k_disk k (dev AND 1) (sec AND 0x0fffffff)"

definition ide_done :: "kernel \<Rightarrow> buf \<Rightarrow> buf" where
  "ide_done k x = x\<lparr>b_data := (if b_flags x AND B_DIRTY = 0 then disk_data k (b_dev x) (b_sector x) else b_data x),
     b_flags := (b_flags x OR B_VALID) AND NOT B_DIRTY\<rparr>"

definition disk_written :: "buf \<Rightarrow> (u32 \<Rightarrow> u32 \<Rightarrow> u8 list) \<Rightarrow> u32 \<Rightarrow> u32 \<Rightarrow> u8 list" where
  "disk_written x d = (if b_flags x AND B_DIRTY = 0 then d else
     d(b_dev x AND 1 := (d (b_dev x AND 1))(b_sector x AND 0x0fffffff := b_data x)))"

lemma idestart_eq: "idestart (Some b) k = Ret () (k\<lparr>k_disk := disk_written (k_bufs k ! b) (k_disk k)\<rparr>)"
  by (simp add: idestart_def idewait_def disk_written_def Let_def)

lemma ideintr_eq:
  assumes "k_idequeue k = Some b" and "b < length (k_bufs k)" and "b_qnext (k_bufs k ! b) = None"
    and "unlocked IdeLock k" and "unlocked PtableLock k" and "cli_ok k" and "\<not> k_diskerr k"
  shows "ideintr k = Ret () ((touch k)\<lparr>k_idequeue := None, k_bufs := (k_bufs k)[b := ide_done k (k_bufs k ! b)],
     k_ptable := map (wakeup1_proc (BufChan b)) (k_ptable k)\<rparr>)"
proof (cases "b_flags (k_bufs k ! b) AND B_DIRTY = 0")
  case True
  with assms show ?thesis
    by (simp add: ideintr_def idewait_def ide_done_def setbuf_def disk_data_def cli_ok_def)
next
  case False
  with assms show ?thesis
    by (simp add: ideintr_def idewait_def ide_done_def setbuf_def disk_data_def cli_ok_def)
qed

lemma pop_push_push: "0 \<le> c_ncli c \<Longrightarrow> pop_cpu (push_cpu (push_cpu c)) = push_cpu c"
  by (rule cpu.equality) simp_all

lemma leave_enter_enter [simp]:
  assumes "lk \<noteq> lk'" and "unlocked lk k" and "cli_ok k"
  shows "leave lk (enter lk' (enter lk k)) = enter lk' k"
proof -
  have "(k_locks k)(lk := free_lock, lk' := l) = (k_locks k)(lk' := l)" for l
    using assms by (simp add: fun_upd_idem)
  with assms show ?thesis
    by (simp add: leave_def enter_def pop_push_push cli_ok_def fun_upd_twist)
qed

lemma release_held:
  "k_locks k lk = \<lparr>sl_locked = 1, sl_cpu = Some (c_id (k_cpu k))\<rparr> \<Longrightarrow> 1 \<le> c_ncli (k_cpu k) \<Longrightarrow>
     \<not> c_IF (k_cpu k) \<Longrightarrow> release lk k = Ret () (leave lk k)"
  by (rule release_eq) (simp_all add: holding_def)

lemma sleep_resumes_eq:
  assumes cur: "c_proc (k_cpu k) = Some p" "p < length (k_ptable k)" "c_ncli (k_cpu k) = 0"
    and lk: "lk \<noteq> PtableLock" "unlocked lk k" "unlocked PtableLock k"
    and env: "e (setproc p (\<lambda>q. q\<lparr>p_chan := ch, p_state := SLEEPING\<rparr>) (enter PtableLock k)) = enter PtableLock k'"
    and res: "c_ncli (k_cpu k') = 0" "c_proc (k_cpu k') = Some p" "c_IF (k_cpu k') = c_IF (k_cpu k)"
      "unlocked lk k'" "unlocked PtableLock k'"
  shows "sleep ch lk (Some e) (enter lk k) = Ret () (enter lk (setproc p (\<lambda>q. q\<lparr>p_chan := NoChan\<rparr>) k'))"
proof -
  have c: "cli_ok k" "cli_ok k'" using cur res by (simp_all add: cli_ok_def)
  have "setcpu (\<lambda>c. c\<lparr>c_intena := c_IF (k_cpu k)\<rparr>) (enter PtableLock k') = enter PtableLock k'"
    using res by (simp add: setcpu_def enter_def push_cpu_def)
  with assms c show ?thesis by (simp add: sleep_def sched_def holding_def)
qed

lemma done_flags [simp]:
  "((f OR 2) AND - 5) AND 6 = (2 :: u32)"
  "((f OR 2) AND - 5) AND 4 = (0 :: u32)"
  "((f OR 2) AND - 5) AND 1 = (f AND 1 :: u32)"
  by (rule word32_bit_eqI, simp add: bit_simps)+

definition disk_ready :: "nat \<Rightarrow> kernel \<Rightarrow> bool" where
  "disk_ready p k \<longleftrightarrow> c_proc (k_cpu k) = Some p \<and> p < length (k_ptable k) \<and> c_ncli (k_cpu k) = 0 \<and>
     unlocked IdeLock k \<and> unlocked PtableLock k \<and> k_idequeue k = None \<and> \<not> k_diskerr k"

definition ide_woken :: "nat \<Rightarrow> nat \<Rightarrow> proc list \<Rightarrow> proc list" where
  "ide_woken p b ps = (map (wakeup1_proc (BufChan b)) ps)[p := (ps ! p)\<lparr>p_state := RUNNING, p_chan := NoChan\<rparr>]"

lemma iderw_wait_eq:
  assumes k: "disk_ready p k" and b: "b < length (k_bufs k)" and q: "b_qnext (k_bufs k ! b) = None"
    and fl: "b_flags (k_bufs k ! b) AND (B_VALID OR B_DIRTY) \<noteq> B_VALID"
  shows "iderw_wait (Suc (Suc n)) b (enter IdeLock (k\<lparr>k_idequeue := Some b\<rparr>)) =
     Ret () (enter IdeLock (k\<lparr>k_bufs := (k_bufs k)[b := ide_done k (k_bufs k ! b)],
       k_ptable := ide_woken p b (k_ptable k)\<rparr>))"
proof -
  let ?k = "k\<lparr>k_idequeue := Some b\<rparr>"
  let ?s = "setproc p (\<lambda>q. q\<lparr>p_chan := BufChan b, p_state := SLEEPING\<rparr>) (touch ?k)"
  let ?ps = "(k_ptable k)[p := (k_ptable k ! p)\<lparr>p_chan := BufChan b, p_state := SLEEPING\<rparr>]"
  let ?i = "(touch k)\<lparr>k_bufs := (k_bufs k)[b := ide_done k (k_bufs k ! b)],
     k_ptable := map (wakeup1_proc (BufChan b)) ?ps\<rparr>"
  have c: "cli_ok k" "c_proc (k_cpu k) = Some p" "p < length (k_ptable k)" "c_ncli (k_cpu k) = 0"
    "unlocked IdeLock k" "unlocked PtableLock k" "k_idequeue k = None"
    using k by (simp_all add: disk_ready_def cli_ok_def)
  have dd: "ide_done ?s x = ide_done k x" for x
    by (simp add: ide_done_def disk_data_def)
  have idq: "k'\<lparr>k_idequeue := None\<rparr> = k'" if "k_idequeue k' = None" for k' :: kernel
    using that by simp
  have "ideintr ?s = Ret () ?i"
    using ideintr_eq [of ?s b] k b q c dd
    by (simp add: disk_ready_def setproc_def touch_def idq cli_ok_def)
  moreover have "p_state (getproc p ?s) = SLEEPING" "p_state (getproc p ?i) = RUNNABLE"
    using c by (simp_all, simp add: getproc_def wakeup1_proc_def)
  ultimately have "disk_interrupts (NBUF + 1) p ?s = ?i"
    by (simp add: eval_nat_numeral)
  moreover have "leave PtableLock (setproc p (\<lambda>q. q\<lparr>p_chan := BufChan b, p_state := SLEEPING\<rparr>) (enter PtableLock ?k)) = ?s"
    using c by simp
  ultimately have env: "disk_env p (setproc p (\<lambda>q. q\<lparr>p_chan := BufChan b, p_state := SLEEPING\<rparr>) (enter PtableLock ?k)) =
     enter PtableLock (setproc p (\<lambda>q. q\<lparr>p_state := RUNNING\<rparr>) ?i)"
    by (simp only: disk_env_def enter_set)
  have "sleep (BufChan b) IdeLock (Some (disk_env p)) (enter IdeLock ?k) =
     Ret () (enter IdeLock (setproc p (\<lambda>q. q\<lparr>p_chan := NoChan\<rparr>) (setproc p (\<lambda>q. q\<lparr>p_state := RUNNING\<rparr>) ?i)))"
    by (rule sleep_resumes_eq) (use c env in simp_all)
  also have "setproc p (\<lambda>q. q\<lparr>p_chan := NoChan\<rparr>) (setproc p (\<lambda>q. q\<lparr>p_state := RUNNING\<rparr>) ?i) =
     (touch k)\<lparr>k_bufs := (k_bufs k)[b := ide_done k (k_bufs k ! b)], k_ptable := ide_woken p b (k_ptable k)\<rparr>"
    using c by (simp add: setproc_def ide_woken_def map_update wakeup1_proc_def)
  finally show ?thesis using fl b c by (simp add: ide_done_def)
qed

lemma iderw_eq:
  assumes k: "disk_ready p k" and b: "b < length (k_bufs k)"
    and busy: "b_flags (k_bufs k ! b) AND B_BUSY \<noteq> 0"
    and fl: "b_flags (k_bufs k ! b) AND (B_VALID OR B_DIRTY) \<noteq> B_VALID"
    and dev: "b_dev (k_bufs k ! b) = 0 \<or> k_havedisk1 k"
  shows "iderw b k = Ret () ((touch k)\<lparr>k_disk := disk_written (k_bufs k ! b) (k_disk k),
     k_bufs := (k_bufs k)[b := ide_done k ((k_bufs k ! b)\<lparr>b_qnext := None\<rparr>)],
     k_ptable := ide_woken p b (k_ptable k)\<rparr>)"
proof -
  let ?x = "(k_bufs k ! b)\<lparr>b_qnext := None\<rparr>"
  let ?k = "k\<lparr>k_bufs := (k_bufs k)[b := ?x], k_disk := disk_written (k_bufs k ! b) (k_disk k)\<rparr>"
  have r: "disk_ready p ?k" using k by (simp add: disk_ready_def)
  have x: "disk_written ?x d = disk_written (k_bufs k ! b) d" for d
    by (simp add: disk_written_def)
  have "ide_done ?k ?x = ide_done k ?x"
    by (simp add: ide_done_def disk_written_def disk_data_def)
  then have "iderw_wait (Suc (Suc 9)) b (enter IdeLock (?k\<lparr>k_idequeue := Some b\<rparr>)) =
      Ret () (enter IdeLock (?k\<lparr>k_bufs := (k_bufs k)[b := ide_done k ?x], k_ptable := ide_woken p b (k_ptable k)\<rparr>))"
    using iderw_wait_eq [OF r, of b 9] b fl by (simp del: iderw_wait.simps)
  moreover have "unlocked IdeLock k" "cli_ok k" "k_idequeue k = None" "c_ncli (k_cpu k) = 0"
    using k by (simp_all add: disk_ready_def cli_ok_def)
  moreover have swap: "k'\<lparr>k_idequeue := q, k_disk := d\<rparr> = k'\<lparr>k_disk := d, k_idequeue := q\<rparr>" for k' :: kernel and q d
    by simp
  ultimately show ?thesis
    using b busy fl dev
    by (simp add: iderw_def ide_append_def setbuf_def idestart_eq x swap del: iderw_wait.simps)
qed

end
