(* ===== verification/Bio.thy ===== *)
theory Bio
  imports Ide
begin

text \<open>
  The buffer cache (\<^verbatim>\<open>kernel/bio.c\<close>). \<open>k_bufs\<close> holds \<^verbatim>\<open>bcache.buf\<close> at the indices below
  \<open>NBUF\<close> and \<^verbatim>\<open>bcache.head\<close> at \<open>NBUF\<close>; the fields \<^verbatim>\<open>prev\<close> and \<^verbatim>\<open>next\<close> are such
  indices. A process that finds its buffer busy sleeps and does not come back in this model: the
  outcome is \<open>Switch\<close>.

  The doubly linked list of the code refines a list of buffers in which \<open>brelse\<close> moves its
  buffer to the front and \<open>bget\<close> takes the last free one; on it rests the contract of the
  cache towards the file system: \<open>bread\<close> gives the contents of the sector, \<open>bwrite\<close> changes
  that sector of the disk and no other.
\<close>

section \<open>Operations\<close>

definition binit_add :: "nat \<Rightarrow> kernel \<Rightarrow> kernel" where
  "binit_add b k =
    (let k1 = setbuf b (\<lambda>x. x\<lparr>b_next := b_next (k_bufs k ! NBUF)\<rparr>) k;
         k2 = setbuf b (\<lambda>x. x\<lparr>b_prev := NBUF\<rparr>) k1;
         k3 = setbuf b (\<lambda>x. x\<lparr>b_dev := - 1\<rparr>) k2;
         k4 = setbuf (b_next (k_bufs k3 ! NBUF)) (\<lambda>x. x\<lparr>b_prev := b\<rparr>) k3
     in setbuf NBUF (\<lambda>x. x\<lparr>b_next := b\<rparr>) k4)"

definition binit :: "unit K" where
  "binit = thenP (initlock BcacheLock)
    (thenP (modify (setbuf NBUF (\<lambda>x. x\<lparr>b_prev := NBUF\<rparr>)))
    (thenP (modify (setbuf NBUF (\<lambda>x. x\<lparr>b_next := NBUF\<rparr>)))
    (forP [0..<NBUF] (\<lambda>b. modify (binit_add b)))))"

text \<open>
  The buffers a walk from \<open>b\<close> along \<^verbatim>\<open>next\<close>, or along \<^verbatim>\<open>prev\<close>, visits before it comes to
  \<^verbatim>\<open>&bcache.head\<close>. There are \<open>NBUF\<close> buffers, so \<open>NBUF + 1\<close> steps end the walk.
\<close>

primrec walk :: "nat \<Rightarrow> (buf \<Rightarrow> nat) \<Rightarrow> buf list \<Rightarrow> nat \<Rightarrow> nat list" where
  "walk 0 link bufs b = []"
| "walk (Suc fuel) link bufs b = (if b = NBUF then [] else b # walk fuel link bufs (link (bufs ! b)))"

definition lru :: "buf list \<Rightarrow> nat list" where
  "lru bufs = walk (NBUF + 1) b_next bufs (b_next (bufs ! NBUF))"

definition lru_back :: "buf list \<Rightarrow> nat list" where
  "lru_back bufs = walk (NBUF + 1) b_prev bufs (b_prev (bufs ! NBUF))"

definition bget_cached :: "u32 \<Rightarrow> u32 \<Rightarrow> buf list \<Rightarrow> nat option" where
  "bget_cached dev sector bufs =
     find (\<lambda>b. b_dev (bufs ! b) = dev \<and> b_sector (bufs ! b) = sector) (lru bufs)"

definition bget_free :: "buf list \<Rightarrow> nat option" where
  "bget_free bufs = find (\<lambda>b. b_flags (bufs ! b) AND B_BUSY = 0) (lru_back bufs)"

definition bget :: "u32 \<Rightarrow> u32 \<Rightarrow> nat K" where
  "bget dev sector = thenP (acquire BcacheLock)
    (bindP (reads (\<lambda>k. bget_cached dev sector (k_bufs k))) (\<lambda>r.
     case r of
       Some b \<Rightarrow>
         bindP (reads (\<lambda>k. b_flags (k_bufs k ! b))) (\<lambda>fl.
         if fl AND B_BUSY = 0
         then thenP (modify (setbuf b (\<lambda>x. x\<lparr>b_flags := b_flags x OR B_BUSY\<rparr>)))
             (thenP (release BcacheLock) (ret b))
         else thenP (sleep (BufChan b) BcacheLock None) switch)
     | None \<Rightarrow>
         bindP (reads (\<lambda>k. bget_free (k_bufs k))) (\<lambda>r'.
         case r' of
           Some b \<Rightarrow>
             thenP (modify (setbuf b (\<lambda>x. x\<lparr>b_dev := dev\<rparr>)))
            (thenP (modify (setbuf b (\<lambda>x. x\<lparr>b_sector := sector\<rparr>)))
            (thenP (modify (setbuf b (\<lambda>x. x\<lparr>b_flags := B_BUSY\<rparr>)))
            (thenP (release BcacheLock) (ret b))))
         | None \<Rightarrow> panic ''bget: no buffers'')))"

definition bread :: "u32 \<Rightarrow> u32 \<Rightarrow> nat K" where
  "bread dev sector = bindP (bget dev sector) (\<lambda>b.
     bindP (reads (\<lambda>k. b_flags (k_bufs k ! b))) (\<lambda>fl.
     thenP (whenP (fl AND B_VALID = 0) (iderw b))
     (ret b)))"

definition bwrite :: "nat \<Rightarrow> unit K" where
  "bwrite b = bindP (reads (\<lambda>k. b_flags (k_bufs k ! b))) (\<lambda>fl.
     if fl AND B_BUSY = 0 then panic ''bwrite'' else
     thenP (modify (setbuf b (\<lambda>x. x\<lparr>b_flags := b_flags x OR B_DIRTY\<rparr>)))
     (iderw b))"

definition to_front :: "nat \<Rightarrow> kernel \<Rightarrow> kernel" where
  "to_front b k =
    (let k1 = setbuf (b_next (k_bufs k ! b)) (\<lambda>x. x\<lparr>b_prev := b_prev (k_bufs k ! b)\<rparr>) k;
         k2 = setbuf (b_prev (k_bufs k1 ! b)) (\<lambda>x. x\<lparr>b_next := b_next (k_bufs k1 ! b)\<rparr>) k1;
         k3 = setbuf b (\<lambda>x. x\<lparr>b_next := b_next (k_bufs k2 ! NBUF)\<rparr>) k2;
         k4 = setbuf b (\<lambda>x. x\<lparr>b_prev := NBUF\<rparr>) k3;
         k5 = setbuf (b_next (k_bufs k4 ! NBUF)) (\<lambda>x. x\<lparr>b_prev := b\<rparr>) k4
     in setbuf NBUF (\<lambda>x. x\<lparr>b_next := b\<rparr>) k5)"

definition brelse :: "nat \<Rightarrow> unit K" where
  "brelse b = bindP (reads (\<lambda>k. b_flags (k_bufs k ! b))) (\<lambda>fl.
     if fl AND B_BUSY = 0 then panic ''brelse'' else
     thenP (acquire BcacheLock)
    (thenP (modify (to_front b))
    (thenP (modify (setbuf b (\<lambda>x. x\<lparr>b_flags := b_flags x AND NOT B_BUSY\<rparr>)))
    (thenP (wakeup (BufChan b))
    (release BcacheLock)))))"

section \<open>The ring of buffers\<close>

fun linked :: "(nat \<Rightarrow> nat) \<Rightarrow> (nat \<Rightarrow> nat) \<Rightarrow> nat list \<Rightarrow> bool" where
  "linked nx pv (a # b # r) = (nx a = b \<and> pv b = a \<and> linked nx pv (b # r))"
| "linked nx pv _ = True"

definition next_of :: "buf list \<Rightarrow> nat \<Rightarrow> nat" where "next_of bufs i = b_next (bufs ! i)"
definition prev_of :: "buf list \<Rightarrow> nat \<Rightarrow> nat" where "prev_of bufs i = b_prev (bufs ! i)"

text \<open>\<open>ring bufs xs\<close>: from the head, \<^verbatim>\<open>next\<close> visits the buffers \<open>xs\<close> and \<^verbatim>\<open>prev\<close> visits them
  in the opposite order.\<close>

definition ring :: "buf list \<Rightarrow> nat list \<Rightarrow> bool" where
  "ring bufs xs \<longleftrightarrow> length bufs = Suc NBUF \<and> distinct xs \<and> set xs = {0..<NBUF} \<and>
     linked (next_of bufs) (prev_of bufs) (NBUF # xs @ [NBUF])"

lemma linked_append:
  "linked nx pv (as @ c # bs) \<longleftrightarrow> linked nx pv (as @ [c]) \<and> linked nx pv (c # bs)"
proof (induction as)
  case (Cons a as)
  then show ?case by (cases as) auto
qed simp

lemma linked_cong:
  "\<forall>a \<in> set (butlast xs). nx' a = nx a \<Longrightarrow> \<forall>a \<in> set (tl xs). pv' a = pv a \<Longrightarrow> linked nx' pv' xs = linked nx pv xs"
  by (induction nx pv xs rule: linked.induct) auto

lemma linked_upd:
  "a \<notin> set (butlast xs) \<Longrightarrow> linked (nx(a := c)) pv xs = linked nx pv xs"
  "a \<notin> set (tl xs) \<Longrightarrow> linked nx (pv(a := c)) xs = linked nx pv xs"
  by (rule linked_cong; auto)+

lemma linked_move_front:
  assumes d: "distinct (h # ys @ b # zs)" and l: "linked nx pv (h # ys @ b # zs @ [h])"
    and pv1: "pv1 = pv(nx b := pv b)"
    and nx2: "nx2 = nx(pv1 b := nx b)"
    and nx3: "nx3 = nx2(b := nx2 h)"
    and pv4: "pv4 = pv1(b := h)"
    and pv5: "pv5 = pv4(nx3 h := b)"
    and nx6: "nx6 = nx3(h := b)"
  shows "linked nx6 pv5 (h # b # ys @ zs @ [h])"
proof (cases ys rule: rev_cases)
  case Nil
  then show ?thesis using d l unfolding nx6 pv5 pv4 nx3 nx2 pv1 by (cases zs) (auto simp: linked_upd)
next
  case (snoc ys' y)
  obtain w ws where ys: "ys = w # ws" using snoc by (metis append_is_Nil_conv list.exhaust list.distinct(1))
  let ?n = "hd (zs @ [h])"
  have lh: "linked nx pv (h # ys)" "nx y = b" "pv b = y" "linked nx pv (b # zs @ [h])"
    using l linked_append [of nx pv "h # ys'" y "b # zs @ [h]"] snoc by auto
  then have l': "nx h = w" "pv w = h" using ys by auto
  have n: "nx b = ?n" "pv ?n = b" using lh by (cases zs; simp)+
  have mem: "y \<in> set ys" "w \<in> set ys" using snoc apply simp using ys by simp
  have neq: "?n \<noteq> b" "?n \<noteq> y" "?n \<noteq> w" "y \<noteq> b" "y \<noteq> h" "w \<noteq> b" "w \<noteq> h" "b \<noteq> h"
    using d mem by (cases zs; auto)+
  have nx6': "nx6 = nx(y := ?n, b := w, h := b)" and pv5': "pv5 = pv(?n := y, b := h, w := b)"
    unfolding nx6 pv5 pv4 nx3 nx2 pv1 using n lh l' neq by auto
  have "linked nx6 pv5 ys = linked nx pv ys"
    unfolding nx6' pv5'
  proof (rule linked_cong)
    show "\<forall>a \<in> set (butlast ys). (nx(y := ?n, b := w, h := b)) a = nx a"
      using d snoc by auto
    show "\<forall>a \<in> set (tl ys). (pv(?n := y, b := h, w := b)) a = pv a"
      using d ys by (cases zs) auto
  qed
  then have a: "linked nx6 pv5 ys" using lh ys by simp
  have "linked nx6 pv5 (zs @ [h]) = linked nx pv (zs @ [h])"
    unfolding nx6' pv5'
  proof (rule linked_cong)
    show "\<forall>a \<in> set (butlast (zs @ [h])). (nx(y := ?n, b := w, h := b)) a = nx a"
      using d snoc by auto
    show "\<forall>a \<in> set (tl (zs @ [h])). (pv(?n := y, b := h, w := b)) a = pv a"
      using d ys by (cases zs) auto
  qed
  then have "linked nx6 pv5 (zs @ [h])" using lh by (cases zs) auto
  moreover have "nx6 y = ?n" "pv5 ?n = y" using neq unfolding nx6' pv5' by auto
  ultimately have b: "linked nx6 pv5 (y # zs @ [h])" by (cases zs) auto
  have "linked nx6 pv5 (ys @ zs @ [h])" using linked_append [of nx6 pv5 ys' y "zs @ [h]"] a b snoc by simp
  moreover have "nx6 h = b" "pv5 b = h" "nx6 b = w" "pv5 w = b" using neq unfolding nx6' pv5' by auto
  ultimately show ?thesis using ys by simp
qed

lemma next_of_update [simp]:
  "i < length bufs \<Longrightarrow> next_of (bufs[i := x]) = (next_of bufs)(i := b_next x)"
  by (auto simp: next_of_def fun_eq_iff nth_list_update)

lemma prev_of_update [simp]:
  "i < length bufs \<Longrightarrow> prev_of (bufs[i := x]) = (prev_of bufs)(i := b_prev x)"
  by (auto simp: prev_of_def fun_eq_iff nth_list_update)

lemma linked_walk_next:
  "linked (next_of bufs) pv (a # xs @ [NBUF]) \<Longrightarrow> NBUF \<notin> set xs \<Longrightarrow> length xs < fuel \<Longrightarrow>
     walk fuel b_next bufs (b_next (bufs ! a)) = xs"
proof (induction xs arbitrary: a fuel)
  case Nil then show ?case by (cases fuel) (auto simp: next_of_def)
next
  case (Cons x xs) then show ?case by (cases fuel) (auto simp: next_of_def)
qed

lemma linked_walk_prev:
  "linked nx (prev_of bufs) (NBUF # xs @ [a]) \<Longrightarrow> NBUF \<notin> set xs \<Longrightarrow> length xs < fuel \<Longrightarrow>
     walk fuel b_prev bufs (b_prev (bufs ! a)) = rev xs"
proof (induction xs arbitrary: a fuel rule: rev_induct)
  case Nil then show ?case by (cases fuel) (auto simp: prev_of_def)
next
  case (snoc x xs)
  have l: "linked nx (prev_of bufs) (NBUF # xs @ [x])" and "prev_of bufs a = x"
    using snoc.prems(1) linked_append [of nx "prev_of bufs" "NBUF # xs" x "[a]"] by auto
  then have a: "b_prev (bufs ! a) = x" by (simp add: prev_of_def)
  from l have "walk (fuel - 1) b_prev bufs (b_prev (bufs ! x)) = rev xs"
    using snoc.IH [of x "fuel - 1"] snoc.prems by auto
  then show ?case using a snoc.prems by (cases fuel) auto
qed

lemma ring_length: "ring bufs xs \<Longrightarrow> length xs = NBUF"
  unfolding ring_def by (metis card_atLeastLessThan diff_zero distinct_card)

lemma ring_lru: "ring bufs xs \<Longrightarrow> lru bufs = xs"
  using linked_walk_next [of bufs "prev_of bufs" NBUF xs "NBUF + 1"] ring_length [of bufs xs]
  by (auto simp: ring_def lru_def)

lemma ring_lru_back: "ring bufs xs \<Longrightarrow> lru_back bufs = rev xs"
  using linked_walk_prev [of "next_of bufs" bufs xs NBUF "NBUF + 1"] ring_length [of bufs xs]
  by (auto simp: ring_def lru_back_def)

lemma linked_mem:
  "linked nx pv xs \<Longrightarrow> (\<forall>a \<in> set (butlast xs). nx a \<in> set xs) \<and> (\<forall>a \<in> set (tl xs). pv a \<in> set xs)"
  by (induction nx pv xs rule: linked.induct) (auto split: if_splits)

lemma next_of_setbuf:
  "i < length (k_bufs k) \<Longrightarrow> next_of (k_bufs (setbuf i f k)) = (next_of (k_bufs k))(i := b_next (f (k_bufs k ! i)))"
  by (simp add: setbuf_def)

lemma prev_of_setbuf:
  "i < length (k_bufs k) \<Longrightarrow> prev_of (k_bufs (setbuf i f k)) = (prev_of (k_bufs k))(i := b_prev (f (k_bufs k ! i)))"
  by (simp add: setbuf_def)

lemma link_triv [simp]: "(next_of bufs)(i := b_next (bufs ! i)) = next_of bufs"
  "(prev_of bufs)(i := b_prev (bufs ! i)) = prev_of bufs"
  by (auto simp: next_of_def prev_of_def)

lemma ring_bounds:
  assumes "ring bufs xs" "i \<in> set (NBUF # xs)"
  shows "next_of bufs i < Suc NBUF" "prev_of bufs i < Suc NBUF"
proof -
  have s: "set (NBUF # xs @ [NBUF]) = {..<Suc NBUF}" using assms by (auto simp: ring_def)
  have "next_of bufs i \<in> set (NBUF # xs @ [NBUF])" "prev_of bufs i \<in> set (NBUF # xs @ [NBUF])"
    using linked_mem [of "next_of bufs" "prev_of bufs" "NBUF # xs @ [NBUF]"] assms
    by (auto simp: ring_def butlast_append)
  then show "next_of bufs i < Suc NBUF" "prev_of bufs i < Suc NBUF" unfolding s by simp_all
qed

lemma ring_to_front:
  assumes r: "ring (k_bufs k) xs" and b: "b \<in> set xs"
  shows "ring (k_bufs (to_front b k)) (b # remove1 b xs)"
proof -
  obtain ys zs where xs: "xs = ys @ b # zs" "b \<notin> set ys" using b by (metis split_list_first)
  let ?nx = "next_of (k_bufs k)" and ?pv = "prev_of (k_bufs k)"
  have len: "length (k_bufs k) = Suc NBUF" using r by (simp add: ring_def)
  have l: "linked ?nx ?pv (NBUF # ys @ b # zs @ [NBUF])" and d: "distinct (NBUF # ys @ b # zs)"
    using r xs by (auto simp: ring_def)
  have bd: "?nx b < Suc NBUF" "?pv b < Suc NBUF" "?nx NBUF < Suc NBUF" "b < Suc NBUF"
    using ring_bounds [OF r] b r by (auto simp: ring_def)
  define k1 where "k1 = setbuf (b_next (k_bufs k ! b)) (\<lambda>x. x\<lparr>b_prev := b_prev (k_bufs k ! b)\<rparr>) k"
  define k2 where "k2 = setbuf (b_prev (k_bufs k1 ! b)) (\<lambda>x. x\<lparr>b_next := b_next (k_bufs k1 ! b)\<rparr>) k1"
  define k3 where "k3 = setbuf b (\<lambda>x. x\<lparr>b_next := b_next (k_bufs k2 ! NBUF)\<rparr>) k2"
  define k4 where "k4 = setbuf b (\<lambda>x. x\<lparr>b_prev := NBUF\<rparr>) k3"
  define k5 where "k5 = setbuf (b_next (k_bufs k4 ! NBUF)) (\<lambda>x. x\<lparr>b_prev := b\<rparr>) k4"
  have lens: "length (k_bufs k1) = Suc NBUF" "length (k_bufs k2) = Suc NBUF" "length (k_bufs k3) = Suc NBUF"
     "length (k_bufs k4) = Suc NBUF" "length (k_bufs k5) = Suc NBUF"
    using len by (simp_all add: k1_def k2_def k3_def k4_def k5_def setbuf_def)
  have n1: "next_of (k_bufs k1) = ?nx" "prev_of (k_bufs k1) = ?pv(?nx b := ?pv b)"
    using bd len unfolding k1_def by (simp_all add: next_of_setbuf prev_of_setbuf flip: next_of_def prev_of_def)
  have p1: "prev_of (k_bufs k1) b < Suc NBUF" using bd n1 by simp
  have n2: "next_of (k_bufs k2) = ?nx(prev_of (k_bufs k1) b := ?nx b)" "prev_of (k_bufs k2) = prev_of (k_bufs k1)"
    using p1 lens n1 unfolding k2_def
    by (simp_all add: next_of_setbuf prev_of_setbuf fun_eq_iff flip: next_of_def prev_of_def)
  have n3: "next_of (k_bufs k3) = (next_of (k_bufs k2))(b := next_of (k_bufs k2) NBUF)" "prev_of (k_bufs k3) = prev_of (k_bufs k1)"
    using bd lens n2 unfolding k3_def by (simp_all add: next_of_setbuf prev_of_setbuf flip: next_of_def prev_of_def)
  have n4: "next_of (k_bufs k4) = next_of (k_bufs k3)" "prev_of (k_bufs k4) = (prev_of (k_bufs k3))(b := NBUF)"
    using bd lens unfolding k4_def by (simp_all add: next_of_setbuf prev_of_setbuf flip: next_of_def prev_of_def)
  have p4: "next_of (k_bufs k4) NBUF < Suc NBUF" using bd n4 n3 n2 by simp
  have n5: "next_of (k_bufs k5) = next_of (k_bufs k3)"
      "prev_of (k_bufs k5) = (prev_of (k_bufs k4))(next_of (k_bufs k3) NBUF := b)"
    using p4 lens n4 unfolding k5_def by (simp_all add: next_of_setbuf prev_of_setbuf flip: next_of_def prev_of_def)
  have n6: "next_of (k_bufs (to_front b k)) = (next_of (k_bufs k3))(NBUF := b)"
      "prev_of (k_bufs (to_front b k)) = prev_of (k_bufs k5)"
    unfolding to_front_def Let_def k1_def [symmetric] k2_def [symmetric] k3_def [symmetric]
      k4_def [symmetric] k5_def [symmetric]
    using lens n5 by (simp_all add: next_of_setbuf prev_of_setbuf fun_eq_iff flip: next_of_def prev_of_def)
  have "linked (next_of (k_bufs (to_front b k))) (prev_of (k_bufs (to_front b k))) (NBUF # b # ys @ zs @ [NBUF])"
    by (rule linked_move_front [OF d l n1(2) n2(1) n3(1)])
       (simp_all only: n4 n3(2) n5(2) n6)
  moreover have "length (k_bufs (to_front b k)) = Suc NBUF"
    unfolding to_front_def Let_def by (simp add: len setbuf_def)
  moreover have "remove1 b xs = ys @ zs" "set xs = insert b (set (ys @ zs))" using xs by (auto simp: remove1_append)
  ultimately show ?thesis using r d by (simp add: ring_def)
qed

section \<open>The contract of the cache\<close>

text \<open>What the operations of the cache leave alone: everything but the buffers, the disk, the
  scheduling state of the processes and \<^verbatim>\<open>cpu->intena\<close>.\<close>

definition rest :: "kernel \<Rightarrow> kernel" where
  "rest k = k\<lparr>k_cpu := (k_cpu k)\<lparr>c_intena := False\<rparr>,
     k_ptable := map (\<lambda>q. q\<lparr>p_state := UNUSED, p_chan := NoChan\<rparr>) (k_ptable k),
     k_bufs := [], k_disk := \<lambda>_ _. []\<rparr>"

definition held :: "buf list \<Rightarrow> nat set" where
  "held bufs = {b. b < NBUF \<and> b_flags (bufs ! b) AND B_BUSY \<noteq> 0}"

definition sector_ok :: "u32 \<Rightarrow> u32 \<Rightarrow> bool" where
  "sector_ok dev sec \<longleftrightarrow> dev AND 1 = dev \<and> sec AND 0x0fffffff = sec"

text \<open>No two buffers are for the same sector, none is waiting to be written, and a buffer nobody
  holds that is marked valid has the contents of its sector.\<close>

definition bufs_ok :: "(u32 \<Rightarrow> u32 \<Rightarrow> u8 list) \<Rightarrow> buf list \<Rightarrow> bool" where
  "bufs_ok disk bufs \<longleftrightarrow> ring bufs (lru bufs) \<and>
     (\<forall>i < NBUF. b_dev (bufs ! i) \<noteq> - 1 \<longrightarrow> sector_ok (b_dev (bufs ! i)) (b_sector (bufs ! i)) \<and>
        (\<forall>j < NBUF. b_dev (bufs ! i) = b_dev (bufs ! j) \<and> b_sector (bufs ! i) = b_sector (bufs ! j) \<longrightarrow> i = j)) \<and>
     (\<forall>i < NBUF. b_flags (bufs ! i) AND B_DIRTY = 0 \<and>
        (b_flags (bufs ! i) AND B_BUSY \<noteq> 0 \<longrightarrow> b_dev (bufs ! i) \<noteq> - 1) \<and>
        (b_flags (bufs ! i) AND B_BUSY = 0 \<and> b_flags (bufs ! i) AND B_VALID \<noteq> 0 \<longrightarrow>
           b_data (bufs ! i) = disk (b_dev (bufs ! i)) (b_sector (bufs ! i))))"

definition bio_ok :: "nat \<Rightarrow> kernel \<Rightarrow> bool" where
  "bio_ok p k \<longleftrightarrow> disk_ready p k \<and> unlocked BcacheLock k \<and> k_havedisk1 k \<and> bufs_ok (k_disk k) (k_bufs k)"

lemma rest_sel:
  assumes "rest k' = rest k"
  shows "k_locks k' = k_locks k" "k_mem k' = k_mem k" "k_freelist k' = k_freelist k" "k_icache k' = k_icache k"
    "k_idequeue k' = k_idequeue k" "k_havedisk1 k' = k_havedisk1 k" "k_diskerr k' = k_diskerr k"
    "k_ftable k' = k_ftable k" "k_pipes k' = k_pipes k" "k_input k' = k_input k" "k_devsw k' = k_devsw k"
    "k_ticks k' = k_ticks k" "k_out k' = k_out k"
    "c_proc (k_cpu k') = c_proc (k_cpu k)" "c_ncli (k_cpu k') = c_ncli (k_cpu k)" "c_IF (k_cpu k') = c_IF (k_cpu k)"
    "c_id (k_cpu k') = c_id (k_cpu k)" "length (k_ptable k') = length (k_ptable k)"
proof -
  note a = arg_cong [OF assms]
  show "k_locks k' = k_locks k" "k_mem k' = k_mem k" "k_freelist k' = k_freelist k" "k_icache k' = k_icache k"
    "k_idequeue k' = k_idequeue k" "k_havedisk1 k' = k_havedisk1 k" "k_diskerr k' = k_diskerr k"
    "k_ftable k' = k_ftable k" "k_pipes k' = k_pipes k" "k_input k' = k_input k" "k_devsw k' = k_devsw k"
    "k_ticks k' = k_ticks k" "k_out k' = k_out k"
    "c_proc (k_cpu k') = c_proc (k_cpu k)" "c_ncli (k_cpu k') = c_ncli (k_cpu k)" "c_IF (k_cpu k') = c_IF (k_cpu k)"
    "c_id (k_cpu k') = c_id (k_cpu k)" "length (k_ptable k') = length (k_ptable k)"
    using a [of k_locks] a [of k_mem] a [of k_freelist] a [of k_icache] a [of k_idequeue] a [of k_havedisk1]
      a [of k_diskerr] a [of k_ftable] a [of k_pipes] a [of k_input] a [of k_devsw] a [of k_ticks] a [of k_out]
      a [of "\<lambda>k. c_proc (k_cpu k)"] a [of "\<lambda>k. c_ncli (k_cpu k)"] a [of "\<lambda>k. c_IF (k_cpu k)"]
      a [of "\<lambda>k. c_id (k_cpu k)"] a [of "\<lambda>k. length (k_ptable k)"]
    by (simp_all add: rest_def)
qed

lemma rest_upd [simp]:
  "rest (k\<lparr>k_bufs := bs\<rparr>) = rest k" "rest (k\<lparr>k_disk := d\<rparr>) = rest k" "rest (touch k) = rest k"
  "rest (setbuf i f k) = rest k" "rest (to_front b k) = rest k"
  by (simp_all add: rest_def touch_def setbuf_def to_front_def Let_def)

lemma rest_wakeup [simp]: "k_ptable k = ps \<Longrightarrow> rest (k\<lparr>k_ptable := map (wakeup1_proc ch) ps\<rparr>) = rest k"
  by (auto simp: rest_def wakeup1_proc_def comp_def)

lemma rest_ide_woken [simp]:
  "k_ptable k = ps \<Longrightarrow> p < length ps \<Longrightarrow> rest (k\<lparr>k_ptable := ide_woken p b ps\<rparr>) = rest k"
  by (auto simp: rest_def ide_woken_def wakeup1_proc_def comp_def map_update list_eq_iff_nth_eq nth_list_update)

lemma disk_ready_rest: "rest k' = rest k \<Longrightarrow> disk_ready p k' = disk_ready p k"
  using rest_sel [of k' k] by (simp add: disk_ready_def)

lemma bio_ok_rest:
  "rest k' = rest k \<Longrightarrow> bio_ok p k \<Longrightarrow> bufs_ok (k_disk k') (k_bufs k') \<Longrightarrow> bio_ok p k'"
  using rest_sel [of k' k] disk_ready_rest [of k' k p] by (simp add: bio_ok_def)
lemma find_SomeD: "find P xs = Some x \<Longrightarrow> x \<in> set xs \<and> P x"
  by (induction xs) (auto split: if_splits)

lemma ring_cong:
  "next_of bufs' = next_of bufs \<Longrightarrow> prev_of bufs' = prev_of bufs \<Longrightarrow> length bufs' = length bufs \<Longrightarrow>
     ring bufs' xs = ring bufs xs"
  by (simp add: ring_def)

lemma bufs_okD:
  assumes "bufs_ok disk bufs"
  shows "ring bufs (lru bufs)" "length bufs = Suc NBUF" "set (lru bufs) = {0..<NBUF}"
  using assms by (simp_all add: bufs_ok_def ring_def)

lemma bufs_ok_same:
  "bufs_ok disk bufs \<Longrightarrow> i < NBUF \<Longrightarrow> j < NBUF \<Longrightarrow> b_dev (bufs ! i) \<noteq> - 1 \<Longrightarrow> b_dev (bufs ! j) = b_dev (bufs ! i) \<Longrightarrow>
     b_sector (bufs ! j) = b_sector (bufs ! i) \<Longrightarrow> j = i"
  unfolding bufs_ok_def by metis

lemma bufs_ok_sector:
  "bufs_ok disk bufs \<Longrightarrow> i < NBUF \<Longrightarrow> b_dev (bufs ! i) \<noteq> - 1 \<Longrightarrow> sector_ok (b_dev (bufs ! i)) (b_sector (bufs ! i))"
  unfolding bufs_ok_def by blast

lemma bufs_ok_clean:
  "bufs_ok disk bufs \<Longrightarrow> i < NBUF \<Longrightarrow> b_flags (bufs ! i) AND B_BUSY = 0 \<Longrightarrow> b_flags (bufs ! i) AND B_VALID \<noteq> 0 \<Longrightarrow>
     b_data (bufs ! i) = disk (b_dev (bufs ! i)) (b_sector (bufs ! i))"
  unfolding bufs_ok_def by blast

lemma bufs_ok_dirty: "bufs_ok disk bufs \<Longrightarrow> i < NBUF \<Longrightarrow> b_flags (bufs ! i) AND B_DIRTY = 0"
  unfolding bufs_ok_def by blast

lemma bufs_ok_held: "bufs_ok disk bufs \<Longrightarrow> i \<in> held bufs \<Longrightarrow> b_dev (bufs ! i) \<noteq> - 1"
  unfolding bufs_ok_def held_def by blast

lemma bufs_ok_update:
  assumes ok: "bufs_ok disk bufs" and b: "b < NBUF"
    and x: "b_next x = b_next (bufs ! b)" "b_prev x = b_prev (bufs ! b)"
    and sec: "b_dev x \<noteq> - 1 \<Longrightarrow> sector_ok (b_dev x) (b_sector x)"
    and uni: "\<And>j. b_dev x \<noteq> - 1 \<Longrightarrow> j < NBUF \<Longrightarrow> j \<noteq> b \<Longrightarrow> b_dev (bufs ! j) = b_dev x \<Longrightarrow> b_sector (bufs ! j) \<noteq> b_sector x"
    and dirty: "b_flags x AND B_DIRTY = 0" and busy: "b_flags x AND B_BUSY \<noteq> 0 \<Longrightarrow> b_dev x \<noteq> - 1"
      "b_flags x AND B_BUSY = 0 \<Longrightarrow> b_flags x AND B_VALID \<noteq> 0 \<Longrightarrow> b_data x = disk (b_dev x) (b_sector x)"
  shows "bufs_ok disk (bufs[b := x])"
proof -
  note d = bufs_okD [OF ok]
  have bl: "b < length bufs" using b d by simp
  have r: "ring (bufs[b := x]) xs = ring bufs xs" for xs
    by (rule ring_cong) (simp_all add: bl x)
  have "lru (bufs[b := x]) = lru bufs" by (rule ring_lru) (simp only: r d)
  then have 1: "ring (bufs[b := x]) (lru (bufs[b := x]))" by (simp only: r d)
  have 2: "sector_ok (b_dev (bufs[b := x] ! i)) (b_sector (bufs[b := x] ! i)) \<and>
       (\<forall>j < NBUF. b_dev (bufs[b := x] ! i) = b_dev (bufs[b := x] ! j) \<and>
          b_sector (bufs[b := x] ! i) = b_sector (bufs[b := x] ! j) \<longrightarrow> i = j)"
    if i: "i < NBUF" "b_dev (bufs[b := x] ! i) \<noteq> - 1" for i
  proof (cases "i = b")
    case True
    have "i = j" if "j < NBUF" "b_dev x = b_dev (bufs[b := x] ! j)" "b_sector x = b_sector (bufs[b := x] ! j)" for j
    proof (rule ccontr)
      assume "i \<noteq> j"
      with that True have "b_dev (bufs ! j) = b_dev x" "b_sector (bufs ! j) = b_sector x" by auto
      with uni [of j] that(1) i True bl \<open>i \<noteq> j\<close> show False by simp
    qed
    moreover have "sector_ok (b_dev x) (b_sector x)" using i sec bl True by simp
    ultimately show ?thesis using True bl by (simp only: nth_list_update_eq) blast
  next
    case False
    then have e: "bufs[b := x] ! i = bufs ! i" by simp
    have n: "b_dev (bufs ! i) \<noteq> - 1" using i(2) e by simp
    have "i = j" if j: "j < NBUF" "b_dev (bufs ! i) = b_dev (bufs[b := x] ! j)"
      "b_sector (bufs ! i) = b_sector (bufs[b := x] ! j)" for j
    proof (cases "j = b")
      case True
      then have "b_dev (bufs ! i) = b_dev x" "b_sector (bufs ! i) = b_sector x" using j bl by simp_all
      with uni [of i] n i(1) False show ?thesis by simp
    next
      case False
      then have "b_dev (bufs ! j) = b_dev (bufs ! i)" "b_sector (bufs ! j) = b_sector (bufs ! i)" using j by simp_all
      then show ?thesis using bufs_ok_same [OF ok i(1) j(1) n] by simp
    qed
    then show ?thesis unfolding e using bufs_ok_sector [OF ok i(1) n] by blast
  qed
  have 3: "b_flags (bufs[b := x] ! i) AND B_DIRTY = 0 \<and>
        (b_flags (bufs[b := x] ! i) AND B_BUSY \<noteq> 0 \<longrightarrow> b_dev (bufs[b := x] ! i) \<noteq> - 1) \<and>
        (b_flags (bufs[b := x] ! i) AND B_BUSY = 0 \<and> b_flags (bufs[b := x] ! i) AND B_VALID \<noteq> 0 \<longrightarrow>
           b_data (bufs[b := x] ! i) = disk (b_dev (bufs[b := x] ! i)) (b_sector (bufs[b := x] ! i)))"
    if i: "i < NBUF" for i
  proof (cases "i = b")
    case True
    then show ?thesis using busy dirty i bl by simp
  next
    case False
    then have e: "bufs[b := x] ! i = bufs ! i" by simp
    show ?thesis using i ok unfolding e bufs_ok_def by blast
  qed
  show ?thesis unfolding bufs_ok_def by (intro conjI 1) (use 2 in blast, use 3 in blast)
qed

lemma bget_cached_spec:
  assumes ok: "bufs_ok disk bufs" and dev: "dev \<noteq> - 1"
  shows "bget_cached dev sec bufs = Some b \<longleftrightarrow> b < NBUF \<and> b_dev (bufs ! b) = dev \<and> b_sector (bufs ! b) = sec"
    and "bget_cached dev sec bufs = None \<longleftrightarrow> (\<forall>b < NBUF. b_dev (bufs ! b) = dev \<longrightarrow> b_sector (bufs ! b) \<noteq> sec)"
proof -
  note d = bufs_okD [OF ok]
  show n: "bget_cached dev sec bufs = None \<longleftrightarrow> (\<forall>b < NBUF. b_dev (bufs ! b) = dev \<longrightarrow> b_sector (bufs ! b) \<noteq> sec)"
    using d by (auto simp: bget_cached_def find_None_iff)
  have s: "b < NBUF \<and> b_dev (bufs ! b) = dev \<and> b_sector (bufs ! b) = sec"
    if "bget_cached dev sec bufs = Some b" for b
    using that d find_SomeD [OF that [unfolded bget_cached_def]] by auto
  show "bget_cached dev sec bufs = Some b \<longleftrightarrow> b < NBUF \<and> b_dev (bufs ! b) = dev \<and> b_sector (bufs ! b) = sec"
  proof
    assume b: "b < NBUF \<and> b_dev (bufs ! b) = dev \<and> b_sector (bufs ! b) = sec"
    then obtain c where c: "bget_cached dev sec bufs = Some c" using n by (cases "bget_cached dev sec bufs") auto
    with s b bufs_ok_same [OF ok, of b c] dev show "bget_cached dev sec bufs = Some b" by metis
  qed (rule s)
qed

lemma bget_free_spec:
  assumes ok: "bufs_ok disk bufs"
  shows "bget_free bufs = Some b \<Longrightarrow> b < NBUF \<and> b \<notin> held bufs" and "bget_free bufs = None \<longleftrightarrow> held bufs = {0..<NBUF}"
proof -
  have l: "set (lru_back bufs) = {0..<NBUF}" using ring_lru_back [OF bufs_okD(1) [OF ok]] bufs_okD(3) [OF ok] by simp
  show "b < NBUF \<and> b \<notin> held bufs" if "bget_free bufs = Some b"
    using find_SomeD [OF that [unfolded bget_free_def]] l by (simp add: held_def)
  show "bget_free bufs = None \<longleftrightarrow> held bufs = {0..<NBUF}"
    unfolding bget_free_def find_None_iff l held_def set_eq_iff mem_Collect_eq atLeastLessThan_iff by blast
qed
lemma busy_flags [simp]:
  "(f OR 1) AND 1 = (1 :: u32)" "(f OR 1) AND 2 = (f AND 2 :: u32)" "(f OR 1) AND 4 = (f AND 4 :: u32)"
  "(f OR 4) AND 1 = (f AND 1 :: u32)" "(f OR 4) AND 4 = (4 :: u32)" "(f OR 4) AND 2 = (f AND 2 :: u32)"
  "((f OR 2) AND - 5) AND 2 = (2 :: u32)"
  "(f AND - 2) AND 1 = (0 :: u32)" "(f AND - 2) AND 2 = (f AND 2 :: u32)" "(f AND - 2) AND 4 = (f AND 4 :: u32)"
  "(f OR 4) AND 6 \<noteq> (2 :: u32)"
proof -
  show "(f OR 4) AND 6 \<noteq> (2 :: u32)"
  proof
    assume "(f OR 4) AND 6 = (2 :: u32)"
    then have "bit ((f OR 4) AND 6) 2 = bit (2 :: u32) 2" by simp
    then show False by (simp add: bit_simps)
  qed
qed (rule word32_bit_eqI, simp add: bit_simps)+

lemma valid_flags: "f AND 2 = (0 :: u32) \<Longrightarrow> f AND 6 \<noteq> 2"
proof
  assume "f AND 2 = (0 :: u32)" "f AND 6 = 2"
  then have "bit (f AND 2) 1 = bit (0 :: u32) 1" "bit (f AND 6) 1 = bit (2 :: u32) 1" by simp_all
  then show False by (simp add: bit_simps)
qed

lemma sector_ok_dev [simp]: "sector_ok dev sec \<Longrightarrow> dev \<noteq> - 1"
  by (auto simp: sector_ok_def)

lemma disk_data_ok: "sector_ok dev sec \<Longrightarrow> disk_data k dev sec = k_disk k dev sec"
  by (simp add: disk_data_def sector_ok_def)

lemma held_update: "b < NBUF \<Longrightarrow> length bufs = Suc NBUF \<Longrightarrow>
    held (bufs[b := x]) = (if b_flags x AND B_BUSY \<noteq> 0 then insert b (held bufs) else held bufs - {b})"
  by (auto simp: held_def nth_list_update)

text \<open>\<open>bget\<close> hands out a buffer nobody held: the one of the sector when it is cached, else the
  least recently used free one.\<close>

lemma bget_spec:
  assumes k: "bio_ok p k" and sec: "sector_ok dev sec" and room: "held (k_bufs k) \<noteq> {0..<NBUF}"
    and free: "\<forall>b \<in> held (k_bufs k). b_dev (k_bufs k ! b) = dev \<longrightarrow> b_sector (k_bufs k ! b) \<noteq> sec"
  shows "\<exists>b x. bget dev sec k = Ret b ((touch k)\<lparr>k_bufs := (k_bufs k)[b := x]\<rparr>) \<and> b < NBUF \<and> b \<notin> held (k_bufs k) \<and>
    bufs_ok (k_disk k) ((k_bufs k)[b := x]) \<and> b_dev x = dev \<and> b_sector x = sec \<and> b_flags x AND B_BUSY \<noteq> 0 \<and>
    b_flags x AND B_DIRTY = 0 \<and> (b_flags x AND B_VALID \<noteq> 0 \<longrightarrow> b_data x = k_disk k dev sec)"
proof -
  have ok: "bufs_ok (k_disk k) (k_bufs k)" and c: "unlocked BcacheLock k" "cli_ok k" "0 \<le> c_ncli (k_cpu k)"
    using k by (simp_all add: bio_ok_def disk_ready_def cli_ok_def)
  have dev: "dev \<noteq> - 1" using sec by simp
  show ?thesis
  proof (cases "bget_cached dev sec (k_bufs k)")
    case (Some b)
    let ?x = "(k_bufs k ! b)\<lparr>b_flags := b_flags (k_bufs k ! b) OR B_BUSY\<rparr>"
    have b: "b < NBUF" "b_dev (k_bufs k ! b) = dev" "b_sector (k_bufs k ! b) = sec"
      using Some bget_cached_spec(1) [OF ok dev] by simp_all
    with free have nb: "b \<notin> held (k_bufs k)" by blast
    then have fl: "b_flags (k_bufs k ! b) AND B_BUSY = 0" using b by (simp add: held_def)
    have "bget dev sec k = Ret b ((touch k)\<lparr>k_bufs := (k_bufs k)[b := ?x]\<rparr>)"
      using Some fl c by (simp add: bget_def setbuf_def)
    moreover have "bufs_ok (k_disk k) ((k_bufs k)[b := ?x])"
    proof (rule bufs_ok_update [OF ok b(1)])
      show "b_sector (k_bufs k ! j) \<noteq> b_sector ?x" if "j < NBUF" "j \<noteq> b" "b_dev (k_bufs k ! j) = b_dev ?x" for j
        using bufs_ok_same [OF ok b(1) that(1)] that b dev by auto
    qed (use b sec bufs_ok_dirty [OF ok b(1)] in simp_all)
    moreover have "b_flags ?x AND B_DIRTY = 0 \<and> (b_flags ?x AND B_VALID \<noteq> 0 \<longrightarrow> b_data ?x = k_disk k dev sec)"
      using bufs_ok_clean [OF ok b(1) fl] bufs_ok_dirty [OF ok b(1)] b by simp
    ultimately show ?thesis using b nb by (intro exI [of _ b] exI [of _ ?x]) simp
  next
    case None
    then have nc: "b_sector (k_bufs k ! j) \<noteq> sec" if "j < NBUF" "b_dev (k_bufs k ! j) = dev" for j
      using bget_cached_spec(2) [OF ok dev] that by blast
    obtain b where f: "bget_free (k_bufs k) = Some b" using bget_free_spec(2) [OF ok] room
      by (cases "bget_free (k_bufs k)") auto
    let ?x = "(k_bufs k ! b)\<lparr>b_dev := dev, b_sector := sec, b_flags := B_BUSY\<rparr>"
    have b: "b < NBUF" "b \<notin> held (k_bufs k)" using bget_free_spec(1) [OF ok f] by simp_all
    have "b < length (k_bufs k)" using bufs_okD [OF ok] b by simp
    then have "bget dev sec k = Ret b ((touch k)\<lparr>k_bufs := (k_bufs k)[b := ?x]\<rparr>)"
      using None f c by (simp add: bget_def setbuf_def)
    moreover have "bufs_ok (k_disk k) ((k_bufs k)[b := ?x])"
      using b sec nc by (intro bufs_ok_update [OF ok]) simp_all
    ultimately show ?thesis using b by (intro exI [of _ b] exI [of _ ?x]) simp
  qed
qed

lemma bread_spec:
  assumes k: "bio_ok p k" and sec: "sector_ok dev sec" and room: "held (k_bufs k) \<noteq> {0..<NBUF}"
    and free: "\<forall>b \<in> held (k_bufs k). b_dev (k_bufs k ! b) = dev \<longrightarrow> b_sector (k_bufs k ! b) \<noteq> sec"
  shows "\<exists>b k'. bread dev sec k = Ret b k' \<and> bio_ok p k' \<and> rest k' = rest k \<and> k_disk k' = k_disk k \<and>
    b < NBUF \<and> b \<notin> held (k_bufs k) \<and> held (k_bufs k') = insert b (held (k_bufs k)) \<and>
    b_dev (k_bufs k' ! b) = dev \<and> b_sector (k_bufs k' ! b) = sec \<and> b_data (k_bufs k' ! b) = k_disk k dev sec \<and>
    (\<forall>i. i \<noteq> b \<longrightarrow> k_bufs k' ! i = k_bufs k ! i)"
proof -
  obtain b x where g: "bget dev sec k = Ret b ((touch k)\<lparr>k_bufs := (k_bufs k)[b := x]\<rparr>)" and b: "b < NBUF" "b \<notin> held (k_bufs k)"
    and ok: "bufs_ok (k_disk k) ((k_bufs k)[b := x])" and x: "b_dev x = dev" "b_sector x = sec" "b_flags x AND B_BUSY \<noteq> 0"
      "b_flags x AND B_DIRTY = 0" "b_flags x AND B_VALID \<noteq> 0 \<longrightarrow> b_data x = k_disk k dev sec"
    using bget_spec [OF assms] by blast
  have len: "length (k_bufs k) = Suc NBUF" using k bufs_okD by (auto simp: bio_ok_def)
  let ?k = "(touch k)\<lparr>k_bufs := (k_bufs k)[b := x]\<rparr>"
  have r: "rest ?k = rest k" by simp
  have bk: "bio_ok p ?k" by (rule bio_ok_rest [OF r k]) (simp add: ok)
  show ?thesis
  proof (cases "b_flags x AND B_VALID = 0")
    case False
    have "bread dev sec k = Ret b ?k" using g False b len by (simp add: bread_def)
    then show ?thesis using b r bk len x False by (intro exI [of _ b] exI [of _ ?k]) (simp add: held_update)
  next
    case True
    let ?d = "ide_done ?k (x\<lparr>b_qnext := None\<rparr>)"
    let ?k' = "(touch ?k)\<lparr>k_disk := disk_written x (k_disk k), k_bufs := (k_bufs k)[b := ?d], k_ptable := ide_woken p b (k_ptable k)\<rparr>"
    have "iderw b ?k = Ret () ?k'"
      using iderw_eq [of p ?k b] bk b len x True valid_flags [of "b_flags x"] by (simp add: bio_ok_def)
    then have br: "bread dev sec k = Ret b ?k'" using g True b len by (simp add: bread_def)
    have p: "p < length (k_ptable k)" using k by (simp add: bio_ok_def disk_ready_def)
    have d: "disk_written x (k_disk k) = k_disk k" using x by (simp add: disk_written_def)
    have r': "rest ?k' = rest k" using p by simp
    have dx: "b_dev ?d = dev" "b_sector ?d = sec" "b_flags ?d AND B_BUSY \<noteq> 0" "b_data ?d = k_disk k dev sec"
      "b_next ?d = b_next x" "b_prev ?d = b_prev x" "b_flags ?d AND B_DIRTY = 0"
      using x sec by (simp_all add: ide_done_def disk_data_def sector_ok_def)
    have "bufs_ok (k_disk k) (((k_bufs k)[b := x])[b := ?d])"
    proof (rule bufs_ok_update [OF ok b(1)])
      show "b_sector ((k_bufs k)[b := x] ! j) \<noteq> b_sector ?d" if "j < NBUF" "j \<noteq> b" "b_dev ((k_bufs k)[b := x] ! j) = b_dev ?d" for j
        using bufs_ok_same [OF ok b(1) that(1)] that b dx x len sec by auto
    qed (use b x sec dx len in simp_all)
    then have "bio_ok p ?k'" by (intro bio_ok_rest [OF r' k]) (simp add: d)
    with br r' d dx b len show ?thesis by (intro exI [of _ b] exI [of _ ?k']) (simp add: held_update)
  qed
qed

lemma bufs_ok_disk:
  assumes ok: "bufs_ok disk bufs" and b: "b \<in> held bufs"
  shows "bufs_ok (disk(b_dev (bufs ! b) := (disk (b_dev (bufs ! b)))(b_sector (bufs ! b) := v))) bufs" (is "bufs_ok ?d bufs")
proof -
  have "?d (b_dev (bufs ! i)) (b_sector (bufs ! i)) = disk (b_dev (bufs ! i)) (b_sector (bufs ! i))"
    if i: "i < NBUF" "b_flags (bufs ! i) AND B_BUSY = 0" for i
  proof -
    have "i \<noteq> b" and "b < NBUF" using b i by (auto simp: held_def)
    then have "b_dev (bufs ! i) \<noteq> b_dev (bufs ! b) \<or> b_sector (bufs ! i) \<noteq> b_sector (bufs ! b)"
      using bufs_ok_same [OF ok, of b i] i bufs_ok_held [OF ok b] by auto
    then show ?thesis by auto
  qed
  then show ?thesis using ok unfolding bufs_ok_def by metis
qed

lemma bwrite_spec:
  assumes k: "bio_ok p k" and b: "b \<in> held (k_bufs k)"
  shows "\<exists>k'. bwrite b k = Ret () k' \<and> bio_ok p k' \<and> rest k' = rest k \<and>
    k_disk k' = (k_disk k)(b_dev (k_bufs k ! b) := (k_disk k (b_dev (k_bufs k ! b)))
      (b_sector (k_bufs k ! b) := b_data (k_bufs k ! b))) \<and>
    held (k_bufs k') = held (k_bufs k) \<and> b_dev (k_bufs k' ! b) = b_dev (k_bufs k ! b) \<and>
    b_sector (k_bufs k' ! b) = b_sector (k_bufs k ! b) \<and> b_data (k_bufs k' ! b) = b_data (k_bufs k ! b) \<and>
    (\<forall>i. i \<noteq> b \<longrightarrow> k_bufs k' ! i = k_bufs k ! i)"
proof -
  have ok: "bufs_ok (k_disk k) (k_bufs k)" and p: "p < length (k_ptable k)" and r: "disk_ready p k" "k_havedisk1 k"
    using k by (simp_all add: bio_ok_def disk_ready_def)
  have bb: "b < NBUF" "b_flags (k_bufs k ! b) AND B_BUSY \<noteq> 0" using b by (simp_all add: held_def)
  have len: "length (k_bufs k) = Suc NBUF" using bufs_okD [OF ok] by simp
  have dev: "b_dev (k_bufs k ! b) \<noteq> - 1" by (rule bufs_ok_held [OF ok b])
  have sec: "sector_ok (b_dev (k_bufs k ! b)) (b_sector (k_bufs k ! b))" by (rule bufs_ok_sector [OF ok bb(1) dev])
  let ?x = "(k_bufs k ! b)\<lparr>b_flags := b_flags (k_bufs k ! b) OR B_DIRTY\<rparr>"
  let ?k = "k\<lparr>k_bufs := (k_bufs k)[b := ?x]\<rparr>"
  let ?d = "ide_done ?k (?x\<lparr>b_qnext := None\<rparr>)"
  let ?k' = "(touch ?k)\<lparr>k_disk := disk_written ?x (k_disk k), k_bufs := (k_bufs k)[b := ?d], k_ptable := ide_woken p b (k_ptable k)\<rparr>"
  have "disk_ready p ?k" using r by (simp add: disk_ready_def)
  then have "iderw b ?k = Ret () ?k'"
    using iderw_eq [of p ?k b] r bb len by simp
  then have bw: "bwrite b k = Ret () ?k'" using bb by (simp add: bwrite_def setbuf_def)
  have d: "disk_written ?x (k_disk k) = (k_disk k)(b_dev (k_bufs k ! b) := (k_disk k (b_dev (k_bufs k ! b)))
      (b_sector (k_bufs k ! b) := b_data (k_bufs k ! b)))" (is "_ = ?disk")
    using sec by (simp add: disk_written_def sector_ok_def)
  have r': "rest ?k' = rest k" using p by simp
  have dx: "b_dev ?d = b_dev (k_bufs k ! b)" "b_sector ?d = b_sector (k_bufs k ! b)" "b_flags ?d AND B_BUSY \<noteq> 0"
    "b_data ?d = b_data (k_bufs k ! b)" "b_next ?d = b_next (k_bufs k ! b)" "b_prev ?d = b_prev (k_bufs k ! b)" "b_flags ?d AND B_DIRTY = 0"
    using bb by (simp_all add: ide_done_def)
  have "bufs_ok (k_disk k) ((k_bufs k)[b := ?d])"
  proof (rule bufs_ok_update [OF ok bb(1)])
    show "b_sector (k_bufs k ! j) \<noteq> b_sector ?d" if "j < NBUF" "j \<noteq> b" "b_dev (k_bufs k ! j) = b_dev ?d" for j
      using bufs_ok_same [OF ok bb(1) that(1)] that dx dev by auto
  qed (use dx sec dev in simp_all)
  then have "bufs_ok ?disk ((k_bufs k)[b := ?d])"
    using bufs_ok_disk [of "k_disk k" "(k_bufs k)[b := ?d]" b "b_data (k_bufs k ! b)"] bb len dx dev
    by (simp add: held_update)
  then have "bio_ok p ?k'" by (intro bio_ok_rest [OF r' k]) (simp add: d [unfolded B_DIRTY_def])
  with bw r' d [unfolded B_DIRTY_def] dx b bb len show ?thesis by (intro exI [of _ ?k']) (simp add: held_update insert_absorb)
qed
definition bview :: "buf \<Rightarrow> u32 \<times> u32 \<times> u32 \<times> u8 list" where
  "bview x = (b_flags x, b_dev x, b_sector x, b_data x)"

lemma bview_link [simp]: "bview (x\<lparr>b_next := n\<rparr>) = bview x" "bview (x\<lparr>b_prev := n\<rparr>) = bview x"
  by (simp_all add: bview_def)

lemma bview_setbuf: "(\<And>x. bview (f x) = bview x) \<Longrightarrow> bview (k_bufs (setbuf j f k) ! i) = bview (k_bufs k ! i)"
  by (cases "j < length (k_bufs k)") (auto simp: setbuf_def nth_list_update list_update_beyond)

lemma bview_to_front [simp]: "bview (k_bufs (to_front b k) ! i) = bview (k_bufs k ! i)"
  by (simp add: to_front_def Let_def bview_setbuf)

lemma to_front_sel [simp]: "k_locks (to_front b k) = k_locks k" "k_cpu (to_front b k) = k_cpu k"
  "k_ptable (to_front b k) = k_ptable k" "k_disk (to_front b k) = k_disk k"
  by (simp_all add: to_front_def Let_def)

lemma bviewD:
  "bview x = bview y \<Longrightarrow> b_flags x = b_flags y \<and> b_dev x = b_dev y \<and> b_sector x = b_sector y \<and> b_data x = b_data y"
  by (simp add: bview_def)

lemma bufs_ok_relink:
  assumes ok: "bufs_ok disk bufs" and v: "\<And>i. bview (bufs' ! i) = bview (bufs ! i)" and r: "ring bufs' xs"
  shows "bufs_ok disk bufs'"
proof -
  have f: "b_flags (bufs' ! i) = b_flags (bufs ! i)" "b_dev (bufs' ! i) = b_dev (bufs ! i)"
    "b_sector (bufs' ! i) = b_sector (bufs ! i)" "b_data (bufs' ! i) = b_data (bufs ! i)" for i
    using bviewD [OF v [of i]] by simp_all
  have "ring bufs' (lru bufs')" using r ring_lru [OF r] by simp
  then show ?thesis using ok unfolding bufs_ok_def f by blast
qed

lemma brelse_eq:
  assumes k: "bio_ok p k" and b: "b \<in> held (k_bufs k)"
  shows "brelse b k = Ret () ((touch (setbuf b (\<lambda>x. x\<lparr>b_flags := b_flags x AND NOT B_BUSY\<rparr>) (to_front b k)))
     \<lparr>k_ptable := map (wakeup1_proc (BufChan b)) (k_ptable k)\<rparr>)"
proof -
  have c: "unlocked BcacheLock k" "unlocked PtableLock k" "cli_ok k" "0 \<le> c_ncli (k_cpu k)" "b_flags (k_bufs k ! b) AND B_BUSY \<noteq> 0"
    using assms by (simp_all add: bio_ok_def disk_ready_def cli_ok_def held_def)
  have s: "k_bufs (setbuf i f k') = (k_bufs k')[i := f (k_bufs k' ! i)]" for i f k'
    by (simp add: setbuf_def)
  have t: "to_front b (enter lk k) = enter lk (to_front b k)" for lk
    by (simp add: to_front_def Let_def s)
  have "cli_ok (to_front b k)" using c by (simp add: cli_ok_def)
  with c show ?thesis by (simp add: brelse_def t)
qed

lemma brelse_spec:
  assumes k: "bio_ok p k" and b: "b \<in> held (k_bufs k)"
    and clean: "b_data (k_bufs k ! b) = k_disk k (b_dev (k_bufs k ! b)) (b_sector (k_bufs k ! b))"
  shows "\<exists>k'. brelse b k = Ret () k' \<and> bio_ok p k' \<and> rest k' = rest k \<and> k_disk k' = k_disk k \<and>
    held (k_bufs k') = held (k_bufs k) - {b} \<and> lru (k_bufs k') = b # remove1 b (lru (k_bufs k)) \<and>
    (\<forall>i. i \<noteq> b \<longrightarrow> bview (k_bufs k' ! i) = bview (k_bufs k ! i))"
proof -
  let ?t = "to_front b k"
  let ?x = "(k_bufs ?t ! b)\<lparr>b_flags := b_flags (k_bufs ?t ! b) AND NOT B_BUSY\<rparr>"
  let ?k' = "(touch (setbuf b (\<lambda>x. x\<lparr>b_flags := b_flags x AND NOT B_BUSY\<rparr>) ?t))
     \<lparr>k_ptable := map (wakeup1_proc (BufChan b)) (k_ptable k)\<rparr>"
  have ok: "bufs_ok (k_disk k) (k_bufs k)" using k by (simp add: bio_ok_def)
  have bb: "b < NBUF" using b by (simp add: held_def)
  have dev: "b_dev (k_bufs k ! b) \<noteq> - 1" by (rule bufs_ok_held [OF ok b])
  have ring: "ring (k_bufs ?t) (b # remove1 b (lru (k_bufs k)))"
    using ring_to_front [OF bufs_okD(1) [OF ok]] bb bufs_okD(3) [OF ok] by simp
  have okt: "bufs_ok (k_disk k) (k_bufs ?t)" by (rule bufs_ok_relink [OF ok _ ring]) simp
  have v: "b_flags (k_bufs ?t ! i) = b_flags (k_bufs k ! i)" "b_dev (k_bufs ?t ! i) = b_dev (k_bufs k ! i)"
    "b_sector (k_bufs ?t ! i) = b_sector (k_bufs k ! i)" "b_data (k_bufs ?t ! i) = b_data (k_bufs k ! i)" for i
    using bviewD [OF bview_to_front [of b k i]] by simp_all
  have len: "length (k_bufs ?t) = Suc NBUF" using bufs_okD [OF okt] by simp
  have bx: "bufs_ok (k_disk k) ((k_bufs ?t)[b := ?x])"
  proof (rule bufs_ok_update [OF okt bb])
    show "b_sector (k_bufs ?t ! j) \<noteq> b_sector ?x" if "j < NBUF" "j \<noteq> b" "b_dev (k_bufs ?t ! j) = b_dev ?x" for j
      using bufs_ok_same [OF okt bb that(1)] that dev v by auto
    show "sector_ok (b_dev ?x) (b_sector ?x)" using bufs_ok_sector [OF ok bb dev] by (simp add: v)
  qed (use clean bufs_ok_dirty [OF ok bb] in \<open>simp_all add: v\<close>)
  have lr: "lru ((k_bufs ?t)[b := ?x]) = b # remove1 b (lru (k_bufs k))"
    by (rule ring_lru) (subst ring_cong [of _ "k_bufs ?t"], use ring len bb in simp_all)
  have h: "held (k_bufs ?t) = held (k_bufs k)" by (simp add: held_def v)
  have eq: "k_bufs ?k' = (k_bufs ?t)[b := ?x]" by (simp add: setbuf_def)
  have r': "rest ?k' = rest k" by simp
  have "k_disk ?k' = k_disk k" by simp
  moreover from this have "bio_ok p ?k'" by (intro bio_ok_rest [OF r' k]) (simp only: eq bx)
  moreover have "held (k_bufs ?k') = held (k_bufs k) - {b}" unfolding eq using bb len h by (simp add: held_update)
  moreover have "\<forall>i. i \<noteq> b \<longrightarrow> bview (k_bufs ?k' ! i) = bview (k_bufs k ! i)" unfolding eq by simp
  ultimately show ?thesis using brelse_eq [OF k b] r' lr eq by (intro exI [of _ ?k']) simp
qed

section \<open>The cache as a block store\<close>

text \<open>The buffers held, with the sector each is for and its data.\<close>

definition hold :: "kernel \<Rightarrow> nat \<Rightarrow> (u32 \<times> u32 \<times> u8 list) option" where
  "hold k b = (if b \<in> held (k_bufs k)
     then Some (b_dev (k_bufs k ! b), b_sector (k_bufs k ! b), b_data (k_bufs k ! b)) else None)"

definition setdata :: "nat \<Rightarrow> (u8 list \<Rightarrow> u8 list) \<Rightarrow> kernel \<Rightarrow> kernel" where
  "setdata b g = setbuf b (\<lambda>x. x\<lparr>b_data := g (b_data x)\<rparr>)"

definition put :: "u32 \<Rightarrow> u32 \<Rightarrow> u8 list \<Rightarrow> (u32 \<Rightarrow> u32 \<Rightarrow> u8 list) \<Rightarrow> u32 \<Rightarrow> u32 \<Rightarrow> u8 list" where
  "put dev sec v disk = disk(dev := (disk dev)(sec := v))"

lemma put_apply [simp]: "put d s v disk d' s' = (if d' = d \<and> s' = s then v else disk d' s')"
  by (simp add: put_def)

text \<open>
  What the file system relies on: a sector that is not held can be read, if there is room; the
  data of a held buffer can be changed; writing it back changes its sector and no other; and a buffer
  that agrees with the disk can be given back.
\<close>

locale block_store =
  fixes ok :: "kernel \<Rightarrow> bool" and room :: nat
    and read :: "u32 \<Rightarrow> u32 \<Rightarrow> nat K" and wr :: "nat \<Rightarrow> unit K" and rel :: "nat \<Rightarrow> unit K"
  assumes read_law: "ok k \<Longrightarrow> sector_ok d s \<Longrightarrow> card (dom (hold k)) < room \<Longrightarrow>
      (\<And>b v. hold k b \<noteq> Some (d, s, v)) \<Longrightarrow>
      \<exists>b k'. read d s k = Ret b k' \<and> ok k' \<and> rest k' = rest k \<and> k_disk k' = k_disk k \<and> hold k b = None \<and>
        hold k' = (hold k)(b \<mapsto> (d, s, k_disk k d s))"
    and write_law: "ok k \<Longrightarrow> hold k b = Some (d, s, v) \<Longrightarrow>
      \<exists>k'. wr b k = Ret () k' \<and> ok k' \<and> rest k' = rest k \<and> k_disk k' = put d s v (k_disk k) \<and> hold k' = hold k"
    and rel_law: "ok k \<Longrightarrow> hold k b = Some (d, s, k_disk k d s) \<Longrightarrow>
      \<exists>k'. rel b k = Ret () k' \<and> ok k' \<and> rest k' = rest k \<and> k_disk k' = k_disk k \<and> hold k' = (hold k)(b := None)"
    and data_law: "ok k \<Longrightarrow> hold k b = Some (d, s, v) \<Longrightarrow> ok (setdata b g k) \<and> rest (setdata b g k) = rest k \<and>
      k_disk (setdata b g k) = k_disk k \<and> hold (setdata b g k) = (hold k)(b \<mapsto> (d, s, g v)) \<and> b_data (k_bufs k ! b) = v"
begin

text \<open>Reading part of a sector: \<^verbatim>\<open>bp = bread(..); .. bp->data ..; brelse(bp)\<close>.\<close>

lemma read_block:
  assumes k: "ok k" "sector_ok d s" "card (dom (hold k)) < room" "\<And>b v. hold k b \<noteq> Some (d, s, v)"
  shows "\<exists>k'. bindP (read d s) (\<lambda>b. bindP (reads (\<lambda>k. f (b_data (k_bufs k ! b)))) (\<lambda>v. thenP (rel b) (ret v))) k
      = Ret (f (k_disk k d s)) k' \<and> ok k' \<and> rest k' = rest k \<and> k_disk k' = k_disk k \<and> hold k' = hold k"
proof -
  obtain b k1 where r: "read d s k = Ret b k1" "ok k1" "rest k1 = rest k" "k_disk k1 = k_disk k" "hold k b = None"
    "hold k1 = (hold k)(b \<mapsto> (d, s, k_disk k d s))" using read_law [OF k] by blast
  then have h: "hold k1 b = Some (d, s, k_disk k1 d s)" by simp
  from rel_law [OF r(2) h] obtain k2 where "rel b k1 = Ret () k2" "ok k2" "rest k2 = rest k1" "k_disk k2 = k_disk k1"
    "hold k2 = (hold k1)(b := None)" by blast
  moreover have "b_data (k_bufs k1 ! b) = k_disk k d s" using data_law [OF r(2) h] r by simp
  moreover have "(hold k)(b := None) = hold k" using r by auto
  ultimately show ?thesis using r by simp
qed

text \<open>Changing a sector: \<^verbatim>\<open>bp = bread(..); .. bp->data .. = ..; bwrite(bp); brelse(bp)\<close>.\<close>

lemma update_block:
  assumes k: "ok k" "sector_ok d s" "card (dom (hold k)) < room" "\<And>b v. hold k b \<noteq> Some (d, s, v)"
  shows "\<exists>k'. bindP (read d s) (\<lambda>b. thenP (modify (setdata b g)) (thenP (wr b) (rel b))) k = Ret () k' \<and>
     ok k' \<and> rest k' = rest k \<and> k_disk k' = put d s (g (k_disk k d s)) (k_disk k) \<and> hold k' = hold k"
proof -
  obtain b k1 where r: "read d s k = Ret b k1" "ok k1" "rest k1 = rest k" "k_disk k1 = k_disk k" "hold k b = None"
    "hold k1 = (hold k)(b \<mapsto> (d, s, k_disk k d s))" using read_law [OF k] by blast
  then have h: "hold k1 b = Some (d, s, k_disk k d s)" by simp
  let ?v = "g (k_disk k d s)"
  let ?k1 = "setdata b g k1"
  have s: "ok ?k1" "rest ?k1 = rest k1" "k_disk ?k1 = k_disk k1" "hold ?k1 = (hold k1)(b \<mapsto> (d, s, ?v))"
    using data_law [OF r(2) h] by simp_all
  then have h1: "hold ?k1 b = Some (d, s, ?v)" by simp
  from write_law [OF s(1) h1] obtain k2 where w: "wr b ?k1 = Ret () k2" "ok k2" "rest k2 = rest ?k1"
    "k_disk k2 = put d s ?v (k_disk ?k1)" "hold k2 = hold ?k1" by blast
  then have "hold k2 b = Some (d, s, k_disk k2 d s)" using h1 by simp
  from rel_law [OF w(2) this] obtain k3 where "rel b k2 = Ret () k3" "ok k3" "rest k3 = rest k2" "k_disk k3 = k_disk k2"
    "hold k3 = (hold k2)(b := None)" by blast
  moreover have "(hold k)(b := None) = hold k" using r by auto
  ultimately show ?thesis using r s w by simp
qed

end

lemma held_sub: "held bufs \<subseteq> {0..<NBUF}" by (auto simp: held_def)

lemma dom_hold: "dom (hold k) = held (k_bufs k)" by (auto simp: hold_def dom_def)

interpretation bcache: block_store "bio_ok p" NBUF bread bwrite brelse for p
proof
  fix k d s
  assume k: "bio_ok p k" "sector_ok d s" "card (dom (hold k)) < NBUF" "\<And>b v. hold k b \<noteq> Some (d, s, v)"
  have "held (k_bufs k) \<noteq> {0..<NBUF}" using k(3) by (auto simp: dom_hold)
  moreover have "\<forall>b \<in> held (k_bufs k). b_dev (k_bufs k ! b) = d \<longrightarrow> b_sector (k_bufs k ! b) \<noteq> s"
  proof (intro ballI impI notI)
    fix b assume "b \<in> held (k_bufs k)" "b_dev (k_bufs k ! b) = d" "b_sector (k_bufs k ! b) = s"
    then show False using k(4) [of b "b_data (k_bufs k ! b)"] by (simp add: hold_def)
  qed
  ultimately obtain b k' where r: "bread d s k = Ret b k'" "bio_ok p k'" "rest k' = rest k" "k_disk k' = k_disk k"
     "b \<notin> held (k_bufs k)" "held (k_bufs k') = insert b (held (k_bufs k))"
     "b_dev (k_bufs k' ! b) = d" "b_sector (k_bufs k' ! b) = s" "b_data (k_bufs k' ! b) = k_disk k d s"
     "\<forall>i. i \<noteq> b \<longrightarrow> k_bufs k' ! i = k_bufs k ! i"
    using bread_spec [OF k(1,2)] by blast
  moreover have "hold k b = None" "hold k' = (hold k)(b \<mapsto> (d, s, k_disk k d s))"
    using r by (auto simp: hold_def fun_eq_iff)
  ultimately show "\<exists>b k'. bread d s k = Ret b k' \<and> bio_ok p k' \<and> rest k' = rest k \<and> k_disk k' = k_disk k \<and> hold k b = None \<and>
        hold k' = (hold k)(b \<mapsto> (d, s, k_disk k d s))" by blast
next
  fix k b d s v
  assume k: "bio_ok p k" "hold k b = Some (d, s, v)"
  then have b: "b \<in> held (k_bufs k)" "b_dev (k_bufs k ! b) = d" "b_sector (k_bufs k ! b) = s" "b_data (k_bufs k ! b) = v"
    by (auto simp: hold_def split: if_splits)
  obtain k' where r: "bwrite b k = Ret () k'" "bio_ok p k'" "rest k' = rest k" "k_disk k' = put d s v (k_disk k)"
    "held (k_bufs k') = held (k_bufs k)" "b_dev (k_bufs k' ! b) = d" "b_sector (k_bufs k' ! b) = s" "b_data (k_bufs k' ! b) = v"
    "\<forall>i. i \<noteq> b \<longrightarrow> k_bufs k' ! i = k_bufs k ! i"
    using bwrite_spec [OF k(1) b(1)] b by (auto simp: put_def)
  moreover have "hold k' = hold k"
  proof
    fix i show "hold k' i = hold k i" using r b by (cases "i = b") (auto simp: hold_def)
  qed
  ultimately show "\<exists>k'. bwrite b k = Ret () k' \<and> bio_ok p k' \<and> rest k' = rest k \<and> k_disk k' = put d s v (k_disk k) \<and> hold k' = hold k"
    by blast
next
  fix k b d s
  assume k: "bio_ok p k" "hold k b = Some (d, s, k_disk k d s)"
  then have b: "b \<in> held (k_bufs k)" "b_data (k_bufs k ! b) = k_disk k (b_dev (k_bufs k ! b)) (b_sector (k_bufs k ! b))"
    by (auto simp: hold_def split: if_splits)
  obtain k' where r: "brelse b k = Ret () k'" "bio_ok p k'" "rest k' = rest k" "k_disk k' = k_disk k"
    "held (k_bufs k') = held (k_bufs k) - {b}" "\<forall>i. i \<noteq> b \<longrightarrow> bview (k_bufs k' ! i) = bview (k_bufs k ! i)"
    using brelse_spec [OF k(1) b] by blast
  moreover have "hold k' = (hold k)(b := None)"
  proof
    fix i show "hold k' i = ((hold k)(b := None)) i" using r(5,6) bviewD [of "k_bufs k' ! i" "k_bufs k ! i"]
      by (cases "i = b") (auto simp: hold_def)
  qed
  ultimately show "\<exists>k'. brelse b k = Ret () k' \<and> bio_ok p k' \<and> rest k' = rest k \<and> k_disk k' = k_disk k \<and> hold k' = (hold k)(b := None)"
    by blast
next
  fix k b d s v g
  assume k: "bio_ok p k" "hold k b = Some (d, s, v)"
  then have b: "b \<in> held (k_bufs k)" "b_dev (k_bufs k ! b) = d" "b_sector (k_bufs k ! b) = s" "b_data (k_bufs k ! b) = v"
    by (auto simp: hold_def split: if_splits)
  have ok: "bufs_ok (k_disk k) (k_bufs k)" using k by (simp add: bio_ok_def)
  have bb: "b < NBUF" "b_flags (k_bufs k ! b) AND B_BUSY \<noteq> 0" using b by (simp_all add: held_def)
  have len: "length (k_bufs k) = Suc NBUF" using bufs_okD [OF ok] by simp
  let ?x = "(k_bufs k ! b)\<lparr>b_data := g v\<rparr>"
  have eq: "setdata b g k = k\<lparr>k_bufs := (k_bufs k)[b := ?x]\<rparr>" using b by (simp add: setdata_def setbuf_def)
  have dev: "d \<noteq> - 1" using bufs_ok_held [OF ok b(1)] b by simp
  have "bufs_ok (k_disk k) ((k_bufs k)[b := ?x])"
  proof (rule bufs_ok_update [OF ok bb(1)])
    show "b_sector (k_bufs k ! j) \<noteq> b_sector ?x" if "j < NBUF" "j \<noteq> b" "b_dev (k_bufs k ! j) = b_dev ?x" for j
      using bufs_ok_same [OF ok bb(1) that(1)] that b dev by auto
    show "sector_ok (b_dev ?x) (b_sector ?x)" using bufs_ok_sector [OF ok bb(1)] dev b by simp
  qed (use bb b dev bufs_ok_dirty [OF ok bb(1)] in simp_all)
  then have "bio_ok p (setdata b g k)" unfolding eq by (intro bio_ok_rest [OF _ k(1)]) simp_all
  moreover have "hold (setdata b g k) = (hold k)(b \<mapsto> (d, s, g v))"
    unfolding eq using bb len b by (auto simp: hold_def fun_eq_iff held_update insert_absorb)
  ultimately show "bio_ok p (setdata b g k) \<and> rest (setdata b g k) = rest k \<and> k_disk (setdata b g k) = k_disk k \<and>
      hold (setdata b g k) = (hold k)(b \<mapsto> (d, s, g v)) \<and> b_data (k_bufs k ! b) = v"
    using b by (simp add: eq)
qed

section \<open>The cache at boot\<close>

lemma linked_push:
  assumes l: "linked nx pv (h # xs @ [h])" and d: "distinct (h # xs)" "b \<notin> set (h # xs)"
  shows "linked (nx(b := nx h, h := b)) (pv(b := h, nx h := b)) (h # b # xs @ [h])"
proof -
  have "nx h \<noteq> b" "nx h = hd (xs @ [h])" using l d by (cases xs; simp)+
  moreover have "linked (nx(b := nx h, h := b)) (pv(b := h, nx h := b)) (xs @ [h]) = linked nx pv (xs @ [h])"
    by (rule linked_cong) (use l d in \<open>cases xs; auto\<close>)+
  moreover have "linked nx pv (xs @ [h])" using l by (cases xs) auto
  ultimately show ?thesis using d by (cases xs) auto
qed

lemma binit_add_links:
  assumes len: "length (k_bufs k) = Suc NBUF" and b: "b < NBUF"
    and h: "next_of (k_bufs k) NBUF < Suc NBUF"
  shows "next_of (k_bufs (binit_add b k)) = (next_of (k_bufs k))(b := next_of (k_bufs k) NBUF, NBUF := b)"
    and "next_of (k_bufs k) NBUF \<noteq> b \<Longrightarrow> prev_of (k_bufs (binit_add b k)) =
      (prev_of (k_bufs k))(b := NBUF, next_of (k_bufs k) NBUF := b)"
    and "length (k_bufs (binit_add b k)) = Suc NBUF"
    and "bview (k_bufs (binit_add b k) ! i) = bview (if i = b then (k_bufs k ! i)\<lparr>b_dev := - 1\<rparr> else k_bufs k ! i)"
proof -
  have b': "b < length (k_bufs k)" "NBUF < length (k_bufs k)" "b \<noteq> NBUF" "b_next (k_bufs k ! NBUF) < length (k_bufs k)"
    using b len h by (simp_all add: next_of_def)
  show "next_of (k_bufs (binit_add b k)) = (next_of (k_bufs k))(b := next_of (k_bufs k) NBUF, NBUF := b)"
    using b' by (simp add: binit_add_def Let_def setbuf_def fun_eq_iff nth_list_update) (simp add: next_of_def)
  show "next_of (k_bufs k) NBUF \<noteq> b \<Longrightarrow> prev_of (k_bufs (binit_add b k)) =
      (prev_of (k_bufs k))(b := NBUF, next_of (k_bufs k) NBUF := b)"
    using b' by (simp add: binit_add_def Let_def setbuf_def fun_eq_iff nth_list_update) (simp add: next_of_def prev_of_def)
  show "length (k_bufs (binit_add b k)) = Suc NBUF" using len by (simp add: binit_add_def Let_def setbuf_def)
  show "bview (k_bufs (binit_add b k) ! i) = bview (if i = b then (k_bufs k ! i)\<lparr>b_dev := - 1\<rparr> else k_bufs k ! i)"
    using b' by (auto simp add: binit_add_def Let_def setbuf_def nth_list_update) (auto simp: bview_def)
qed

lemma forP_modify: "forP xs (\<lambda>b. modify (f b)) k = Ret () (fold f xs k)"
  by (induction xs arbitrary: k) simp_all

lemma binit_adds:
  assumes len: "length (k_bufs k) = Suc NBUF" and h: "next_of (k_bufs k) NBUF = NBUF" "prev_of (k_bufs k) NBUF = NBUF"
    and n: "n \<le> NBUF"
  shows "let k' = fold binit_add [0..<n] k in length (k_bufs k') = Suc NBUF \<and>
    linked (next_of (k_bufs k')) (prev_of (k_bufs k')) (NBUF # rev [0..<n] @ [NBUF]) \<and>
    (\<forall>i. bview (k_bufs k' ! i) = bview (if i < n then (k_bufs k ! i)\<lparr>b_dev := - 1\<rparr> else k_bufs k ! i))"
  using n
proof (induction n)
  case 0
  then show ?case using len h by simp
next
  case (Suc n)
  let ?k = "fold binit_add [0..<n] k"
  have IH: "length (k_bufs ?k) = Suc NBUF" "linked (next_of (k_bufs ?k)) (prev_of (k_bufs ?k)) (NBUF # rev [0..<n] @ [NBUF])"
    "\<And>i. bview (k_bufs ?k ! i) = bview (if i < n then (k_bufs k ! i)\<lparr>b_dev := - 1\<rparr> else k_bufs k ! i)"
    using Suc by (simp_all add: Let_def)
  have n: "n < NBUF" using Suc.prems by simp
  have nh: "next_of (k_bufs ?k) NBUF = hd (rev [0..<n] @ [NBUF])" using IH(2) by (cases "rev [0..<n]") auto
  then have nh': "next_of (k_bufs ?k) NBUF < Suc NBUF" "next_of (k_bufs ?k) NBUF \<noteq> n" using n by (cases n; simp)+
  note add = binit_add_links [OF IH(1) n nh'(1)]
  have "linked (next_of (k_bufs (binit_add n ?k))) (prev_of (k_bufs (binit_add n ?k))) (NBUF # n # rev [0..<n] @ [NBUF])"
    unfolding add(1) add(2) [OF nh'(2)] by (rule linked_push [OF IH(2)]) (use n in auto)
  moreover have "bview (k_bufs (binit_add n ?k) ! i) = bview (if i < Suc n then (k_bufs k ! i)\<lparr>b_dev := - 1\<rparr> else k_bufs k ! i)" for i
    unfolding add(4) using IH(3) [of i] by (auto simp: bview_def less_Suc_eq)
  ultimately show ?case using add(3) by (simp add: Let_def)
qed

lemma binit_eq:
  assumes len: "length (k_bufs k) = Suc NBUF" and fl: "\<forall>i < NBUF. b_flags (k_bufs k ! i) = 0"
  shows "\<exists>k'. binit k = Ret () k' \<and> bufs_ok (k_disk k') (k_bufs k') \<and> lru (k_bufs k') = rev [0..<NBUF] \<and> hold k' = Map.empty"
proof -
  let ?k0 = "setbuf NBUF (\<lambda>x. x\<lparr>b_next := NBUF\<rparr>) (setbuf NBUF (\<lambda>x. x\<lparr>b_prev := NBUF\<rparr>) (setlock BcacheLock free_lock k))"
  let ?k' = "fold binit_add [0..<NBUF] ?k0"
  have sl: "k_bufs (setlock BcacheLock free_lock k) = k_bufs k" by (simp add: setlock_def)
  have k0: "length (k_bufs ?k0) = Suc NBUF" "next_of (k_bufs ?k0) NBUF = NBUF" "prev_of (k_bufs ?k0) NBUF = NBUF"
    "\<And>i. i < NBUF \<Longrightarrow> k_bufs ?k0 ! i = k_bufs k ! i"
    using len by (simp_all add: setbuf_def sl)
  have eq: "binit k = Ret () ?k'" by (simp add: binit_def initlock_def forP_modify free_lock_def)
  have b: "length (k_bufs ?k') = Suc NBUF" "linked (next_of (k_bufs ?k')) (prev_of (k_bufs ?k')) (NBUF # rev [0..<NBUF] @ [NBUF])"
    "\<And>i. bview (k_bufs ?k' ! i) = bview (if i < NBUF then (k_bufs ?k0 ! i)\<lparr>b_dev := - 1\<rparr> else k_bufs ?k0 ! i)"
    using binit_adds [OF k0(1-3) order_refl] unfolding Let_def by blast+
  have ring: "ring (k_bufs ?k') (rev [0..<NBUF])" unfolding ring_def using b(1,2) by (simp only: distinct_rev distinct_upt set_rev set_upt)
  then have l: "lru (k_bufs ?k') = rev [0..<NBUF]" by (rule ring_lru)
  have v: "b_flags (k_bufs ?k' ! i) = 0" "b_dev (k_bufs ?k' ! i) = - 1" if "i < NBUF" for i
    using b(3) [of i] that fl k0(4) [of i] by (simp_all add: bview_def)
  have "bufs_ok (k_disk ?k') (k_bufs ?k')" unfolding bufs_ok_def l using ring v by (simp del: upt_Suc)
  moreover have "hold ?k' = Map.empty" using v by (auto simp: hold_def held_def fun_eq_iff)
  ultimately show ?thesis using eq l by blast
qed
definition block_read :: "u32 \<Rightarrow> u32 \<Rightarrow> u8 list K" where
  "block_read d s = bindP (bread d s) (\<lambda>b. bindP (reads (\<lambda>k. b_data (k_bufs k ! b))) (\<lambda>v. thenP (brelse b) (ret v)))"

definition block_write :: "u32 \<Rightarrow> u32 \<Rightarrow> u8 list \<Rightarrow> unit K" where
  "block_write d s v = bindP (bread d s) (\<lambda>b. thenP (modify (setdata b (\<lambda>_. v))) (thenP (bwrite b) (brelse b)))"

section \<open>Properties\<close>

text \<open>C24. What is written to a sector through the cache (\<^verbatim>\<open>bread\<close>, a change of the data, \<^verbatim>\<open>bwrite\<close>,
  \<^verbatim>\<open>brelse\<close>) is on the disk, is what the next \<^verbatim>\<open>bread\<close> of the sector returns, and no other sector
  of any device changes.\<close>

theorem block_write_read:
  assumes k: "bio_ok p k" and s: "sector_ok d s" and h: "hold k = Map.empty"
  shows "\<exists>k1 k2. block_write d s v k = Ret () k1 \<and> block_read d s k1 = Ret v k2 \<and> bio_ok p k2 \<and>
     k_disk k1 d s = v \<and> (\<forall>d' s'. \<not> (d' = d \<and> s' = s) \<longrightarrow> k_disk k1 d' s' = k_disk k d' s')"
proof -
  have e: "card (dom (hold k)) < NBUF" "\<And>b v. hold k b \<noteq> Some (d, s, v)" using h by simp_all
  obtain k1 where k1: "block_write d s v k = Ret () k1" "bio_ok p k1" "k_disk k1 = put d s v (k_disk k)" "hold k1 = hold k"
    using bcache.update_block [OF k s e, of "\<lambda>_. v"] unfolding block_write_def by blast
  have e1: "card (dom (hold k1)) < NBUF" "\<And>b v. hold k1 b \<noteq> Some (d, s, v)" using h k1 by simp_all
  obtain k2 where "block_read d s k1 = Ret v k2" "bio_ok p k2"
    using bcache.read_block [OF k1(2) s e1, of "\<lambda>v. v"] k1(3) unfolding block_read_def by auto
  with k1 show ?thesis by auto
qed

text \<open>C25. The doubly linked list of the cache implements a move-to-front list: \<^verbatim>\<open>brelse\<close> of a buffer takes
  it out of the list and puts it in front, the walk along \<^verbatim>\<open>prev\<close> is the reverse of the walk along
  \<^verbatim>\<open>next\<close>, and the buffer \<^verbatim>\<open>bget\<close> recycles is the least recently released one nobody holds.\<close>

theorem brelse_moves_to_front:
  assumes k: "bio_ok p k" and b: "b \<in> held (k_bufs k)"
    and clean: "b_data (k_bufs k ! b) = k_disk k (b_dev (k_bufs k ! b)) (b_sector (k_bufs k ! b))"
  shows "\<exists>k'. brelse b k = Ret () k' \<and> bio_ok p k' \<and> lru (k_bufs k') = b # remove1 b (lru (k_bufs k)) \<and>
     lru_back (k_bufs k') = rev (lru (k_bufs k')) \<and>
     bget_free (k_bufs k') = find (\<lambda>i. i \<notin> held (k_bufs k')) (rev (lru (k_bufs k')))"
proof -
  obtain k' where k': "brelse b k = Ret () k'" "bio_ok p k'" "lru (k_bufs k') = b # remove1 b (lru (k_bufs k))"
    using brelse_spec [OF assms] by blast
  have ok: "bufs_ok (k_disk k') (k_bufs k')" using k' by (simp add: bio_ok_def)
  have lb: "lru_back (k_bufs k') = rev (lru (k_bufs k'))" by (rule ring_lru_back [OF bufs_okD(1) [OF ok]])
  have "set (rev (lru (k_bufs k'))) = {0..<NBUF}" using bufs_okD(3) [OF ok] by simp
  then have "bget_free (k_bufs k') = find (\<lambda>i. i \<notin> held (k_bufs k')) (rev (lru (k_bufs k')))"
    unfolding bget_free_def lb by (intro find_cong refl) (auto simp: held_def)
  with k' lb show ?thesis by blast
qed

text \<open>C26. \<^verbatim>\<open>binit\<close> links all the buffers into one ring in which \<^verbatim>\<open>next\<close> and \<^verbatim>\<open>prev\<close> agree; none of them is
  held or claims a sector.\<close>

theorem binit_ring:
  assumes "length (k_bufs k) = Suc NBUF" and "\<forall>i < NBUF. b_flags (k_bufs k ! i) = 0"
  shows "\<exists>k'. binit k = Ret () k' \<and> bufs_ok (k_disk k') (k_bufs k') \<and> lru (k_bufs k') = rev [0..<NBUF] \<and> hold k' = Map.empty"
  using assms by (rule binit_eq)

definition fresh_buf :: "nat \<Rightarrow> nat \<Rightarrow> buf" where
  "fresh_buf pr nx = \<lparr>b_flags = 0, b_dev = - 1, b_sector = 0, b_prev = pr, b_next = nx, b_qnext = None, b_data = []\<rparr>"

definition demo_bufs :: "buf list" where
  "demo_bufs = [fresh_buf 10 1, fresh_buf 0 2, fresh_buf 1 3, fresh_buf 2 4, fresh_buf 3 5, fresh_buf 4 6,
     fresh_buf 5 7, fresh_buf 6 8, fresh_buf 7 9, fresh_buf 8 10, fresh_buf 9 0]"

definition demo_disk :: kernel where
  "demo_disk = (demo_kernel [demo_proc 3])\<lparr>k_bufs := demo_bufs, k_disk := \<lambda>_ _. replicate 512 0\<rparr>"

lemma demo_bufs_nth: "i < NBUF \<Longrightarrow> b_dev (demo_bufs ! i) = - 1 \<and> b_flags (demo_bufs ! i) = 0"
  unfolding demo_bufs_def
  by (simp add: numeral_eq_Suc less_Suc_eq) (elim disjE; simp add: fresh_buf_def)

lemma demo_bufs_ring: "ring demo_bufs [0, 1, 2, 3, 4, 5, 6, 7, 8, 9]"
  by (auto simp: ring_def demo_bufs_def fresh_buf_def next_of_def prev_of_def atLeastLessThan_nat_numeral)

lemma demo_bufs_ok: "bufs_ok d demo_bufs"
  using demo_bufs_ring ring_lru [OF demo_bufs_ring] demo_bufs_nth by (simp add: bufs_ok_def)

lemma demo_hold: "hold demo_disk = Map.empty"
  using demo_bufs_nth by (auto simp: hold_def held_def demo_disk_def fun_eq_iff)

lemma demo_disk_ok: "bio_ok 0 demo_disk"
  using demo_bufs_ok by (simp add: bio_ok_def disk_ready_def demo_disk_def) (simp add: demo_kernel_def)

theorem block_write_read_witness:
  "\<exists>k1 k2. block_write 1 29 [7, 8] demo_disk = Ret () k1 \<and> block_read 1 29 k1 = Ret [7, 8] k2 \<and> k_disk k1 1 30 = replicate 512 0"
  using block_write_read [OF demo_disk_ok, of 1 29 "[7, 8]"] by (auto simp: sector_ok_def demo_hold) (auto simp: demo_disk_def)

definition demo_held :: kernel where
  "demo_held = demo_disk\<lparr>k_bufs := demo_bufs[4 := (demo_bufs ! 4)
     \<lparr>b_flags := 3, b_dev := 1, b_sector := 29, b_data := replicate 512 0\<rparr>]\<rparr>"

lemma demo_held_ok: "bio_ok 0 demo_held"
proof -
  have "bufs_ok (\<lambda>_ _. replicate 512 0) (demo_bufs[4 := (demo_bufs ! 4)
     \<lparr>b_flags := 3, b_dev := 1, b_sector := 29, b_data := replicate 512 0\<rparr>])"
    by (rule bufs_ok_update [OF demo_bufs_ok]) (use demo_bufs_nth in \<open>simp_all add: sector_ok_def\<close>)
  then show ?thesis by (simp add: bio_ok_def disk_ready_def demo_held_def demo_disk_def) (simp add: demo_kernel_def)
qed

theorem brelse_moves_to_front_witness:
  "\<exists>k'. brelse 4 demo_held = Ret () k' \<and> lru (k_bufs k') = [4, 0, 1, 2, 3, 5, 6, 7, 8, 9]"
proof -
  have len: "length demo_bufs = 11" by (simp add: demo_bufs_def)
  have l: "lru (k_bufs demo_held) = [0, 1, 2, 3, 4, 5, 6, 7, 8, 9]"
    by (rule ring_lru) (subst ring_cong [of _ demo_bufs], simp_all add: demo_held_def len demo_bufs_ring [simplified])
  show ?thesis using brelse_moves_to_front [OF demo_held_ok, of 4] unfolding l
    by (auto simp: held_def demo_held_def demo_disk_def demo_bufs_def fresh_buf_def)
qed

theorem binit_ring_witness:
  "\<exists>k'. binit demo_disk = Ret () k' \<and> lru (k_bufs k') = [9, 8, 7, 6, 5, 4, 3, 2, 1, 0] \<and> hold k' = Map.empty"
proof -
  have "rev [0..<NBUF] = [9, 8, 7, 6, 5, 4, 3, 2, 1, 0]" by (simp add: upt_rec)
  then show ?thesis using binit_ring [of demo_disk] demo_bufs_nth by (auto simp: demo_disk_def demo_bufs_def)
qed

end
