(* ===== verification/Fs_Format.thy ===== *)
theory Fs_Format
  imports Bytes
begin

text \<open>
  The on-disk file system format (\<^verbatim>\<open>include/fs.h\<close>, \<^verbatim>\<open>include/stat.h\<close>): the super block,
  inodes and directory entries as they are laid out in the bytes of a block. The kernel
  (\<open>Inode\<close>, \<open>Fs\<close>) and the image builder (\<open>Mkfs\<close>) share them.
\<close>

definition ROOTINO :: u32 where [simp]: "ROOTINO = 1"
definition BSIZE :: nat where [simp]: "BSIZE = 512"
definition NDIRECT :: nat where [simp]: "NDIRECT = 12"
definition NINDIRECT :: nat where [simp]: "NINDIRECT = 128"
definition MAXFILE :: nat where [simp]: "MAXFILE = 140"
definition IPB :: u32 where [simp]: "IPB = 8"
definition BPB :: nat where [simp]: "BPB = 4096"
definition DIRSIZ :: nat where [simp]: "DIRSIZ = 14"
definition T_DIR :: u16 where [simp]: "T_DIR = 1"
definition T_FILE :: u16 where [simp]: "T_FILE = 2"
definition T_DEV :: u16 where [simp]: "T_DEV = 3"

definition IBLOCK :: "u32 \<Rightarrow> u32" where
  "IBLOCK i = i div IPB + 2"

definition BBLOCK :: "u32 \<Rightarrow> u32 \<Rightarrow> u32" where
  "BBLOCK b ninodes = b div 4096 + ninodes div IPB + 3"

section \<open>Fields of a block\<close>

definition get16 :: "u8 list \<Rightarrow> nat \<Rightarrow> u16" where
  "get16 xs i = dec16 (xs ! i) (xs ! (i + 1))"

definition get32 :: "u8 list \<Rightarrow> nat \<Rightarrow> u32" where
  "get32 xs i = dec32 (xs ! i) (xs ! (i + 1)) (xs ! (i + 2)) (xs ! (i + 3))"

text \<open>\<open>put_bytes off bs xs\<close> stores the bytes \<open>bs\<close> at offset \<open>off\<close>.\<close>

definition put_bytes :: "nat \<Rightarrow> u8 list \<Rightarrow> u8 list \<Rightarrow> u8 list" where
  "put_bytes off bs xs = take off xs @ bs @ drop (off + length bs) xs"

record superblock =
  sb_size :: u32
  sb_nblocks :: u32
  sb_ninodes :: u32

definition enc_sb :: "superblock \<Rightarrow> u8 list" where
  "enc_sb sb = enc32 (sb_size sb) @ enc32 (sb_nblocks sb) @ enc32 (sb_ninodes sb)"

definition dec_sb :: "u8 list \<Rightarrow> superblock" where
  "dec_sb xs = \<lparr>sb_size = get32 xs 0, sb_nblocks = get32 xs 4, sb_ninodes = get32 xs 8\<rparr>"

record dinode =
  d_type :: u16
  d_major :: u16
  d_minor :: u16
  d_nlink :: u16
  d_size :: u32
  d_addrs :: "u32 list"

definition enc_dinode :: "dinode \<Rightarrow> u8 list" where
  "enc_dinode d = enc16 (d_type d) @ enc16 (d_major d) @ enc16 (d_minor d) @ enc16 (d_nlink d) @
     enc32 (d_size d) @ concat (map enc32 (d_addrs d))"

definition dec_dinode :: "u8 list \<Rightarrow> nat \<Rightarrow> dinode" where
  "dec_dinode xs off = \<lparr>d_type = get16 xs off, d_major = get16 xs (off + 2), d_minor = get16 xs (off + 4),
     d_nlink = get16 xs (off + 6), d_size = get32 xs (off + 8),
     d_addrs = map (\<lambda>i. get32 xs (off + 12 + 4 * i)) [0..<NDIRECT + 1]\<rparr>"

definition dinode_off :: "u32 \<Rightarrow> nat" where
  "dinode_off inum = 64 * unat (inum mod IPB)"

record dirent =
  de_inum :: u16
  de_name :: "u8 list"

definition enc_dirent :: "dirent \<Rightarrow> u8 list" where
  "enc_dirent de = enc16 (de_inum de) @ de_name de"

definition dec_dirent :: "u8 list \<Rightarrow> nat \<Rightarrow> dirent" where
  "dec_dirent xs off = \<lparr>de_inum = get16 xs off, de_name = take DIRSIZ (drop (off + 2) xs)\<rparr>"

record stat =
  st_type :: u16
  st_dev :: u32
  st_ino :: u32
  st_nlink :: u16
  st_size :: u32

section \<open>Round trips\<close>

lemma length_put_bytes [simp]: "off + length bs \<le> length xs \<Longrightarrow> length (put_bytes off bs xs) = length xs"
  by (simp add: put_bytes_def)

lemma put_bytes_nth:
  "off + length bs \<le> length xs \<Longrightarrow> i < length xs \<Longrightarrow>
     put_bytes off bs xs ! i = (if off \<le> i \<and> i < off + length bs then bs ! (i - off) else xs ! i)"
  by (auto simp: put_bytes_def nth_append min_def)

lemma put_bytes_in [simp]: "off + length bs \<le> length xs \<Longrightarrow> i < length bs \<Longrightarrow> put_bytes off bs xs ! (off + i) = bs ! i"
  by (simp add: put_bytes_nth)

lemma put_bytes_out: "off + length bs \<le> length xs \<Longrightarrow> i < length xs \<Longrightarrow> i < off \<or> off + length bs \<le> i \<Longrightarrow> put_bytes off bs xs ! i = xs ! i"
  by (auto simp: put_bytes_nth)

lemma get16_put_bytes:
  "off + length bs \<le> length xs \<Longrightarrow> i + 2 \<le> length bs \<Longrightarrow> get16 (put_bytes off bs xs) (off + i) = get16 bs i"
  by (simp add: get16_def put_bytes_nth)

lemma get32_put_bytes:
  "off + length bs \<le> length xs \<Longrightarrow> i + 4 \<le> length bs \<Longrightarrow> get32 (put_bytes off bs xs) (off + i) = get32 bs i"
  by (simp add: get32_def put_bytes_nth)

lemma get16_put_bytes_out:
  "off + length bs \<le> length xs \<Longrightarrow> i + 2 \<le> length xs \<Longrightarrow> i + 2 \<le> off \<or> off + length bs \<le> i \<Longrightarrow> get16 (put_bytes off bs xs) i = get16 xs i"
  by (auto simp: get16_def put_bytes_nth)

lemma get32_put_bytes_out:
  "off + length bs \<le> length xs \<Longrightarrow> i + 4 \<le> length xs \<Longrightarrow> i + 4 \<le> off \<or> off + length bs \<le> i \<Longrightarrow> get32 (put_bytes off bs xs) i = get32 xs i"
  by (auto simp: get32_def put_bytes_nth)

lemma get16_enc [simp]: "get16 (enc16 w @ r) 0 = w"
  by (simp add: get16_def enc16_def)

lemma get32_enc [simp]: "get32 (enc32 w @ r) 0 = w"
  by (simp add: get32_def enc32_def)

lemma get16_skip: "length p = n \<Longrightarrow> get16 (p @ r) (n + i) = get16 r i"
  by (auto simp: get16_def nth_append)

lemma get32_skip: "length p = n \<Longrightarrow> get32 (p @ r) (n + i) = get32 r i"
  by (auto simp: get32_def nth_append)

lemma length_concat_enc32 [simp]: "length (concat (map enc32 ws)) = 4 * length ws"
  by (induction ws) simp_all

lemma get32_array: "i < length ws \<Longrightarrow> get32 (concat (map enc32 ws)) (4 * i) = ws ! i"
proof (induction ws arbitrary: i)
  case (Cons w ws)
  show ?case
  proof (cases i)
    case 0
    then show ?thesis by simp
  next
    case (Suc j)
    then have "get32 (enc32 w @ concat (map enc32 ws)) (4 + 4 * j) = ws ! j"
      using Cons get32_skip [of "enc32 w" 4 "concat (map enc32 ws)" "4 * j"] by simp
    then show ?thesis using Suc by simp
  qed
qed simp

lemma length_enc_dinode: "length (enc_dinode d) = 12 + 4 * length (d_addrs d)"
  by (simp add: enc_dinode_def)

lemma enc_dinode_fields:
  "get16 (enc_dinode d) 0 = d_type d" "get16 (enc_dinode d) 2 = d_major d" "get16 (enc_dinode d) 4 = d_minor d"
  "get16 (enc_dinode d) 6 = d_nlink d" "get32 (enc_dinode d) 8 = d_size d"
  "i < length (d_addrs d) \<Longrightarrow> get32 (enc_dinode d) (12 + 4 * i) = d_addrs d ! i"
proof -
  let ?a = "concat (map enc32 (d_addrs d))"
  have e: "enc_dinode d = (enc16 (d_type d) @ enc16 (d_major d) @ enc16 (d_minor d) @ enc16 (d_nlink d) @ enc32 (d_size d)) @ ?a"
    by (simp add: enc_dinode_def)
  show "get16 (enc_dinode d) 0 = d_type d" by (simp add: enc_dinode_def)
  show "get16 (enc_dinode d) 2 = d_major d"
    using get16_skip [of "enc16 (d_type d)" 2 _ 0] by (simp add: enc_dinode_def)
  show "get16 (enc_dinode d) 4 = d_minor d"
    using get16_skip [of "enc16 (d_type d) @ enc16 (d_major d)" 4 _ 0] by (simp add: enc_dinode_def)
  show "get16 (enc_dinode d) 6 = d_nlink d"
    using get16_skip [of "enc16 (d_type d) @ enc16 (d_major d) @ enc16 (d_minor d)" 6 _ 0] by (simp add: enc_dinode_def)
  show "get32 (enc_dinode d) 8 = d_size d"
    using get32_skip [of "enc16 (d_type d) @ enc16 (d_major d) @ enc16 (d_minor d) @ enc16 (d_nlink d)" 8 _ 0]
    by (simp add: enc_dinode_def)
  show "get32 (enc_dinode d) (12 + 4 * i) = d_addrs d ! i" if "i < length (d_addrs d)"
    unfolding e by (subst get32_skip) (use that in \<open>simp_all add: get32_array\<close>)
qed

lemma dec_enc_dinode:
  assumes "length (d_addrs d) = NDIRECT + 1" and "off + 64 \<le> length xs"
  shows "dec_dinode (put_bytes off (enc_dinode d) xs) off = d"
proof -
  have l: "length (enc_dinode d) = 64" using assms by (simp add: length_enc_dinode)
  have "d_addrs (dec_dinode (put_bytes off (enc_dinode d) xs) off) = d_addrs d"
  proof (rule nth_equalityI)
    fix i assume "i < length (d_addrs (dec_dinode (put_bytes off (enc_dinode d) xs) off))"
    then have i: "i < NDIRECT + 1" by (simp add: dec_dinode_def)
    then have "d_addrs (dec_dinode (put_bytes off (enc_dinode d) xs) off) ! i = get32 (put_bytes off (enc_dinode d) xs) (off + (12 + 4 * i))"
      by (simp add: dec_dinode_def add.assoc del: upt_Suc)
    also have "\<dots> = get32 (enc_dinode d) (12 + 4 * i)" using i l assms by (intro get32_put_bytes) simp_all
    also have "\<dots> = d_addrs d ! i" using i assms by (intro enc_dinode_fields(6)) simp
    finally show "d_addrs (dec_dinode (put_bytes off (enc_dinode d) xs) off) ! i = d_addrs d ! i" .
  qed (simp add: dec_dinode_def assms)
  then show ?thesis
    using l assms get16_put_bytes [of off "enc_dinode d" xs 0] get16_put_bytes [of off "enc_dinode d" xs 2]
    by (simp add: dec_dinode_def get16_put_bytes get32_put_bytes enc_dinode_fields)
qed

lemma dec_dinode_other:
  assumes "length bs = 64" "off + 64 \<le> length xs" "off' + 64 \<le> length xs" "off' + 64 \<le> off \<or> off + 64 \<le> off'"
  shows "dec_dinode (put_bytes off bs xs) off' = dec_dinode xs off'"
  using assms by (auto simp: dec_dinode_def get16_put_bytes_out get32_put_bytes_out)

lemma length_enc_dirent [simp]: "length (enc_dirent de) = 2 + length (de_name de)"
  by (simp add: enc_dirent_def)

lemma dec_enc_dirent:
  assumes "length (de_name de) = DIRSIZ" and "off + 16 \<le> length xs"
  shows "dec_dirent (put_bytes off (enc_dirent de) xs) off = de"
proof -
  have l: "length (enc_dirent de) = 16" using assms by simp
  have "get16 (put_bytes off (enc_dirent de) xs) (off + 0) = de_inum de"
    by (subst get16_put_bytes) (use l assms in \<open>simp_all add: enc_dirent_def\<close>)
  moreover have "drop (off + 2) (put_bytes off (enc_dirent de) xs) = de_name de @ drop (off + 16) xs"
    using assms by (simp add: put_bytes_def enc_dirent_def min_def)
  ultimately show ?thesis using assms by (simp add: dec_dirent_def)
qed

lemma dec_enc_sb: "dec_sb (enc_sb sb @ r) = sb"
proof -
  have "get32 (enc_sb sb @ r) 4 = sb_nblocks sb" "get32 (enc_sb sb @ r) 8 = sb_ninodes sb"
    using get32_skip [of "enc32 (sb_size sb)" 4 _ 0] get32_skip [of "enc32 (sb_size sb) @ enc32 (sb_nblocks sb)" 8 _ 0]
    by (simp_all add: enc_sb_def)
  then show ?thesis by (simp add: dec_sb_def) (simp add: enc_sb_def)
qed

lemma dinode_off_le: "dinode_off m + 64 \<le> 512"
proof -
  have "unat (m mod 8) < 8" by (simp add: unat_mod)
  then show ?thesis unfolding dinode_off_def IPB_def by simp
qed

lemma IBLOCK_inj: "IBLOCK m = IBLOCK n \<Longrightarrow> dinode_off m = dinode_off n \<Longrightarrow> m = n"
proof -
  assume a: "IBLOCK m = IBLOCK n" "dinode_off m = dinode_off n"
  have "m div 8 = n div 8" using a(1) by (simp add: IBLOCK_def)
  moreover have "m mod 8 = n mod 8" using a(2) by (simp add: dinode_off_def word_unat_eq_iff)
  ultimately show "m = n" using word_mod_div_equality [of m 8] word_mod_div_equality [of n 8] by metis
qed

lemma dinode_off_apart: "dinode_off m \<noteq> dinode_off n \<Longrightarrow> dinode_off m + 64 \<le> dinode_off n \<or> dinode_off n + 64 \<le> dinode_off m"
  by (simp add: dinode_off_def) linarith

definition dinode_at :: "(u32 \<Rightarrow> u8 list) \<Rightarrow> u32 \<Rightarrow> dinode" where
  "dinode_at disk inum = dec_dinode (disk (IBLOCK inum)) (dinode_off inum)"

lemma dinode_at_put:
  assumes l: "length (disk (IBLOCK n)) = 512" "length (d_addrs d) = 13"
  shows "dinode_at (disk(IBLOCK n := put_bytes (dinode_off n) (enc_dinode d) (disk (IBLOCK n)))) m =
    (if m = n then d else dinode_at disk m)"
proof (cases "IBLOCK m = IBLOCK n")
  case True
  show ?thesis
  proof (cases "m = n")
    case False
    then have "dinode_off m \<noteq> dinode_off n" using True IBLOCK_inj by blast
    then have "dec_dinode (put_bytes (dinode_off n) (enc_dinode d) (disk (IBLOCK n))) (dinode_off m)
        = dec_dinode (disk (IBLOCK n)) (dinode_off m)"
      using dinode_off_apart dinode_off_le [of m] dinode_off_le [of n] l
      by (intro dec_dinode_other) (auto simp: length_enc_dinode)
    then show ?thesis using True False by (simp add: dinode_at_def)
  next
    case True
    then show ?thesis using l dinode_off_le [of n] by (simp add: dinode_at_def dec_enc_dinode)
  qed
qed (auto simp: dinode_at_def)

end
