(* ===== verification/Inode.thy ===== *)
theory Inode
  imports Bio Fs_Format
begin

text \<open>
  The block and inode layers of the file system (\<^verbatim>\<open>kernel/fs.c\<close>): the block bitmap, inode
  allocation, the inode cache, inode locks and the map from file blocks to disk blocks. An inode
  pointer is an index of \<open>k_icache\<close> (\<^verbatim>\<open>icache.inode\<close>); it is never null where these routines
  test for it. A process that finds an inode locked sleeps and does not come back in this model.
\<close>

section \<open>Blocks\<close>

definition bdata :: "nat \<Rightarrow> u8 list K" where
  "bdata b = reads (\<lambda>k. b_data (k_bufs k ! b))"

definition readsb :: "u32 \<Rightarrow> superblock K" where
  "readsb dev = bindP (bread dev 1) (\<lambda>bp.
     bindP (bdata bp) (\<lambda>d. thenP (brelse bp) (ret (dec_sb d))))"

definition bzero :: "u32 \<Rightarrow> u32 \<Rightarrow> unit K" where
  "bzero dev bno = bindP (bread dev bno) (\<lambda>bp.
     thenP (modify (setdata bp (\<lambda>_. replicate BSIZE 0)))
    (thenP (bwrite bp) (brelse bp)))"

text \<open>Bit \<open>bi\<close> of a bitmap block.\<close>

definition bit_mask :: "nat \<Rightarrow> u8" where
  "bit_mask bi = push_bit (bi mod 8) 1"

definition bit_used :: "u8 list \<Rightarrow> nat \<Rightarrow> bool" where
  "bit_used d bi \<longleftrightarrow> d ! (bi div 8) AND bit_mask bi \<noteq> 0"

definition set_used :: "nat \<Rightarrow> u8 list \<Rightarrow> u8 list" where
  "set_used bi d = d[bi div 8 := d ! (bi div 8) OR bit_mask bi]"

definition set_free :: "nat \<Rightarrow> u8 list \<Rightarrow> u8 list" where
  "set_free bi d = d[bi div 8 := d ! (bi div 8) AND NOT (bit_mask bi)]"

text \<open>
  The outer loop of \<^verbatim>\<open>balloc\<close>; its count is the number of bitmap blocks of the file system, so
  it runs out exactly when \<^verbatim>\<open>b < sb.size\<close> fails.
\<close>

primrec balloc_loop :: "nat \<Rightarrow> u32 \<Rightarrow> u32 \<Rightarrow> superblock \<Rightarrow> u32 K" where
  "balloc_loop 0 b dev sb = panic ''balloc: out of blocks''"
| "balloc_loop (Suc n) b dev sb = (if b < sb_size sb then
     bindP (bread dev (BBLOCK b (sb_ninodes sb))) (\<lambda>bp.
     bindP (bdata bp) (\<lambda>d.
     case find (\<lambda>bi. \<not> bit_used d bi) [0..<BPB] of
       Some bi \<Rightarrow> thenP (modify (setdata bp (set_used bi)))
                 (thenP (bwrite bp)
                 (thenP (brelse bp) (ret (b + of_nat bi))))
     | None \<Rightarrow> thenP (brelse bp) (balloc_loop n (b + 4096) dev sb)))
     else panic ''balloc: out of blocks'')"

definition balloc :: "u32 \<Rightarrow> u32 K" where
  "balloc dev = bindP (readsb dev) (\<lambda>sb. balloc_loop (unat (sb_size sb) div BPB + 1) 0 dev sb)"

definition bfree :: "u32 \<Rightarrow> u32 \<Rightarrow> unit K" where
  "bfree dev b = thenP (bzero dev b)
    (bindP (readsb dev) (\<lambda>sb.
     bindP (bread dev (BBLOCK b (sb_ninodes sb))) (\<lambda>bp.
     bindP (bdata bp) (\<lambda>d.
     let bi = unat b mod BPB in
     if \<not> bit_used d bi then panic ''freeing free block'' else
     thenP (modify (setdata bp (set_free bi)))
    (thenP (bwrite bp) (brelse bp))))))"

section \<open>Inodes\<close>

definition I_BUSY :: u32 where [simp]: "I_BUSY = 1"
definition I_VALID :: u32 where [simp]: "I_VALID = 2"

definition iinit :: "unit K" where
  "iinit = initlock IcacheLock"

definition inode_get :: "nat \<Rightarrow> (inode \<Rightarrow> 'a) \<Rightarrow> 'a K" where
  "inode_get ip f = reads (\<lambda>k. f (k_icache k ! ip))"

definition iget :: "u32 \<Rightarrow> u32 \<Rightarrow> nat K" where
  "iget dev inum = thenP (acquire IcacheLock)
    (bindP (reads (\<lambda>k. first_idx (\<lambda>ip. i_ref ip > 0 \<and> i_dev ip = dev \<and> i_inum ip = inum) (k_icache k))) (\<lambda>r.
     case r of
       Some ip \<Rightarrow> thenP (modify (setinode ip (\<lambda>x. x\<lparr>i_ref := i_ref x + 1\<rparr>)))
                 (thenP (release IcacheLock) (ret ip))
     | None \<Rightarrow>
         bindP (reads (\<lambda>k. first_idx (\<lambda>ip. i_ref ip = 0) (k_icache k))) (\<lambda>empty.
         case empty of
           None \<Rightarrow> panic ''iget: no inodes''
         | Some ip \<Rightarrow>
             thenP (modify (setinode ip (\<lambda>x. x\<lparr>i_dev := dev, i_inum := inum, i_ref := 1, i_flags := 0\<rparr>)))
            (thenP (release IcacheLock) (ret ip)))))"

definition idup :: "nat \<Rightarrow> nat K" where
  "idup ip = thenP (acquire IcacheLock)
    (thenP (modify (setinode ip (\<lambda>x. x\<lparr>i_ref := i_ref x + 1\<rparr>)))
    (thenP (release IcacheLock) (ret ip)))"

definition zero_dinode :: "u16 \<Rightarrow> dinode" where
  "zero_dinode ty = \<lparr>d_type = ty, d_major = 0, d_minor = 0, d_nlink = 0, d_size = 0, d_addrs = replicate (NDIRECT + 1) 0\<rparr>"

primrec ialloc_loop :: "nat \<Rightarrow> u32 \<Rightarrow> u32 \<Rightarrow> u16 \<Rightarrow> superblock \<Rightarrow> nat K" where
  "ialloc_loop 0 inum dev ty sb = panic ''ialloc: no inodes''"
| "ialloc_loop (Suc n) inum dev ty sb = (if inum < sb_ninodes sb then
     bindP (bread dev (IBLOCK inum)) (\<lambda>bp.
     bindP (bdata bp) (\<lambda>d.
     if d_type (dec_dinode d (dinode_off inum)) = 0
     then thenP (modify (setdata bp (put_bytes (dinode_off inum) (enc_dinode (zero_dinode ty)))))
         (thenP (bwrite bp)
         (thenP (brelse bp) (iget dev inum)))
     else thenP (brelse bp) (ialloc_loop n (inum + 1) dev ty sb)))
     else panic ''ialloc: no inodes'')"

definition ialloc :: "u32 \<Rightarrow> u16 \<Rightarrow> nat K" where
  "ialloc dev ty = bindP (readsb dev) (\<lambda>sb. ialloc_loop (unat (sb_ninodes sb)) 1 dev ty sb)"

definition inode_dinode :: "inode \<Rightarrow> dinode" where
  "inode_dinode ip = \<lparr>d_type = i_type ip, d_major = i_major ip, d_minor = i_minor ip, d_nlink = i_nlink ip,
     d_size = i_size ip, d_addrs = i_addrs ip\<rparr>"

definition load_dinode :: "dinode \<Rightarrow> inode \<Rightarrow> inode" where
  "load_dinode d ip = ip\<lparr>i_type := d_type d, i_major := d_major d, i_minor := d_minor d, i_nlink := d_nlink d,
     i_size := d_size d, i_addrs := d_addrs d\<rparr>"

definition iupdate :: "nat \<Rightarrow> unit K" where
  "iupdate ip = bindP (inode_get ip (\<lambda>x. x)) (\<lambda>i.
     bindP (bread (i_dev i) (IBLOCK (i_inum i))) (\<lambda>bp.
     thenP (modify (setdata bp (put_bytes (dinode_off (i_inum i)) (enc_dinode (inode_dinode i)))))
    (thenP (bwrite bp) (brelse bp))))"

definition ilock :: "nat \<Rightarrow> unit K" where
  "ilock ip = bindP (inode_get ip i_ref) (\<lambda>ref.
     if ref < 1 then panic ''ilock'' else
     thenP (acquire IcacheLock)
    (bindP (inode_get ip i_flags) (\<lambda>fl.
     if fl AND I_BUSY \<noteq> 0 then thenP (sleep (InodeChan ip) IcacheLock None) switch else
     thenP (modify (setinode ip (\<lambda>x. x\<lparr>i_flags := i_flags x OR I_BUSY\<rparr>)))
    (thenP (release IcacheLock)
    (bindP (inode_get ip (\<lambda>x. x)) (\<lambda>i.
     whenP (i_flags i AND I_VALID = 0)
       (bindP (bread (i_dev i) (IBLOCK (i_inum i))) (\<lambda>bp.
        bindP (bdata bp) (\<lambda>d.
        thenP (modify (setinode ip (load_dinode (dec_dinode d (dinode_off (i_inum i))))))
       (thenP (brelse bp)
       (thenP (modify (setinode ip (\<lambda>x. x\<lparr>i_flags := i_flags x OR I_VALID\<rparr>)))
       (bindP (inode_get ip i_type) (\<lambda>ty.
        whenP (ty = 0) (panic ''ilock: no type''))))))))))))))"

definition iunlock :: "nat \<Rightarrow> unit K" where
  "iunlock ip = bindP (inode_get ip (\<lambda>x. x)) (\<lambda>i.
     if i_flags i AND I_BUSY = 0 \<or> i_ref i < 1 then panic ''iunlock'' else
     thenP (acquire IcacheLock)
    (thenP (modify (setinode ip (\<lambda>x. x\<lparr>i_flags := i_flags x AND NOT I_BUSY\<rparr>)))
    (thenP (wakeup (InodeChan ip))
    (release IcacheLock))))"

section \<open>Contents of an inode\<close>

definition set_addr :: "nat \<Rightarrow> nat \<Rightarrow> u32 \<Rightarrow> kernel \<Rightarrow> kernel" where
  "set_addr ip i a = setinode ip (\<lambda>x. x\<lparr>i_addrs := (i_addrs x)[i := a]\<rparr>)"

definition bmap :: "nat \<Rightarrow> u32 \<Rightarrow> u32 K" where
  "bmap ip bn = bindP (inode_get ip (\<lambda>x. x)) (\<lambda>i.
     if bn < of_nat NDIRECT then
       let addr = i_addrs i ! unat bn in
       if addr = 0
       then bindP (balloc (i_dev i)) (\<lambda>a. thenP (modify (set_addr ip (unat bn) a)) (ret a))
       else ret addr
     else let bn' = bn - of_nat NDIRECT in
     if bn' < of_nat NINDIRECT then
       bindP (if i_addrs i ! NDIRECT = 0
              then bindP (balloc (i_dev i)) (\<lambda>a. thenP (modify (set_addr ip NDIRECT a)) (ret a))
              else ret (i_addrs i ! NDIRECT)) (\<lambda>ind.
       bindP (bread (i_dev i) ind) (\<lambda>bp.
       bindP (bdata bp) (\<lambda>d.
       bindP (if get32 d (4 * unat bn') = 0
              then bindP (balloc (i_dev i)) (\<lambda>a.
                   thenP (modify (setdata bp (put_bytes (4 * unat bn') (enc32 a))))
                  (thenP (bwrite bp) (ret a)))
              else ret (get32 d (4 * unat bn'))) (\<lambda>addr.
       thenP (brelse bp) (ret addr)))))
     else panic ''bmap: out of range'')"

definition itrunc :: "nat \<Rightarrow> unit K" where
  "itrunc ip = bindP (inode_get ip i_dev) (\<lambda>dev.
     thenP (forP [0..<NDIRECT] (\<lambda>i.
       bindP (inode_get ip (\<lambda>x. i_addrs x ! i)) (\<lambda>a.
       whenP (a \<noteq> 0) (thenP (bfree dev a) (modify (set_addr ip i 0))))))
    (bindP (inode_get ip (\<lambda>x. i_addrs x ! NDIRECT)) (\<lambda>ind.
     thenP (whenP (ind \<noteq> 0)
       (bindP (bread dev ind) (\<lambda>bp.
        thenP (forP [0..<NINDIRECT] (\<lambda>j.
          bindP (bdata bp) (\<lambda>d.
          whenP (get32 d (4 * j) \<noteq> 0) (bfree dev (get32 d (4 * j))))))
       (thenP (brelse bp)
       (thenP (bfree dev ind)
       (modify (set_addr ip NDIRECT 0)))))))
    (thenP (modify (setinode ip (\<lambda>x. x\<lparr>i_size := 0\<rparr>)))
    (iupdate ip)))))"

definition iput :: "nat \<Rightarrow> unit K" where
  "iput ip = thenP (acquire IcacheLock)
    (bindP (inode_get ip (\<lambda>x. x)) (\<lambda>i.
     thenP (whenP (i_ref i = 1 \<and> i_flags i AND I_VALID \<noteq> 0 \<and> i_nlink i = 0)
       (if i_flags i AND I_BUSY \<noteq> 0 then panic ''iput busy'' else
        thenP (modify (setinode ip (\<lambda>x. x\<lparr>i_flags := i_flags x OR I_BUSY\<rparr>)))
       (thenP (release IcacheLock)
       (thenP (itrunc ip)
       (thenP (modify (setinode ip (\<lambda>x. x\<lparr>i_type := 0\<rparr>)))
       (thenP (iupdate ip)
       (thenP (acquire IcacheLock)
       (thenP (modify (setinode ip (\<lambda>x. x\<lparr>i_flags := 0\<rparr>)))
       (wakeup (InodeChan ip))))))))))
    (thenP (modify (setinode ip (\<lambda>x. x\<lparr>i_ref := i_ref x - 1\<rparr>)))
    (release IcacheLock))))"

definition iunlockput :: "nat \<Rightarrow> unit K" where
  "iunlockput ip = thenP (iunlock ip) (iput ip)"

definition stati :: "nat \<Rightarrow> stat K" where
  "stati ip = inode_get ip (\<lambda>i. \<lparr>st_type = i_type i, st_dev = i_dev i, st_ino = i_inum i, st_nlink = i_nlink i, st_size = i_size i\<rparr>)"

end
