(* ===== verification/Console.thy ===== *)
theory Console
  imports Console_Out Inode
begin

text \<open>
  Console input and the console device (\<^verbatim>\<open>kernel/console.c\<close>, and the input half of
  \<^verbatim>\<open>kernel/uart.c\<close>). The characters an interrupt delivers are a list, up to the first negative
  result of \<^verbatim>\<open>getc\<close>. \<^verbatim>\<open>consoleread\<close> returns the bytes it has stored; \<open>es\<close> is what happens
  during its sleeps, as in \<open>Pipe\<close>. \<^verbatim>\<open>consoleinit\<close>, which also routes the interrupt, is in \<open>Devices\<close>.
\<close>

definition INPUT_BUF :: nat where [simp]: "INPUT_BUF = 128"
definition CONSOLE :: nat where [simp]: "CONSOLE = 1"

definition setinput :: "(input \<Rightarrow> input) \<Rightarrow> kernel \<Rightarrow> kernel" where
  "setinput f k = k\<lparr>k_input := f (k_input k)\<rparr>"

definition in_at :: "input \<Rightarrow> u32 \<Rightarrow> u8" where
  "in_at s i = in_buf s ! unat (i mod 128)"

section \<open>Interrupts\<close>

text \<open>The loop of \<^verbatim>\<open>^U\<close> runs at most \<^verbatim>\<open>input.e - input.w\<close> times.\<close>

primrec killline :: "nat \<Rightarrow> unit K" where
  "killline 0 = ret ()"
| "killline (Suc n) = bindP (reads k_input) (\<lambda>s.
     if in_e s \<noteq> in_w s \<and> in_at s (in_e s - 1) \<noteq> 10
     then thenP (modify (setinput (\<lambda>s. s\<lparr>in_e := in_e s - 1\<rparr>))) (thenP (consputc BACKSPACE) (killline n))
     else ret ())"

definition console_char :: "int \<Rightarrow> unit K" where
  "console_char c =
    (if c = 16 then procdump
     else if c = 21 then bindP (reads k_input) (\<lambda>s. killline (unat (in_e s - in_w s)))
     else if c = 8 \<or> c = 127 then
       bindP (reads k_input) (\<lambda>s. whenP (in_e s \<noteq> in_w s)
         (thenP (modify (setinput (\<lambda>s. s\<lparr>in_e := in_e s - 1\<rparr>))) (consputc BACKSPACE)))
     else bindP (reads k_input) (\<lambda>s. whenP (c \<noteq> 0 \<and> in_e s - in_r s < of_nat INPUT_BUF)
       (let c' = (if c = 13 then 10 else c) in
        thenP (modify (setinput (\<lambda>s. s\<lparr>in_buf := (in_buf s)[unat (in_e s mod 128) := word_of_int c'], in_e := in_e s + 1\<rparr>)))
       (thenP (consputc c')
       (bindP (reads k_input) (\<lambda>s.
        whenP (c' = 10 \<or> c' = 4 \<or> in_e s = in_r s + of_nat INPUT_BUF)
          (thenP (modify (setinput (\<lambda>s. s\<lparr>in_w := in_e s\<rparr>))) (wakeup InputChan))))))))"

definition consoleintr :: "int list \<Rightarrow> unit K" where
  "consoleintr cs = thenP (acquire InputLock)
    (thenP (forP (takeWhile (\<lambda>c. c \<ge> 0) cs) console_char)
    (release InputLock))"

definition uartgetc :: "bool \<Rightarrow> u8 \<times> u8 \<Rightarrow> int" where
  "uartgetc uart port = (case port of (st, data) \<Rightarrow>
     if \<not> uart then - 1 else if st AND 1 = 0 then - 1 else uint data)"

definition uartintr :: "(u8 \<times> u8) list \<Rightarrow> unit K" where
  "uartintr ports = bindP (reads k_uart) (\<lambda>uart. consoleintr (map (uartgetc uart) ports))"

section \<open>The console device\<close>

definition console_try :: "nat \<Rightarrow> env list \<Rightarrow> env list option K \<Rightarrow> env list option K" where
  "console_try ip es block = bindP (reads k_input) (\<lambda>s.
     if in_r s = in_w s then
       bindP (curproc_get (\<lambda>pr. p_killed pr \<noteq> 0)) (\<lambda>dead.
       if dead then thenP (release InputLock) (thenP (ilock ip) (ret None)) else block)
     else ret (Some es))"

primrec console_wait :: "env list \<Rightarrow> nat \<Rightarrow> env list option K" where
  "console_wait [] ip = console_try ip [] (thenP (sleep InputChan InputLock None) (ret None))"
| "console_wait (e # es) ip = console_try ip (e # es) (thenP (sleep InputChan InputLock (Some e)) (console_wait es ip))"

primrec consoleread_loop :: "nat \<Rightarrow> nat \<Rightarrow> nat \<Rightarrow> env list \<Rightarrow> u8 list option K" where
  "consoleread_loop 0 target ip es = ret (Some [])"
| "consoleread_loop (Suc n) target ip es = bindP (console_wait es ip) (\<lambda>r.
     case r of
       None \<Rightarrow> ret None
     | Some es' \<Rightarrow>
         bindP (reads k_input) (\<lambda>s.
         thenP (modify (setinput (\<lambda>s. s\<lparr>in_r := in_r s + 1\<rparr>)))
        (let c = in_at s (in_r s) in
         if c = 4 then
           thenP (whenP (Suc n < target) (modify (setinput (\<lambda>s. s\<lparr>in_r := in_r s - 1\<rparr>)))) (ret (Some []))
         else if c = 10 then ret (Some [c])
         else bindP (consoleread_loop n target ip es') (\<lambda>r. ret (map_option (\<lambda>cs. c # cs) r)))))"

definition consoleread :: "nat \<Rightarrow> int \<Rightarrow> env list \<Rightarrow> (int \<times> u8 list) K" where
  "consoleread ip n es = thenP (iunlock ip)
    (thenP (acquire InputLock)
    (bindP (consoleread_loop (nat n) (nat n) ip es) (\<lambda>r.
     case r of
       None \<Rightarrow> ret (- 1, [])
     | Some cs \<Rightarrow>
         thenP (release InputLock)
        (thenP (ilock ip)
        (ret (int (length cs), cs))))))"

definition consolewrite :: "nat \<Rightarrow> u8 list \<Rightarrow> int \<Rightarrow> int K" where
  "consolewrite ip bs n = thenP (iunlock ip)
    (thenP (acquire ConsLock)
    (thenP (forP (take (nat n) bs) (\<lambda>c. consputc (uint c)))
    (thenP (release ConsLock)
    (thenP (ilock ip)
    (ret n)))))"

end
