(* ===== verification/Fs.thy ===== *)
theory Fs
  imports Console
begin

text \<open>
  Files, directories and path names (\<^verbatim>\<open>kernel/fs.c\<close>). The bytes read are returned as a list, the
  bytes to write are given as one. A name is the list of its bytes, without a terminating zero and
  cut to \<open>DIRSIZ\<close>. \<open>es\<close> is what happens while the console device sleeps.
\<close>

section \<open>Reading and writing\<close>

text \<open>
  The loops take a step of at least one byte each time, so the number of bytes bounds the number
  of steps.
\<close>

primrec readi_loop :: "nat \<Rightarrow> nat \<Rightarrow> u32 \<Rightarrow> nat \<Rightarrow> u8 list K" where
  "readi_loop 0 ip off rem = ret []"
| "readi_loop (Suc fuel) ip off rem = (if rem = 0 then ret [] else
     bindP (bmap ip (off div 512)) (\<lambda>a.
     bindP (inode_get ip i_dev) (\<lambda>dev.
     bindP (bread dev a) (\<lambda>bp.
     bindP (bdata bp) (\<lambda>d.
     let o' = unat (off mod 512); m = min rem (BSIZE - o') in
     thenP (brelse bp)
    (bindP (readi_loop fuel ip (off + of_nat m) (rem - m)) (\<lambda>r.
     ret (take m (drop o' d) @ r))))))))"

definition readi :: "env list \<Rightarrow> nat \<Rightarrow> u32 \<Rightarrow> u32 \<Rightarrow> (int \<times> u8 list) K" where
  "readi es ip off n = bindP (inode_get ip (\<lambda>x. x)) (\<lambda>i.
     if i_type i = T_DEV then
       (if sint (i_major i) < 0 \<or> sint (i_major i) \<ge> int NDEV then ret (- 1, []) else
        bindP (reads (\<lambda>k. k_devsw k (unat (i_major i)))) (\<lambda>d.
        case d of None \<Rightarrow> ret (- 1, []) | Some ConsoleDev \<Rightarrow> consoleread ip (sint n) es))
     else if off > i_size i \<or> off + n < off then ret (- 1, [])
     else let n' = (if off + n > i_size i then i_size i - off else n) in
       bindP (readi_loop (unat n') ip off (unat n')) (\<lambda>bs. ret (sint n', bs)))"

primrec writei_loop :: "nat \<Rightarrow> nat \<Rightarrow> u32 \<Rightarrow> u8 list \<Rightarrow> u32 K" where
  "writei_loop 0 ip off bs = ret off"
| "writei_loop (Suc fuel) ip off bs = (if bs = [] then ret off else
     bindP (bmap ip (off div 512)) (\<lambda>a.
     bindP (inode_get ip i_dev) (\<lambda>dev.
     bindP (bread dev a) (\<lambda>bp.
     let o' = unat (off mod 512); m = min (length bs) (BSIZE - o') in
     thenP (modify (setdata bp (put_bytes o' (take m bs))))
    (thenP (bwrite bp)
    (thenP (brelse bp)
    (writei_loop fuel ip (off + of_nat m) (drop m bs))))))))"

definition writei :: "nat \<Rightarrow> u8 list \<Rightarrow> u32 \<Rightarrow> u32 \<Rightarrow> int K" where
  "writei ip src off n = bindP (inode_get ip (\<lambda>x. x)) (\<lambda>i.
     if i_type i = T_DEV then
       (if sint (i_major i) < 0 \<or> sint (i_major i) \<ge> int NDEV then ret (- 1) else
        bindP (reads (\<lambda>k. k_devsw k (unat (i_major i)))) (\<lambda>d.
        case d of None \<Rightarrow> ret (- 1) | Some ConsoleDev \<Rightarrow> consolewrite ip src (sint n)))
     else if off > i_size i \<or> off + n < off then ret (- 1)
     else let n' = (if off + n > of_nat (MAXFILE * BSIZE) then of_nat (MAXFILE * BSIZE) - off else n) in
       bindP (writei_loop (unat n') ip off (take (unat n') src)) (\<lambda>off'.
       thenP (whenP (n' > 0 \<and> off' > i_size i)
         (thenP (modify (setinode ip (\<lambda>x. x\<lparr>i_size := off'\<rparr>))) (iupdate ip)))
       (ret (sint n'))))"

section \<open>Directories\<close>

fun strncmp_name :: "nat \<Rightarrow> u8 list \<Rightarrow> u8 list \<Rightarrow> int" where
  "strncmp_name 0 s t = 0"
| "strncmp_name (Suc n) s t =
    (let p = (case s of [] \<Rightarrow> 0 | c # _ \<Rightarrow> c); q = (case t of [] \<Rightarrow> 0 | c # _ \<Rightarrow> c) in
     if p \<noteq> 0 \<and> p = q then strncmp_name n (tl s) (tl t) else uint p - uint q)"

definition namecmp :: "u8 list \<Rightarrow> u8 list \<Rightarrow> int" where
  "namecmp s t = strncmp_name DIRSIZ s t"

text \<open>The scan of one block: the position of the first entry in use with the given name.\<close>

definition find_dirent :: "u8 list \<Rightarrow> u8 list \<Rightarrow> nat option" where
  "find_dirent name d = find (\<lambda>o'. de_inum (dec_dirent d o') \<noteq> 0 \<and> namecmp name (de_name (dec_dirent d o')) = 0)
     (map (\<lambda>i. 16 * i) [0..<BSIZE div 16])"

text \<open>
  The result is the inode and the offset of the entry. The loop ends at the latest when
  \<^verbatim>\<open>off\<close> has passed the largest 32-bit multiple of \<^verbatim>\<open>BSIZE\<close>.
\<close>

primrec dirlookup_loop :: "nat \<Rightarrow> nat \<Rightarrow> u8 list \<Rightarrow> u32 \<Rightarrow> (nat \<times> u32) option K" where
  "dirlookup_loop 0 dp name off = ret None"
| "dirlookup_loop (Suc fuel) dp name off = bindP (inode_get dp (\<lambda>x. x)) (\<lambda>i.
     if off < i_size i then
       bindP (bmap dp (off div 512)) (\<lambda>a.
       bindP (bread (i_dev i) a) (\<lambda>bp.
       bindP (bdata bp) (\<lambda>d.
       case find_dirent name d of
         Some o' \<Rightarrow>
           thenP (brelse bp)
          (bindP (iget (i_dev i) (ucast (de_inum (dec_dirent d o')))) (\<lambda>ip.
           ret (Some (ip, off + of_nat o'))))
       | None \<Rightarrow> thenP (brelse bp) (dirlookup_loop fuel dp name (off + 512)))))
     else ret None)"

definition dirlookup :: "nat \<Rightarrow> u8 list \<Rightarrow> (nat \<times> u32) option K" where
  "dirlookup dp name = bindP (inode_get dp (\<lambda>x. x)) (\<lambda>i.
     if i_type i \<noteq> T_DIR then panic ''dirlookup not DIR'' else
     dirlookup_loop (unat (i_size i) div BSIZE + 1) dp name 0)"

primrec dirlink_slot :: "nat \<Rightarrow> nat \<Rightarrow> u32 \<Rightarrow> u32 K" where
  "dirlink_slot 0 dp off = ret off"
| "dirlink_slot (Suc fuel) dp off = bindP (inode_get dp i_size) (\<lambda>sz.
     if off < sz then
       bindP (readi [] dp off 16) (\<lambda>(r, bs).
       if r \<noteq> 16 then panic ''dirlink read'' else
       if de_inum (dec_dirent bs 0) = 0 then ret off else dirlink_slot fuel dp (off + 16))
     else ret off)"

definition name_field :: "u8 list \<Rightarrow> u8 list" where
  "name_field name = take DIRSIZ (name @ replicate DIRSIZ 0)"

definition dirlink :: "nat \<Rightarrow> u8 list \<Rightarrow> u32 \<Rightarrow> int K" where
  "dirlink dp name inum = bindP (dirlookup dp name) (\<lambda>r.
     case r of
       Some (ip, _) \<Rightarrow> thenP (iput ip) (ret (- 1))
     | None \<Rightarrow>
         bindP (inode_get dp i_size) (\<lambda>sz.
         bindP (dirlink_slot (unat sz div 16 + 1) dp 0) (\<lambda>off.
         bindP (writei dp (enc_dirent \<lparr>de_inum = ucast inum, de_name = name_field name\<rparr>) off 16) (\<lambda>r.
         if r \<noteq> 16 then panic ''dirlink'' else ret 0))))"

section \<open>Paths\<close>

definition skip_slashes :: "u8 list \<Rightarrow> u8 list" where
  "skip_slashes = dropWhile (\<lambda>c. c = 47)"

text \<open>The result is the rest of the path and the element, cut to \<open>DIRSIZ\<close> bytes.\<close>

definition skipelem :: "u8 list \<Rightarrow> (u8 list \<times> u8 list) option" where
  "skipelem path = (case skip_slashes path of
     [] \<Rightarrow> None
   | s \<Rightarrow> Some (skip_slashes (dropWhile (\<lambda>c. c \<noteq> 47) s), take DIRSIZ (takeWhile (\<lambda>c. c \<noteq> 47) s)))"

lemma skipelem_shorter:
  assumes a: "skipelem path = Some (r, name)"
  shows "length r < length path"
proof -
  obtain c s where s: "skip_slashes path = c # s" using a by (auto simp: skipelem_def split: list.splits)
  have "dropWhile (\<lambda>c. c = 47) path \<noteq> []" using s by (simp add: skip_slashes_def)
  then have c: "c \<noteq> 47" using hd_dropWhile [of "\<lambda>c. c = 47" path] s by (simp only: skip_slashes_def list.sel not_False_eq_True)
  have "r = skip_slashes (dropWhile (\<lambda>c. c \<noteq> 47) s)" using a s c by (simp add: skipelem_def)
  then have "length r \<le> length (dropWhile (\<lambda>c. c \<noteq> 47) s)" by (simp add: skip_slashes_def length_dropWhile_le)
  also have "\<dots> \<le> length s" by (rule length_dropWhile_le)
  also have "\<dots> < length (skip_slashes path)" by (simp add: s)
  also have "\<dots> \<le> length path" by (simp add: skip_slashes_def length_dropWhile_le)
  finally show ?thesis .
qed

text \<open>
  The loop of \<^verbatim>\<open>namex\<close>; the result is the inode and the last name copied. Each step takes an element
  off the path, so its length bounds the number of steps.
\<close>

primrec namex_loop :: "nat \<Rightarrow> nat \<Rightarrow> u8 list \<Rightarrow> bool \<Rightarrow> u8 list \<Rightarrow> (nat \<times> u8 list) option K" where
  "namex_loop 0 ip path parent nm = ret None"
| "namex_loop (Suc fuel) ip path parent nm = (case skipelem path of
     None \<Rightarrow> if parent then thenP (iput ip) (ret None) else ret (Some (ip, nm))
   | Some (path', name) \<Rightarrow>
       thenP (ilock ip)
      (bindP (inode_get ip i_type) (\<lambda>ty.
       if ty \<noteq> T_DIR then thenP (iunlockput ip) (ret None)
       else if parent \<and> path' = [] then thenP (iunlock ip) (ret (Some (ip, name)))
       else bindP (dirlookup ip name) (\<lambda>r.
         case r of
           None \<Rightarrow> thenP (iunlockput ip) (ret None)
         | Some (next, _) \<Rightarrow> thenP (iunlockput ip) (namex_loop fuel next path' parent name)))))"

definition namex :: "u8 list \<Rightarrow> bool \<Rightarrow> (nat \<times> u8 list) option K" where
  "namex path parent = bindP
     (if take 1 path = [47] then iget ROOTDEV ROOTINO
      else bindP (curproc_get p_cwd) (\<lambda>cwd. case cwd of Some ip \<Rightarrow> idup ip | None \<Rightarrow> fault ''proc->cwd''))
     (\<lambda>ip. namex_loop (length path + 1) ip path parent [])"

definition namei :: "u8 list \<Rightarrow> nat option K" where
  "namei path = bindP (namex path False) (\<lambda>r. ret (map_option fst r))"

definition nameiparent :: "u8 list \<Rightarrow> (nat \<times> u8 list) option K" where
  "nameiparent path = namex path True"

end
