(* ===== verification/Kalloc.thy ===== *)
theory Kalloc
  imports Spinlock Cstring
begin

text \<open>
  The physical page allocator (\<^verbatim>\<open>kernel/kalloc.c\<close>). The free pages form a list that is linked
  through the first word of each page; the list lives in the byte memory. The contract of
  the allocator is the locale \<open>page_alloc\<close>: a stack of free pages.
\<close>

definition PGSIZE :: u32 where [simp]: "PGSIZE = 4096"

definition PGROUNDUP :: "u32 \<Rightarrow> u32" where
  "PGROUNDUP sz = (sz + PGSIZE - 1) AND NOT (PGSIZE - 1)"

definition PGROUNDDOWN :: "u32 \<Rightarrow> u32" where
  "PGROUNDDOWN a = a AND NOT (PGSIZE - 1)"

section \<open>Operations\<close>

definition setmem :: "(mem \<Rightarrow> mem) \<Rightarrow> unit K" where
  "setmem f = modify (\<lambda>k. k\<lparr>k_mem := f (k_mem k)\<rparr>)"

definition kfree :: "addr \<Rightarrow> unit K" where
  "kfree v = bindP (reads k_end) (\<lambda>e.
     if v mod PGSIZE \<noteq> 0 \<or> v < e \<or> v \<ge> PHYSTOP then panic ''kfree'' else
     thenP (setmem (memset v 1 PGSIZE))
    (thenP (acquire KmemLock)
    (thenP (modify (\<lambda>k. k\<lparr>k_mem := store32 (k_mem k) v (k_freelist k)\<rparr>))
    (thenP (modify (\<lambda>k. k\<lparr>k_freelist := v\<rparr>))
    (release KmemLock)))))"

definition kalloc :: "addr K" where
  "kalloc = thenP (acquire KmemLock)
    (bindP (reads k_freelist) (\<lambda>r.
     thenP (whenP (r \<noteq> 0) (modify (\<lambda>k. k\<lparr>k_freelist := load32 (k_mem k) r\<rparr>)))
    (thenP (release KmemLock)
    (ret r))))"

text \<open>The loop of \<^verbatim>\<open>kinit\<close>, which also ends if the address wraps around.\<close>

function kinit_loop :: "addr \<Rightarrow> unit K" where
  "kinit_loop p = (if p + PGSIZE \<le> PHYSTOP then thenP (kfree p) (kinit_loop (p + PGSIZE)) else ret ())"
  by pat_completeness auto

definition kinit_rank :: "addr \<Rightarrow> nat" where
  "kinit_rank p = (if unat p \<le> 16777216 then 16777216 - unat p else 16777217)"

lemma kinit_rank_less: "p + PGSIZE \<le> PHYSTOP \<Longrightarrow> kinit_rank (p + PGSIZE) < kinit_rank p"
proof -
  assume "p + PGSIZE \<le> PHYSTOP"
  then have le: "unat (p + 4096) \<le> 16777216" by (simp add: word_le_nat_alt)
  show ?thesis
  proof (cases "unat p \<le> 16777216")
    case True
    then have "unat (p + 4096) = unat p + 4096" by (simp add: unat_word_ariths take_bit_eq_mod)
    then show ?thesis using True le by (simp add: kinit_rank_def)
  qed (use le in \<open>simp add: kinit_rank_def\<close>)
qed

termination kinit_loop
  by (relation "measure kinit_rank") (simp_all del: PGSIZE_def PHYSTOP_def add: kinit_rank_less)

declare kinit_loop.simps [simp del]

definition kinit :: "unit K" where
  "kinit = thenP (initlock KmemLock)
    (bindP (reads k_end) (\<lambda>e. kinit_loop (PGROUNDUP e)))"

section \<open>The contract\<close>

locale page_alloc =
  fixes R :: "'s \<Rightarrow> 'a list \<Rightarrow> bool"
    and ready :: "'s \<Rightarrow> bool"
    and page :: "'s \<Rightarrow> 'a \<Rightarrow> bool"
    and alloc :: "('s, 'a) prog"
    and free :: "'a \<Rightarrow> ('s, unit) prog"
    and none :: 'a
  assumes alloc_law: "R s (x # xs) \<Longrightarrow> ready s \<Longrightarrow> \<exists>t. alloc s = Ret x t \<and> R t xs \<and> ready t"
    and alloc_empty_law: "R s [] \<Longrightarrow> ready s \<Longrightarrow> \<exists>t. alloc s = Ret none t \<and> R t [] \<and> ready t"
    and free_law: "R s xs \<Longrightarrow> ready s \<Longrightarrow> page s x \<Longrightarrow> x \<notin> set xs \<Longrightarrow> \<exists>t. free x s = Ret () t \<and> R t (x # xs) \<and> ready t"
    and R_distinct: "R s xs \<Longrightarrow> distinct xs"
    and R_page: "R s xs \<Longrightarrow> x \<in> set xs \<Longrightarrow> page s x \<and> x \<noteq> none"
    and page_frame: "alloc s = Ret x t \<Longrightarrow> ready s \<Longrightarrow> page t = page s"
begin

text \<open>A page that is allocated and freed at once is the next one to be allocated.\<close>

lemma alloc_free_alloc:
  assumes "R s (x # xs)" and "ready s"
  shows "\<exists>t u v. alloc s = Ret x t \<and> free x t = Ret () u \<and> alloc u = Ret x v \<and> R v xs"
proof -
  obtain t where t: "alloc s = Ret x t" "R t xs" "ready t" using alloc_law [OF assms] by blast
  have "page t x" using page_frame [OF t(1) assms(2)] R_page [OF assms(1)] by simp
  moreover have "x \<notin> set xs" using R_distinct [OF assms(1)] by simp
  ultimately obtain u where u: "free x t = Ret () u" "R u (x # xs)" "ready u" using free_law [OF t(2,3)] by blast
  then show ?thesis using t alloc_law [OF u(2,3)] by blast
qed

text \<open>Successive allocations return distinct pages, until none is left.\<close>

lemma alloc_two_distinct:
  assumes "R s (x # y # xs)" and "ready s"
  shows "\<exists>t u. alloc s = Ret x t \<and> alloc t = Ret y u \<and> x \<noteq> y \<and> x \<notin> set xs \<and> y \<notin> set xs"
  using alloc_law [OF assms] alloc_law R_distinct [OF assms(1)] by fastforce

end

section \<open>The free list implements it\<close>

definition page_addr :: "kernel \<Rightarrow> addr \<Rightarrow> bool" where
  "page_addr k a \<longleftrightarrow> a \<noteq> 0 \<and> a mod PGSIZE = 0 \<and> k_end k \<le> a \<and> a < PHYSTOP"

fun chain :: "mem \<Rightarrow> addr \<Rightarrow> addr list \<Rightarrow> bool" where
  "chain m a [] = (a = 0)"
| "chain m a (x # xs) = (a = x \<and> chain m (load32 m x) xs)"

definition free_rep :: "kernel \<Rightarrow> addr list \<Rightarrow> bool" where
  "free_rep k xs \<longleftrightarrow> chain (k_mem k) (k_freelist k) xs \<and> distinct xs \<and> (\<forall>x \<in> set xs. page_addr k x)"

definition kmem_ready :: "kernel \<Rightarrow> bool" where
  "kmem_ready k \<longleftrightarrow> unlocked KmemLock k \<and> cli_ok k"

lemma page_mod: "(a :: u32) mod 4096 = 0 \<longleftrightarrow> unat a mod 4096 = 0"
  by (simp add: word_unat_eq_iff unat_mod)

lemma page_multiple: "(a :: u32) mod 4096 = 0 \<Longrightarrow> \<exists>q. unat a = 4096 * q"
  unfolding page_mod mod_eq_0_iff_dvd by (rule dvd_def [THEN iffD1])

lemma page_unat_add:
  assumes "(a :: u32) mod 4096 = 0" and "i < 4096"
  shows "unat (a + of_nat i) = unat a + i"
proof -
  obtain q where q: "unat a = 4096 * q" using page_multiple [OF assms(1)] by blast
  moreover have "unat a < 4294967296" using unsigned_less [of a] by simp
  ultimately have "q < 1048576" by simp
  then have "unat a + i < 4294967296" using assms(2) q by simp
  then show ?thesis by (rule unat_add_of_nat)
qed

lemma pages_disjoint:
  assumes "(a :: u32) mod 4096 = 0" and "b mod 4096 = 0" and "a \<noteq> b" and "i < 4096" and "j < 4096"
  shows "a + of_nat i \<noteq> b + of_nat j"
proof
  assume "a + of_nat i = b + of_nat j"
  then have eq: "unat a + i = unat b + j"
    using page_unat_add [OF assms(1,4)] page_unat_add [OF assms(2,5)] by metis
  obtain q r where q: "unat a = 4096 * q" "unat b = 4096 * r"
    using page_multiple [OF assms(1)] page_multiple [OF assms(2)] by blast
  then have "(4096 * q + i) div 4096 = (4096 * r + j) div 4096" using eq by simp
  then have "q = r" using assms(4,5) by simp
  with q assms(3) show False by (simp add: word_unat_eq_iff)
qed

lemma page_aligned4: "(a :: u32) mod 4096 = 0 \<Longrightarrow> aligned4 a"
  unfolding aligned4_def page_mod by (auto simp: mod_eq_0_iff_dvd intro: dvd_trans [of 4 4096])

lemma load32_memset_other:
  assumes "(a :: u32) mod 4096 = 0" and "v mod 4096 = 0" and "a \<noteq> v"
  shows "load32 (memset v c PGSIZE m) a = load32 m a"
proof -
  have "memset v c PGSIZE m (a + of_nat j) = m (a + of_nat j)" if "j < 4096" for j
    unfolding memset_def by (rule set_bytes_out) (use pages_disjoint [OF assms that] in simp_all)
  from this [of 0] this [of 1] this [of 2] this [of 3] show ?thesis by (simp add: load32_def)
qed

lemma chain_cong: "(\<And>x. x \<in> set xs \<Longrightarrow> load32 m' x = load32 m x) \<Longrightarrow> chain m' a xs = chain m a xs"
  by (induction xs arbitrary: a) auto

lemma kfree_eq:
  assumes "v mod PGSIZE = 0" and "k_end k \<le> v" and "v < PHYSTOP" and "kmem_ready k"
  shows "kfree v k = Ret () ((touch k)\<lparr>k_mem := store32 (memset v 1 PGSIZE (k_mem k)) v (k_freelist k), k_freelist := v\<rparr>)"
  using assms by (simp add: kfree_def setmem_def kmem_ready_def cli_ok_def not_less not_le)

lemma kfree_law:
  assumes R: "free_rep k xs" and r: "kmem_ready k" and v: "page_addr k v" "v \<notin> set xs"
  shows "\<exists>k'. kfree v k = Ret () k' \<and> free_rep k' (v # xs) \<and> kmem_ready k'"
proof -
  let ?m = "store32 (memset v 1 PGSIZE (k_mem k)) v (k_freelist k)"
  let ?k = "(touch k)\<lparr>k_mem := ?m, k_freelist := v\<rparr>"
  have pg: "x mod 4096 = 0" if "x \<in> set xs" for x using R that by (auto simp: free_rep_def page_addr_def)
  have v0: "v mod 4096 = 0" using v by (simp add: page_addr_def)
  have "load32 ?m x = load32 (k_mem k) x" if "x \<in> set xs" for x
  proof -
    have "x \<noteq> v" using that v(2) by auto
    then show ?thesis
      using load32_store32_other [OF page_aligned4 [OF v0] page_aligned4 [OF pg [OF that]]]
        load32_memset_other [OF pg [OF that] v0] by simp
  qed
  then have "chain ?m (k_freelist k) xs" using R chain_cong [of xs ?m] by (simp add: free_rep_def)
  then have "free_rep ?k (v # xs)" using R v by (simp add: free_rep_def page_addr_def)
  moreover have "kfree v k = Ret () ?k" using kfree_eq [of v k] v(1) r by (simp add: page_addr_def)
  ultimately show ?thesis using r by (simp add: kmem_ready_def)
qed

lemma kalloc_eq:
  "kmem_ready k \<Longrightarrow> kalloc k = Ret (k_freelist k)
     (if k_freelist k = 0 then touch k else (touch k)\<lparr>k_freelist := load32 (k_mem k) (k_freelist k)\<rparr>)"
  by (simp add: kalloc_def kmem_ready_def cli_ok_def)

lemma kalloc_law:
  assumes "free_rep k (x # xs)" and "kmem_ready k"
  shows "\<exists>k'. kalloc k = Ret x k' \<and> free_rep k' xs \<and> kmem_ready k'"
  using assms by (auto simp: kalloc_eq free_rep_def kmem_ready_def page_addr_def)

lemma kalloc_empty_law:
  assumes "free_rep k []" and "kmem_ready k"
  shows "\<exists>k'. kalloc k = Ret 0 k' \<and> free_rep k' [] \<and> kmem_ready k'"
  using assms by (auto simp: kalloc_eq free_rep_def kmem_ready_def)

interpretation kmem: page_alloc free_rep kmem_ready page_addr kalloc kfree 0
proof unfold_locales
  show "distinct xs" if "free_rep s xs" for s xs using that by (simp add: free_rep_def)
  show "page_addr s x \<and> x \<noteq> 0" if "free_rep s xs" "x \<in> set xs" for s xs x
    using that by (auto simp: free_rep_def page_addr_def)
  show "page_addr t = page_addr s" if "kalloc s = Ret x t" "kmem_ready s" for s x t
  proof -
    have "k_end t = k_end s" using that by (auto simp: kalloc_eq split: if_splits)
    then show ?thesis by (simp add: page_addr_def fun_eq_iff)
  qed
qed (use kfree_law kalloc_law kalloc_empty_law in blast)+

lemma and_not_mask_minus: "(x :: u32) AND NOT (mask n) = x - take_bit n x"
proof -
  have "x AND NOT (mask n) = push_bit n (drop_bit n x)"
    by (rule bit_word_eqI) (auto simp: bit_simps)
  then show ?thesis using bits_ident [of n x] by (simp add: algebra_simps)
qed

lemma unat_page_down: "unat ((x :: u32) AND NOT 4095) = unat x div 4096 * 4096"
proof -
  have t: "unat (take_bit 12 x) = unat x mod 4096" by (simp add: take_bit_eq_mod unat_mod)
  then have "take_bit 12 x \<le> x" by (simp add: word_le_nat_alt)
  moreover have "NOT (4095 :: u32) = NOT (mask 12)" by (simp add: mask_eq_exp_minus_1)
  ultimately have "unat (x AND NOT 4095) = unat x - unat x mod 4096"
    using t by (simp only: and_not_mask_minus unat_sub)
  then show ?thesis by (simp add: minus_mod_eq_div_mult)
qed

lemma PGROUNDUP_props:
  assumes "unat e \<le> 16777216"
  shows "PGROUNDUP e mod 4096 = 0" and "e \<le> PGROUNDUP e" and "unat (PGROUNDUP e) \<le> 16777216"
    and "a mod 4096 = 0 \<Longrightarrow> e \<le> a \<Longrightarrow> PGROUNDUP e \<le> a"
proof -
  have "unat (e + 4096 - 1) = unat e + 4095"
    using assms unat_add_of_nat [of e 4095] by (simp add: algebra_simps)
  then have u: "unat (PGROUNDUP e) = (unat e + 4095) div 4096 * 4096"
    using unat_page_down [of "e + 4096 - 1"] by (simp add: PGROUNDUP_def)
  show "PGROUNDUP e mod 4096 = 0" using u by (simp add: page_mod)
  have "unat e \<le> (unat e + 4095) div 4096 * 4096" by linarith
  then show "e \<le> PGROUNDUP e" using u by (simp add: word_le_nat_alt)
  have "(unat e + 4095) div 4096 \<le> 4096" using assms by linarith
  then show "unat (PGROUNDUP e) \<le> 16777216" using u by simp
  show "PGROUNDUP e \<le> a" if a: "a mod 4096 = 0" "e \<le> a"
  proof -
    obtain q where q: "unat a = 4096 * q" using page_multiple [OF a(1)] by blast
    moreover have "unat e \<le> 4096 * q" using a(2) q by (simp add: word_le_nat_alt)
    then have "(unat e + 4095) div 4096 \<le> q" by linarith
    ultimately show ?thesis using u by (simp add: word_le_nat_alt)
  qed
qed

lemma kinit_loop_frees:
  assumes "free_rep k xs" and "kmem_ready k" and "p mod 4096 = 0" and "p \<noteq> 0" and "k_end k \<le> p"
    and "unat p \<le> 16777216" and "\<forall>x \<in> set xs. x < p"
  shows "\<exists>k' ys. kinit_loop p k = Ret () k' \<and> free_rep k' ys \<and> kmem_ready k' \<and> k_end k' = k_end k \<and>
     set ys = set xs \<union> {a. a mod 4096 = 0 \<and> p \<le> a \<and> a < PHYSTOP}"
  using assms
proof (induction p arbitrary: k xs rule: kinit_loop.induct)
  case (1 p)
  have up: "unat (p + 4096) = unat p + 4096" using unat_add_of_nat [of p 4096] "1.prems"(6) by simp
  show ?case
  proof (cases "p + PGSIZE \<le> PHYSTOP")
    case False
    then have big: "16777216 < unat p + 4096" using up by (simp add: word_le_nat_alt)
    have "{a. a mod 4096 = 0 \<and> p \<le> a \<and> a < PHYSTOP} = {}"
    proof -
      obtain q where q: "unat p = 4096 * q" using page_multiple [OF "1.prems"(3)] by blast
      have "\<not> a < 16777216" if a: "a mod 4096 = 0" "p \<le> a" for a :: addr
      proof -
        obtain r where r: "unat a = 4096 * r" using page_multiple [OF a(1)] by blast
        have "q \<le> r" using a(2) q r by (simp add: word_le_nat_alt)
        moreover have "4096 \<le> q" using big q by linarith
        ultimately have "4096 \<le> r" by linarith
        then show ?thesis using r by (simp add: word_less_nat_alt)
      qed
      then show ?thesis by auto
    qed
    moreover have "kinit_loop p k = Ret () k" using False by (subst kinit_loop.simps) simp
    ultimately show ?thesis using "1.prems"(1,2)
      by (intro exI [of _ k] exI [of _ xs] conjI) (simp_all only: Un_empty_right)
  next
    case True
    then have lt: "p < PHYSTOP" using up by (simp add: word_le_nat_alt word_less_nat_alt)
    have pg: "page_addr k p" using "1.prems" lt by (simp add: page_addr_def)
    have "p \<notin> set xs" using "1.prems"(7) by auto
    then obtain k1 where k1: "kfree p k = Ret () k1" "free_rep k1 (p # xs)" "kmem_ready k1"
      using kfree_law [OF "1.prems"(1,2) pg] by blast
    have e1: "k_end k1 = k_end k" using k1(1) kfree_eq [of p k] "1.prems" lt by simp
    have next_le: "p < p + 4096" using up by (simp add: word_less_nat_alt)
    have step: "a mod 4096 = 0 \<and> p \<le> a \<longleftrightarrow> a = p \<or> a mod 4096 = 0 \<and> p + 4096 \<le> a" for a :: addr
    proof -
      obtain q where q: "unat p = 4096 * q" using page_multiple [OF "1.prems"(3)] by blast
      have h: "p + 4096 \<le> a" if a: "a mod 4096 = 0" "p \<le> a" "a \<noteq> p"
      proof -
        obtain r where r: "unat a = 4096 * r" using page_multiple [OF a(1)] by blast
        have "unat a \<noteq> unat p" using a(3) by (simp add: word_unat_eq_iff)
        then have "q < r" using a(2) q r by (simp add: word_le_nat_alt)
        then show ?thesis using up q r by (simp add: word_le_nat_alt)
      qed
      have h': "p \<le> a" if "p + 4096 \<le> a" using next_le that by simp
      show ?thesis
      proof
        assume "a mod 4096 = 0 \<and> p \<le> a"
        then show "a = p \<or> a mod 4096 = 0 \<and> p + 4096 \<le> a" using h by (cases "a = p") simp_all
      next
        assume "a = p \<or> a mod 4096 = 0 \<and> p + 4096 \<le> a"
        then show "a mod 4096 = 0 \<and> p \<le> a" using h' "1.prems"(3) by (cases "a = p") simp_all
      qed
    qed
    have "\<exists>k' ys. kinit_loop (p + PGSIZE) k1 = Ret () k' \<and> free_rep k' ys \<and> kmem_ready k' \<and> k_end k' = k_end k1 \<and>
       set ys = set (p # xs) \<union> {a. a mod 4096 = 0 \<and> p + PGSIZE \<le> a \<and> a < PHYSTOP}"
    proof (rule "1.IH" [OF True k1(2,3)])
      show "(p + PGSIZE) mod 4096 = 0" using "1.prems"(3) up by (simp add: page_mod)
      show "p + PGSIZE \<noteq> 0" using up by (auto simp: word_unat_eq_iff)
      show "k_end k1 \<le> p + PGSIZE" using e1 "1.prems"(5) next_le by simp
      show "unat (p + PGSIZE) \<le> 16777216" using True by (simp add: word_le_nat_alt)
      show "\<forall>x \<in> set (p # xs). x < p + PGSIZE" using "1.prems"(7) next_le by (auto intro: less_trans)
    qed
    then obtain k' ys where k': "kinit_loop (p + PGSIZE) k1 = Ret () k'" "free_rep k' ys" "kmem_ready k'"
      "k_end k' = k_end k1" "set ys = set (p # xs) \<union> {a. a mod 4096 = 0 \<and> p + PGSIZE \<le> a \<and> a < PHYSTOP}"
      by blast
    have "kinit_loop p k = Ret () k'"
      using True k1(1) k'(1) by (subst kinit_loop.simps) simp
    moreover have "set ys = set xs \<union> {a. a mod 4096 = 0 \<and> p \<le> a \<and> a < PHYSTOP}"
    proof -
      have "{a. a mod 4096 = 0 \<and> p \<le> a \<and> a < PHYSTOP} = insert p {a. a mod 4096 = 0 \<and> p + PGSIZE \<le> a \<and> a < PHYSTOP}"
        unfolding set_eq_iff insert_iff mem_Collect_eq PGSIZE_def
      proof
        fix a
        show "(a mod 4096 = 0 \<and> p \<le> a \<and> a < PHYSTOP) = (a = p \<or> a mod 4096 = 0 \<and> p + 4096 \<le> a \<and> a < PHYSTOP)"
          using step [of a] lt by (cases "a = p"; cases "a mod 4096 = 0") simp_all
      qed
      then show ?thesis unfolding k'(5) by simp
    qed
    ultimately show ?thesis using k' e1 by auto
  qed
qed

section \<open>Properties\<close>

text \<open>C19. The allocator is a stack of free pages. \<open>kalloc\<close> takes the page freed last, or returns
  0 when no page is free; \<open>kfree\<close> of a page that is not free puts it back on top. Neither loses
  nor duplicates a page.\<close>

theorem kalloc_kfree_stack:
  assumes "free_rep k xs" and "kmem_ready k"
  shows "(\<exists>k'. kalloc k = Ret (if xs = [] then 0 else hd xs) k' \<and> free_rep k' (tl xs) \<and> kmem_ready k') \<and>
     (\<forall>v. page_addr k v \<and> v \<notin> set xs \<longrightarrow> (\<exists>k'. kfree v k = Ret () k' \<and> free_rep k' (v # xs) \<and> kmem_ready k'))"
proof (intro conjI allI impI)
  show "\<exists>k'. kalloc k = Ret (if xs = [] then 0 else hd xs) k' \<and> free_rep k' (tl xs) \<and> kmem_ready k'"
    using kmem.alloc_law kmem.alloc_empty_law assms by (cases xs) simp_all
qed (use kmem.free_law [OF assms] in blast)

text \<open>C20. After \<open>kinit\<close> every page between the end of the kernel and \<^verbatim>\<open>PHYSTOP\<close> is free, each
  once, and no other.\<close>

theorem kinit_frees_all:
  assumes "k_freelist k = 0" and "0 < k_end k" and "k_end k \<le> PHYSTOP" and "cli_ok k"
  shows "\<exists>k' xs. kinit k = Ret () k' \<and> free_rep k' xs \<and> set xs = {a. page_addr k a}"
proof -
  let ?e = "k_end k" and ?k = "setlock KmemLock \<lparr>sl_locked = 0, sl_cpu = None\<rparr> k"
  have e: "unat ?e \<le> 16777216" using assms(3) by (simp add: word_le_nat_alt)
  note P = PGROUNDUP_props [OF e]
  have "free_rep ?k []" using assms(1) by (simp add: free_rep_def setlock_def)
  moreover have "kmem_ready ?k" using assms(4) by (simp add: kmem_ready_def setlock_def free_lock_def cli_ok_def)
  moreover have "PGROUNDUP ?e \<noteq> 0" using P(2) assms(2) by auto
  ultimately obtain k' ys where k': "kinit_loop (PGROUNDUP ?e) ?k = Ret () k'" "free_rep k' ys"
    "set ys = {} \<union> {a. a mod 4096 = 0 \<and> PGROUNDUP ?e \<le> a \<and> a < PHYSTOP}"
    using kinit_loop_frees [of ?k "[]" "PGROUNDUP ?e"] P(1,2,3) by (auto simp: setlock_def)
  have "kinit k = Ret () k'" using k'(1) by (simp add: kinit_def initlock_def setlock_def)
  moreover have "{a. a mod 4096 = 0 \<and> PGROUNDUP ?e \<le> a \<and> a < PHYSTOP} = {a. page_addr k a}"
    unfolding page_addr_def PGSIZE_def
  proof (rule Collect_cong)
    fix a
    show "(a mod 4096 = 0 \<and> PGROUNDUP ?e \<le> a \<and> a < PHYSTOP) = (a \<noteq> 0 \<and> a mod 4096 = 0 \<and> ?e \<le> a \<and> a < PHYSTOP)"
      (is "?l = ?r")
    proof
      assume ?l
      moreover from this have "?e \<le> a" using P(2) order.trans by blast
      moreover from this have "a \<noteq> 0" using assms(2) by auto
      ultimately show ?r by simp
    next
      assume ?r
      then show ?l using P(4) [of a] by simp
    qed
  qed
  ultimately show ?thesis using k' by auto
qed

theorem kalloc_kfree_stack_witness:
  "\<exists>k'. kfree 8192 (demo_kernel []) = Ret () k' \<and> free_rep k' [8192]"
proof -
  have "free_rep (demo_kernel []) []" "kmem_ready (demo_kernel [])" "page_addr (demo_kernel []) 8192"
    by (simp_all add: free_rep_def kmem_ready_def page_addr_def demo_kernel_def demo_cpu_def cli_ok_def)
  with kalloc_kfree_stack [of "demo_kernel []" "[]"] show ?thesis by auto
qed

theorem kinit_frees_all_witness:
  "\<exists>k' xs. kinit ((demo_kernel [])\<lparr>k_end := 0x800001\<rparr>) = Ret () k' \<and> free_rep k' xs \<and> 0x801000 \<in> set xs"
proof -
  have "\<exists>k' xs. kinit ((demo_kernel [])\<lparr>k_end := 0x800001\<rparr>) = Ret () k' \<and> free_rep k' xs \<and>
     set xs = {a. page_addr ((demo_kernel [])\<lparr>k_end := 0x800001\<rparr>) a}"
    by (rule kinit_frees_all) (simp_all add: demo_kernel_def demo_cpu_def cli_ok_def)
  moreover have "page_addr ((demo_kernel [])\<lparr>k_end := 0x800001\<rparr>) 0x801000" by (simp add: page_addr_def)
  ultimately show ?thesis by auto
qed

end
