(* ===== verification/Vm.thy ===== *)
theory Vm
  imports Fs Kalloc
begin

text \<open>
  Page tables and user memory (\<^verbatim>\<open>kernel/vm.c\<close>). Page directories and page tables are words of the
  byte memory \<open>k_mem\<close>; kernel virtual and physical addresses are equal, as in the code.
  \<open>translate\<close> is what the paging hardware makes of an address. The segment descriptors that
  \<^verbatim>\<open>seginit\<close> and \<^verbatim>\<open>switchuvm\<close> load are not part of the state. Loops over pages run on fuel that
  covers the whole 32-bit address space from their start to their end.
\<close>

section \<open>Page table entries\<close>

definition PDX :: "u32 \<Rightarrow> u32" where "PDX la = drop_bit 22 la AND 0x3FF"
definition PTX :: "u32 \<Rightarrow> u32" where "PTX la = drop_bit 12 la AND 0x3FF"
definition PTE_ADDR :: "u32 \<Rightarrow> u32" where "PTE_ADDR pte = pte AND NOT 0xFFF"
definition PTE_P :: u32 where [simp]: "PTE_P = 1"
definition PTE_W :: u32 where [simp]: "PTE_W = 2"
definition PTE_U :: u32 where [simp]: "PTE_U = 4"
definition NPDENTRIES :: nat where [simp]: "NPDENTRIES = 1024"

definition getword :: "addr \<Rightarrow> u32 K" where
  "getword a = reads (\<lambda>k. load32 (k_mem k) a)"

definition putword :: "addr \<Rightarrow> u32 \<Rightarrow> unit K" where
  "putword a w = setmem (\<lambda>m. store32 m a w)"

definition store_bytes :: "addr \<Rightarrow> u8 list \<Rightarrow> mem \<Rightarrow> mem" where
  "store_bytes a bs m = (\<lambda>x. if unat (x - a) < length bs then bs ! unat (x - a) else m x)"

definition load_bytes :: "mem \<Rightarrow> addr \<Rightarrow> nat \<Rightarrow> u8 list" where
  "load_bytes m a n = map (\<lambda>i. m (a + of_nat i)) [0..<n]"

text \<open>\<^verbatim>\<open>walkpgdir\<close> returns the address of the entry, 0 for the null pointer.\<close>

definition walkpgdir :: "addr \<Rightarrow> addr \<Rightarrow> bool \<Rightarrow> addr K" where
  "walkpgdir pgdir va create = bindP (getword (pgdir + 4 * PDX va)) (\<lambda>pde.
     if pde AND PTE_P \<noteq> 0 then ret (PTE_ADDR pde + 4 * PTX va)
     else if \<not> create then ret 0
     else bindP kalloc (\<lambda>pgtab.
       if pgtab = 0 then ret 0 else
       thenP (setmem (memset pgtab 0 PGSIZE))
      (thenP (putword (pgdir + 4 * PDX va) (pgtab OR PTE_P OR PTE_W OR PTE_U))
      (ret (pgtab + 4 * PTX va)))))"

primrec mappages_loop :: "nat \<Rightarrow> addr \<Rightarrow> addr \<Rightarrow> addr \<Rightarrow> u32 \<Rightarrow> u32 \<Rightarrow> int K" where
  "mappages_loop 0 pgdir a final pa perm = spin"
| "mappages_loop (Suc fuel) pgdir a final pa perm = bindP (walkpgdir pgdir a True) (\<lambda>pte.
     if pte = 0 then ret (- 1) else
     bindP (getword pte) (\<lambda>e.
     if e AND PTE_P \<noteq> 0 then panic ''remap'' else
     thenP (putword pte (pa OR perm OR PTE_P))
    (if a = final then ret 0 else mappages_loop fuel pgdir (a + PGSIZE) final (pa + PGSIZE) perm)))"

definition mappages :: "addr \<Rightarrow> addr \<Rightarrow> u32 \<Rightarrow> u32 \<Rightarrow> u32 \<Rightarrow> int K" where
  "mappages pgdir la sz pa perm =
    (let a = PGROUNDDOWN la; final = PGROUNDDOWN (la + sz - 1)
     in mappages_loop (unat (final - a) div 4096 + 1) pgdir a final pa perm)"

section \<open>The kernel part\<close>

definition kmap :: "addr \<Rightarrow> (u32 \<times> u32 \<times> u32) list" where
  "kmap data = [(USERTOP, 0x100000, PTE_W), (0x100000, data, 0), (data, PHYSTOP, PTE_W), (0xFE000000, 0, PTE_W)]"

fun setupkvm_loop :: "addr \<Rightarrow> (u32 \<times> u32 \<times> u32) list \<Rightarrow> addr K" where
  "setupkvm_loop pgdir [] = ret pgdir"
| "setupkvm_loop pgdir ((p, e, perm) # ks) = bindP (mappages pgdir p (e - p) p perm) (\<lambda>r.
     if r < 0 then ret 0 else setupkvm_loop pgdir ks)"

definition setupkvm :: "addr K" where
  "setupkvm = bindP kalloc (\<lambda>pgdir.
     if pgdir = 0 then ret 0 else
     thenP (setmem (memset pgdir 0 PGSIZE))
    (bindP (reads k_data) (\<lambda>data. setupkvm_loop pgdir (kmap data))))"

definition kvmalloc :: "unit K" where
  "kvmalloc = bindP setupkvm (\<lambda>d. modify (\<lambda>k. k\<lparr>k_kpgdir := d\<rparr>))"

definition switchkvm :: "unit K" where
  "switchkvm = modify (\<lambda>k. setcpu (\<lambda>c. c\<lparr>c_cr3 := k_kpgdir k\<rparr>) k)"

definition switchuvm :: "nat \<Rightarrow> unit K" where
  "switchuvm p = thenP pushcli
    (bindP (curproc_get p_kstack) (\<lambda>ks.
     thenP (modify (setcpu (\<lambda>c. c\<lparr>c_esp0 := ks + KSTACKSIZE\<rparr>)))
    (bindP (reads (\<lambda>k. p_pgdir (getproc p k))) (\<lambda>d.
     if d = 0 then panic ''switchuvm: no pgdir'' else
     thenP (modify (setcpu (\<lambda>c. c\<lparr>c_cr3 := d\<rparr>))) popcli))))"

section \<open>User memory\<close>

definition inituvm :: "addr \<Rightarrow> u8 list \<Rightarrow> unit K" where
  "inituvm pgdir init =
    (if of_nat (length init) \<ge> PGSIZE then panic ''inituvm: more than a page'' else
     bindP kalloc (\<lambda>mem.
     thenP (setmem (memset mem 0 PGSIZE))
    (bindP (mappages pgdir 0 PGSIZE mem (PTE_W OR PTE_U)) (\<lambda>_.
     setmem (store_bytes mem init)))))"

primrec loaduvm_loop :: "nat \<Rightarrow> addr \<Rightarrow> addr \<Rightarrow> nat \<Rightarrow> u32 \<Rightarrow> u32 \<Rightarrow> u32 \<Rightarrow> int K" where
  "loaduvm_loop 0 pgdir addr ip offset sz i = ret 0"
| "loaduvm_loop (Suc fuel) pgdir addr ip offset sz i = (if i < sz then
     bindP (walkpgdir pgdir (addr + i) False) (\<lambda>pte.
     if pte = 0 then panic ''loaduvm: address should exist'' else
     bindP (getword pte) (\<lambda>e.
     let n = (if sz - i < PGSIZE then sz - i else PGSIZE) in
     bindP (readi [] ip (offset + i) n) (\<lambda>(r, bs).
     thenP (setmem (store_bytes (PTE_ADDR e) bs))
    (if r \<noteq> uint n then ret (- 1) else loaduvm_loop fuel pgdir addr ip offset sz (i + PGSIZE)))))
     else ret 0)"

definition loaduvm :: "addr \<Rightarrow> addr \<Rightarrow> nat \<Rightarrow> u32 \<Rightarrow> u32 \<Rightarrow> int K" where
  "loaduvm pgdir addr ip offset sz =
    (if addr mod PGSIZE \<noteq> 0 then panic ''loaduvm: addr must be page aligned''
     else loaduvm_loop (unat sz div 4096 + 1) pgdir addr ip offset sz 0)"

primrec deallocuvm_loop :: "nat \<Rightarrow> addr \<Rightarrow> u32 \<Rightarrow> u32 \<Rightarrow> unit K" where
  "deallocuvm_loop 0 pgdir a oldsz = ret ()"
| "deallocuvm_loop (Suc fuel) pgdir a oldsz = (if a < oldsz then
     bindP (walkpgdir pgdir a False) (\<lambda>pte.
     bindP (if pte = 0 then ret 0 else getword pte) (\<lambda>e.
     thenP (whenP (pte \<noteq> 0 \<and> e AND PTE_P \<noteq> 0)
       (if PTE_ADDR e = 0 then panic ''kfree'' else
        thenP (kfree (PTE_ADDR e)) (putword pte 0)))
     (deallocuvm_loop fuel pgdir (a + PGSIZE) oldsz)))
     else ret ())"

definition deallocuvm :: "addr \<Rightarrow> u32 \<Rightarrow> u32 \<Rightarrow> u32 K" where
  "deallocuvm pgdir oldsz newsz =
    (if newsz \<ge> oldsz then ret oldsz else
     thenP (deallocuvm_loop (unat oldsz div 4096 + 1) pgdir (PGROUNDUP newsz) oldsz) (ret newsz))"

primrec allocuvm_loop :: "nat \<Rightarrow> addr \<Rightarrow> u32 \<Rightarrow> u32 \<Rightarrow> u32 \<Rightarrow> u32 K" where
  "allocuvm_loop 0 pgdir a oldsz newsz = ret newsz"
| "allocuvm_loop (Suc fuel) pgdir a oldsz newsz = (if a < newsz then
     bindP kalloc (\<lambda>mem.
     if mem = 0 then
       thenP (cprintf (bytes ''allocuvm out of memory'' @ [10]) [])
      (bindP (deallocuvm pgdir newsz oldsz) (\<lambda>_. ret 0))
     else
       thenP (setmem (memset mem 0 PGSIZE))
      (bindP (mappages pgdir a PGSIZE mem (PTE_W OR PTE_U)) (\<lambda>_.
       allocuvm_loop fuel pgdir (a + PGSIZE) oldsz newsz)))
     else ret newsz)"

definition allocuvm :: "addr \<Rightarrow> u32 \<Rightarrow> u32 \<Rightarrow> u32 K" where
  "allocuvm pgdir oldsz newsz =
    (if newsz > USERTOP then ret 0 else if newsz < oldsz then ret oldsz else
     allocuvm_loop (unat newsz div 4096 + 1) pgdir (PGROUNDUP oldsz) oldsz newsz)"

definition freevm :: "addr \<Rightarrow> unit K" where
  "freevm pgdir = (if pgdir = 0 then panic ''freevm: no pgdir'' else
     bindP (deallocuvm pgdir USERTOP 0) (\<lambda>_.
     thenP (forP [0..<NPDENTRIES] (\<lambda>i.
       bindP (getword (pgdir + 4 * of_nat i)) (\<lambda>pde.
       whenP (pde AND PTE_P \<noteq> 0) (kfree (PTE_ADDR pde)))))
    (kfree pgdir)))"

primrec copyuvm_loop :: "nat \<Rightarrow> addr \<Rightarrow> addr \<Rightarrow> u32 \<Rightarrow> u32 \<Rightarrow> addr K" where
  "copyuvm_loop 0 pgdir d i sz = ret d"
| "copyuvm_loop (Suc fuel) pgdir d i sz = (if i < sz then
     bindP (walkpgdir pgdir i False) (\<lambda>pte.
     if pte = 0 then panic ''copyuvm: pte should exist'' else
     bindP (getword pte) (\<lambda>e.
     if e AND PTE_P = 0 then panic ''copyuvm: page not present'' else
     bindP kalloc (\<lambda>mem.
     if mem = 0 then thenP (freevm d) (ret 0) else
     thenP (setmem (memmove mem (PTE_ADDR e) PGSIZE))
    (bindP (mappages d i PGSIZE mem (PTE_W OR PTE_U)) (\<lambda>r.
     if r < 0 then thenP (freevm d) (ret 0) else copyuvm_loop fuel pgdir d (i + PGSIZE) sz)))))
     else ret d)"

definition copyuvm :: "addr \<Rightarrow> u32 \<Rightarrow> addr K" where
  "copyuvm pgdir sz = bindP setupkvm (\<lambda>d.
     if d = 0 then ret 0 else copyuvm_loop (unat sz div 4096 + 1) pgdir d 0 sz)"

text \<open>
  \<^verbatim>\<open>uva2ka\<close> reads the entry without a test for the null pointer, which \<^verbatim>\<open>walkpgdir\<close> returns for an
  address without a page table.
\<close>

definition uva2ka :: "addr \<Rightarrow> addr \<Rightarrow> addr K" where
  "uva2ka pgdir uva = bindP (walkpgdir pgdir uva False) (\<lambda>pte.
     if pte = 0 then fault ''uva2ka: null pte'' else
     bindP (getword pte) (\<lambda>e.
     if e AND PTE_P = 0 then ret 0 else if e AND PTE_U = 0 then ret 0 else ret (PTE_ADDR e)))"

primrec copyout_loop :: "nat \<Rightarrow> addr \<Rightarrow> u32 \<Rightarrow> u8 list \<Rightarrow> int K" where
  "copyout_loop 0 pgdir va buf = ret 0"
| "copyout_loop (Suc fuel) pgdir va buf = (if buf = [] then ret 0 else
     let va0 = PGROUNDDOWN va in
     bindP (uva2ka pgdir va0) (\<lambda>pa0.
     if pa0 = 0 then ret (- 1) else
     let n = min (unat (PGSIZE - (va - va0))) (length buf) in
     thenP (setmem (store_bytes (pa0 + (va - va0)) (take n buf)))
    (copyout_loop fuel pgdir (va0 + PGSIZE) (drop n buf))))"

definition copyout :: "addr \<Rightarrow> u32 \<Rightarrow> u8 list \<Rightarrow> int K" where
  "copyout pgdir va buf = copyout_loop (length buf) pgdir va buf"

section \<open>Address translation\<close>

text \<open>The physical address the processor uses for \<open>va\<close>; a user access needs \<^verbatim>\<open>PTE_U\<close> at both levels.\<close>

definition translate :: "mem \<Rightarrow> addr \<Rightarrow> bool \<Rightarrow> addr \<Rightarrow> addr option" where
  "translate m pgdir user va =
    (let pde = load32 m (pgdir + 4 * PDX va); pte = load32 m (PTE_ADDR pde + 4 * PTX va)
     in if pde AND PTE_P \<noteq> 0 \<and> pte AND PTE_P \<noteq> 0 \<and> (user \<longrightarrow> pde AND PTE_U \<noteq> 0 \<and> pte AND PTE_U \<noteq> 0)
        then Some (PTE_ADDR pte + (va AND 0xFFF)) else None)"

text \<open>The kernel's own accesses to user addresses, through the page table of the current process; an
  access to an address that is not mapped is a page fault.\<close>

definition uload8 :: "addr \<Rightarrow> u8 K" where
  "uload8 va = bindP (curproc_get p_pgdir) (\<lambda>d. bindP (reads (\<lambda>k. translate (k_mem k) d False va)) (\<lambda>r.
     case r of None \<Rightarrow> fault ''page fault'' | Some pa \<Rightarrow> reads (\<lambda>k. k_mem k pa)))"

definition ustore8 :: "addr \<Rightarrow> u8 \<Rightarrow> unit K" where
  "ustore8 va c = bindP (curproc_get p_pgdir) (\<lambda>d. bindP (reads (\<lambda>k. translate (k_mem k) d False va)) (\<lambda>r.
     case r of None \<Rightarrow> fault ''page fault'' | Some pa \<Rightarrow> setmem (\<lambda>m. m(pa := c))))"

primrec uload :: "nat \<Rightarrow> addr \<Rightarrow> u8 list K" where
  "uload 0 va = ret []"
| "uload (Suc n) va = bindP (uload8 va) (\<lambda>c. bindP (uload n (va + 1)) (\<lambda>cs. ret (c # cs)))"

primrec ustore :: "u8 list \<Rightarrow> addr \<Rightarrow> unit K" where
  "ustore [] va = ret ()"
| "ustore (c # cs) va = thenP (ustore8 va c) (ustore cs (va + 1))"

definition uload32 :: "addr \<Rightarrow> u32 K" where
  "uload32 va = bindP (uload 4 va) (\<lambda>bs. ret (get32 bs 0))"

definition ustore32 :: "addr \<Rightarrow> u32 \<Rightarrow> unit K" where
  "ustore32 va w = ustore (enc32 w) va"

end
