(* ===== verification/Vm_Props.thy ===== *)
theory Vm_Props
  imports Vm
begin

text \<open>
  Correctness of the page table code of \<open>Vm\<close>. A page directory with its tables is abstracted to the
  function from addresses to page table entries, \<open>entry\<close>, which is 0 where there is no table. The paging
  hardware (\<open>translate\<close>) reads that function; \<^verbatim>\<open>walkpgdir\<close> does not change it, and \<^verbatim>\<open>mappages\<close> changes it on the
  pages it is asked to map and nowhere else.
\<close>

section \<open>Words in a page\<close>

lemma slot_nat: "(p :: u32) + 4 * i = p + of_nat (4 * unat i)"
  by simp

lemma slot_bound: "unat (i :: u32) < 1024 \<Longrightarrow> j < 4 \<Longrightarrow> 4 * unat i + j < 4096"
  by simp

lemma slot_offset: "(p :: u32) + 4 * i + of_nat j = p + of_nat (4 * unat i + j)"
  by simp

lemma slot_aligned: "p mod 4096 = 0 \<Longrightarrow> unat i < 1024 \<Longrightarrow> aligned4 (p + 4 * i)"
proof -
  assume a: "p mod 4096 = 0" "unat i < 1024"
  then have "unat (p + 4 * i) = unat p + 4 * unat i" using page_unat_add [of p "4 * unat i"] by (simp only: slot_nat)
  moreover have "unat p mod 4 = 0" using page_aligned4 [OF a(1)] by (simp add: aligned4_def)
  ultimately show ?thesis by (simp add: aligned4_def)
qed

lemma slot_inj:
  fixes p q i j :: u32
  assumes "p mod 4096 = 0" "q mod 4096 = 0" "unat i < 1024" "unat j < 1024" "p + 4 * i = q + 4 * j"
  shows "p = q \<and> i = j"
proof -
  have e: "p + of_nat (4 * unat i) = q + of_nat (4 * unat j)" using assms(5) unfolding slot_nat [of p i] slot_nat [of q j] .
  have b: "4 * unat i < 4096" "4 * unat j < 4096" using assms(3,4) by simp_all
  have "p = q" using pages_disjoint [OF assms(1,2) _ b] e by blast
  moreover from this have "unat p + 4 * unat i = unat p + 4 * unat j"
    using e page_unat_add [OF assms(1) b(1)] page_unat_add [OF assms(1) b(2)] by metis
  ultimately show ?thesis by (simp add: word_unat_eq_iff)
qed

lemma load32_memset_in:
  assumes "unat i < 1024" shows "load32 (memset p 0 4096 m) (p + 4 * i) = 0"
proof -
  have "memset p 0 4096 m (p + 4 * i + of_nat j) = 0" if "j < 4" for j
    unfolding memset_def slot_offset by (subst set_bytes_in) (use slot_bound [OF assms that] in simp_all)
  from this [of 0] this [of 1] this [of 2] this [of 3] show ?thesis by (simp add: load32_def dec32_def)
qed

lemma load32_memset_out:
  assumes "p mod 4096 = 0" "q mod 4096 = 0" "p \<noteq> q" "unat i < 1024"
  shows "load32 (memset q c 4096 m) (p + 4 * i) = load32 m (p + 4 * i)"
proof -
  have "memset q c 4096 m (p + 4 * i + of_nat j) = m (p + 4 * i + of_nat j)" if "j < 4" for j
    unfolding memset_def slot_offset
    by (rule set_bytes_out) (use pages_disjoint [OF assms(1-3) slot_bound [OF assms(4) that]] in simp_all)
  from this [of 0] this [of 1] this [of 2] this [of 3] show ?thesis by (simp add: load32_def)
qed

lemma load32_store_slot:
  assumes "p mod 4096 = 0" "q mod 4096 = 0" "unat i < 1024" "unat j < 1024"
  shows "load32 (store32 m (p + 4 * i) w) (q + 4 * j) = (if p = q \<and> i = j then w else load32 m (q + 4 * j))"
  using load32_store32_other [OF slot_aligned [OF assms(1,3)] slot_aligned [OF assms(2,4)]] slot_inj [OF assms] by auto

section \<open>Entries\<close>

definition pg :: "addr \<Rightarrow> nat" where
  "pg va = unat va div 4096"

lemma mask10: "(w :: u32) AND 0x3FF = take_bit 10 w"
proof -
  have "(0x3FF :: u32) = mask 10" by (simp add: mask_eq_exp_minus_1)
  then show ?thesis by (simp add: take_bit_eq_mask)
qed

lemma PDX_unat: "unat (PDX va) = pg va div 1024"
proof -
  have "unat (PDX va) = unat va div 4194304 mod 1024"
    unfolding PDX_def mask10 by (simp add: take_bit_eq_mod drop_bit_eq_div unat_div unat_mod)
  moreover have "unat va < 4294967296" using unsigned_less [of va] by simp
  then have "unat va div 4194304 < 1024" by (simp add: less_mult_imp_div_less)
  ultimately show ?thesis by (simp add: pg_def div_mult2_eq [symmetric])
qed

lemma PTX_unat: "unat (PTX va) = pg va mod 1024"
  unfolding PTX_def mask10 pg_def by (simp add: take_bit_eq_mod drop_bit_eq_div unat_div unat_mod)

lemma pg_less: "pg va < 1048576"
proof -
  have "unat va < 4294967296" using unsigned_less [of va] by simp
  then show ?thesis by (simp add: pg_def less_mult_imp_div_less)
qed

lemma index_less [simp]: "unat (PDX va) < 1024" "unat (PTX va) < 1024"
  using pg_less [of va] by (simp_all add: PDX_unat PTX_unat less_mult_imp_div_less)

lemma index_eq: "PDX va = PDX vb \<and> PTX va = PTX vb \<longleftrightarrow> pg va = pg vb"
proof
  assume "PDX va = PDX vb \<and> PTX va = PTX vb"
  then have "pg va div 1024 = pg vb div 1024" "pg va mod 1024 = pg vb mod 1024" by (metis PDX_unat, metis PTX_unat)
  then show "pg va = pg vb" by (metis div_mult_mod_eq)
qed (simp add: word_unat_eq_iff PDX_unat PTX_unat)

lemma PTE_ADDR_page [simp]: "PTE_ADDR e mod 4096 = 0"
proof -
  have "unat (PTE_ADDR e) = unat e div 4096 * 4096" using unat_page_down [of e] by (simp add: PTE_ADDR_def)
  then show ?thesis by (simp add: page_mod)
qed

text \<open>The flags of a page table entry do not reach into its address.\<close>

lemma page_take_bit: "(x :: u32) mod 4096 = 0 \<longleftrightarrow> take_bit 12 x = 0"
  by (simp add: take_bit_eq_mod)

lemma page_flag:
  assumes "(x :: u32) mod 4096 = 0" "c AND mask 12 = c" shows "x AND c = 0"
proof -
  have "x AND c = (x AND mask 12) AND c" using assms(2) by (metis and.assoc and.commute)
  then show ?thesis using assms(1) by (simp add: page_take_bit take_bit_eq_mask [symmetric])
qed

lemma PTE_ADDR_flags:
  assumes "x mod 4096 = 0" "take_bit 12 f = f"
  shows "PTE_ADDR (x OR f) = x" "(x OR f) AND f = f" "(x OR f) AND 1 = f AND 1" "(x OR f) AND 4 = f AND 4"
proof -
  have x: "\<not> bit x n" if "n < 12" for n using assms(1) that unfolding page_take_bit
    by (metis bit_take_bit_iff bit_0_eq bot_apply bot_bool_def)
  have f: "\<not> bit f n" if "12 \<le> n" for n using assms(2) that by (metis bit_take_bit_iff leD)
  have m: "(0xFFF :: u32) = mask 12" by (simp add: mask_eq_exp_minus_1)
  show "PTE_ADDR (x OR f) = x" 
  proof (rule bit_word_eqI)
    fix n show "bit (PTE_ADDR (x OR f)) n = bit x n"
      unfolding PTE_ADDR_def m using x [of n] f [of n] by (cases "n < 12") (auto simp: bit_simps dest: bit_imp_le_length)
  qed
  show "(x OR f) AND f = f" by (rule bit_word_eqI) (auto simp: bit_simps)
  show "(x OR f) AND 1 = f AND 1" "(x OR f) AND 4 = f AND 4"
    using page_flag [OF assms(1), of 1] page_flag [OF assms(1), of 4] by (simp_all add: bit.conj_disj_distrib2 mask_eq_exp_minus_1)
qed

definition pde_at :: "mem \<Rightarrow> addr \<Rightarrow> addr \<Rightarrow> u32" where
  "pde_at m pgdir va = load32 m (pgdir + 4 * PDX va)"

definition slot :: "mem \<Rightarrow> addr \<Rightarrow> addr \<Rightarrow> addr" where
  "slot m pgdir va = PTE_ADDR (pde_at m pgdir va) + 4 * PTX va"

definition entry :: "mem \<Rightarrow> addr \<Rightarrow> addr \<Rightarrow> u32" where
  "entry m pgdir va = (if pde_at m pgdir va AND PTE_P \<noteq> 0 then load32 m (slot m pgdir va) else 0)"

text \<open>
  A page directory and the free list \<open>xs\<close>: the tables of the directory are pages, different from each
  other, from the directory and from the free pages, and the entries of the directory leave the protection to
  the tables.
\<close>

definition vm_ok :: "kernel \<Rightarrow> addr \<Rightarrow> addr list \<Rightarrow> bool" where
  "vm_ok k pgdir xs \<longleftrightarrow> free_rep k xs \<and> kmem_ready k \<and> pgdir mod 4096 = 0 \<and> pgdir \<notin> set xs \<and>
     (\<forall>va. pde_at (k_mem k) pgdir va AND PTE_P \<noteq> 0 \<longrightarrow>
        (let t = PTE_ADDR (pde_at (k_mem k) pgdir va)
         in t \<noteq> 0 \<and> t \<noteq> pgdir \<and> t \<notin> set xs \<and> pde_at (k_mem k) pgdir va AND PTE_U \<noteq> 0)) \<and>
     (\<forall>va vb. pde_at (k_mem k) pgdir va AND PTE_P \<noteq> 0 \<and> pde_at (k_mem k) pgdir vb AND PTE_P \<noteq> 0 \<and>
        PTE_ADDR (pde_at (k_mem k) pgdir va) = PTE_ADDR (pde_at (k_mem k) pgdir vb) \<longrightarrow> PDX va = PDX vb)"

lemma vm_okD:
  assumes "vm_ok k pgdir xs"
  shows "free_rep k xs" "kmem_ready k" "pgdir mod 4096 = 0" "pgdir \<notin> set xs"
    "pde_at (k_mem k) pgdir va AND 1 \<noteq> 0 \<Longrightarrow> PTE_ADDR (pde_at (k_mem k) pgdir va) \<noteq> 0"
    "pde_at (k_mem k) pgdir va AND 1 \<noteq> 0 \<Longrightarrow> PTE_ADDR (pde_at (k_mem k) pgdir va) \<noteq> pgdir"
    "pde_at (k_mem k) pgdir va AND 1 \<noteq> 0 \<Longrightarrow> PTE_ADDR (pde_at (k_mem k) pgdir va) \<notin> set xs"
    "pde_at (k_mem k) pgdir va AND 1 \<noteq> 0 \<Longrightarrow> pde_at (k_mem k) pgdir va AND 4 \<noteq> 0"
    "pde_at (k_mem k) pgdir va AND 1 \<noteq> 0 \<Longrightarrow> pde_at (k_mem k) pgdir vb AND 1 \<noteq> 0 \<Longrightarrow>
       PTE_ADDR (pde_at (k_mem k) pgdir va) = PTE_ADDR (pde_at (k_mem k) pgdir vb) \<Longrightarrow> PDX va = PDX vb"
  using assms unfolding vm_ok_def Let_def PTE_P_def PTE_U_def by blast+

lemma free_rep_cong:
  assumes "free_rep k xs" "k_freelist k' = k_freelist k" "k_end k' = k_end k"
    "\<And>x. x \<in> set xs \<Longrightarrow> load32 (k_mem k') x = load32 (k_mem k) x"
  shows "free_rep k' xs"
  using assms chain_cong [of xs "k_mem k'" "k_mem k"] by (auto simp: free_rep_def page_addr_def)

lemma free_pages: "free_rep k xs \<Longrightarrow> x \<in> set xs \<Longrightarrow> x mod 4096 = 0 \<and> x \<noteq> 0"
  by (auto simp: free_rep_def page_addr_def)

lemma slot_nonzero: "p mod 4096 = 0 \<Longrightarrow> p \<noteq> 0 \<Longrightarrow> unat i < 1024 \<Longrightarrow> p + 4 * i \<noteq> (0 :: u32)"
  using slot_inj [of p 0 i 0] by auto

text \<open>A table is there.\<close>

lemma walk_present:
  assumes "vm_ok k pgdir xs" "pde_at (k_mem k) pgdir va AND 1 \<noteq> 0"
  shows "walkpgdir pgdir va c k = Ret (slot (k_mem k) pgdir va) k" "slot (k_mem k) pgdir va \<noteq> 0"
proof -
  show "walkpgdir pgdir va c k = Ret (slot (k_mem k) pgdir va) k"
    using assms(2) by (simp add: walkpgdir_def getword_def slot_def pde_at_def)
  show "slot (k_mem k) pgdir va \<noteq> 0"
    unfolding slot_def by (rule slot_nonzero) (use vm_okD(5) [OF assms] in simp_all)
qed

lemma store_entry:
  assumes v: "vm_ok k pgdir xs" "pde_at (k_mem k) pgdir va AND 1 \<noteq> 0"
    and k'_def: "k' = k\<lparr>k_mem := store32 (k_mem k) (slot (k_mem k) pgdir va) w\<rparr>"
  shows "vm_ok k' pgdir xs" "pde_at (k_mem k') pgdir vb = pde_at (k_mem k) pgdir vb"
    "entry (k_mem k') pgdir vb = (if pg vb = pg va then w else entry (k_mem k) pgdir vb)"
proof -
  let ?t = "PTE_ADDR (pde_at (k_mem k) pgdir va)"
  note d = vm_okD [OF v(1)]
  have m: "k_mem k' = store32 (k_mem k) (?t + 4 * PTX va) w" by (simp add: k'_def slot_def)
  have pde: "pde_at (k_mem k') pgdir vc = pde_at (k_mem k) pgdir vc" for vc
    unfolding m using d(6) [OF v(2)] d(3) by (simp add: pde_at_def load32_store_slot)
  then show "pde_at (k_mem k') pgdir vb = pde_at (k_mem k) pgdir vb" .
  have "load32 (k_mem k') x = load32 (k_mem k) x" if "x \<in> set xs" for x
    using load32_store_slot [of ?t x "PTX va" 0 "k_mem k" w] free_pages [OF d(1) that] that d(7) [OF v(2)] unfolding m by auto
  then have "free_rep k' xs" by (intro free_rep_cong [OF d(1)]) (simp_all add: k'_def)
  moreover have "kmem_ready k'" using d(2) by (simp add: kmem_ready_def k'_def)
  ultimately show "vm_ok k' pgdir xs" using v(1) unfolding vm_ok_def pde by simp
  show "entry (k_mem k') pgdir vb = (if pg vb = pg va then w else entry (k_mem k) pgdir vb)"
  proof (cases "pde_at (k_mem k) pgdir vb AND 1 = 0")
    case True
    then have "pg vb \<noteq> pg va" using v(2) index_eq [of vb va] by (auto simp: pde_at_def)
    then show ?thesis using True pde by (simp add: entry_def)
  next
    case False
    let ?u = "PTE_ADDR (pde_at (k_mem k) pgdir vb)"
    have "?t = ?u \<and> PTX va = PTX vb \<longleftrightarrow> pg vb = pg va"
      using d(9) [OF v(2) False] index_eq [of va vb] by (auto simp: pde_at_def)
    then show ?thesis using False pde unfolding m by (simp add: entry_def slot_def load32_store_slot)
  qed
qed

text \<open>A table is made: the next free page, filled with zeros, so that no entry changes.\<close>

lemma walk_absent:
  assumes v: "vm_ok k pgdir (x # xs)" "pde_at (k_mem k) pgdir va AND 1 = 0"
  shows "\<exists>k'. walkpgdir pgdir va True k = Ret (slot (k_mem k') pgdir va) k' \<and> vm_ok k' pgdir xs \<and>
     pde_at (k_mem k') pgdir va AND 1 \<noteq> 0 \<and> entry (k_mem k') pgdir = entry (k_mem k) pgdir"
proof -
  note d = vm_okD [OF v(1)]
  let ?m = "store32 (memset x 0 4096 (k_mem k)) (pgdir + 4 * PDX va) (x OR 7)"
  let ?k = "(touch k)\<lparr>k_freelist := load32 (k_mem k) x, k_mem := ?m\<rparr>"
  have x: "x mod 4096 = 0" "x \<noteq> 0" "k_freelist k = x" "x \<notin> set xs" "x \<noteq> pgdir"
    using free_pages [OF d(1)] d(1,4) by (auto simp: free_rep_def)
  have w: "walkpgdir pgdir va True k = Ret (x + 4 * PTX va) ?k"
    using v(2) d(2) x by (simp add: walkpgdir_def getword_def pde_at_def kalloc_eq setmem_def putword_def or.assoc [symmetric])
  have f7: "PTE_ADDR (x OR 7) = x" "(x OR 7) AND 1 = 1" "(x OR 7) AND 4 = 4"
    using PTE_ADDR_flags [of x 7] x(1) by (simp_all add: take_bit_eq_mod)
  have pde: "pde_at ?m pgdir vc = (if PDX vc = PDX va then x OR 7 else pde_at (k_mem k) pgdir vc)" for vc
    unfolding pde_at_def using d(3) x load32_memset_out [OF d(3) x(1), of "PDX vc" 0 "k_mem k"]
    by (simp add: load32_store_slot)
  have tab: "load32 ?m (t + 4 * i) = (if t = x then 0 else load32 (k_mem k) (t + 4 * i))"
    if "t mod 4096 = 0" "t \<noteq> pgdir" "unat i < 1024" for t i
    using that d(3) x load32_memset_in [of i x "k_mem k"] load32_memset_out [OF that(1) x(1) _ that(3), of 0 "k_mem k"]
    by (simp add: load32_store_slot)
  have tx: "PTE_ADDR (pde_at (k_mem k) pgdir vc) \<noteq> x" if "pde_at (k_mem k) pgdir vc AND 1 \<noteq> 0" for vc
    using d(7) [OF that] by auto
  have fr0: "free_rep ((touch k)\<lparr>k_freelist := load32 (k_mem k) x\<rparr>) xs" using d(1) by (auto simp: free_rep_def page_addr_def)
  have lm: "load32 ?m y = load32 (k_mem k) y" if "y \<in> set xs" for y
  proof -
    have "y mod 4096 = 0" "y \<noteq> pgdir" "y \<noteq> x" using free_pages [OF d(1), of y] that x d(4) by auto
    then have "load32 ?m (y + 4 * 0) = load32 (k_mem k) (y + 4 * 0)" by (subst tab) simp_all
    then show ?thesis by simp
  qed
  have fr: "free_rep ?k xs" by (rule free_rep_cong [OF fr0]) (simp_all add: lm)
  have "vm_ok ?k pgdir xs"
    unfolding vm_ok_def
  proof (intro conjI allI impI)
    show "free_rep ?k xs" by (rule fr)
    show "kmem_ready ?k" using d(2) by (simp add: kmem_ready_def)
    show "pgdir mod 4096 = 0" "pgdir \<notin> set xs" using d(3,4) by auto
    show "let t = PTE_ADDR (pde_at (k_mem ?k) pgdir vb) in t \<noteq> 0 \<and> t \<noteq> pgdir \<and> t \<notin> set xs \<and> pde_at (k_mem ?k) pgdir vb AND PTE_U \<noteq> 0"
      if "pde_at (k_mem ?k) pgdir vb AND PTE_P \<noteq> 0" for vb
      using that d(5-8) [of vb] x f7 pde [of vb] by (auto simp: Let_def)
    show "PDX vb = PDX vc" if "pde_at (k_mem ?k) pgdir vb AND PTE_P \<noteq> 0 \<and> pde_at (k_mem ?k) pgdir vc AND PTE_P \<noteq> 0 \<and>
        PTE_ADDR (pde_at (k_mem ?k) pgdir vb) = PTE_ADDR (pde_at (k_mem ?k) pgdir vc)" for vb vc
      using that d(9) [of vb vc] tx [of vb] tx [of vc] f7 pde [of vb] pde [of vc] by (auto split: if_splits)
  qed
  moreover have "entry ?m pgdir vb = entry (k_mem k) pgdir vb" for vb
  proof (cases "PDX vb = PDX va")
    case True
    then have "entry ?m pgdir vb = 0" using pde [of vb] f7 tab [of x "PTX vb"] x by (simp add: entry_def slot_def)
    moreover have "entry (k_mem k) pgdir vb = 0" using True v(2) by (simp add: entry_def pde_at_def)
    ultimately show ?thesis by simp
  next
    case False
    then show ?thesis using pde [of vb] tab [of "PTE_ADDR (pde_at (k_mem k) pgdir vb)" "PTX vb"] tx [of vb] d(6) [of vb]
      by (simp add: entry_def slot_def)
  qed
  moreover have "slot ?m pgdir va = x + 4 * PTX va" using pde [of va] f7 by (simp add: slot_def)
  moreover have "pde_at ?m pgdir va AND 1 \<noteq> 0" using pde [of va] f7 by simp
  ultimately show ?thesis using w by (intro exI [of _ ?k]) (simp add: fun_eq_iff)
qed

lemma walk_no_page:
  assumes "vm_ok k pgdir []" "pde_at (k_mem k) pgdir va AND 1 = 0"
  shows "walkpgdir pgdir va True k = Ret 0 (touch k) \<and> vm_ok (touch k) pgdir []"
proof -
  have "k_freelist k = 0" using vm_okD(1) [OF assms(1)] by (simp add: free_rep_def)
  then have "walkpgdir pgdir va True k = Ret 0 (touch k)"
    using assms(2) vm_okD(2) [OF assms(1)] by (simp add: walkpgdir_def getword_def pde_at_def kalloc_eq)
  moreover have "vm_ok (touch k) pgdir []"
    using assms(1) by (simp add: vm_ok_def free_rep_def kmem_ready_def)
  ultimately show ?thesis by simp
qed

section \<open>Mapping pages\<close>

lemma walk_create:
  assumes v: "vm_ok k pgdir xs"
  shows "(\<exists>k' n. walkpgdir pgdir va True k = Ret (slot (k_mem k') pgdir va) k' \<and> slot (k_mem k') pgdir va \<noteq> 0 \<and>
       vm_ok k' pgdir (drop n xs) \<and> pde_at (k_mem k') pgdir va AND 1 \<noteq> 0 \<and> entry (k_mem k') pgdir = entry (k_mem k) pgdir \<and> n \<le> 1) \<or>
     (walkpgdir pgdir va True k = Ret 0 (touch k) \<and> vm_ok (touch k) pgdir [] \<and> xs = [])"
proof (cases "pde_at (k_mem k) pgdir va AND 1 = 0")
  case False
  then show ?thesis using walk_present [OF v False] v by (intro disjI1 exI [of _ k] exI [of _ 0]) simp
next
  case True
  show ?thesis
  proof (cases xs)
    case Nil
    then show ?thesis using walk_no_page [of k pgdir va] v True by simp
  next
    case (Cons x ys)
    obtain k' where k': "walkpgdir pgdir va True k = Ret (slot (k_mem k') pgdir va) k'" "vm_ok k' pgdir ys"
       "pde_at (k_mem k') pgdir va AND 1 \<noteq> 0" "entry (k_mem k') pgdir = entry (k_mem k) pgdir"
      using walk_absent [of k pgdir x ys va] v True Cons by auto
    then show ?thesis using walk_present(2) [OF k'(2,3)] Cons by (intro disjI1 exI [of _ k'] exI [of _ 1]) simp
  qed
qed

definition mapped_to :: "addr \<Rightarrow> nat \<Rightarrow> nat \<Rightarrow> u32 \<Rightarrow> u32 \<Rightarrow> (addr \<Rightarrow> u32) \<Rightarrow> addr \<Rightarrow> u32" where
  "mapped_to a lo hi pa perm E va = (if lo \<le> pg va \<and> pg va \<le> hi then (pa + 4096 * of_nat (pg va - lo)) OR perm OR 1 else E va)"

lemma mappages_loop_entries:
  assumes "vm_ok k pgdir xs" "a mod 4096 = 0" "final mod 4096 = 0" "pg a \<le> pg final" "pg final - pg a < fuel"
    "\<And>va. pg a \<le> pg va \<Longrightarrow> pg va \<le> pg final \<Longrightarrow> entry (k_mem k) pgdir va AND 1 = 0"
  shows "\<exists>r k' n. mappages_loop fuel pgdir a final pa perm k = Ret r k' \<and> vm_ok k' pgdir (drop n xs) \<and> n \<le> pg final - pg a + 1 \<and>
     (r = 0 \<and> entry (k_mem k') pgdir = mapped_to a (pg a) (pg final) pa perm (entry (k_mem k) pgdir) \<or>
      r = - 1 \<and> length xs \<le> n \<and> n \<le> pg final - pg a \<and> (\<forall>va. \<not> (pg a \<le> pg va \<and> pg va \<le> pg final) \<longrightarrow> entry (k_mem k') pgdir va = entry (k_mem k) pgdir va))"
  using assms
proof (induction fuel arbitrary: k xs a pa)
  case (Suc fuel)
  note v = Suc.prems(1) and al = Suc.prems(2,3) and le = Suc.prems(4) and fu = Suc.prems(5) and un = Suc.prems(6)
  consider k1 n where "walkpgdir pgdir a True k = Ret (slot (k_mem k1) pgdir a) k1" "slot (k_mem k1) pgdir a \<noteq> 0"
       "vm_ok k1 pgdir (drop n xs)" "pde_at (k_mem k1) pgdir a AND 1 \<noteq> 0" "entry (k_mem k1) pgdir = entry (k_mem k) pgdir" "n \<le> 1"
    | "walkpgdir pgdir a True k = Ret 0 (touch k)" "vm_ok (touch k) pgdir []" "xs = []"
    using walk_create [OF v, of a] by blast
  then show ?case
  proof cases
    case 2
    then show ?thesis by (intro exI [of _ "- 1"] exI [of _ "touch k"] exI [of _ 0]) simp
  next
    case 1
    let ?s = "slot (k_mem k1) pgdir a" and ?w = "pa OR perm OR 1"
    define k2 where "k2 = k1\<lparr>k_mem := store32 (k_mem k1) ?s ?w\<rparr>"
    note s = store_entry [OF 1(3,4) k2_def]
    have "entry (k_mem k1) pgdir a AND 1 = 0" using un [of a] le 1(5) by simp
    then have old: "load32 (k_mem k1) ?s AND 1 = 0" using 1(4) by (simp add: entry_def)
    have e2: "entry (k_mem k2) pgdir vb = (if pg vb = pg a then ?w else entry (k_mem k) pgdir vb)" for vb using s(3) 1(5) by simp
    show ?thesis
    proof (cases "a = final")
      case True
      then have "entry (k_mem k2) pgdir = mapped_to a (pg a) (pg final) pa perm (entry (k_mem k) pgdir)"
        using e2 by (auto simp: mapped_to_def fun_eq_iff)
      then show ?thesis using 1 old s(1) True
        by (intro exI [of _ 0] exI [of _ k2] exI [of _ n]) (simp add: getword_def putword_def setmem_def k2_def)
    next
      case False
      have ua: "unat a = 4096 * pg a" "unat final = 4096 * pg final" using al by (simp_all add: page_mod pg_def) (metis mult_div_mod_eq add.right_neutral)+
      then have lt: "pg a < pg final" using le False by (metis nat_less_le word_unat_eq_iff)
      have "unat (a + 4096) = unat a + 4096"
      proof -
        have "unat a + 4096 \<le> unat final" using ua lt by simp
        also have "\<dots> < 4294967296" using unsigned_less [of final] by simp
        finally show ?thesis using unat_add_of_nat [of a 4096] by simp
      qed
      then have ux: "unat (a + 4096) = 4096 * Suc (pg a)" using ua(1) by simp
      have pa: "pg (a + 4096) = Suc (pg a)" "(a + 4096) mod 4096 = 0" unfolding pg_def [of "a + 4096"] page_mod ux by simp_all
      have un2: "entry (k_mem k2) pgdir va AND 1 = 0" if "pg (a + 4096) \<le> pg va" "pg va \<le> pg final" for va
        using un [of va] that e2 pa by simp
      have h: "pg (a + 4096) \<le> pg final" "pg final - pg (a + 4096) < fuel" using lt fu pa(1) by simp_all
      obtain r k3 n3 where 3: "mappages_loop fuel pgdir (a + 4096) final (pa + 4096) perm k2 = Ret r k3" "vm_ok k3 pgdir (drop n3 (drop n xs))"
          "n3 \<le> pg final - pg (a + 4096) + 1"
        and e3: "r = 0 \<and> entry (k_mem k3) pgdir = mapped_to (a + 4096) (pg (a + 4096)) (pg final) (pa + 4096) perm (entry (k_mem k2) pgdir) \<or>
          r = - 1 \<and> length (drop n xs) \<le> n3 \<and> n3 \<le> pg final - pg (a + 4096) \<and> (\<forall>va. \<not> (pg (a + 4096) \<le> pg va \<and> pg va \<le> pg final) \<longrightarrow> entry (k_mem k3) pgdir va = entry (k_mem k2) pgdir va)"
        using Suc.IH [OF s(1) pa(2) al(2) h un2, of "pa + 4096"] by blast
      have "mapped_to (a + 4096) (Suc (pg a)) (pg final) (pa + 4096) perm (entry (k_mem k2) pgdir) va =
          mapped_to a (pg a) (pg final) pa perm (entry (k_mem k) pgdir) va" for va
      proof -
        have "pa + 4096 + 4096 * of_nat (pg va - Suc (pg a)) = pa + 4096 * of_nat (pg va - pg a)" if "Suc (pg a) \<le> pg va"
        proof -
          have "pg va - pg a = Suc (pg va - Suc (pg a))" using that by simp
          then show ?thesis by (simp add: algebra_simps)
        qed
        then show ?thesis using e2 [of va] lt by (auto simp: mapped_to_def)
      qed
      then have "r = 0 \<and> entry (k_mem k3) pgdir = mapped_to a (pg a) (pg final) pa perm (entry (k_mem k) pgdir) \<or>
          r = - 1 \<and> length xs \<le> n3 + n \<and> n3 + n \<le> pg final - pg a \<and> (\<forall>va. \<not> (pg a \<le> pg va \<and> pg va \<le> pg final) \<longrightarrow> entry (k_mem k3) pgdir va = entry (k_mem k) pgdir va)"
        using e3 e2 pa(1) lt 1(6) by (auto simp: fun_eq_iff add.commute)
      then show ?thesis using 1 old 3 False lt pa(1)
        by (intro exI [of _ r] exI [of _ k3] exI [of _ "n3 + n"]) (simp add: getword_def putword_def setmem_def k2_def add.commute)
    qed
  qed
qed simp

lemma translate_entry:
  assumes "vm_ok k pgdir xs"
  shows "translate (k_mem k) pgdir u va =
    (if entry (k_mem k) pgdir va AND 1 \<noteq> 0 \<and> (u \<longrightarrow> entry (k_mem k) pgdir va AND 4 \<noteq> 0)
     then Some (PTE_ADDR (entry (k_mem k) pgdir va) + (va AND 0xFFF)) else None)"
  using vm_okD(8) [OF assms, of va] by (auto simp: translate_def Let_def entry_def slot_def pde_at_def)

lemma mask12: "(w :: u32) AND 0xFFF = take_bit 12 w"
proof -
  have "(0xFFF :: u32) = mask 12" by (simp add: mask_eq_exp_minus_1)
  then show ?thesis by (simp add: take_bit_eq_mask)
qed

lemma page_split: "va = 4096 * of_nat (pg va) + (va AND 0xFFF)"
proof -
  have "unat (va AND 0xFFF) = unat va mod 4096" unfolding mask12 by (simp add: take_bit_eq_mod unat_mod)
  then have "of_nat (4096 * pg va + unat (va AND 0xFFF)) = (of_nat (unat va) :: u32)" by (simp add: pg_def)
  then show ?thesis by simp
qed

lemma PGROUNDDOWN_props: "PGROUNDDOWN a mod 4096 = 0" "pg (PGROUNDDOWN a) = pg a" "PGROUNDDOWN a = 4096 * of_nat (pg a)"
proof -
  have u: "unat (PGROUNDDOWN a) = pg a * 4096" using unat_page_down [of a] by (simp add: PGROUNDDOWN_def pg_def)
  show "PGROUNDDOWN a mod 4096 = 0" unfolding page_mod u by simp
  show "pg (PGROUNDDOWN a) = pg a" unfolding pg_def [of "PGROUNDDOWN a"] u by simp
  have "of_nat (unat (PGROUNDDOWN a)) = (of_nat (pg a * 4096) :: u32)" unfolding u ..
  then show "PGROUNDDOWN a = 4096 * of_nat (pg a)" by (simp add: mult.commute)
qed

lemma entry_mapped:
  assumes "pa mod 4096 = 0" "take_bit 12 perm = perm" "e = (pa + 4096 * of_nat j) OR perm OR 1"
  shows "PTE_ADDR e = pa + 4096 * of_nat j" "e AND 1 \<noteq> 0" "e AND 4 = perm AND 4"
proof -
  have 1: "(pa + 4096 * of_nat j) mod 4096 = 0"
  proof -
    have "pa = 4096 * of_nat (pg pa)" using page_split [of pa] assms(1) unfolding mask12 page_take_bit by simp
    then have "pa + 4096 * of_nat j = push_bit 12 (of_nat (pg pa) + of_nat j)" by (simp add: push_bit_eq_mult algebra_simps)
    then show ?thesis unfolding page_take_bit by (simp add: take_bit_push_bit)
  qed
  have 2: "take_bit 12 (perm OR 1) = perm OR 1" using assms(2) by (simp add: take_bit_or)
  have e: "e = (pa + 4096 * of_nat j) OR (perm OR 1)" using assms(3) by (simp add: or.assoc)
  have "(perm OR 1) AND 1 = 1" "(perm OR 1) AND 4 = perm AND 4" by (simp_all add: bit.conj_disj_distrib2)
  then show "PTE_ADDR e = pa + 4096 * of_nat j" "e AND 1 \<noteq> 0" "e AND 4 = perm AND 4"
    unfolding e using PTE_ADDR_flags [OF 1 2] by simp_all
qed

text \<open>C21. What \<^verbatim>\<open>mappages\<close> does to an address space, as the processor sees it through the two levels of the
  page table. On success every page of the range leads to its page of physical memory, for the user only with \<^verbatim>\<open>PTE_U\<close>, and
  the translation of every other address is what it was. It fails only when no page is left for a
  table, and leaves the addresses outside the range alone then as well.\<close>

theorem mappages_translate:
  assumes "vm_ok k pgdir xs" and "0 < sz" "unat la + unat sz \<le> 4294967296" and "pa mod 4096 = 0" "take_bit 12 perm = perm"
    and "\<forall>va. pg la \<le> pg va \<and> pg va \<le> pg (la + sz - 1) \<longrightarrow> translate (k_mem k) pgdir False va = None"
  shows "\<exists>r k' ys. mappages pgdir la sz pa perm k = Ret r k' \<and> vm_ok k' pgdir ys \<and>
     (r = 0 \<and> (\<forall>u va. translate (k_mem k') pgdir u va =
         (if pg la \<le> pg va \<and> pg va \<le> pg (la + sz - 1)
          then if u \<and> perm AND PTE_U = 0 then None else Some (pa + (va - PGROUNDDOWN la))
          else translate (k_mem k) pgdir u va)) \<or>
      r = - 1 \<and> ys = [] \<and> length xs \<le> pg (la + sz - 1) - pg la \<and>
        (\<forall>u va. \<not> (pg la \<le> pg va \<and> pg va \<le> pg (la + sz - 1)) \<longrightarrow>
           translate (k_mem k') pgdir u va = translate (k_mem k) pgdir u va))"
proof -
  let ?a = "PGROUNDDOWN la" and ?l = "PGROUNDDOWN (la + sz - 1)"
  have "1 \<le> unat sz" using assms(2) by (simp add: word_less_nat_alt Suc_leI)
  then have "la + sz - 1 = la + of_nat (unat sz - 1)" by (simp add: of_nat_diff)
  then have ul: "unat (la + sz - 1) = unat la + (unat sz - 1)"
    using assms(3) \<open>1 \<le> unat sz\<close> unat_add_of_nat [of la "unat sz - 1"] by (simp add: add_diff_eq)
  then have le: "pg la \<le> pg (la + sz - 1)" using \<open>1 \<le> unat sz\<close> by (simp add: pg_def div_le_mono)
  have fu: "pg ?l - pg ?a < unat (?l - ?a) div 4096 + 1"
  proof -
    have "unat ?a = 4096 * pg la" "unat ?l = 4096 * pg (la + sz - 1)"
      using unat_page_down [of la] unat_page_down [of "la + sz - 1"] by (simp_all add: PGROUNDDOWN_def pg_def mult.commute)
    moreover from this have "?a \<le> ?l" using le by (simp add: word_le_nat_alt)
    ultimately have "unat (?l - ?a) = 4096 * (pg (la + sz - 1) - pg la)" by (simp add: unat_sub diff_mult_distrib2)
    then show ?thesis by (simp add: PGROUNDDOWN_props(1,2))
  qed
  have un: "entry (k_mem k) pgdir va AND 1 = 0" if "pg ?a \<le> pg va" "pg va \<le> pg ?l" for va
    using assms(6) that translate_entry [OF assms(1), of False va] by (auto simp: PGROUNDDOWN_props(1,2) split: if_splits)
  obtain r k' n where m: "mappages pgdir la sz pa perm k = Ret r k'" "vm_ok k' pgdir (drop n xs)" "n \<le> pg ?l - pg ?a + 1"
    and e: "r = 0 \<and> entry (k_mem k') pgdir = mapped_to ?a (pg ?a) (pg ?l) pa perm (entry (k_mem k) pgdir) \<or>
      r = - 1 \<and> length xs \<le> n \<and> n \<le> pg ?l - pg ?a \<and> (\<forall>va. \<not> (pg ?a \<le> pg va \<and> pg va \<le> pg ?l) \<longrightarrow> entry (k_mem k') pgdir va = entry (k_mem k) pgdir va)"
    using mappages_loop_entries [OF assms(1) _ _ _ fu un, of pa perm] le by (auto simp: mappages_def Let_def PGROUNDDOWN_props(1,2))
  show ?thesis
  proof (cases "r = 0")
    case True
    have "translate (k_mem k') pgdir u va = (if pg la \<le> pg va \<and> pg va \<le> pg (la + sz - 1)
        then if u \<and> perm AND PTE_U = 0 then None else Some (pa + (va - ?a)) else translate (k_mem k) pgdir u va)" for u va
    proof (cases "pg la \<le> pg va \<and> pg va \<le> pg (la + sz - 1)")
      case inr: True
      then have "entry (k_mem k') pgdir va = (pa + 4096 * of_nat (pg va - pg la)) OR perm OR 1"
        using e True by (simp add: mapped_to_def PGROUNDDOWN_props(1,2))
      note em = entry_mapped [OF assms(4,5) this]
      have "pa + 4096 * of_nat (pg va - pg la) + (va AND 0xFFF) = pa + (va - ?a)"
      proof -
        have "va - ?a = 4096 * of_nat (pg va) + (va AND 0xFFF) - 4096 * of_nat (pg la)"
          unfolding PGROUNDDOWN_props(3) using page_split [of va] by metis
        then show ?thesis using inr by (simp add: of_nat_diff algebra_simps)
      qed
      then show ?thesis using inr em translate_entry [OF m(2), of u va] by simp
    next
      case False
      then have "entry (k_mem k') pgdir va = entry (k_mem k) pgdir va" using e True by (auto simp: mapped_to_def PGROUNDDOWN_props(1,2))
      then show ?thesis using False translate_entry [OF m(2), of u va] translate_entry [OF assms(1), of u va] by (simp only: if_False)
    qed
    then show ?thesis using m(1,2) True by (intro exI [of _ r] exI [of _ k'] exI [of _ "drop n xs"]) blast
  next
    case False
    then have r: "r = - 1" "length xs \<le> n" "n \<le> pg (la + sz - 1) - pg la" and o: "\<And>va. \<not> (pg la \<le> pg va \<and> pg va \<le> pg (la + sz - 1)) \<Longrightarrow> entry (k_mem k') pgdir va = entry (k_mem k) pgdir va"
      using e by (auto simp: PGROUNDDOWN_props(1,2))
    have "translate (k_mem k') pgdir u va = translate (k_mem k) pgdir u va" if "\<not> (pg la \<le> pg va \<and> pg va \<le> pg (la + sz - 1))" for u va
      using o [OF that] translate_entry [OF m(2), of u va] translate_entry [OF assms(1), of u va] by simp
    then show ?thesis using m r by (intro exI [of _ r] exI [of _ k'] exI [of _ "drop n xs"]) (auto simp: PGROUNDDOWN_props(1,2))
  qed
qed

text \<open>An empty page directory at 2MB and one free page.\<close>

definition demo_vm :: kernel where
  "demo_vm = (demo_kernel [])\<lparr>k_mem := \<lambda>_. 0, k_end := 0x100000, k_freelist := 0x300000\<rparr>"

lemma demo_vm_ok: "vm_ok demo_vm 0x200000 [0x300000]" "entry (k_mem demo_vm) 0x200000 va = 0"
  by (simp_all add: vm_ok_def free_rep_def page_addr_def kmem_ready_def demo_vm_def demo_kernel_def demo_cpu_def cli_ok_def
    pde_at_def load32_def dec32_def entry_def)

theorem mappages_translate_witness:
  "\<exists>k'. mappages 0x200000 0x5000 0x1000 0x400000 (PTE_W OR PTE_U) demo_vm = Ret 0 k' \<and>
     translate (k_mem k') 0x200000 True 0x5123 = Some 0x400123 \<and> translate (k_mem k') 0x200000 True 0x6123 = None"
proof -
  have p: "pg 0x5000 = 5" "pg 0x5FFF = 5" "pg 0x5123 = 5" "pg 0x6123 = 6" by (simp_all add: pg_def)
  have none: "translate (k_mem demo_vm) 0x200000 u va = None" for u va
    using translate_entry [OF demo_vm_ok(1), of u va] by (simp add: demo_vm_ok)
  have t: "take_bit 12 (PTE_W OR PTE_U) = PTE_W OR PTE_U" by simp
  obtain r k' where "mappages 0x200000 0x5000 0x1000 0x400000 (PTE_W OR PTE_U) demo_vm = Ret r k'" "r = 0"
    "\<forall>u va. translate (k_mem k') 0x200000 u va =
       (if pg 0x5000 \<le> pg va \<and> pg va \<le> pg (0x5000 + 0x1000 - 1)
        then if u \<and> (PTE_W OR PTE_U) AND PTE_U = 0 then None else Some (0x400000 + (va - PGROUNDDOWN 0x5000))
        else translate (k_mem demo_vm) 0x200000 u va)"
    using mappages_translate [where sz = "0x1000" and la = "0x5000" and pa = "0x400000", OF demo_vm_ok(1) _ _ _ t] none p by auto
  then show ?thesis using none p by (auto simp: PGROUNDDOWN_def)
qed

end
