(* ===== verification/Pipe.thy ===== *)
theory Pipe
  imports Sched Kalloc
begin

text \<open>
  Pipes (\<^verbatim>\<open>kernel/pipe.c\<close>): a ring buffer of \<^verbatim>\<open>PIPESIZE\<close> bytes with two free-running
  32-bit counters. The bytes to write are given as a list, the bytes read are returned as one.
  Each element of the list \<open>es\<close> is what happens to the kernel during one \<^verbatim>\<open>sleep\<close>; when the
  list is used up and the process has to sleep again, the outcome is \<open>Switch\<close>.
  \<^verbatim>\<open>pipealloc\<close> is in the theory \<open>File\<close>.
\<close>

definition PIPESIZE :: u32 where [simp]: "PIPESIZE = 512"

section \<open>Operations\<close>

definition pipeclose :: "addr \<Rightarrow> bool \<Rightarrow> unit K" where
  "pipeclose p writable = thenP (acquire (PipeLock p))
    (thenP
       (if writable
        then thenP (modify (setpipe p (\<lambda>q. q\<lparr>pi_writeopen := 0\<rparr>))) (wakeup (PipeReadChan p))
        else thenP (modify (setpipe p (\<lambda>q. q\<lparr>pi_readopen := 0\<rparr>))) (wakeup (PipeWriteChan p)))
    (bindP (reads (\<lambda>k. k_pipes k p)) (\<lambda>q.
     if pi_readopen q = 0 \<and> pi_writeopen q = 0
     then thenP (release (PipeLock p)) (kfree p)
     else release (PipeLock p))))"

text \<open>
  One byte of \<^verbatim>\<open>pipewrite\<close>. The result is \<open>None\<close> if the routine has returned -1, otherwise the
  sleeps not yet used. \<open>block\<close> is what follows when the pipe is full.
\<close>

definition pipe_put :: "addr \<Rightarrow> u8 \<Rightarrow> pipe \<Rightarrow> pipe" where
  "pipe_put p c q = q\<lparr>pi_data := (pi_data q)[unat (pi_nwrite q mod PIPESIZE) := c], pi_nwrite := pi_nwrite q + 1\<rparr>"

definition pipewrite_try :: "addr \<Rightarrow> u8 \<Rightarrow> env list \<Rightarrow> env list option K \<Rightarrow> env list option K" where
  "pipewrite_try p c es block = bindP (reads (\<lambda>k. k_pipes k p)) (\<lambda>q.
     if pi_nwrite q = pi_nread q + PIPESIZE then
       bindP (if pi_readopen q = 0 then ret True else curproc_get (\<lambda>pr. p_killed pr \<noteq> 0)) (\<lambda>dead.
       if dead then thenP (release (PipeLock p)) (ret None)
       else thenP (wakeup (PipeReadChan p)) block)
     else thenP (modify (setpipe p (pipe_put p c))) (ret (Some es)))"

primrec pipewrite_byte :: "env list \<Rightarrow> addr \<Rightarrow> u8 \<Rightarrow> env list option K" where
  "pipewrite_byte [] p c =
     pipewrite_try p c [] (thenP (sleep (PipeWriteChan p) (PipeLock p) None) (ret None))"
| "pipewrite_byte (e # es) p c =
     pipewrite_try p c (e # es)
       (thenP (sleep (PipeWriteChan p) (PipeLock p) (Some e)) (pipewrite_byte es p c))"

primrec pipewrite_loop :: "u8 list \<Rightarrow> addr \<Rightarrow> env list \<Rightarrow> bool K" where
  "pipewrite_loop [] p es = ret True"
| "pipewrite_loop (b # bs) p es = bindP (pipewrite_byte es p b) (\<lambda>r.
     case r of None \<Rightarrow> ret False | Some es' \<Rightarrow> pipewrite_loop bs p es')"

definition pipewrite :: "addr \<Rightarrow> u8 list \<Rightarrow> int \<Rightarrow> env list \<Rightarrow> int K" where
  "pipewrite p bs n es = thenP (acquire (PipeLock p))
    (bindP (pipewrite_loop (take (nat n) bs) p es) (\<lambda>done.
     if \<not> done then ret (- 1) else
     thenP (wakeup (PipeReadChan p))
    (thenP (release (PipeLock p))
    (ret n))))"

definition piperead_try :: "addr \<Rightarrow> bool K \<Rightarrow> bool K" where
  "piperead_try p block = bindP (reads (\<lambda>k. k_pipes k p)) (\<lambda>q.
     if pi_nread q = pi_nwrite q \<and> pi_writeopen q \<noteq> 0 then
       bindP (curproc_get (\<lambda>pr. p_killed pr \<noteq> 0)) (\<lambda>dead.
       if dead then thenP (release (PipeLock p)) (ret False) else block)
     else ret True)"

primrec piperead_wait :: "env list \<Rightarrow> addr \<Rightarrow> bool K" where
  "piperead_wait [] p = piperead_try p (thenP (sleep (PipeReadChan p) (PipeLock p) None) (ret False))"
| "piperead_wait (e # es) p =
     piperead_try p (thenP (sleep (PipeReadChan p) (PipeLock p) (Some e)) (piperead_wait es p))"

primrec piperead_copy :: "nat \<Rightarrow> addr \<Rightarrow> u8 list K" where
  "piperead_copy 0 p = ret []"
| "piperead_copy (Suc n) p = bindP (reads (\<lambda>k. k_pipes k p)) (\<lambda>q.
     if pi_nread q = pi_nwrite q then ret [] else
     thenP (modify (setpipe p (\<lambda>q. q\<lparr>pi_nread := pi_nread q + 1\<rparr>)))
    (bindP (piperead_copy n p) (\<lambda>bs. ret (pi_data q ! unat (pi_nread q mod PIPESIZE) # bs))))"

definition piperead :: "addr \<Rightarrow> int \<Rightarrow> env list \<Rightarrow> (int \<times> u8 list) K" where
  "piperead p n es = thenP (acquire (PipeLock p))
    (bindP (piperead_wait es p) (\<lambda>ok.
     if \<not> ok then ret (- 1, []) else
     bindP (piperead_copy (nat n) p) (\<lambda>bs.
     thenP (wakeup (PipeWriteChan p))
    (thenP (release (PipeLock p))
    (ret (int (length bs), bs))))))"

section \<open>The contents of a pipe\<close>

definition pipe_ok :: "pipe \<Rightarrow> bool" where
  "pipe_ok q \<longleftrightarrow> length (pi_data q) = 512 \<and> unat (pi_nwrite q - pi_nread q) \<le> 512"

definition contents :: "pipe \<Rightarrow> u8 list" where
  "contents q = map (\<lambda>i. pi_data q ! unat ((pi_nread q + of_nat i) mod PIPESIZE)) [0..<unat (pi_nwrite q - pi_nread q)]"

lemma mod512_less: "unat ((x :: u32) mod 512) < 512"
  by (simp add: unat_mod)

lemma ring_index_inj:
  assumes "i < 512" and "j < 512" and "i \<noteq> j"
  shows "unat (((x :: u32) + of_nat i) mod 512) \<noteq> unat ((x + of_nat j) mod 512)"
proof
  have u: "unat ((x + of_nat i) mod 512) = (unat x + i) mod 512" for i
    by (simp add: unat_mod unat_word_ariths unat_of_nat take_bit_eq_mod mod_mod_cancel mod_simps)
  assume "unat ((x + of_nat i) mod 512) = unat ((x + of_nat j) mod 512)"
  then have "(unat x + i) mod 512 = (unat x + j) mod 512" by (simp add: u)
  then have "int ((unat x + i) mod 512) = int ((unat x + j) mod 512)" by (rule arg_cong)
  then have "(int (unat x) + int i) mod 512 = (int (unat x) + int j) mod 512"
    by (simp only: zmod_int of_nat_add of_nat_numeral)
  then have "512 dvd int i - int j" by (simp add: mod_eq_dvd_iff)
  then obtain k where k: "int i - int j = 512 * k" by (rule dvdE)
  then have "- 1 < k" and "k < 1" using assms(1,2) by linarith+
  then show False using k assms(3) by simp
qed

lemma full_iff:
  "pipe_ok q \<Longrightarrow> pi_nwrite q = pi_nread q + PIPESIZE \<longleftrightarrow> length (contents q) = 512"
proof -
  have "pi_nwrite q = pi_nread q + 512 \<longleftrightarrow> pi_nwrite q - pi_nread q = 512"
    by (simp add: algebra_simps eq_diff_eq)
  also have "\<dots> \<longleftrightarrow> unat (pi_nwrite q - pi_nread q) = 512" by (simp add: word_unat_eq_iff)
  finally show ?thesis by (simp add: contents_def)
qed

lemma empty_iff: "pi_nread q = pi_nwrite q \<longleftrightarrow> contents q = []"
proof -
  have "pi_nread q = pi_nwrite q \<longleftrightarrow> unat (pi_nwrite q - pi_nread q) = 0"
    by (auto simp: unat_eq_0)
  then show ?thesis by (simp add: contents_def)
qed

lemma put_contents:
  assumes ok: "pipe_ok q" and room: "length (contents q) < 512"
  shows "pipe_ok (pipe_put p c q) \<and> contents (pipe_put p c q) = contents q @ [c]"
proof -
  let ?d = "pi_nwrite q - pi_nread q"
  have lt: "unat ?d < 512" using room by (simp add: contents_def)
  have e: "pi_nwrite q + 1 - pi_nread q = ?d + of_nat 1" by simp
  have u: "unat (pi_nwrite q + 1 - pi_nread q) = unat ?d + 1"
    unfolding e by (rule unat_add_of_nat) (use lt in simp)
  have w: "pi_nwrite q = pi_nread q + of_nat (unat ?d)" by simp
  have old: "(pi_data q)[unat (pi_nwrite q mod 512) := c] ! unat ((pi_nread q + of_nat i) mod 512)
      = pi_data q ! unat ((pi_nread q + of_nat i) mod 512)" if "i < unat ?d" for i
  proof (rule nth_list_update_neq)
    show "unat (pi_nwrite q mod 512) \<noteq> unat ((pi_nread q + of_nat i) mod 512)"
      using ring_index_inj [of "unat ?d" i "pi_nread q"] lt that by simp
  qed
  have new: "(pi_data q)[unat (pi_nwrite q mod 512) := c] ! unat ((pi_nread q + of_nat (unat ?d)) mod 512) = c"
    using ok mod512_less [of "pi_nwrite q"] by (simp add: pipe_ok_def)
  have "contents (pipe_put p c q) = contents q @ [c]"
    using old new by (simp add: contents_def pipe_put_def u)
  then show ?thesis using ok lt u by (simp add: pipe_ok_def pipe_put_def)
qed

lemma get_contents:
  assumes ok: "pipe_ok q" and ne: "contents q \<noteq> []"
  shows "contents q = pi_data q ! unat (pi_nread q mod PIPESIZE) # contents (q\<lparr>pi_nread := pi_nread q + 1\<rparr>) \<and>
     pipe_ok (q\<lparr>pi_nread := pi_nread q + 1\<rparr>)"
proof -
  let ?d = "pi_nwrite q - pi_nread q"
  have d: "0 < unat ?d" using ne by (simp add: contents_def)
  have "pi_nwrite q - (pi_nread q + 1) = ?d - 1" by simp
  then have u: "unat (pi_nwrite q - (pi_nread q + 1)) = unat ?d - 1"
    using d by (metis unat_gt_0 unat_minus_one)
  have e: "[0..<unat ?d] = 0 # map Suc [0..<unat ?d - 1]"
    using d by (metis Suc_diff_1 map_Suc_upt upt_conv_Cons)
  have "contents q = pi_data q ! unat (pi_nread q mod 512) #
      map ((\<lambda>i. pi_data q ! unat ((pi_nread q + of_nat i) mod 512)) \<circ> Suc) [0..<unat ?d - 1]"
    unfolding contents_def e by simp
  also have "map ((\<lambda>i. pi_data q ! unat ((pi_nread q + of_nat i) mod 512)) \<circ> Suc) [0..<unat ?d - 1]
      = contents (q\<lparr>pi_nread := pi_nread q + 1\<rparr>)"
    by (simp add: contents_def u add.assoc)
  finally show ?thesis using ok u by (auto simp: pipe_ok_def)
qed

section \<open>Reading and writing\<close>

definition pipe_ready :: "addr \<Rightarrow> kernel \<Rightarrow> bool" where
  "pipe_ready p k \<longleftrightarrow> unlocked (PipeLock p) k \<and> unlocked PtableLock k \<and> cli_ok k \<and> pipe_ok (k_pipes k p)"

lemma setpipe_setpipe [simp]: "setpipe p f (setpipe p g k) = setpipe p (\<lambda>q. f (g q)) k"
  by (simp add: setpipe_def)

lemma setpipe_const: "setpipe p f k = setpipe p (\<lambda>_. f (k_pipes k p)) k"
  by (simp add: setpipe_def)

lemma setpipe_self: "setpipe p (\<lambda>_. k_pipes k p) k = k"
  by (simp add: setpipe_def)

lemma pipewrite_byte_room:
  assumes "pipe_ok (k_pipes k p)" and "length (contents (k_pipes k p)) < 512"
  shows "pipewrite_byte es p c k = Ret (Some es) (setpipe p (pipe_put p c) k)"
  using full_iff [OF assms(1)] assms(2) by (cases es) (simp_all add: pipewrite_try_def)

lemma pipewrite_loop_room:
  assumes "pipe_ok (k_pipes k p)" and "length (contents (k_pipes k p)) + length bs \<le> 512"
  shows "\<exists>q. pipewrite_loop bs p es k = Ret True (setpipe p (\<lambda>_. q) k) \<and> pipe_ok q \<and>
     contents q = contents (k_pipes k p) @ bs"
  using assms
proof (induction bs arbitrary: k)
  case Nil
  then show ?case by (intro exI [of _ "k_pipes k p"]) (simp add: setpipe_self)
next
  case (Cons b bs)
  let ?k = "setpipe p (pipe_put p b) k"
  have P: "pipe_ok (k_pipes ?k p)" "contents (k_pipes ?k p) = contents (k_pipes k p) @ [b]"
    using put_contents [of "k_pipes k p" p b] Cons.prems by simp_all
  obtain q where "pipewrite_loop bs p es ?k = Ret True (setpipe p (\<lambda>_. q) ?k)" "pipe_ok q"
    "contents q = contents (k_pipes ?k p) @ bs"
    using Cons.IH [OF P(1)] P(2) Cons.prems by auto
  with P(2) show ?case using pipewrite_byte_room [of k p es b] Cons.prems by auto
qed

lemma piperead_copy_eq:
  assumes "pipe_ok (k_pipes k p)"
  shows "\<exists>q. piperead_copy n p k = Ret (take n (contents (k_pipes k p))) (setpipe p (\<lambda>_. q) k) \<and> pipe_ok q \<and>
     contents q = drop n (contents (k_pipes k p)) \<and> pi_writeopen q = pi_writeopen (k_pipes k p) \<and> pi_readopen q = pi_readopen (k_pipes k p)"
  using assms
proof (induction n arbitrary: k)
  case 0
  then show ?case by (intro exI [of _ "k_pipes k p"]) (simp add: setpipe_self)
next
  case (Suc n)
  let ?q = "k_pipes k p" and ?k = "setpipe p (\<lambda>q. q\<lparr>pi_nread := pi_nread q + 1\<rparr>) k"
  show ?case
  proof (cases "contents ?q = []")
    case True
    then have "pi_nread ?q = pi_nwrite ?q" by (simp add: empty_iff)
    with True Suc.prems show ?thesis by (intro exI [of _ ?q]) (simp add: setpipe_self)
  next
    case False
    then have ne: "pi_nread ?q \<noteq> pi_nwrite ?q" by (simp add: empty_iff)
    have G: "contents ?q = pi_data ?q ! unat (pi_nread ?q mod PIPESIZE) # contents (k_pipes ?k p)" "pipe_ok (k_pipes ?k p)"
      using get_contents [OF Suc.prems False] by simp_all
    obtain q where "piperead_copy n p ?k = Ret (take n (contents (k_pipes ?k p))) (setpipe p (\<lambda>_. q) ?k)" "pipe_ok q"
      "contents q = drop n (contents (k_pipes ?k p))" "pi_writeopen q = pi_writeopen ?q" "pi_readopen q = pi_readopen ?q"
      using Suc.IH [OF G(2)] by auto
    then show ?thesis using ne unfolding G(1) by (intro exI [of _ q]) simp
  qed
qed

lemma pipewrite_room:
  assumes "pipe_ready p k" and "length (contents (k_pipes k p)) + length bs \<le> 512"
  shows "\<exists>k'. pipewrite p bs (int (length bs)) es k = Ret (int (length bs)) k' \<and> pipe_ready p k' \<and>
     contents (k_pipes k' p) = contents (k_pipes k p) @ bs"
proof -
  have r: "unlocked (PipeLock p) k" "unlocked PtableLock k" "cli_ok k" "pipe_ok (k_pipes k p)"
    using assms(1) by (simp_all add: pipe_ready_def)
  obtain q where q: "pipewrite_loop bs p es (enter (PipeLock p) k) = Ret True (setpipe p (\<lambda>_. q) (enter (PipeLock p) k))"
    "pipe_ok q" "contents q = contents (k_pipes k p) @ bs"
    using pipewrite_loop_room [of "enter (PipeLock p) k" p bs es] r assms(2) by auto
  have n: "1 \<le> c_ncli (k_cpu k) + 1" using r(3) by (simp add: cli_ok_def)
  show ?thesis using r q n by (auto simp: pipewrite_def pipe_ready_def)
qed

lemma piperead_data:
  assumes "pipe_ready p k" and "contents (k_pipes k p) \<noteq> [] \<or> pi_writeopen (k_pipes k p) = 0"
  shows "\<exists>k'. piperead p n es k = Ret (int (min (nat n) (length (contents (k_pipes k p)))), take (nat n) (contents (k_pipes k p))) k' \<and>
     pipe_ready p k' \<and> contents (k_pipes k' p) = drop (nat n) (contents (k_pipes k p))"
proof -
  have r: "unlocked (PipeLock p) k" "unlocked PtableLock k" "cli_ok k" "pipe_ok (k_pipes k p)"
    using assms(1) by (simp_all add: pipe_ready_def)
  let ?k = "enter (PipeLock p) k"
  have w: "piperead_wait es p ?k = Ret True ?k"
    using assms(2) empty_iff [of "k_pipes k p"] by (cases es) (auto simp: piperead_try_def)
  obtain q where q: "piperead_copy (nat n) p ?k = Ret (take (nat n) (contents (k_pipes k p))) (setpipe p (\<lambda>_. q) ?k)"
    "pipe_ok q" "contents q = drop (nat n) (contents (k_pipes k p))"
    using piperead_copy_eq [of ?k p "nat n"] r by auto
  have m: "1 \<le> c_ncli (k_cpu k) + 1" using r(3) by (simp add: cli_ok_def)
  show ?thesis using r w q m by (auto simp: piperead_def pipe_ready_def min.commute)
qed

section \<open>Properties\<close>

text \<open>C22. A pipe is a first-in first-out queue of bytes. When there is room, \<open>pipewrite\<close> appends
  its bytes; when there is something to read or no writer is left, \<open>piperead\<close> returns the oldest bytes,
  at most as many as asked for, and leaves the rest. So what was written comes out in order, however
  often the 32-bit counters have wrapped around.\<close>

theorem pipe_fifo:
  assumes "pipe_ready p k" and "length (contents (k_pipes k p)) + length bs \<le> 512" and "bs \<noteq> []"
  shows "\<exists>k1 k2. pipewrite p bs (int (length bs)) es k = Ret (int (length bs)) k1 \<and>
     piperead p n es' k1 = Ret (int (length (take (nat n) (contents (k_pipes k p) @ bs))),
       take (nat n) (contents (k_pipes k p) @ bs)) k2 \<and>
     contents (k_pipes k2 p) = drop (nat n) (contents (k_pipes k p) @ bs)"
proof -
  obtain k1 where k1: "pipewrite p bs (int (length bs)) es k = Ret (int (length bs)) k1" "pipe_ready p k1"
    "contents (k_pipes k1 p) = contents (k_pipes k p) @ bs"
    using pipewrite_room [OF assms(1,2)] by blast
  obtain k2 where "piperead p n es' k1 = Ret (int (min (nat n) (length (contents (k_pipes k1 p)))),
      take (nat n) (contents (k_pipes k1 p))) k2" "contents (k_pipes k2 p) = drop (nat n) (contents (k_pipes k1 p))"
    using piperead_data [OF k1(2)] k1(3) assms(3) by fastforce
  with k1 show ?thesis by (auto simp: min.commute)
qed

text \<open>C23. The ends of a pipe. A full pipe whose readers are gone makes \<open>pipewrite\<close> return -1 and
  keeps its contents; an empty pipe whose writers are gone makes \<open>piperead\<close> return 0 at once.\<close>

theorem pipe_closed_ends:
  assumes "pipe_ready p k"
  shows "(length (contents (k_pipes k p)) = 512 \<and> pi_readopen (k_pipes k p) = 0 \<longrightarrow>
       (\<exists>k'. pipewrite p (b # bs) (int (length bs) + 1) es k = Ret (- 1) k' \<and> contents (k_pipes k' p) = contents (k_pipes k p))) \<and>
     (contents (k_pipes k p) = [] \<and> pi_writeopen (k_pipes k p) = 0 \<longrightarrow> (\<exists>k'. piperead p n es k = Ret (0, []) k'))"
proof (intro conjI impI)
  have r: "unlocked (PipeLock p) k" "unlocked PtableLock k" "cli_ok k" "pipe_ok (k_pipes k p)"
    using assms by (simp_all add: pipe_ready_def)
  have m: "1 \<le> c_ncli (k_cpu k) + 1" using r(3) by (simp add: cli_ok_def)
  assume f: "length (contents (k_pipes k p)) = 512 \<and> pi_readopen (k_pipes k p) = 0"
  have "pipewrite_byte es p b (enter (PipeLock p) k) = Ret None (touch k)"
    using f full_iff [OF r(4)] r m by (cases es) (simp_all add: pipewrite_try_def)
  moreover have "take (nat (int (length bs) + 1)) (b # bs) = b # bs" by (simp add: nat_add_distrib)
  ultimately show "\<exists>k'. pipewrite p (b # bs) (int (length bs) + 1) es k = Ret (- 1) k' \<and> contents (k_pipes k' p) = contents (k_pipes k p)"
    using r(1) by (simp add: pipewrite_def)
next
  assume "contents (k_pipes k p) = [] \<and> pi_writeopen (k_pipes k p) = 0"
  then show "\<exists>k'. piperead p n es k = Ret (0, []) k'" using piperead_data [OF assms] by fastforce
qed

definition demo_pipe :: kernel where
  "demo_pipe = (demo_kernel [demo_proc 3])\<lparr>k_pipes := (\<lambda>_. \<lparr>pi_data = replicate 512 0, pi_nread = - 1, pi_nwrite = - 1,
     pi_readopen = 1, pi_writeopen = 0\<rparr>)\<rparr>"

lemma demo_pipe_ready: "pipe_ready p demo_pipe" "contents (k_pipes demo_pipe p) = []"
  by (simp_all add: pipe_ready_def demo_pipe_def demo_kernel_def demo_cpu_def cli_ok_def pipe_ok_def contents_def)

theorem pipe_fifo_witness:
  "\<exists>k1 k2. pipewrite 64 [1, 2, 3] 3 [] demo_pipe = Ret 3 k1 \<and> piperead 64 2 [] k1 = Ret (2, [1, 2]) k2 \<and>
     contents (k_pipes k2 64) = [3]"
  using pipe_fifo [OF demo_pipe_ready(1), of 64 "[1, 2, 3]" "[]" 2 "[]"] demo_pipe_ready(2) by simp

theorem pipe_closed_ends_witness: "\<exists>k'. piperead 64 5 [] demo_pipe = Ret (0, []) k'"
  using pipe_closed_ends [OF demo_pipe_ready(1), of 64 0 "[]" "[]" 5] demo_pipe_ready(2)
  by (simp add: demo_pipe_def)

end
