(* ===== verification/File.thy ===== *)
theory File
  imports Fs Pipe
begin

text \<open>
  Open files (\<^verbatim>\<open>kernel/file.c\<close>) and the creation of pipes (\<^verbatim>\<open>pipealloc\<close> of
  \<^verbatim>\<open>kernel/pipe.c\<close>). A file pointer is an index of \<open>k_ftable\<close> (\<^verbatim>\<open>ftable.file\<close>).
\<close>

definition fileinit :: "unit K" where
  "fileinit = initlock FtableLock"

definition filealloc :: "nat option K" where
  "filealloc = thenP (acquire FtableLock)
    (bindP (reads (\<lambda>k. first_idx (\<lambda>f. f_ref f = 0) (k_ftable k))) (\<lambda>r.
     case r of
       Some f \<Rightarrow> thenP (modify (setfile f (\<lambda>x. x\<lparr>f_ref := 1\<rparr>)))
                (thenP (release FtableLock) (ret (Some f)))
     | None \<Rightarrow> thenP (release FtableLock) (ret None)))"

definition filedup :: "nat \<Rightarrow> nat K" where
  "filedup f = thenP (acquire FtableLock)
    (bindP (reads (\<lambda>k. k_ftable k ! f)) (\<lambda>x.
     if f_ref x < 1 then panic ''filedup'' else
     thenP (modify (setfile f (\<lambda>x. x\<lparr>f_ref := f_ref x + 1\<rparr>)))
    (thenP (release FtableLock) (ret f))))"

definition fileclose :: "nat \<Rightarrow> unit K" where
  "fileclose f = thenP (acquire FtableLock)
    (bindP (reads (\<lambda>k. k_ftable k ! f)) (\<lambda>x.
     if f_ref x < 1 then panic ''fileclose'' else
     thenP (modify (setfile f (\<lambda>x. x\<lparr>f_ref := f_ref x - 1\<rparr>)))
    (if f_ref x - 1 > 0 then release FtableLock else
     bindP (reads (\<lambda>k. k_ftable k ! f)) (\<lambda>ff.
     thenP (modify (setfile f (\<lambda>x. x\<lparr>f_ref := 0, f_type := FD_NONE\<rparr>)))
    (thenP (release FtableLock)
    (case f_type ff of
       FD_PIPE \<Rightarrow> pipeclose (f_pipe ff) (f_writable ff \<noteq> 0)
     | FD_INODE \<Rightarrow> iput (f_ip ff)
     | FD_NONE \<Rightarrow> ret ()))))))"

definition filestat :: "nat \<Rightarrow> (int \<times> stat option) K" where
  "filestat f = bindP (reads (\<lambda>k. k_ftable k ! f)) (\<lambda>x.
     if f_type x = FD_INODE then
       thenP (ilock (f_ip x))
      (bindP (stati (f_ip x)) (\<lambda>st.
       thenP (iunlock (f_ip x)) (ret (0, Some st))))
     else ret (- 1, None))"

definition fileread :: "env list \<Rightarrow> nat \<Rightarrow> int \<Rightarrow> (int \<times> u8 list) K" where
  "fileread es f n = bindP (reads (\<lambda>k. k_ftable k ! f)) (\<lambda>x.
     if f_readable x = 0 then ret (- 1, []) else
     case f_type x of
       FD_PIPE \<Rightarrow> piperead (f_pipe x) n es
     | FD_INODE \<Rightarrow>
         thenP (ilock (f_ip x))
        (bindP (readi es (f_ip x) (f_off x) (word_of_int n)) (\<lambda>(r, bs).
         thenP (whenP (r > 0) (modify (setfile f (\<lambda>x. x\<lparr>f_off := f_off x + word_of_int r\<rparr>))))
        (thenP (iunlock (f_ip x)) (ret (r, bs)))))
     | FD_NONE \<Rightarrow> panic ''fileread'')"

definition filewrite :: "env list \<Rightarrow> nat \<Rightarrow> u8 list \<Rightarrow> int \<Rightarrow> int K" where
  "filewrite es f bs n = bindP (reads (\<lambda>k. k_ftable k ! f)) (\<lambda>x.
     if f_writable x = 0 then ret (- 1) else
     case f_type x of
       FD_PIPE \<Rightarrow> pipewrite (f_pipe x) bs n es
     | FD_INODE \<Rightarrow>
         thenP (ilock (f_ip x))
        (bindP (writei (f_ip x) bs (f_off x) (word_of_int n)) (\<lambda>r.
         thenP (whenP (r > 0) (modify (setfile f (\<lambda>x. x\<lparr>f_off := f_off x + word_of_int r\<rparr>))))
        (thenP (iunlock (f_ip x)) (ret r))))
     | FD_NONE \<Rightarrow> panic ''filewrite'')"

definition pipealloc_bad :: "nat option \<Rightarrow> nat option \<Rightarrow> (nat \<times> nat) option K" where
  "pipealloc_bad f0 f1 =
     thenP (case f0 of Some f \<Rightarrow> fileclose f | None \<Rightarrow> ret ())
    (thenP (case f1 of Some f \<Rightarrow> fileclose f | None \<Rightarrow> ret ())
    (ret None))"

text \<open>\<open>None\<close> stands for the result -1.\<close>

definition pipealloc :: "(nat \<times> nat) option K" where
  "pipealloc = bindP filealloc (\<lambda>f0.
     case f0 of None \<Rightarrow> pipealloc_bad None None | Some a \<Rightarrow>
     bindP filealloc (\<lambda>f1.
     case f1 of None \<Rightarrow> pipealloc_bad (Some a) None | Some b \<Rightarrow>
     bindP kalloc (\<lambda>p.
     if p = 0 then pipealloc_bad (Some a) (Some b) else
     thenP (modify (setpipe p (\<lambda>q. q\<lparr>pi_readopen := 1, pi_writeopen := 1, pi_nwrite := 0, pi_nread := 0\<rparr>)))
    (thenP (initlock (PipeLock p))
    (thenP (modify (setfile a (\<lambda>x. x\<lparr>f_type := FD_PIPE, f_readable := 1, f_writable := 0, f_pipe := p\<rparr>)))
    (thenP (modify (setfile b (\<lambda>x. x\<lparr>f_type := FD_PIPE, f_readable := 0, f_writable := 1, f_pipe := p\<rparr>)))
    (ret (Some (a, b)))))))))"

end
