(* ===== verification/Proc.thy ===== *)
theory Proc
  imports File Vm
begin

text \<open>
  Creation, exit and scheduling of processes and threads (\<^verbatim>\<open>kernel/proc.c\<close>; sleeping, waking,
  parking and killing are in \<open>Sched\<close>). The addresses of \<^verbatim>\<open>trapret\<close> and \<^verbatim>\<open>forkret\<close> are
  given by the linker and are arguments. A process pointer is an index of \<open>k_ptable\<close>.
\<close>

record symbols =
  sym_trapret :: addr
  sym_forkret :: addr

definition pinit :: "unit K" where
  "pinit = initlock PtableLock"

section \<open>Allocation\<close>

definition zero_context :: kcontext where
  "zero_context = \<lparr>ctx_edi = 0, ctx_esi = 0, ctx_ebx = 0, ctx_ebp = 0, ctx_eip = 0\<rparr>"

definition allocproc :: "symbols \<Rightarrow> nat option K" where
  "allocproc sy = thenP (acquire PtableLock)
    (bindP (reads (\<lambda>k. first_idx (\<lambda>p. p_state p = UNUSED) (k_ptable k))) (\<lambda>r.
     case r of
       None \<Rightarrow> thenP (release PtableLock) (ret None)
     | Some p \<Rightarrow>
         thenP (modify (\<lambda>k. setproc p (\<lambda>x. x\<lparr>p_state := EMBRYO, p_pid := k_nextpid k\<rparr>) (k\<lparr>k_nextpid := int32 (k_nextpid k + 1)\<rparr>)))
        (thenP (release PtableLock)
        (bindP kalloc (\<lambda>ks.
         thenP (modify (setproc p (\<lambda>x. x\<lparr>p_kstack := ks\<rparr>)))
        (if ks = 0 then thenP (modify (setproc p (\<lambda>x. x\<lparr>p_state := UNUSED\<rparr>))) (ret None) else
         let sp = ks + KSTACKSIZE; tf = sp - 76; rp = tf - 4; cx = rp - 20 in
         thenP (modify (setproc p (\<lambda>x. x\<lparr>p_tf := tf\<rparr>)))
        (thenP (putword rp (sym_trapret sy))
        (thenP (modify (setproc p (\<lambda>x. x\<lparr>p_context := cx\<rparr>)))
        (thenP (modify (\<lambda>k. k\<lparr>k_contexts := (k_contexts k)(cx := zero_context\<lparr>ctx_eip := sym_forkret sy\<rparr>)\<rparr>))
        (ret (Some p)))))))))))"

definition zero_tf :: trapframe where
  "zero_tf = \<lparr>tf_edi = 0, tf_esi = 0, tf_ebp = 0, tf_oesp = 0, tf_ebx = 0, tf_edx = 0, tf_ecx = 0, tf_eax = 0,
     tf_gs = 0, tf_fs = 0, tf_es = 0, tf_ds = 0, tf_trapno = 0, tf_err = 0, tf_eip = 0, tf_cs = 0, tf_eflags = 0, tf_esp = 0, tf_ss = 0\<rparr>"

definition UCODE_SEL :: u16 where [simp]: "UCODE_SEL = 0x23"
definition UDATA_SEL :: u16 where [simp]: "UDATA_SEL = 0x2b"
definition FL_IF :: u32 where [simp]: "FL_IF = 0x200"

definition userinit :: "symbols \<Rightarrow> u8 list \<Rightarrow> unit K" where
  "userinit sy initcode = bindP (allocproc sy) (\<lambda>r.
     case r of None \<Rightarrow> fault ''userinit: null process'' | Some p \<Rightarrow>
     thenP (acquire PtableLock)
    (thenP (modify (\<lambda>k. k\<lparr>k_initproc := Some p\<rparr>))
    (bindP setupkvm (\<lambda>d.
     thenP (modify (setproc p (\<lambda>x. x\<lparr>p_pgdir := d\<rparr>)))
    (if d = 0 then panic ''userinit: out of memory?'' else
     thenP (inituvm d initcode)
    (thenP (modify (setproc p (\<lambda>x. x\<lparr>p_sz := PGSIZE\<rparr>)))
    (bindP (reads (\<lambda>k. p_tf (getproc p k))) (\<lambda>tf.
     thenP (modify (set_tframe tf (\<lambda>_. zero_tf\<lparr>tf_cs := UCODE_SEL, tf_ds := UDATA_SEL, tf_es := UDATA_SEL, tf_ss := UDATA_SEL,
       tf_eflags := FL_IF, tf_esp := PGSIZE, tf_eip := 0\<rparr>)))
    (thenP (modify (setproc p (\<lambda>x. x\<lparr>p_name := bytes ''initcode''\<rparr>)))
    (bindP (namei (bytes ''/'')) (\<lambda>ip.
     thenP (modify (setproc p (\<lambda>x. x\<lparr>p_cwd := ip\<rparr>)))
    (thenP (modify (setproc p (\<lambda>x. x\<lparr>p_state := RUNNABLE\<rparr>)))
    (release PtableLock)))))))))))))"

section \<open>Growing\<close>

text \<open>What the loop of \<^verbatim>\<open>growproc\<close> does to entry \<open>i\<close> of the table; \<open>me\<close> is the caller.\<close>

definition growproc_entry :: "nat \<Rightarrow> proc \<Rightarrow> u32 \<Rightarrow> nat \<Rightarrow> proc \<Rightarrow> proc" where
  "growproc_entry me cur sz i p =
    (let p1 = (if p_parent p = Some me \<and> p_isThread p = 1 then p\<lparr>p_sz := sz\<rparr> else p);
         p2 = (if p_isThread cur = 1 \<and> p_parent cur = Some i then p1\<lparr>p_sz := sz\<rparr> else p1)
     in if p_parent p2 = p_parent cur \<and> p_isThread p2 = 1 then p2\<lparr>p_sz := sz\<rparr> else p2)"

definition growproc :: "int \<Rightarrow> int K" where
  "growproc n = thenP (acquire PtableLock)
    (bindP curproc (\<lambda>me.
     bindP (reads (getproc me)) (\<lambda>cur.
     bindP (if n > 0 then allocuvm (p_pgdir cur) (p_sz cur) (p_sz cur + word_of_int n)
            else if n < 0 then deallocuvm (p_pgdir cur) (p_sz cur) (p_sz cur + word_of_int n)
            else ret (p_sz cur)) (\<lambda>sz.
     if n \<noteq> 0 \<and> sz = 0 then thenP (release PtableLock) (ret (- 1)) else
     thenP (modify (setproc me (\<lambda>x. x\<lparr>p_sz := sz\<rparr>)))
    (thenP (modify (\<lambda>k. k\<lparr>k_ptable := map (\<lambda>(i, p). growproc_entry me cur sz i p) (enumerate 0 (k_ptable k))\<rparr>))
    (thenP (release PtableLock)
    (thenP (switchuvm me)
    (ret 0))))))))"

section \<open>Fork and clone\<close>

definition copy_files :: "nat \<Rightarrow> nat \<Rightarrow> unit K" where
  "copy_files me np = forP [0..<NOFILE] (\<lambda>i.
     bindP (reads (\<lambda>k. p_ofile (getproc me k) ! i)) (\<lambda>fo.
     case fo of
       None \<Rightarrow> ret ()
     | Some f \<Rightarrow> bindP (filedup f) (\<lambda>f'. modify (setproc np (\<lambda>x. x\<lparr>p_ofile := (p_ofile x)[i := Some f']\<rparr>)))))"

definition copy_cwd :: "nat \<Rightarrow> nat \<Rightarrow> unit K" where
  "copy_cwd me np = bindP (reads (\<lambda>k. p_cwd (getproc me k))) (\<lambda>cwd.
     case cwd of None \<Rightarrow> fault ''proc->cwd'' | Some ip \<Rightarrow>
     bindP (idup ip) (\<lambda>ip'. modify (setproc np (\<lambda>x. x\<lparr>p_cwd := Some ip'\<rparr>))))"

definition copy_tf :: "nat \<Rightarrow> nat \<Rightarrow> unit K" where
  "copy_tf me np = modify (\<lambda>k. set_tframe (p_tf (getproc np k)) (\<lambda>_. k_tframes k (p_tf (getproc me k))) k)"

definition free_kstack :: "nat \<Rightarrow> unit K" where
  "free_kstack np = bindP (reads (\<lambda>k. p_kstack (getproc np k))) (\<lambda>ks.
     thenP (kfree ks)
    (thenP (modify (setproc np (\<lambda>x. x\<lparr>p_kstack := 0\<rparr>)))
    (modify (setproc np (\<lambda>x. x\<lparr>p_state := UNUSED\<rparr>)))))"

definition fork :: "symbols \<Rightarrow> int K" where
  "fork sy = bindP (allocproc sy) (\<lambda>r.
     case r of None \<Rightarrow> ret (- 1) | Some np \<Rightarrow>
     bindP curproc (\<lambda>me.
     bindP (reads (getproc me)) (\<lambda>cur.
     bindP (copyuvm (p_pgdir cur) (p_sz cur)) (\<lambda>d.
     thenP (modify (setproc np (\<lambda>x. x\<lparr>p_pgdir := d\<rparr>)))
    (if d = 0 then thenP (free_kstack np) (ret (- 1)) else
     thenP (modify (setproc np (\<lambda>x. x\<lparr>p_sz := p_sz cur, p_parent := Some me\<rparr>)))
    (thenP (copy_tf me np)
    (thenP (modify (setproc np (\<lambda>x. x\<lparr>p_isThread := 0\<rparr>)))
    (thenP (modify (\<lambda>k. set_tframe (p_tf (getproc np k)) (\<lambda>t. t\<lparr>tf_eax := 0\<rparr>) k))
    (thenP (copy_files me np)
    (thenP (copy_cwd me np)
    (bindP (reads (\<lambda>k. p_pid (getproc np k))) (\<lambda>pid.
     thenP (modify (setproc np (\<lambda>x. x\<lparr>p_state := RUNNABLE\<rparr>)))
    (thenP (modify (setproc np (\<lambda>x. x\<lparr>p_name := p_name cur\<rparr>)))
    (ret pid))))))))))))))"

definition clone :: "symbols \<Rightarrow> addr \<Rightarrow> u32 \<Rightarrow> addr \<Rightarrow> int K" where
  "clone sy fn arg ustack = bindP (allocproc sy) (\<lambda>r.
     case r of None \<Rightarrow> ret (- 1) | Some np \<Rightarrow>
     bindP curproc (\<lambda>me.
     bindP (reads (getproc me)) (\<lambda>cur.
     thenP (modify (setproc np (\<lambda>x. x\<lparr>p_isThread := 1\<rparr>)))
    (thenP (modify (setproc np (\<lambda>x. x\<lparr>p_pgdir := p_pgdir cur, p_sz := p_sz cur, p_parent := Some me\<rparr>)))
    (thenP (copy_tf me np)
    (thenP (copy_files me np)
    (thenP (copy_cwd me np)
    (let sp = ustack + 4096 - 12; nustack = enc32 0xffffffff @ enc32 arg @ enc32 0 in
     bindP (copyout (p_pgdir cur) sp nustack) (\<lambda>c.
     if c < 0 then thenP (free_kstack np) (ret (- 1)) else
     thenP (modify (\<lambda>k. set_tframe (p_tf (getproc np k)) (\<lambda>t. t\<lparr>tf_eip := fn, tf_esp := sp\<rparr>) k))
    (thenP (modify (setproc np (\<lambda>x. x\<lparr>p_bsp := ustack\<rparr>)))
    (bindP (reads (\<lambda>k. p_pid (getproc np k))) (\<lambda>pid.
     thenP (modify (setproc np (\<lambda>x. x\<lparr>p_state := RUNNABLE\<rparr>)))
    (thenP (modify (setproc np (\<lambda>x. x\<lparr>p_name := p_name cur\<rparr>)))
    (ret pid))))))))))))))"

section \<open>Exit, wait and join\<close>

definition close_files :: "nat \<Rightarrow> unit K" where
  "close_files me = forP [0..<NOFILE] (\<lambda>fd.
     bindP (reads (\<lambda>k. p_ofile (getproc me k) ! fd)) (\<lambda>fo.
     case fo of
       None \<Rightarrow> ret ()
     | Some f \<Rightarrow> thenP (fileclose f) (modify (setproc me (\<lambda>x. x\<lparr>p_ofile := (p_ofile x)[fd := None]\<rparr>)))))"

definition proc_chan :: "nat option \<Rightarrow> chan" where
  "proc_chan p = (case p of None \<Rightarrow> NoChan | Some i \<Rightarrow> ProcChan i)"

definition abandon :: "nat \<Rightarrow> nat \<Rightarrow> unit K" where
  "abandon me i = bindP (reads (\<lambda>k. (getproc i k, k_initproc k))) (\<lambda>(p, ini).
     whenP (p_parent p = Some me)
       (thenP (modify (setproc i (\<lambda>x. x\<lparr>p_parent := ini\<rparr>)))
              (whenP (p_state p = ZOMBIE) (wakeup1 (proc_chan ini)))))"

text \<open>\<open>e\<close> says what happens after the last switch to the scheduler; a process that is resumed
  panics.\<close>

definition exit :: "env option \<Rightarrow> unit K" where
  "exit e = bindP curproc (\<lambda>me.
     bindP (reads k_initproc) (\<lambda>ini.
     if ini = Some me then panic ''init exiting'' else
     thenP (close_files me)
    (bindP (reads (\<lambda>k. p_cwd (getproc me k))) (\<lambda>cwd.
     case cwd of None \<Rightarrow> fault ''proc->cwd'' | Some ip \<Rightarrow>
     thenP (iput ip)
    (thenP (modify (setproc me (\<lambda>x. x\<lparr>p_cwd := None\<rparr>)))
    (thenP (acquire PtableLock)
    (bindP (reads (\<lambda>k. p_parent (getproc me k))) (\<lambda>par.
     thenP (wakeup1 (proc_chan par))
    (bindP (reads (\<lambda>k. length (k_ptable k))) (\<lambda>n.
     thenP (forP [0..<n] (abandon me))
    (thenP (modify (setproc me (\<lambda>x. x\<lparr>p_state := ZOMBIE\<rparr>)))
    (thenP (sched e)
    (panic ''zombie exit'')))))))))))))"

definition reset_proc :: "proc \<Rightarrow> proc" where
  "reset_proc x = x\<lparr>p_state := UNUSED, p_pid := 0, p_parent := None, p_name := [], p_killed := 0\<rparr>"

text \<open>One pass over the table: \<open>Some pid\<close> is returned, \<open>None\<close> goes on to sleep. \<open>block\<close> is what
  follows the pass when the caller has to wait.\<close>

definition wait_scan :: "int K \<Rightarrow> int K" where
  "wait_scan block = bindP curproc (\<lambda>me.
     bindP (reads k_ptable) (\<lambda>ps.
     case first_idx (\<lambda>p. p_parent p = Some me \<and> p_state p = ZOMBIE \<and> p_isThread p = 0) ps of
       Some i \<Rightarrow>
         thenP (kfree (p_kstack (ps ! i)))
        (thenP (modify (setproc i (\<lambda>x. x\<lparr>p_kstack := 0\<rparr>)))
        (thenP (freevm (p_pgdir (ps ! i)))
        (thenP (modify (setproc i reset_proc))
        (thenP (release PtableLock)
        (ret (p_pid (ps ! i)))))))
     | None \<Rightarrow>
         if first_idx (\<lambda>p. p_parent p = Some me) ps = None \<or> p_killed (ps ! me) \<noteq> 0
         then thenP (release PtableLock) (ret (- 1))
         else block))"

primrec wait_loop :: "env list \<Rightarrow> int K" where
  "wait_loop [] = wait_scan (bindP curproc (\<lambda>me. thenP (sleep (ProcChan me) PtableLock None) switch))"
| "wait_loop (e # es) = wait_scan (bindP curproc (\<lambda>me. thenP (sleep (ProcChan me) PtableLock (Some e)) (wait_loop es)))"

definition wait :: "env list \<Rightarrow> int K" where
  "wait es = thenP (acquire PtableLock) (wait_loop es)"

text \<open>\<open>ustack\<close> is the kernel's copy of the pointer \<^verbatim>\<open>*ustack\<close> to store to.\<close>

definition join_scan :: "addr \<Rightarrow> int K \<Rightarrow> int K" where
  "join_scan ustack block = bindP curproc (\<lambda>me.
     bindP (reads k_ptable) (\<lambda>ps.
     case first_idx (\<lambda>p. p_parent p = Some me \<and> p_isThread p \<noteq> 0 \<and> p_state p = ZOMBIE \<and> p_isThread p = 1) ps of
       Some i \<Rightarrow>
         thenP (kfree (p_kstack (ps ! i)))
        (thenP (modify (setproc i (\<lambda>x. x\<lparr>p_kstack := 0\<rparr>)))
        (thenP (modify (setproc i reset_proc))
        (thenP (ustore32 ustack (p_bsp (ps ! i)))
        (thenP (release PtableLock)
        (ret (p_pid (ps ! i)))))))
     | None \<Rightarrow>
         if first_idx (\<lambda>p. p_parent p = Some me \<and> p_isThread p \<noteq> 0) ps = None \<or> p_killed (ps ! me) \<noteq> 0
         then thenP (release PtableLock) (ret (- 1))
         else block))"

primrec join_loop :: "env list \<Rightarrow> addr \<Rightarrow> int K" where
  "join_loop [] ustack = join_scan ustack (bindP curproc (\<lambda>me. thenP (sleep (ProcChan me) PtableLock None) switch))"
| "join_loop (e # es) ustack = join_scan ustack
     (bindP curproc (\<lambda>me. thenP (sleep (ProcChan me) PtableLock (Some e)) (join_loop es ustack)))"

definition join :: "addr \<Rightarrow> env list \<Rightarrow> int K" where
  "join ustack es = thenP (acquire PtableLock) (join_loop es ustack)"

section \<open>The scheduler\<close>

text \<open>
  One round of the scheduler; \<open>run p\<close> is what happens between the \<^verbatim>\<open>swtch\<close> to process \<open>p\<close> and
  the \<^verbatim>\<open>swtch\<close> back.
\<close>

definition sched_one :: "(nat \<Rightarrow> env) \<Rightarrow> nat \<Rightarrow> unit K" where
  "sched_one run p = bindP (reads (\<lambda>k. p_state (getproc p k))) (\<lambda>st.
     whenP (st = RUNNABLE)
       (thenP (modify (setcpu (\<lambda>c. c\<lparr>c_proc := Some p\<rparr>)))
       (thenP (switchuvm p)
       (thenP (modify (setproc p (\<lambda>x. x\<lparr>p_state := RUNNING\<rparr>)))
       (thenP (modify (run p))
       (thenP switchkvm
       (modify (setcpu (\<lambda>c. c\<lparr>c_proc := None\<rparr>)))))))))"

definition scheduler_round :: "(nat \<Rightarrow> env) \<Rightarrow> unit K" where
  "scheduler_round run = thenP sti
    (thenP (acquire PtableLock)
    (bindP (reads (\<lambda>k. length (k_ptable k))) (\<lambda>n.
     thenP (forP [0..<n] (sched_one run))
    (release PtableLock))))"

primrec scheduler :: "(nat \<Rightarrow> env) list \<Rightarrow> unit K" where
  "scheduler [] = spin"
| "scheduler (run # rs) = thenP (scheduler_round run) (scheduler rs)"

end
