(* ===== verification/Exec.thy ===== *)
theory Exec
  imports Proc
begin

text \<open>
  Program loading (\<^verbatim>\<open>kernel/exec.c\<close>, \<^verbatim>\<open>kernel/elf.h\<close>). The arguments are given as strings,
  without their terminating zeros. The result of a file read is compared with the size of the header as
  unsigned numbers, as in the code: a failed read, -1, passes the test, and the header is then
  used without having been read (the outcome \<open>Fault\<close>).
\<close>

section \<open>ELF headers\<close>

definition ELF_MAGIC :: u32 where [simp]: "ELF_MAGIC = 0x464C457F"
definition ELF_PROG_LOAD :: u32 where [simp]: "ELF_PROG_LOAD = 1"

record elfhdr =
  e_magic :: u32
  e_entry :: u32
  e_phoff :: u32
  e_phnum :: u16

definition dec_elfhdr :: "u8 list \<Rightarrow> elfhdr" where
  "dec_elfhdr bs = \<lparr>e_magic = get32 bs 0, e_entry = get32 bs 24, e_phoff = get32 bs 28, e_phnum = get16 bs 44\<rparr>"

record proghdr =
  ph_type :: u32
  ph_offset :: u32
  ph_va :: u32
  ph_filesz :: u32
  ph_memsz :: u32

definition dec_proghdr :: "u8 list \<Rightarrow> proghdr" where
  "dec_proghdr bs = \<lparr>ph_type = get32 bs 0, ph_offset = get32 bs 4, ph_va = get32 bs 8,
     ph_filesz = get32 bs 16, ph_memsz = get32 bs 20\<rparr>"

section \<open>Exec\<close>

definition exec_bad :: "addr \<Rightarrow> nat option \<Rightarrow> int K" where
  "exec_bad pgdir ip =
     thenP (whenP (pgdir \<noteq> 0) (freevm pgdir))
    (thenP (case ip of Some i \<Rightarrow> iunlockput i | None \<Rightarrow> ret ())
    (ret (- 1)))"

text \<open>The loop over the program headers: \<open>None\<close> is the jump to \<^verbatim>\<open>bad\<close>, otherwise the size.\<close>

primrec exec_load :: "nat \<Rightarrow> nat \<Rightarrow> addr \<Rightarrow> u32 \<Rightarrow> u32 \<Rightarrow> u32 option K" where
  "exec_load 0 ip pgdir off sz = ret (Some sz)"
| "exec_load (Suc n) ip pgdir off sz = bindP (readi [] ip off 32) (\<lambda>(r, bs).
     if r \<noteq> 32 then ret None else
     let ph = dec_proghdr bs in
     if ph_type ph \<noteq> ELF_PROG_LOAD then exec_load n ip pgdir (off + 32) sz else
     if ph_memsz ph < ph_filesz ph then ret None else
     bindP (allocuvm pgdir sz (ph_va ph + ph_memsz ph)) (\<lambda>sz'.
     if sz' = 0 then ret None else
     bindP (loaduvm pgdir (ph_va ph) ip (ph_offset ph) (ph_filesz ph)) (\<lambda>l.
     if l < 0 then ret None else exec_load n ip pgdir (off + 32) sz')))"

text \<open>Pushing the argument strings: the new stack pointer and the addresses of the strings, in order.\<close>

primrec exec_args :: "u8 list list \<Rightarrow> nat \<Rightarrow> addr \<Rightarrow> u32 \<Rightarrow> (u32 \<times> u32 list) option K" where
  "exec_args [] argc pgdir sp = ret (Some (sp, []))"
| "exec_args (a # as) argc pgdir sp = (if argc \<ge> MAXARG then ret None else
     let sp' = (sp - (of_nat (length a) + 1)) AND NOT 3 in
     bindP (copyout pgdir sp' (a @ [0])) (\<lambda>c.
     if c < 0 then ret None else
     bindP (exec_args as (argc + 1) pgdir sp') (\<lambda>r.
     ret (map_option (\<lambda>(s, ps). (s, sp' # ps)) r))))"

text \<open>The part of the path after the last slash, and \<^verbatim>\<open>safestrcpy\<close> into 16 bytes.\<close>

definition base_name :: "u8 list \<Rightarrow> u8 list" where
  "base_name path = rev (takeWhile (\<lambda>c. c \<noteq> 47) (rev path))"

definition exec_image :: "u8 list \<Rightarrow> u8 list list \<Rightarrow> addr \<Rightarrow> u32 \<Rightarrow> elfhdr \<Rightarrow> int K" where
  "exec_image path argv pgdir sz0 elf = bindP (allocuvm pgdir (PGROUNDUP sz0) (PGROUNDUP sz0 + PGSIZE)) (\<lambda>sz.
     if sz = 0 then exec_bad pgdir None else
     bindP (exec_args argv 0 pgdir sz) (\<lambda>r.
     case r of None \<Rightarrow> exec_bad pgdir None | Some (sp, ptrs) \<Rightarrow>
     let argc = of_nat (length argv);
         ustack = [0xffffffff, argc, sp - (argc + 1) * 4] @ ptrs @ [0];
         sp' = sp - (3 + argc + 1) * 4 in
     bindP (copyout pgdir sp' (concat (map enc32 ustack))) (\<lambda>c.
     if c < 0 then exec_bad pgdir None else
     bindP curproc (\<lambda>me.
     thenP (modify (setproc me (\<lambda>x. x\<lparr>p_name := take 15 (base_name path)\<rparr>)))
    (bindP (reads (getproc me)) (\<lambda>old.
     thenP (modify (setproc me (\<lambda>x. x\<lparr>p_pgdir := pgdir, p_sz := sz\<rparr>)))
    (thenP (modify (set_tframe (p_tf old) (\<lambda>t. t\<lparr>tf_eip := e_entry elf, tf_esp := sp'\<rparr>)))
    (thenP (switchuvm me)
    (thenP (freevm (p_pgdir old))
    (ret 0))))))))))"

definition exec :: "u8 list \<Rightarrow> u8 list list \<Rightarrow> int K" where
  "exec path argv = bindP (namei path) (\<lambda>r.
     case r of None \<Rightarrow> ret (- 1) | Some ip \<Rightarrow>
     thenP (ilock ip)
    (bindP (readi [] ip 0 52) (\<lambda>(n, bs).
     if (word_of_int n :: u32) < 52 then exec_bad 0 (Some ip) else
     if length bs < 52 then fault ''exec: elf header not read'' else
     let elf = dec_elfhdr bs in
     if e_magic elf \<noteq> ELF_MAGIC then exec_bad 0 (Some ip) else
     bindP setupkvm (\<lambda>pgdir.
     if pgdir = 0 then exec_bad 0 (Some ip) else
     bindP (exec_load (unat (e_phnum elf)) ip pgdir (e_phoff elf) 0) (\<lambda>l.
     case l of None \<Rightarrow> exec_bad pgdir (Some ip) | Some sz \<Rightarrow>
     thenP (iunlockput ip) (exec_image path argv pgdir sz elf))))))"

end
