(* ===== verification/Syscall.thy ===== *)
theory Syscall
  imports Exec
begin

text \<open>
  System call arguments (\<^verbatim>\<open>kernel/syscall.c\<close>) and the process system calls
  (\<^verbatim>\<open>kernel/sysproc.c\<close>). An argument that fails its check is \<open>None\<close>. User memory is read
  through the page table of the current process; a string argument is the list of its bytes.
  \<open>es\<close> is what happens during the sleeps of a call, its first element during the only one.
\<close>

section \<open>Arguments\<close>

definition fetchint :: "nat \<Rightarrow> u32 \<Rightarrow> u32 option K" where
  "fetchint p addr = bindP (reads (\<lambda>k. p_sz (getproc p k))) (\<lambda>sz.
     if addr \<ge> sz \<or> addr + 4 > sz then ret None else
     bindP (uload32 addr) (\<lambda>w. ret (Some w)))"

text \<open>The scan of \<^verbatim>\<open>fetchstr\<close> stops at the end of the process, \<open>n\<close> bytes away.\<close>

primrec fetchstr_loop :: "nat \<Rightarrow> u32 \<Rightarrow> u8 list option K" where
  "fetchstr_loop 0 s = ret None"
| "fetchstr_loop (Suc n) s = bindP (uload8 s) (\<lambda>c.
     if c = 0 then ret (Some []) else
     bindP (fetchstr_loop n (s + 1)) (\<lambda>r. ret (map_option (\<lambda>cs. c # cs) r)))"

definition fetchstr :: "nat \<Rightarrow> u32 \<Rightarrow> u8 list option K" where
  "fetchstr p addr = bindP (reads (\<lambda>k. p_sz (getproc p k))) (\<lambda>sz.
     if addr \<ge> sz then ret None else fetchstr_loop (unat (sz - addr)) addr)"

definition curtf :: "trapframe K" where
  "curtf = bindP (curproc_get p_tf) (\<lambda>a. reads (\<lambda>k. k_tframes k a))"

definition argint :: "nat \<Rightarrow> u32 option K" where
  "argint n = bindP curproc (\<lambda>p. bindP curtf (\<lambda>tf. fetchint p (tf_esp tf + 4 + 4 * of_nat n)))"

definition argptr :: "nat \<Rightarrow> u32 \<Rightarrow> addr option K" where
  "argptr n sz' = bindP (argint n) (\<lambda>r.
     case r of None \<Rightarrow> ret None | Some i \<Rightarrow>
     bindP (curproc_get p_sz) (\<lambda>sz.
     ret (if i \<ge> sz \<or> i + sz' > sz then None else Some i)))"

definition argstr :: "nat \<Rightarrow> u8 list option K" where
  "argstr n = bindP (argint n) (\<lambda>r.
     case r of None \<Rightarrow> ret None | Some addr \<Rightarrow> bindP curproc (\<lambda>p. fetchstr p addr))"

section \<open>Process system calls\<close>

definition orfail :: "'a option K \<Rightarrow> ('a \<Rightarrow> int K) \<Rightarrow> int K" where
  "orfail m f = bindP m (\<lambda>r. case r of None \<Rightarrow> ret (- 1) | Some x \<Rightarrow> f x)"

definition first_env :: "env list \<Rightarrow> env option" where
  "first_env es = (case es of [] \<Rightarrow> None | e # _ \<Rightarrow> Some e)"

definition sys_fork :: "symbols \<Rightarrow> int K" where
  "sys_fork sy = fork sy"

definition sys_exit :: "env list \<Rightarrow> int K" where
  "sys_exit es = thenP (exit (first_env es)) (ret 0)"

definition sys_wait :: "env list \<Rightarrow> int K" where
  "sys_wait es = wait es"

definition sys_kill :: "int K" where
  "sys_kill = orfail (argint 0) (\<lambda>pid. kill (sint pid))"

definition sys_getpid :: "int K" where
  "sys_getpid = curproc_get p_pid"

definition sys_sbrk :: "int K" where
  "sys_sbrk = orfail (argint 0) (\<lambda>n.
     bindP (curproc_get p_sz) (\<lambda>addr.
     bindP (growproc (sint n)) (\<lambda>r. ret (if r < 0 then - 1 else sint addr))))"

definition sleep_try :: "u32 \<Rightarrow> u32 \<Rightarrow> int K \<Rightarrow> int K" where
  "sleep_try ticks0 n block = bindP (reads k_ticks) (\<lambda>t.
     if t - ticks0 < n then
       bindP (curproc_get p_killed) (\<lambda>kd.
       if kd \<noteq> 0 then thenP (release TicksLock) (ret (- 1)) else block)
     else thenP (release TicksLock) (ret 0))"

primrec sleep_loop :: "env list \<Rightarrow> u32 \<Rightarrow> u32 \<Rightarrow> int K" where
  "sleep_loop [] ticks0 n = sleep_try ticks0 n (thenP (sleep TicksChan TicksLock None) switch)"
| "sleep_loop (e # es) ticks0 n = sleep_try ticks0 n
     (thenP (sleep TicksChan TicksLock (Some e)) (sleep_loop es ticks0 n))"

definition sys_sleep :: "env list \<Rightarrow> int K" where
  "sys_sleep es = orfail (argint 0) (\<lambda>n.
     thenP (acquire TicksLock)
    (bindP (reads k_ticks) (\<lambda>ticks0. sleep_loop es ticks0 n)))"

definition sys_uptime :: "int K" where
  "sys_uptime = thenP (acquire TicksLock)
    (bindP (reads k_ticks) (\<lambda>xticks.
     thenP (release TicksLock) (ret (sint xticks))))"

text \<open>\<^verbatim>\<open>sizeof\<close> of a function and of \<^verbatim>\<open>void\<close> is 1.\<close>

definition sys_clone :: "symbols \<Rightarrow> int K" where
  "sys_clone sy = orfail (argptr 0 1) (\<lambda>fn. orfail (argptr 1 1) (\<lambda>arg. orfail (argptr 2 1) (\<lambda>ustack.
     bindP (curproc_get p_sz) (\<lambda>sz.
     if fn > sz \<or> ustack > sz then ret (- 1) else clone sy fn arg ustack))))"

definition sys_join :: "env list \<Rightarrow> int K" where
  "sys_join es = orfail (argptr 0 4) (\<lambda>ustack.
     bindP (curproc_get p_sz) (\<lambda>sz.
     if ustack > sz then ret (- 1) else join ustack es))"

definition sys_park :: "env list \<Rightarrow> int K" where
  "sys_park es = thenP (park (first_env es)) (ret 0)"

definition sys_setpark :: "int K" where
  "sys_setpark = setpark"

definition sys_unpark :: "int K" where
  "sys_unpark = orfail (argint 0) (\<lambda>pid. unpark (sint pid))"

end
