(* ===== verification/Sysfile.thy ===== *)
theory Sysfile
  imports Syscall
begin

text \<open>
  The file system calls (\<^verbatim>\<open>kernel/sysfile.c\<close>). Data moves between the kernel and user memory
  through \<open>uload\<close> and \<open>ustore\<close>: a call that writes takes its bytes from user memory first, a
  call that reads stores its bytes at the end.
\<close>

section \<open>File descriptors\<close>

definition argfd :: "nat \<Rightarrow> (nat \<times> nat) option K" where
  "argfd n = bindP (argint n) (\<lambda>r.
     case r of None \<Rightarrow> ret None | Some w \<Rightarrow>
     let fd = sint w in
     if fd < 0 \<or> fd \<ge> int NOFILE then ret None else
     bindP (curproc_get (\<lambda>p. p_ofile p ! nat fd)) (\<lambda>fo.
     ret (map_option (\<lambda>f. (nat fd, f)) fo)))"

definition set_ofile :: "nat \<Rightarrow> nat option \<Rightarrow> unit K" where
  "set_ofile fd fo = curproc_set (\<lambda>p. p\<lparr>p_ofile := (p_ofile p)[fd := fo]\<rparr>)"

definition fdalloc :: "nat \<Rightarrow> int K" where
  "fdalloc f = bindP (curproc_get (\<lambda>p. first_idx (\<lambda>fo. fo = None) (take NOFILE (p_ofile p)))) (\<lambda>r.
     case r of
       Some fd \<Rightarrow> thenP (set_ofile fd (Some f)) (ret (int fd))
     | None \<Rightarrow> ret (- 1))"

section \<open>Calls on open files\<close>

definition sys_dup :: "int K" where
  "sys_dup = orfail (argfd 0) (\<lambda>(_, f).
     bindP (fdalloc f) (\<lambda>fd.
     if fd < 0 then ret (- 1) else
     bindP (filedup f) (\<lambda>_. ret fd)))"

definition sys_read :: "env list \<Rightarrow> int K" where
  "sys_read es = orfail (argfd 0) (\<lambda>(_, f). orfail (argint 2) (\<lambda>n. orfail (argptr 1 n) (\<lambda>p.
     bindP (fileread es f (sint n)) (\<lambda>(r, bs). thenP (ustore bs p) (ret r)))))"

text \<open>
  The number of bytes \<^verbatim>\<open>filewrite\<close> takes from the buffer: none if the file is not writable; for a pipe
  or a device a negative count is no bytes; for other inodes it is a large unsigned count, which is
  cut to the largest file size.
\<close>

definition write_count :: "kernel \<Rightarrow> nat \<Rightarrow> u32 \<Rightarrow> nat" where
  "write_count k f n = (let x = k_ftable k ! f in
     if f_writable x = 0 then 0
     else if f_type x = FD_INODE \<and> i_type (k_icache k ! f_ip x) \<noteq> T_DEV then min (unat n) (MAXFILE * BSIZE)
     else nat (sint n))"

definition sys_write :: "env list \<Rightarrow> int K" where
  "sys_write es = orfail (argfd 0) (\<lambda>(_, f). orfail (argint 2) (\<lambda>n. orfail (argptr 1 n) (\<lambda>p.
     bindP (reads (\<lambda>k. write_count k f n)) (\<lambda>c.
     bindP (uload c p) (\<lambda>bs. filewrite es f bs (sint n))))))"

definition sys_close :: "int K" where
  "sys_close = orfail (argfd 0) (\<lambda>(fd, f).
     thenP (set_ofile fd None) (thenP (fileclose f) (ret 0)))"

definition store_stat :: "addr \<Rightarrow> stat \<Rightarrow> unit K" where
  "store_stat p st =
     thenP (ustore (enc16 (st_type st)) p)
    (thenP (ustore32 (p + 4) (st_dev st))
    (thenP (ustore32 (p + 8) (st_ino st))
    (thenP (ustore (enc16 (st_nlink st)) (p + 12))
    (ustore32 (p + 16) (st_size st)))))"

definition sys_fstat :: "int K" where
  "sys_fstat = orfail (argfd 0) (\<lambda>(_, f). orfail (argptr 1 20) (\<lambda>p.
     bindP (filestat f) (\<lambda>(r, so).
     thenP (case so of None \<Rightarrow> ret () | Some st \<Rightarrow> store_stat p st) (ret r))))"

section \<open>Links and directories\<close>

definition add_nlink :: "nat \<Rightarrow> u16 \<Rightarrow> unit K" where
  "add_nlink ip d = thenP (modify (setinode ip (\<lambda>x. x\<lparr>i_nlink := i_nlink x + d\<rparr>))) (iupdate ip)"

definition link_bad :: "nat \<Rightarrow> int K" where
  "link_bad ip = thenP (ilock ip) (thenP (add_nlink ip (- 1)) (thenP (iunlockput ip) (ret (- 1))))"

definition sys_link :: "int K" where
  "sys_link = orfail (argstr 0) (\<lambda>old. orfail (argstr 1) (\<lambda>new. orfail (namei old) (\<lambda>ip.
     thenP (ilock ip)
    (bindP (inode_get ip i_type) (\<lambda>ty.
     if ty = T_DIR then thenP (iunlockput ip) (ret (- 1)) else
     thenP (add_nlink ip 1)
    (thenP (iunlock ip)
    (bindP (nameiparent new) (\<lambda>r.
     case r of None \<Rightarrow> link_bad ip | Some (dp, name) \<Rightarrow>
     thenP (ilock dp)
    (bindP (inode_get dp i_dev) (\<lambda>ddev.
     bindP (inode_get ip (\<lambda>x. x)) (\<lambda>i.
     bindP (if ddev \<noteq> i_dev i then ret (- 1) else dirlink dp name (i_inum i)) (\<lambda>l.
     if l < 0 then thenP (iunlockput dp) (link_bad ip) else
     thenP (iunlockput dp) (thenP (iput ip) (ret 0))))))))))))))"

primrec isdirempty_loop :: "nat \<Rightarrow> nat \<Rightarrow> u32 \<Rightarrow> bool K" where
  "isdirempty_loop 0 dp off = ret True"
| "isdirempty_loop (Suc fuel) dp off = bindP (inode_get dp i_size) (\<lambda>sz.
     if off < sz then
       bindP (readi [] dp off 16) (\<lambda>(r, bs).
       if r \<noteq> 16 then panic ''isdirempty: readi'' else
       if de_inum (dec_dirent bs 0) \<noteq> 0 then ret False else isdirempty_loop fuel dp (off + 16))
     else ret True)"

definition isdirempty :: "nat \<Rightarrow> bool K" where
  "isdirempty dp = bindP (inode_get dp i_size) (\<lambda>sz. isdirempty_loop (unat sz div 16 + 1) dp 32)"

definition unlink_entry :: "nat \<Rightarrow> nat \<Rightarrow> u32 \<Rightarrow> int K" where
  "unlink_entry dp ip off = bindP (inode_get ip (\<lambda>x. x)) (\<lambda>i.
     if sint (i_nlink i) < 1 then panic ''unlink: nlink < 1'' else
     bindP (if i_type i = T_DIR then isdirempty ip else ret True) (\<lambda>empty.
     if \<not> empty then thenP (iunlockput ip) (thenP (iunlockput dp) (ret (- 1))) else
     bindP (writei dp (replicate 16 0) off 16) (\<lambda>w.
     if w \<noteq> 16 then panic ''unlink: writei'' else
     thenP (whenP (i_type i = T_DIR) (add_nlink dp (- 1)))
    (thenP (iunlockput dp)
    (thenP (add_nlink ip (- 1))
    (thenP (iunlockput ip) (ret 0)))))))"

definition sys_unlink :: "int K" where
  "sys_unlink = orfail (argstr 0) (\<lambda>path. orfail (nameiparent path) (\<lambda>(dp, name).
     thenP (ilock dp)
    (if namecmp name (bytes ''.'') = 0 \<or> namecmp name (bytes ''..'') = 0
     then thenP (iunlockput dp) (ret (- 1)) else
     bindP (dirlookup dp name) (\<lambda>r.
     case r of
       None \<Rightarrow> thenP (iunlockput dp) (ret (- 1))
     | Some (ip, off) \<Rightarrow> thenP (ilock ip) (unlink_entry dp ip off)))))"

definition create_dots :: "nat \<Rightarrow> nat \<Rightarrow> unit K" where
  "create_dots dp ip = thenP (add_nlink dp 1)
    (bindP (inode_get ip i_inum) (\<lambda>n.
     bindP (dirlink ip (bytes ''.'') n) (\<lambda>a.
     bindP (if a < 0 then ret (- 1) else bindP (inode_get dp i_inum) (\<lambda>m. dirlink ip (bytes ''..'') m)) (\<lambda>b.
     whenP (b < 0) (panic ''create dots'')))))"

definition create :: "u8 list \<Rightarrow> u16 \<Rightarrow> u16 \<Rightarrow> u16 \<Rightarrow> nat option K" where
  "create path ty major minor = bindP (nameiparent path) (\<lambda>r.
     case r of None \<Rightarrow> ret None | Some (dp, name) \<Rightarrow>
     thenP (ilock dp)
    (bindP (dirlookup dp name) (\<lambda>l.
     case l of
       Some (ip, _) \<Rightarrow>
         thenP (iunlockput dp)
        (thenP (ilock ip)
        (bindP (inode_get ip i_type) (\<lambda>t.
         if ty = T_FILE \<and> t = T_FILE then ret (Some ip) else thenP (iunlockput ip) (ret None))))
     | None \<Rightarrow>
         bindP (inode_get dp i_dev) (\<lambda>dev.
         bindP (ialloc dev ty) (\<lambda>ip.
         thenP (ilock ip)
        (thenP (modify (setinode ip (\<lambda>x. x\<lparr>i_major := major, i_minor := minor, i_nlink := 1\<rparr>)))
        (thenP (iupdate ip)
        (thenP (whenP (ty = T_DIR) (create_dots dp ip))
        (bindP (inode_get ip i_inum) (\<lambda>n.
         bindP (dirlink dp name n) (\<lambda>d.
         if d < 0 then panic ''create: dirlink'' else
         thenP (iunlockput dp) (ret (Some ip)))))))))))))"

definition O_RDONLY :: u32 where [simp]: "O_RDONLY = 0"
definition O_WRONLY :: u32 where [simp]: "O_WRONLY = 1"
definition O_RDWR :: u32 where [simp]: "O_RDWR = 2"
definition O_CREATE :: u32 where [simp]: "O_CREATE = 0x200"

definition open_inode :: "u8 list \<Rightarrow> u32 \<Rightarrow> nat option K" where
  "open_inode path omode =
    (if omode AND O_CREATE \<noteq> 0 then create path T_FILE 0 0 else
     bindP (namei path) (\<lambda>r.
     case r of None \<Rightarrow> ret None | Some ip \<Rightarrow>
     thenP (ilock ip)
    (bindP (inode_get ip i_type) (\<lambda>t.
     if t = T_DIR \<and> omode \<noteq> O_RDONLY then thenP (iunlockput ip) (ret None) else ret (Some ip)))))"

definition sys_open :: "int K" where
  "sys_open = orfail (argstr 0) (\<lambda>path. orfail (argint 1) (\<lambda>omode. orfail (open_inode path omode) (\<lambda>ip.
     bindP filealloc (\<lambda>fo.
     case fo of
       None \<Rightarrow> thenP (iunlockput ip) (ret (- 1))
     | Some f \<Rightarrow>
         bindP (fdalloc f) (\<lambda>fd.
         if fd < 0 then thenP (fileclose f) (thenP (iunlockput ip) (ret (- 1))) else
         thenP (iunlock ip)
        (thenP (modify (setfile f (\<lambda>x. x\<lparr>f_type := FD_INODE, f_ip := ip, f_off := 0,
           f_readable := (if omode AND O_WRONLY = 0 then 1 else 0),
           f_writable := (if omode AND O_WRONLY \<noteq> 0 \<or> omode AND O_RDWR \<noteq> 0 then 1 else 0)\<rparr>)))
        (ret fd)))))))"

definition sys_mkdir :: "int K" where
  "sys_mkdir = orfail (argstr 0) (\<lambda>path. orfail (create path T_DIR 0 0) (\<lambda>ip. thenP (iunlockput ip) (ret 0)))"

definition sys_mknod :: "int K" where
  "sys_mknod = orfail (argstr 0) (\<lambda>path. orfail (argint 1) (\<lambda>major. orfail (argint 2) (\<lambda>minor.
     orfail (create path T_DEV (ucast major) (ucast minor)) (\<lambda>ip. thenP (iunlockput ip) (ret 0)))))"

definition sys_chdir :: "int K" where
  "sys_chdir = orfail (argstr 0) (\<lambda>path. orfail (namei path) (\<lambda>ip.
     thenP (ilock ip)
    (bindP (inode_get ip i_type) (\<lambda>t.
     if t \<noteq> T_DIR then thenP (iunlockput ip) (ret (- 1)) else
     thenP (iunlock ip)
    (bindP (curproc_get p_cwd) (\<lambda>cwd.
     case cwd of None \<Rightarrow> fault ''proc->cwd'' | Some old \<Rightarrow>
     thenP (iput old)
    (thenP (curproc_set (\<lambda>p. p\<lparr>p_cwd := Some ip\<rparr>))
    (ret 0))))))))"

text \<open>The loop of \<^verbatim>\<open>sys_exec\<close> fetches at most \<open>MAXARG\<close> pointers, the last of which is zero.\<close>

primrec exec_argv :: "nat \<Rightarrow> nat \<Rightarrow> u32 \<Rightarrow> u8 list list option K" where
  "exec_argv 0 p uargv = ret None"
| "exec_argv (Suc n) p uargv = bindP (fetchint p uargv) (\<lambda>r.
     case r of None \<Rightarrow> ret None | Some uarg \<Rightarrow>
     if uarg = 0 then ret (Some []) else
     bindP (fetchstr p uarg) (\<lambda>s.
     case s of None \<Rightarrow> ret None | Some a \<Rightarrow>
     bindP (exec_argv n p (uargv + 4)) (\<lambda>r. ret (map_option (\<lambda>as. a # as) r))))"

definition sys_exec :: "int K" where
  "sys_exec = orfail (argstr 0) (\<lambda>path. orfail (argint 1) (\<lambda>uargv.
     bindP curproc (\<lambda>p. orfail (exec_argv MAXARG p uargv) (\<lambda>argv. exec path argv))))"

definition sys_pipe :: "int K" where
  "sys_pipe = orfail (argptr 0 8) (\<lambda>p. orfail pipealloc (\<lambda>(rf, wf).
     bindP (fdalloc rf) (\<lambda>fd0.
     bindP (if fd0 < 0 then ret (- 1) else fdalloc wf) (\<lambda>fd1.
     if fd0 < 0 \<or> fd1 < 0 then
       thenP (whenP (fd0 \<ge> 0) (set_ofile (nat fd0) None))
      (thenP (fileclose rf) (thenP (fileclose wf) (ret (- 1))))
     else
       thenP (ustore32 p (word_of_int fd0)) (thenP (ustore32 (p + 4) (word_of_int fd1)) (ret 0))))))"

end
