(* ===== verification/Kbd.thy ===== *)
theory Kbd
  imports Console
begin

text \<open>
  The keyboard driver (\<^verbatim>\<open>kernel/kbd.c\<close>, \<^verbatim>\<open>kernel/kbd.h\<close>). The static variable
  \<^verbatim>\<open>shift\<close> is passed along; what the two ports of the controller deliver is an argument.
\<close>

definition SHIFT :: u32 where [simp]: "SHIFT = 1"
definition CTL :: u32 where [simp]: "CTL = 2"
definition ALT :: u32 where [simp]: "ALT = 4"
definition CAPSLOCK :: u32 where [simp]: "CAPSLOCK = 8"
definition NUMLOCK :: u32 where [simp]: "NUMLOCK = 16"
definition SCROLLLOCK :: u32 where [simp]: "SCROLLLOCK = 32"
definition E0ESC :: u32 where [simp]: "E0ESC = 64"

text \<open>A table with designated initialisers: the listed entries, and zero elsewhere.\<close>

definition keytable :: "u32 list \<Rightarrow> (nat \<times> u32) list \<Rightarrow> nat \<Rightarrow> u32" where
  "keytable row extra d = (if d < length row then row ! d else (case map_of extra d of Some c \<Rightarrow> c | None \<Rightarrow> 0))"

definition shiftcode :: "nat \<Rightarrow> u32" where
  "shiftcode = keytable [] [(0x1D, CTL), (0x2A, SHIFT), (0x36, SHIFT), (0x38, ALT), (0x9D, CTL), (0xB8, ALT)]"

definition togglecode :: "nat \<Rightarrow> u32" where
  "togglecode = keytable [] [(0x3A, CAPSLOCK), (0x45, NUMLOCK), (0x46, SCROLLLOCK)]"

definition normalmap :: "nat \<Rightarrow> u32" where
  "normalmap = keytable
    [0, 27, 49, 50, 51, 52, 53, 54, 55, 56, 57, 48, 45, 61, 8, 9,
     113, 119, 101, 114, 116, 121, 117, 105, 111, 112, 91, 93, 10, 0, 97, 115,
     100, 102, 103, 104, 106, 107, 108, 59, 39, 96, 0, 92, 122, 120, 99, 118,
     98, 110, 109, 44, 46, 47, 0, 42, 0, 32, 0, 0, 0, 0, 0, 0,
     0, 0, 0, 0, 0, 0, 0, 55, 56, 57, 45, 52, 53, 54, 43, 49,
     50, 51, 48, 46, 0, 0, 0, 0]
    [(0x9C, 10), (0xB5, 47), (0xC8, 226), (0xD0, 227), (0xC9, 230), (0xD1, 231), (0xCB, 228), (0xCD, 229), (0x97, 224), (0xCF, 225), (0xD2, 232), (0xD3, 233)]"

definition shiftmap :: "nat \<Rightarrow> u32" where
  "shiftmap = keytable
    [0, 27, 33, 64, 35, 36, 37, 94, 38, 42, 40, 41, 95, 43, 8, 9,
     81, 87, 69, 82, 84, 89, 85, 73, 79, 80, 123, 125, 10, 0, 65, 83,
     68, 70, 71, 72, 74, 75, 76, 58, 34, 126, 0, 124, 90, 88, 67, 86,
     66, 78, 77, 60, 62, 63, 0, 42, 0, 32, 0, 0, 0, 0, 0, 0,
     0, 0, 0, 0, 0, 0, 0, 55, 56, 57, 45, 52, 53, 54, 43, 49,
     50, 51, 48, 46, 0, 0, 0, 0]
    [(0x9C, 10), (0xB5, 47), (0xC8, 226), (0xD0, 227), (0xC9, 230), (0xD1, 231), (0xCB, 228), (0xCD, 229), (0x97, 224), (0xCF, 225), (0xD2, 232), (0xD3, 233)]"

definition ctlmap :: "nat \<Rightarrow> u32" where
  "ctlmap = keytable
    [0, 0, 0, 0, 0, 0, 0, 0, 0, 0, 0, 0, 0, 0, 0, 0,
     17, 23, 5, 18, 20, 25, 21, 9, 15, 16, 0, 0, 13, 0, 1, 19,
     4, 6, 7, 8, 10, 11, 12, 0, 0, 0, 0, 28, 26, 24, 3, 22,
     2, 14, 13, 0, 0, 239, 0, 0]
    [(0x9C, 13), (0xB5, 239), (0xC8, 226), (0xD0, 227), (0xC9, 230), (0xD1, 231), (0xCB, 228), (0xCD, 229), (0x97, 224), (0xCF, 225), (0xD2, 232), (0xD3, 233)]"

definition charcode :: "u32 \<Rightarrow> nat \<Rightarrow> u32" where
  "charcode i = (if i = 0 then normalmap else if i = 1 then shiftmap else ctlmap)"

text \<open>The result is the character, or -1 or 0, and the new value of \<^verbatim>\<open>shift\<close>.\<close>

definition kbdgetc :: "u32 \<Rightarrow> u32 \<times> u32 \<Rightarrow> int \<times> u32" where
  "kbdgetc shift port = (case port of (st, data) \<Rightarrow>
    if st AND 1 = 0 then (- 1, shift)
    else if data = 0xE0 then (0, shift OR E0ESC)
    else if data AND 0x80 \<noteq> 0 then
      (let data' = (if shift AND E0ESC \<noteq> 0 then data else data AND 0x7F)
       in (0, shift AND NOT (shiftcode (unat data') OR E0ESC)))
    else
      (let (data1, shift1) = (if shift AND E0ESC \<noteq> 0 then (data OR 0x80, shift AND NOT E0ESC) else (data, shift));
           shift2 = (shift1 OR shiftcode (unat data1)) XOR togglecode (unat data1);
           c = charcode (shift2 AND (CTL OR SHIFT)) (unat data1);
           c' = (if shift2 AND CAPSLOCK \<noteq> 0
                 then (if 97 \<le> c \<and> c \<le> 122 then c - 32 else if 65 \<le> c \<and> c \<le> 90 then c + 32 else c)
                 else c)
       in (uint c', shift2)))"

fun kbd_chars :: "u32 \<Rightarrow> (u32 \<times> u32) list \<Rightarrow> int list \<times> u32" where
  "kbd_chars shift [] = ([], shift)"
| "kbd_chars shift (x # xs) = (case kbdgetc shift x of (c, shift') \<Rightarrow>
     if c < 0 then ([], shift') else (case kbd_chars shift' xs of (cs, s) \<Rightarrow> (c # cs, s)))"

definition kbdintr :: "u32 \<Rightarrow> (u32 \<times> u32) list \<Rightarrow> u32 K" where
  "kbdintr shift ports = (case kbd_chars shift ports of (cs, s) \<Rightarrow> thenP (consoleintr cs) (ret s))"

end
