(* ===== verification/Trap.thy ===== *)
theory Trap
  imports Sysfile Kbd
begin

text \<open>
  System call dispatch (\<^verbatim>\<open>syscall\<close> of \<^verbatim>\<open>kernel/syscall.c\<close>) and traps
  (\<^verbatim>\<open>kernel/trap.c\<close>). What the devices deliver with an interrupt, the keyboard's shift state and the
  register \<^verbatim>\<open>cr2\<close> are given in a record. Acknowledging an interrupt (\<^verbatim>\<open>lapiceoi\<close>) does not change
  the kernel state; it is in \<open>Devices\<close>, with the gates of \<^verbatim>\<open>tvinit\<close>.
\<close>

record trap_input =
  ti_kbd :: "(u32 \<times> u32) list"
  ti_shift :: u32
  ti_uart :: "(u8 \<times> u8) list"
  ti_cr2 :: u32

section \<open>System calls\<close>

definition syscalls :: "symbols \<Rightarrow> env list \<Rightarrow> (nat \<times> int K) list" where
  "syscalls sy es = [(1, sys_fork sy), (2, sys_exit es), (3, sys_wait es), (4, sys_pipe), (5, sys_write es),
     (6, sys_read es), (7, sys_close), (8, sys_kill), (9, sys_exec), (10, sys_open), (11, sys_mknod),
     (12, sys_unlink), (13, sys_fstat), (14, sys_link), (15, sys_mkdir), (16, sys_chdir), (17, sys_dup),
     (18, sys_getpid), (19, sys_sbrk), (20, sys_sleep es), (21, sys_uptime), (22, sys_clone sy),
     (23, sys_join es), (24, sys_park es), (25, sys_setpark), (26, sys_unpark)]"

definition set_eax :: "u32 \<Rightarrow> unit K" where
  "set_eax v = bindP (curproc_get p_tf) (\<lambda>a. modify (set_tframe a (\<lambda>t. t\<lparr>tf_eax := v\<rparr>)))"

definition syscall :: "symbols \<Rightarrow> env list \<Rightarrow> unit K" where
  "syscall sy es = bindP curtf (\<lambda>tf.
     let num = sint (tf_eax tf) in
     case (if num > 0 then map_of (syscalls sy es) (nat num) else None) of
       Some call \<Rightarrow> bindP call (\<lambda>r. set_eax (word_of_int r))
     | None \<Rightarrow>
         bindP (curproc_get (\<lambda>p. p)) (\<lambda>p.
         thenP (cprintf (bytes ''%d %s: unknown sys call %d'' @ [10])
           [Word (word_of_int (p_pid p)), Str (Some (p_name p)), Word (tf_eax tf)])
        (set_eax (- 1))))"

section \<open>Traps\<close>

definition T_SYSCALL :: u32 where [simp]: "T_SYSCALL = 64"
definition T_IRQ0 :: u32 where [simp]: "T_IRQ0 = 32"
definition IRQ_TIMER :: u32 where [simp]: "IRQ_TIMER = 0"
definition IRQ_KBD :: u32 where [simp]: "IRQ_KBD = 1"
definition IRQ_COM1 :: u32 where [simp]: "IRQ_COM1 = 4"
definition IRQ_IDE :: u32 where [simp]: "IRQ_IDE = 14"
definition IRQ_SPURIOUS :: u32 where [simp]: "IRQ_SPURIOUS = 31"
definition DPL_USER :: u16 where [simp]: "DPL_USER = 3"

text \<open>The path of the system calls reads \<^verbatim>\<open>proc->killed\<close> without a test of \<^verbatim>\<open>proc\<close>, the other one tests it.\<close>

definition syscall_exit :: "env list \<Rightarrow> unit K" where
  "syscall_exit es = bindP (curproc_get p_killed) (\<lambda>kd. whenP (kd \<noteq> 0) (exit (first_env es)))"

definition exit_if_killed :: "env list \<Rightarrow> bool \<Rightarrow> unit K" where
  "exit_if_killed es user = bindP (reads (\<lambda>k. c_proc (k_cpu k))) (\<lambda>pr.
     case pr of None \<Rightarrow> ret () | Some p \<Rightarrow>
     bindP (reads (\<lambda>k. p_killed (getproc p k))) (\<lambda>kd.
     whenP (kd \<noteq> 0 \<and> user) (exit (first_env es))))"

definition timer_tick :: "unit K" where
  "timer_tick = bindP (reads (\<lambda>k. c_id (k_cpu k))) (\<lambda>cid.
     whenP (cid = 0)
       (thenP (acquire TicksLock)
       (thenP (modify (\<lambda>k. k\<lparr>k_ticks := k_ticks k + 1\<rparr>))
       (thenP (wakeup TicksChan)
       (release TicksLock)))))"

definition trap_switch :: "trap_input \<Rightarrow> trapframe \<Rightarrow> unit K" where
  "trap_switch ti tf =
    (let no = tf_trapno tf in
     if no = T_IRQ0 + IRQ_TIMER then timer_tick
     else if no = T_IRQ0 + IRQ_IDE then ideintr
     else if no = T_IRQ0 + IRQ_IDE + 1 then ret ()
     else if no = T_IRQ0 + IRQ_KBD then bindP (kbdintr (ti_shift ti) (ti_kbd ti)) (\<lambda>_. ret ())
     else if no = T_IRQ0 + IRQ_COM1 then uartintr (ti_uart ti)
     else if no = T_IRQ0 + 7 \<or> no = T_IRQ0 + IRQ_SPURIOUS then
       bindP (reads (\<lambda>k. c_id (k_cpu k))) (\<lambda>cid.
       cprintf (bytes ''cpu%d: spurious interrupt at %x:%x'' @ [10]) [Word (of_nat cid), Word (ucast (tf_cs tf)), Word (tf_eip tf)])
     else
       bindP (reads (\<lambda>k. k_cpu k)) (\<lambda>c.
       if c_proc c = None \<or> tf_cs tf AND 3 = 0 then
         thenP (cprintf (bytes ''unexpected trap %d from cpu %d eip %x (cr2=0x%x)'' @ [10])
           [Word no, Word (of_nat (c_id c)), Word (tf_eip tf), Word (ti_cr2 ti)])
         (panic ''trap'')
       else
         bindP (curproc_get (\<lambda>p. p)) (\<lambda>p.
         thenP (cprintf (bytes ''pid %d %s: trap %d err %d on cpu %d eip 0x%x addr 0x%x--kill proc'' @ [10])
           [Word (word_of_int (p_pid p)), Str (Some (p_name p)), Word no, Word (tf_err tf), Word (of_nat (c_id c)),
            Word (tf_eip tf), Word (ti_cr2 ti)])
         (curproc_set (\<lambda>p. p\<lparr>p_killed := 1\<rparr>)))))"

text \<open>\<open>tfa\<close> is the address of the trap frame on the kernel stack.\<close>

definition trap :: "symbols \<Rightarrow> env list \<Rightarrow> trap_input \<Rightarrow> addr \<Rightarrow> unit K" where
  "trap sy es ti tfa = bindP (reads (\<lambda>k. k_tframes k tfa)) (\<lambda>tf.
     if tf_trapno tf = T_SYSCALL then
       thenP (syscall_exit es)
      (thenP (curproc_set (\<lambda>p. p\<lparr>p_tf := tfa\<rparr>))
      (thenP (syscall sy es)
      (syscall_exit es)))
     else
       thenP (trap_switch ti tf)
      (let user = (tf_cs tf AND 3 = DPL_USER) in
       thenP (exit_if_killed es user)
      (bindP (reads (\<lambda>k. c_proc (k_cpu k))) (\<lambda>pr.
       thenP (case pr of None \<Rightarrow> ret () | Some p \<Rightarrow>
         bindP (reads (\<lambda>k. p_state (getproc p k))) (\<lambda>st.
         whenP (st = RUNNING \<and> tf_trapno tf = T_IRQ0 + IRQ_TIMER) (yield (first_env es))))
      (exit_if_killed es user)))))"

end
