(* ===== verification/Mmu.thy ===== *)
theory Mmu
  imports Prelude
begin

text \<open>
  Segment and gate descriptors (\<^verbatim>\<open>kernel/mmu.h\<close>). The bit fields of a descriptor are words of their width. What the
  processor reads out of a descriptor again, the base, the limit and the entry point, is what the macros put in.
\<close>

section \<open>Descriptors\<close>

record segdesc =
  lim_15_0 :: "16 word"
  base_15_0 :: "16 word"
  base_23_16 :: "8 word"
  sd_type :: "4 word"
  sd_s :: "1 word"
  sd_dpl :: "2 word"
  sd_p :: "1 word"
  lim_19_16 :: "4 word"
  sd_avl :: "1 word"
  sd_rsv1 :: "1 word"
  sd_db :: "1 word"
  sd_g :: "1 word"
  base_31_24 :: "8 word"

definition SEG :: "4 word \<Rightarrow> u32 \<Rightarrow> u32 \<Rightarrow> 2 word \<Rightarrow> segdesc" where
  "SEG ty base lim dpl = \<lparr>lim_15_0 = ucast (drop_bit 12 lim AND 0xffff), base_15_0 = ucast (base AND 0xffff),
     base_23_16 = ucast (drop_bit 16 base AND 0xff), sd_type = ty, sd_s = 1, sd_dpl = dpl, sd_p = 1,
     lim_19_16 = ucast (drop_bit 28 lim), sd_avl = 0, sd_rsv1 = 0, sd_db = 1, sd_g = 1, base_31_24 = ucast (drop_bit 24 base)\<rparr>"

definition SEG16 :: "4 word \<Rightarrow> u32 \<Rightarrow> u32 \<Rightarrow> 2 word \<Rightarrow> segdesc" where
  "SEG16 ty base lim dpl = \<lparr>lim_15_0 = ucast (lim AND 0xffff), base_15_0 = ucast (base AND 0xffff),
     base_23_16 = ucast (drop_bit 16 base AND 0xff), sd_type = ty, sd_s = 1, sd_dpl = dpl, sd_p = 1,
     lim_19_16 = ucast (drop_bit 16 lim), sd_avl = 0, sd_rsv1 = 0, sd_db = 1, sd_g = 0, base_31_24 = ucast (drop_bit 24 base)\<rparr>"

abbreviation STA_X :: "4 word" where "STA_X \<equiv> 8"
abbreviation STA_W :: "4 word" where "STA_W \<equiv> 2"
abbreviation STA_R :: "4 word" where "STA_R \<equiv> 2"
abbreviation STS_T32A :: "4 word" where "STS_T32A \<equiv> 9"
abbreviation STS_IG32 :: "4 word" where "STS_IG32 \<equiv> 0xE"
abbreviation STS_TG32 :: "4 word" where "STS_TG32 \<equiv> 0xF"
abbreviation SEG_DPL_USER :: "2 word" where "SEG_DPL_USER \<equiv> 3"

record gatedesc =
  off_15_0 :: "16 word"
  gd_cs :: "16 word"
  gd_args :: "5 word"
  gd_rsv1 :: "3 word"
  gd_type :: "4 word"
  gd_s :: "1 word"
  gd_dpl :: "2 word"
  gd_p :: "1 word"
  off_31_16 :: "16 word"

definition SETGATE :: "bool \<Rightarrow> u16 \<Rightarrow> u32 \<Rightarrow> 2 word \<Rightarrow> gatedesc" where
  "SETGATE istrap sel off d = \<lparr>off_15_0 = ucast (off AND 0xffff), gd_cs = sel, gd_args = 0, gd_rsv1 = 0,
     gd_type = (if istrap then STS_TG32 else STS_IG32), gd_s = 0, gd_dpl = d, gd_p = 1, off_31_16 = ucast (drop_bit 16 off)\<rparr>"

section \<open>What the processor reads\<close>

definition seg_base :: "segdesc \<Rightarrow> u32" where
  "seg_base d = ucast (base_15_0 d) OR push_bit 16 (ucast (base_23_16 d)) OR push_bit 24 (ucast (base_31_24 d))"

text \<open>The last offset in the segment; with the granularity bit the limit counts pages.\<close>

definition seg_limit :: "segdesc \<Rightarrow> u32" where
  "seg_limit d = (let l = ucast (lim_15_0 d) OR push_bit 16 (ucast (lim_19_16 d))
     in if sd_g d = 1 then push_bit 12 l OR 0xfff else l)"

definition gate_entry :: "gatedesc \<Rightarrow> u32" where
  "gate_entry g = ucast (off_15_0 g) OR push_bit 16 (ucast (off_31_16 g))"

lemma masks: "(0xff :: u32) = mask 8" "(0xfff :: u32) = mask 12" "(0xffff :: u32) = mask 16"
  by (simp_all add: mask_eq_exp_minus_1)

lemma bit32_eqI: "(\<And>n. n < 32 \<Longrightarrow> bit a n = bit b n) \<Longrightarrow> a = (b :: u32)"
  by (rule bit_word_eqI) simp

lemma seg_base_SEG [simp]: "seg_base (SEG ty base lim dpl) = base" "seg_base (SEG16 ty base lim dpl) = base"
proof -
  show "seg_base (SEG ty base lim dpl) = base"
  proof (rule bit32_eqI)
    fix n show "bit (seg_base (SEG ty base lim dpl)) n = bit base n" if "n < 32"
      using that by (cases "n < 24") (auto simp: seg_base_def SEG_def masks bit_simps)
  qed
  then show "seg_base (SEG16 ty base lim dpl) = base" by (simp add: seg_base_def SEG_def SEG16_def)
qed

lemma seg_limit_SEG [simp]: "seg_limit (SEG ty base lim dpl) = lim OR 0xfff"
proof (rule bit32_eqI)
  fix n show "bit (seg_limit (SEG ty base lim dpl)) n = bit (lim OR 0xfff) n" if "n < 32"
    using that by (cases "n < 28") (auto simp: seg_limit_def SEG_def masks bit_simps Let_def)
qed

lemma seg_limit_SEG16 [simp]: "lim < 0x100000 \<Longrightarrow> seg_limit (SEG16 ty base lim dpl) = lim"
proof -
  assume "lim < 0x100000"
  then have "unat lim < 2 ^ 20" by (simp add: word_less_nat_alt)
  then have "take_bit 20 (unat lim) = unat lim" by (simp only: take_bit_nat_eq_self)
  then have "take_bit 20 lim = lim" by (simp add: word_unat_eq_iff unsigned_take_bit_eq)
  then have b: "\<not> bit lim n" if "20 \<le> n" for n using that by (metis bit_take_bit_iff leD)
  show ?thesis
  proof (rule bit32_eqI)
    fix n show "bit (seg_limit (SEG16 ty base lim dpl)) n = bit lim n" if "n < 32"
      using that b by (cases "n < 20") (auto simp: seg_limit_def SEG16_def masks bit_simps Let_def)
  qed
qed

lemma gate_entry_SETGATE [simp]: "gate_entry (SETGATE istrap sel off d) = off"
  by (rule bit32_eqI) (auto simp: gate_entry_def SETGATE_def masks bit_simps)

end
