(* ===== verification/Devices.thy ===== *)
theory Devices
  imports Trap Mmu
begin

text \<open>
  The machine around the kernel state: interrupt controllers (\<^verbatim>\<open>kernel/lapic.c\<close>, \<^verbatim>\<open>ioapic.c\<close>, \<^verbatim>\<open>picirq.c\<close>), timer
  (\<^verbatim>\<open>timer.c\<close>), serial port set-up (\<^verbatim>\<open>uart.c\<close>), segment and interrupt tables (\<^verbatim>\<open>seginit\<close> and \<^verbatim>\<open>switchuvm\<close> of
  \<^verbatim>\<open>vm.c\<close>, \<^verbatim>\<open>tvinit\<close> of \<^verbatim>\<open>trap.c\<close>), and the interrupt routing that \<^verbatim>\<open>consoleinit\<close> and \<^verbatim>\<open>ideinit\<close> do.

  The registers of the APICs are functions from register numbers to values; \<open>h_out\<close> is the sequence of port writes
  and \<open>h_in\<close> what a port reads as. \<open>h_busy\<close> is the number of times the local APIC will still be found delivering when
  it is polled. The addresses of the kernel's tables are given by \<open>h_sym\<close>.
\<close>

section \<open>The machine\<close>

record tables =
  sym_vectors :: "nat \<Rightarrow> addr"
  sym_percpu :: "nat \<Rightarrow> addr"
  sym_ts :: "nat \<Rightarrow> addr"
  sym_mpmain :: addr
  sym_bootother :: "u8 list"

record machine =
  h_kernel :: kernel
  h_sym :: tables
  h_lapic :: addr
  h_lreg :: "u32 \<Rightarrow> u32"
  h_busy :: nat
  h_ioreg :: u32
  h_iodata :: "u32 \<Rightarrow> u32"
  h_out :: "(u16 \<times> u8) list"
  h_in :: "u16 \<Rightarrow> u8"
  h_irqmask :: u16
  h_ismp :: bool
  h_ncpu :: nat
  h_bcpu :: nat
  h_ioapicid :: u8
  h_ids :: "u8 list"
  h_booted :: "u32 list"
  h_warned :: nat
  h_gdt :: "segdesc list list"
  h_ss0 :: "u16 list"
  h_idt :: "gatedesc list"
  h_idtr :: bool
  h_cr0 :: u32

type_synonym 'a M = "(machine, 'a) prog"

definition kern :: "'a K \<Rightarrow> 'a M" where
  "kern = zoom h_kernel (\<lambda>k h. h\<lparr>h_kernel := k\<rparr>)"

definition outb :: "u16 \<Rightarrow> u8 \<Rightarrow> unit M" where
  "outb port v = modify (\<lambda>h. h\<lparr>h_out := h_out h @ [(port, v)]\<rparr>)"

definition inb :: "u16 \<Rightarrow> u8 M" where
  "inb port = reads (\<lambda>h. h_in h port)"

section \<open>8259A interrupt controllers\<close>

abbreviation IO_PIC1 :: u16 where "IO_PIC1 \<equiv> 0x20"
abbreviation IO_PIC2 :: u16 where "IO_PIC2 \<equiv> 0xA0"
abbreviation IRQ_SLAVE :: nat where "IRQ_SLAVE \<equiv> 2"

text \<open>The initial value of the variable \<^verbatim>\<open>irqmask\<close>.\<close>

definition irqmask_init :: u16 where
  "irqmask_init = 0xFFFF AND NOT (push_bit IRQ_SLAVE 1)"

definition picsetmask :: "u16 \<Rightarrow> unit M" where
  "picsetmask m = thenP (modify (\<lambda>h. h\<lparr>h_irqmask := m\<rparr>))
    (thenP (outb (IO_PIC1 + 1) (ucast m))
    (outb (IO_PIC2 + 1) (ucast (drop_bit 8 m))))"

definition picenable :: "nat \<Rightarrow> unit M" where
  "picenable irq = bindP (reads h_irqmask) (\<lambda>m. picsetmask (m AND NOT (push_bit irq 1)))"

definition picinit :: "unit M" where
  "picinit = thenP (forP [
       (IO_PIC1 + 1, 0xFF), (IO_PIC2 + 1, 0xFF),
       (IO_PIC1, 0x11), (IO_PIC1 + 1, ucast T_IRQ0), (IO_PIC1 + 1, push_bit IRQ_SLAVE 1), (IO_PIC1 + 1, 0x3),
       (IO_PIC2, 0x11), (IO_PIC2 + 1, ucast (T_IRQ0 + 8)), (IO_PIC2 + 1, of_nat IRQ_SLAVE), (IO_PIC2 + 1, 0x3),
       (IO_PIC1, 0x68), (IO_PIC1, 0x0a), (IO_PIC2, 0x68), (IO_PIC2, 0x0a)] (\<lambda>(port, v). outb port v))
    (bindP (reads h_irqmask) (\<lambda>m. whenP (m \<noteq> 0xFFFF) (picsetmask m)))"

section \<open>I/O APIC\<close>

abbreviation REG_ID :: u32 where "REG_ID \<equiv> 0"
abbreviation REG_VER :: u32 where "REG_VER \<equiv> 1"
abbreviation REG_TABLE :: u32 where "REG_TABLE \<equiv> 0x10"
abbreviation INT_DISABLED :: u32 where "INT_DISABLED \<equiv> 0x10000"

definition ioapicread :: "u32 \<Rightarrow> u32 M" where
  "ioapicread reg = thenP (modify (\<lambda>h. h\<lparr>h_ioreg := reg\<rparr>)) (reads (\<lambda>h. h_iodata h (h_ioreg h)))"

definition ioapicwrite :: "u32 \<Rightarrow> u32 \<Rightarrow> unit M" where
  "ioapicwrite reg data = thenP (modify (\<lambda>h. h\<lparr>h_ioreg := reg\<rparr>))
     (modify (\<lambda>h. h\<lparr>h_iodata := (h_iodata h)(h_ioreg h := data)\<rparr>))"

definition ioapicinit :: "unit M" where
  "ioapicinit = bindP (reads h_ismp) (\<lambda>ismp. if \<not> ismp then ret () else
     bindP (ioapicread REG_VER) (\<lambda>v.
     bindP (ioapicread REG_ID) (\<lambda>i.
     bindP (reads h_ioapicid) (\<lambda>ioapicid.
     thenP (whenP (drop_bit 24 i \<noteq> ucast ioapicid)
       (kern (cprintf (bytes ''ioapicinit: id isn't equal to ioapicid; not a MP'' @ [10]) [])))
    (forP [0..<Suc (unat (drop_bit 16 v AND 0xFF))] (\<lambda>i.
       thenP (ioapicwrite (REG_TABLE + 2 * of_nat i) (INT_DISABLED OR (T_IRQ0 + of_nat i)))
        (ioapicwrite (REG_TABLE + 2 * of_nat i + 1) 0)))))))"

definition ioapicenable :: "nat \<Rightarrow> u32 \<Rightarrow> unit M" where
  "ioapicenable irq cpunum = bindP (reads h_ismp) (\<lambda>ismp. whenP ismp
     (thenP (ioapicwrite (REG_TABLE + 2 * of_nat irq) (T_IRQ0 + of_nat irq))
      (ioapicwrite (REG_TABLE + 2 * of_nat irq + 1) (push_bit 24 cpunum))))"

section \<open>Local APIC\<close>

text \<open>The registers, and their numbers as indices of an array of words.\<close>

datatype lapic_reg = L_ID | L_VER | L_TPR | L_EOI | L_SVR | L_ESR | L_ICRLO | L_ICRHI | L_TIMER | L_PCINT | L_LINT0 | L_LINT1 | L_ERROR | L_TICR | L_TCCR | L_TDCR

fun lapic_index :: "lapic_reg \<Rightarrow> u32" where
  "lapic_index L_ID = 0x20 div 4"
| "lapic_index L_VER = 0x30 div 4"
| "lapic_index L_TPR = 0x80 div 4"
| "lapic_index L_EOI = 0xB0 div 4"
| "lapic_index L_SVR = 0xF0 div 4"
| "lapic_index L_ESR = 0x280 div 4"
| "lapic_index L_ICRLO = 0x300 div 4"
| "lapic_index L_ICRHI = 0x310 div 4"
| "lapic_index L_TIMER = 0x320 div 4"
| "lapic_index L_PCINT = 0x340 div 4"
| "lapic_index L_LINT0 = 0x350 div 4"
| "lapic_index L_LINT1 = 0x360 div 4"
| "lapic_index L_ERROR = 0x370 div 4"
| "lapic_index L_TICR = 0x380 div 4"
| "lapic_index L_TCCR = 0x390 div 4"
| "lapic_index L_TDCR = 0x3E0 div 4"

abbreviation L_ENABLE :: u32 where "L_ENABLE \<equiv> 0x100"
abbreviation L_INIT :: u32 where "L_INIT \<equiv> 0x500"
abbreviation L_STARTUP :: u32 where "L_STARTUP \<equiv> 0x600"
abbreviation L_DELIVS :: u32 where "L_DELIVS \<equiv> 0x1000"
abbreviation L_ASSERT :: u32 where "L_ASSERT \<equiv> 0x4000"
abbreviation L_LEVEL :: u32 where "L_LEVEL \<equiv> 0x8000"
abbreviation L_BCAST :: u32 where "L_BCAST \<equiv> 0x80000"
abbreviation L_X1 :: u32 where "L_X1 \<equiv> 0xB"
abbreviation L_PERIODIC :: u32 where "L_PERIODIC \<equiv> 0x20000"
abbreviation L_MASKED :: u32 where "L_MASKED \<equiv> 0x10000"
abbreviation IRQ_ERROR :: u32 where "IRQ_ERROR \<equiv> 19"

definition lapicr :: "lapic_reg \<Rightarrow> u32 M" where
  "lapicr r = (\<lambda>h. let v = h_lreg h (lapic_index r) in if r = L_ICRLO \<and> h_busy h > 0
     then Ret (v OR L_DELIVS) (h\<lparr>h_busy := h_busy h - 1\<rparr>) else Ret v h)"

definition lapicw :: "lapic_reg \<Rightarrow> u32 \<Rightarrow> unit M" where
  "lapicw r v = thenP (modify (\<lambda>h. h\<lparr>h_lreg := (h_lreg h)(lapic_index r := v)\<rparr>)) (bindP (lapicr L_ID) (\<lambda>_. ret ()))"

text \<open>\<^verbatim>\<open>while(lapic[ICRLO] & DELIVS);\<close>\<close>

primrec lapic_wait :: "nat \<Rightarrow> unit M" where
  "lapic_wait 0 = spin"
| "lapic_wait (Suc fuel) = bindP (lapicr L_ICRLO) (\<lambda>v. if v AND L_DELIVS \<noteq> 0 then lapic_wait fuel else ret ())"

definition lapicinit :: "u32 \<Rightarrow> unit M" where
  "lapicinit c = bindP (reads h_lapic) (\<lambda>lapic.
     thenP (kern (cprintf (bytes ''lapicinit: %d 0x%x'' @ [10]) [Word c, Word lapic]))
    (if lapic = 0 then ret () else
     thenP (lapicw L_SVR (L_ENABLE OR (T_IRQ0 + IRQ_SPURIOUS)))
    (thenP (lapicw L_TDCR L_X1)
    (thenP (lapicw L_TIMER (L_PERIODIC OR (T_IRQ0 + IRQ_TIMER)))
    (thenP (lapicw L_TICR 10000000)
    (thenP (lapicw L_LINT0 L_MASKED)
    (thenP (lapicw L_LINT1 L_MASKED)
    (bindP (lapicr L_VER) (\<lambda>ver.
     thenP (whenP (drop_bit 16 ver AND 0xFF \<ge> 4) (lapicw L_PCINT L_MASKED))
    (thenP (lapicw L_ERROR (T_IRQ0 + IRQ_ERROR))
    (thenP (lapicw L_ESR 0)
    (thenP (lapicw L_ESR 0)
    (thenP (lapicw L_EOI 0)
    (thenP (lapicw L_ICRHI 0)
    (thenP (lapicw L_ICRLO (L_BCAST OR L_INIT OR L_LEVEL))
    (thenP (bindP (reads (\<lambda>h. Suc (h_busy h))) lapic_wait)
    (lapicw L_TPR 0)))))))))))))))))"

text \<open>\<^verbatim>\<open>cpunum\<close>; \<open>ret_addr\<close> is the return address it prints.\<close>

definition cpunum :: "u32 \<Rightarrow> u32 M" where
  "cpunum ret_addr = bindP (reads (\<lambda>h. c_IF (k_cpu (h_kernel h)))) (\<lambda>intr.
     thenP (whenP intr (bindP (reads h_warned) (\<lambda>n.
       thenP (modify (\<lambda>h. h\<lparr>h_warned := n + 1\<rparr>))
       (whenP (n = 0) (kern (cprintf (bytes ''cpu called from %x with interrupts enabled'' @ [10]) [Word ret_addr]))))))
    (bindP (reads h_lapic) (\<lambda>lapic.
     if lapic \<noteq> 0 then bindP (lapicr L_ID) (\<lambda>v. ret (drop_bit 24 v)) else ret 0)))"

definition lapiceoi :: "unit M" where
  "lapiceoi = bindP (reads h_lapic) (\<lambda>lapic. whenP (lapic \<noteq> 0) (lapicw L_EOI 0))"

definition microdelay :: "int \<Rightarrow> unit M" where
  "microdelay us = ret ()"

definition lapicstartap :: "u8 \<Rightarrow> u32 \<Rightarrow> unit M" where
  "lapicstartap apicid addr = thenP (outb 0x70 0xF)
    (thenP (outb 0x71 0x0A)
    (thenP (kern (setmem (store_bytes 0x467 (enc16 0 @ enc16 (ucast (drop_bit 4 addr))))))
    (thenP (lapicw L_ICRHI (push_bit 24 (ucast apicid)))
    (thenP (lapicw L_ICRLO (L_INIT OR L_LEVEL OR L_ASSERT))
    (thenP (microdelay 200)
    (thenP (lapicw L_ICRLO (L_INIT OR L_LEVEL))
    (thenP (microdelay 100)
    (repeatP 2 (thenP (lapicw L_ICRHI (push_bit 24 (ucast apicid)))
      (thenP (lapicw L_ICRLO (L_STARTUP OR drop_bit 12 addr)) (microdelay 200)))))))))))"

section \<open>Timer and serial port\<close>

definition TIMER_DIV :: "nat \<Rightarrow> nat" where
  "TIMER_DIV x = (1193182 + x div 2) div x"

definition timerinit :: "unit M" where
  "timerinit = thenP (outb 0x43 (0x00 OR 0x04 OR 0x30))
    (thenP (outb 0x40 (of_nat (TIMER_DIV 100 mod 256)))
    (thenP (outb 0x40 (of_nat (TIMER_DIV 100 div 256)))
    (picenable 0)))"

abbreviation COM1 :: u16 where "COM1 \<equiv> 0x3f8"

definition uartinit :: "unit M" where
  "uartinit = thenP (forP [(COM1 + 2, 0), (COM1 + 3, 0x80), (COM1, of_nat (115200 div 9600)), (COM1 + 1, 0),
       (COM1 + 3, 0x03), (COM1 + 4, 0), (COM1 + 1, 0x01)] (\<lambda>(port, v). outb port v))
    (bindP (inb (COM1 + 5)) (\<lambda>st. if st = 0xFF then ret () else
     thenP (kern (modify (\<lambda>k. k\<lparr>k_uart := True\<rparr>)))
    (bindP (inb (COM1 + 2)) (\<lambda>_. bindP (inb COM1) (\<lambda>_.
     thenP (picenable 4)
    (thenP (ioapicenable 4 0)
    (forP (bytes ''xv6...'' @ [10]) (\<lambda>c. kern (uartputc (uint c))))))))))"

section \<open>Segments and gates\<close>

abbreviation SEG_KCODE :: nat where "SEG_KCODE \<equiv> 1"
abbreviation SEG_KDATA :: nat where "SEG_KDATA \<equiv> 2"
abbreviation SEG_KCPU :: nat where "SEG_KCPU \<equiv> 3"
abbreviation SEG_UCODE :: nat where "SEG_UCODE \<equiv> 4"
abbreviation SEG_UDATA :: nat where "SEG_UDATA \<equiv> 5"
abbreviation SEG_TSS :: nat where "SEG_TSS \<equiv> 6"

definition setgdt :: "nat \<Rightarrow> nat \<Rightarrow> segdesc \<Rightarrow> unit M" where
  "setgdt c i d = (\<lambda>h. if c < length (h_gdt h) then Ret () (h\<lparr>h_gdt := (h_gdt h)[c := (h_gdt h ! c)[i := d]]\<rparr>)
     else Fault ''cpus'')"

definition seginit :: "u32 \<Rightarrow> unit M" where
  "seginit ret_addr = bindP (cpunum ret_addr) (\<lambda>n. let c = unat n in
     thenP (setgdt c SEG_KCODE (SEG (STA_X OR STA_R) 0 0xffffffff 0))
    (thenP (setgdt c SEG_KDATA (SEG STA_W 0 0xffffffff 0))
    (thenP (setgdt c SEG_UCODE (SEG (STA_X OR STA_R) 0 0xffffffff SEG_DPL_USER))
    (thenP (setgdt c SEG_UDATA (SEG STA_W 0 0xffffffff SEG_DPL_USER))
    (bindP (reads (\<lambda>h. sym_percpu (h_sym h) c)) (\<lambda>a.
     thenP (setgdt c SEG_KCPU (SEG STA_W a 8 0))
    (bindP (reads (\<lambda>h. unat (h_ids h ! c))) (\<lambda>i.
     kern (modify (setcpu (\<lambda>x. x\<lparr>c_id := i, c_proc := None\<rparr>)))))))))))"

text \<open>The part of \<^verbatim>\<open>switchuvm\<close> that \<open>Vm.switchuvm\<close> leaves out: the descriptor of the task state and its stack segment.\<close>

definition switchuvm_tss :: "nat \<Rightarrow> unit M" where
  "switchuvm_tss c = bindP (reads (\<lambda>h. sym_ts (h_sym h) c)) (\<lambda>a.
     thenP (setgdt c SEG_TSS ((SEG16 STS_T32A a (104 - 1) 0)\<lparr>sd_s := 0\<rparr>))
    (modify (\<lambda>h. h\<lparr>h_ss0 := (h_ss0 h)[c := of_nat (SEG_KDATA * 8)]\<rparr>)))"

definition tvinit :: "unit M" where
  "tvinit = thenP (modify (\<lambda>h. h\<lparr>h_idt := map (\<lambda>i. SETGATE False (of_nat (SEG_KCODE * 8)) (sym_vectors (h_sym h) i) 0) [0..<256]\<rparr>))
    (thenP (modify (\<lambda>h. h\<lparr>h_idt := (h_idt h)[unat T_SYSCALL :=
       SETGATE True (of_nat (SEG_KCODE * 8)) (sym_vectors (h_sym h) (unat T_SYSCALL)) SEG_DPL_USER]\<rparr>))
    (kern (initlock TicksLock)))"

definition idtinit :: "unit M" where
  "idtinit = modify (\<lambda>h. h\<lparr>h_idtr := True\<rparr>)"

abbreviation CR0_PG :: u32 where "CR0_PG \<equiv> 0x80000000"

definition vmenable :: "unit M" where
  "vmenable = thenP (kern switchkvm) (modify (\<lambda>h. h\<lparr>h_cr0 := h_cr0 h OR CR0_PG\<rparr>))"

section \<open>Console and disk\<close>

definition consoleinit :: "unit M" where
  "consoleinit = thenP (kern (initlock ConsLock))
    (thenP (kern (initlock InputLock))
    (thenP (kern (modify (\<lambda>k. k\<lparr>k_devsw := (k_devsw k)(CONSOLE := Some ConsoleDev)\<rparr>)))
    (thenP (kern (modify (\<lambda>k. k\<lparr>k_locking := True\<rparr>)))
    (thenP (picenable 1)
    (ioapicenable 1 0)))))"

text \<open>\<^verbatim>\<open>ideinit\<close>; \<open>probe\<close> is what the status register of disk 1 shows when it is polled.\<close>

definition ideinit :: "u8 list \<Rightarrow> unit M" where
  "ideinit probe = thenP (kern (initlock IdeLock))
    (thenP (picenable 14)
    (bindP (reads h_ncpu) (\<lambda>n.
     thenP (ioapicenable 14 (of_nat n - 1))
    (bindP (kern (idewait False)) (\<lambda>_.
     thenP (outb 0x1f6 (0xe0 OR push_bit 4 1))
    (thenP (kern (modify (\<lambda>k. if \<exists>s \<in> set (take 1000 probe). s \<noteq> 0 then k\<lparr>k_havedisk1 := True\<rparr> else k)))
    (outb 0x1f6 (0xe0 OR push_bit 4 0))))))))"

section \<open>Interrupt tables\<close>

lemma kern_apply [simp]: "kern m h = (case m (h_kernel h) of Ret v k \<Rightarrow> Ret v (h\<lparr>h_kernel := k\<rparr>) | Panic msg \<Rightarrow> Panic msg
     | Fault what \<Rightarrow> Fault what | Switch k \<Rightarrow> Switch (h\<lparr>h_kernel := k\<rparr>) | Spin k \<Rightarrow> Spin (h\<lparr>h_kernel := k\<rparr>))"
  by (simp add: kern_def)

text \<open>C35. The interrupt table: every vector leads to its own entry point in the kernel's code segment, and a user
  program can raise the system call trap and nothing else; all other entries turn interrupts off.\<close>

theorem tvinit_gates:
  "\<exists>h'. tvinit h = Ret () h' \<and> map gate_entry (h_idt h') = map (sym_vectors (h_sym h)) [0..<256] \<and>
     map gd_cs (h_idt h') = replicate 256 8 \<and> map gd_p (h_idt h') = replicate 256 1 \<and>
     {i. i < length (h_idt h') \<and> gd_dpl (h_idt h' ! i) \<noteq> 0} = {64} \<and>
     {i. i < length (h_idt h') \<and> gd_type (h_idt h' ! i) \<noteq> STS_IG32} = {64}"
proof -
  define idt where "idt = (map (\<lambda>i. SETGATE False 8 (sym_vectors (h_sym h) i) 0) [0..<256])[64 := SETGATE True 8 (sym_vectors (h_sym h) 64) 3]"
  have l: "length idt = 256" by (simp add: idt_def)
  have n: "idt ! i = SETGATE (i = 64) 8 (sym_vectors (h_sym h) i) (if i = 64 then 3 else 0)" if "i < 256" for i
    using that by (auto simp: idt_def nth_list_update)
  have "\<exists>h'. tvinit h = Ret () h' \<and> h_idt h' = idt"
    by (simp add: tvinit_def initlock_def idt_def)
  then obtain h' where h': "tvinit h = Ret () h'" "h_idt h' = idt" by blast
  have "map gate_entry idt = map (sym_vectors (h_sym h)) [0..<256]" by (rule nth_equalityI) (simp_all add: l n)
  moreover have "map gd_cs idt = replicate 256 8" "map gd_p idt = replicate 256 1"
    by (rule nth_equalityI; simp add: l n SETGATE_def)+
  moreover have "{i. i < length idt \<and> gd_dpl (idt ! i) \<noteq> 0} = {64}" "{i. i < length idt \<and> gd_type (idt ! i) \<noteq> STS_IG32} = {64}"
    by (auto simp: l n SETGATE_def split: if_splits)
  ultimately show ?thesis using h' by auto
qed

section \<open>Segments\<close>

text \<open>After \<^verbatim>\<open>seginit\<close> code and data segments cover all addresses, and the user's have the user's privilege.\<close>

lemma setgdt_ret: "c < length (h_gdt h) \<Longrightarrow> setgdt c i d h = Ret () (h\<lparr>h_gdt := (h_gdt h)[c := (h_gdt h ! c)[i := d]]\<rparr>)"
  by (simp add: setgdt_def)

lemma seginit_segments:
  assumes "cpunum pc h = Ret n h1" "unat n < length (h_gdt h1)" "length (h_gdt h1 ! unat n) = 7"
  shows "\<exists>h'. seginit pc h = Ret () h' \<and>
     (let g = h_gdt h' ! unat n in \<forall>i \<in> {SEG_KCODE, SEG_KDATA, SEG_UCODE, SEG_UDATA}.
        seg_base (g ! i) = 0 \<and> seg_limit (g ! i) = 0xffffffff \<and> sd_dpl (g ! i) = (if i \<in> {SEG_UCODE, SEG_UDATA} then 3 else 0)) \<and>
     seg_base (h_gdt h' ! unat n ! SEG_KCPU) = sym_percpu (h_sym h1) (unat n)"
  using assms by (simp add: seginit_def Let_def setgdt_ret setcpu_def) (simp add: SEG_def)

section \<open>Masks of the interrupt controllers\<close>

text \<open>The mask the two controllers were given last, and its agreement with the variable \<^verbatim>\<open>irqmask\<close>.\<close>

definition port_mask :: "(u16 \<times> u8) list \<Rightarrow> u16" where
  "port_mask out = ucast (port_value out 0x21) OR push_bit 8 (ucast (port_value out 0xA1))"

lemma port_value_snoc: "port_value (out @ [(p, v)]) r = (if p = r then ucast v else port_value out r)"
  by (simp add: port_value_def)

lemma picsetmask_masks:
  "\<exists>h'. picsetmask m h = Ret () h' \<and> h_irqmask h' = m \<and> port_mask (h_out h') = m \<and> h_kernel h' = h_kernel h"
proof -
  have "ucast (ucast (ucast m :: u8) :: u32) OR push_bit 8 (ucast (ucast (ucast (drop_bit 8 m) :: u8) :: u32)) = (m :: u16)"
  proof (rule bit_word_eqI)
    fix n assume "n < LENGTH(16)"
    then show "bit (ucast (ucast (ucast m :: u8) :: u32) OR push_bit 8 (ucast (ucast (ucast (drop_bit 8 m) :: u8) :: u32)) :: u16) n = bit m n"
      by (cases "n < 8") (auto simp: bit_simps)
  qed
  then show ?thesis by (simp add: picsetmask_def outb_def port_mask_def port_value_def)
qed

lemma picenable_masks:
  "\<exists>h'. picenable irq h = Ret () h' \<and> h_irqmask h' = h_irqmask h AND NOT (push_bit irq 1) \<and> port_mask (h_out h') = h_irqmask h' \<and>
     h_kernel h' = h_kernel h"
  using picsetmask_masks [of "h_irqmask h AND NOT (push_bit irq 1)" h] by (auto simp: picenable_def)

text \<open>Enabling an interrupt line lets that line through and changes no other.\<close>

lemma picenable_line:
  "picenable irq h = Ret () h' \<Longrightarrow> irq < 16 \<Longrightarrow> n < 16 \<Longrightarrow> bit (port_mask (h_out h')) n \<longleftrightarrow> bit (h_irqmask h) n \<and> n \<noteq> irq"
  using picenable_masks [of irq h] by (auto simp: bit_simps)

lemma picinit_masks:
  "h_irqmask h \<noteq> 0xFFFF \<Longrightarrow> \<exists>h'. picinit h = Ret () h' \<and> h_irqmask h' = h_irqmask h \<and> port_mask (h_out h') = h_irqmask h"
  using picsetmask_masks [of "h_irqmask h"] by (force simp: picinit_def outb_def)

text \<open>The wait for the local APIC ends once it has delivered.\<close>

lemma lapic_wait_ends: "h_busy h < fuel \<Longrightarrow> h_lreg h (lapic_index L_ICRLO) AND L_DELIVS = 0 \<Longrightarrow> lapic_wait fuel h = Ret () (h\<lparr>h_busy := 0\<rparr>)"
proof (induction fuel arbitrary: h)
  case (Suc fuel)
  show ?case
  proof (cases "h_busy h")
    case 0
    then show ?thesis using Suc.prems by (simp add: lapicr_def)
  next
    case (Suc n)
    have "(h_lreg h (lapic_index L_ICRLO) OR L_DELIVS) AND L_DELIVS \<noteq> 0" by (simp add: bit.conj_disj_distrib2)
    then show ?thesis using Suc Suc.prems Suc.IH [of "h\<lparr>h_busy := n\<rparr>"] by (simp add: lapicr_def)
  qed
qed simp

end
