(* ===== verification/Mp.thy ===== *)
theory Mp
  imports Devices
begin

text \<open>
  Discovery of the processors (\<^verbatim>\<open>kernel/mp.c\<close>, \<^verbatim>\<open>mp.h\<close>): the search for the table the firmware left in memory, its
  check sums, and the loop over its entries. The table entries are read at their byte offsets.
\<close>

section \<open>Search\<close>

definition sum8 :: "mem \<Rightarrow> addr \<Rightarrow> nat \<Rightarrow> u8" where
  "sum8 m a len = sum_list (load_bytes m a len)"

primrec mpsearch1_loop :: "nat \<Rightarrow> mem \<Rightarrow> addr \<Rightarrow> addr \<Rightarrow> addr" where
  "mpsearch1_loop 0 m p e = 0"
| "mpsearch1_loop (Suc n) m p e = (if p < e then
     if load_bytes m p 4 = bytes ''_MP_'' \<and> sum8 m p 16 = 0 then p else mpsearch1_loop n m (p + 16) e
     else 0)"

definition mpsearch1 :: "mem \<Rightarrow> addr \<Rightarrow> u32 \<Rightarrow> addr" where
  "mpsearch1 m a len = mpsearch1_loop (Suc (unat len div 16)) m a (a + len)"

definition load8 :: "mem \<Rightarrow> addr \<Rightarrow> u32" where
  "load8 m a = ucast (m a)"

definition load16 :: "mem \<Rightarrow> addr \<Rightarrow> u16" where
  "load16 m a = dec16 (m a) (m (a + 1))"

definition mpsearch :: "mem \<Rightarrow> addr" where
  "mpsearch m =
    (let p = push_bit 4 (push_bit 8 (load8 m 0x40F) OR load8 m 0x40E);
         r = (if p \<noteq> 0 then mpsearch1 m p 1024
              else mpsearch1 m ((push_bit 8 (load8 m 0x414) OR load8 m 0x413) * 1024 - 1024) 1024)
     in if r \<noteq> 0 then r else mpsearch1 m 0xF0000 0x10000)"

text \<open>The addresses of the floating pointer and of the configuration table.\<close>

definition mpconfig :: "mem \<Rightarrow> (addr \<times> addr) option" where
  "mpconfig m =
    (let mp = mpsearch m; conf = load32 m (mp + 4) in
     if mp = 0 \<or> conf = 0 then None
     else if load_bytes m conf 4 \<noteq> bytes ''PCMP'' then None
     else if m (conf + 6) \<noteq> 1 \<and> m (conf + 6) \<noteq> 4 then None
     else if sum8 m conf (unat (load16 m (conf + 4))) \<noteq> 0 then None
     else Some (mp, conf))"

section \<open>The entries\<close>

abbreviation MPPROC :: u8 where "MPPROC \<equiv> 0"
abbreviation MPBUS :: u8 where "MPBUS \<equiv> 1"
abbreviation MPIOAPIC :: u8 where "MPIOAPIC \<equiv> 2"
abbreviation MPIOINTR :: u8 where "MPIOINTR \<equiv> 3"
abbreviation MPLINTR :: u8 where "MPLINTR \<equiv> 4"
abbreviation MPBOOT :: u8 where "MPBOOT \<equiv> 2"

definition mem_of :: "machine \<Rightarrow> mem" where
  "mem_of h = k_mem (h_kernel h)"

text \<open>A processor entry; writing past the end of the array \<^verbatim>\<open>cpus\<close> is a fault.\<close>

definition mp_proc :: "addr \<Rightarrow> unit M" where
  "mp_proc p = bindP (reads (\<lambda>h. mem_of h (p + 1))) (\<lambda>apicid.
     bindP (reads (\<lambda>h. mem_of h (p + 3))) (\<lambda>flags.
     bindP (reads h_ncpu) (\<lambda>n.
     thenP (whenP (int n \<noteq> uint apicid)
       (thenP (kern (cprintf (bytes ''mpinit: ncpu=%d apicid=%d'' @ [10]) [Word (of_nat n), Word (ucast apicid)]))
        (modify (\<lambda>h. h\<lparr>h_ismp := False\<rparr>))))
    (thenP (whenP (flags AND MPBOOT \<noteq> 0) (modify (\<lambda>h. h\<lparr>h_bcpu := n\<rparr>)))
    (\<lambda>h. if n < length (h_ids h) then Ret () (h\<lparr>h_ids := (h_ids h)[n := of_nat n], h_ncpu := n + 1\<rparr>)
        else Fault ''cpus'')))))"

text \<open>The loop does not advance past an entry of an unknown type.\<close>

primrec mpinit_loop :: "nat \<Rightarrow> addr \<Rightarrow> addr \<Rightarrow> unit M" where
  "mpinit_loop 0 p e = spin"
| "mpinit_loop (Suc fuel) p e = (if p < e then
     bindP (reads (\<lambda>h. mem_of h p)) (\<lambda>ty.
     if ty = MPPROC then thenP (mp_proc p) (mpinit_loop fuel (p + 20) e)
     else if ty = MPIOAPIC then thenP (modify (\<lambda>h. h\<lparr>h_ioapicid := mem_of h (p + 1)\<rparr>)) (mpinit_loop fuel (p + 8) e)
     else if ty = MPBUS \<or> ty = MPIOINTR \<or> ty = MPLINTR then mpinit_loop fuel (p + 8) e
     else thenP (kern (cprintf (bytes ''mpinit: unknown config type %x'' @ [10]) [Word (ucast ty)]))
       (thenP (modify (\<lambda>h. h\<lparr>h_ismp := False\<rparr>)) (mpinit_loop fuel p e)))
     else ret ())"

definition mpinit :: "unit M" where
  "mpinit = thenP (modify (\<lambda>h. h\<lparr>h_bcpu := 0\<rparr>))
    (bindP (reads (\<lambda>h. mpconfig (mem_of h))) (\<lambda>r. case r of
       None \<Rightarrow> ret ()
     | Some (mp, conf) \<Rightarrow>
         thenP (modify (\<lambda>h. h\<lparr>h_ismp := True, h_lapic := load32 (mem_of h) (conf + 36)\<rparr>))
        (bindP (reads (\<lambda>h. load16 (mem_of h) (conf + 4))) (\<lambda>len.
         thenP (mpinit_loop (Suc (unat len)) (conf + 44) (conf + ucast len))
        (bindP (reads h_ismp) (\<lambda>ismp.
         if \<not> ismp then modify (\<lambda>h. h\<lparr>h_ncpu := 1, h_lapic := 0, h_ioapicid := 0\<rparr>) else
         bindP (reads (\<lambda>h. mem_of h (mp + 12))) (\<lambda>imcrp.
         whenP (imcrp \<noteq> 0)
          (thenP (outb 0x22 0x70)
          (bindP (inb 0x23) (\<lambda>v. outb 0x23 (v OR 1)))))))))))"

definition mpbcpu :: "nat M" where
  "mpbcpu = reads h_bcpu"

section \<open>Reading a table\<close>

text \<open>The entries of a table, with what the loop takes from them; \<open>n\<close> processors come before.\<close>

datatype mpentry = MpProc bool | MpIoapic u8 | MpOther

fun table_at :: "mem \<Rightarrow> addr \<Rightarrow> nat \<Rightarrow> mpentry list \<Rightarrow> bool" where
  "table_at m p n [] = True"
| "table_at m p n (MpProc b # es) = (m p = MPPROC \<and> m (p + 1) = of_nat n \<and> (m (p + 3) AND MPBOOT \<noteq> 0) = b \<and> table_at m (p + 20) (n + 1) es)"
| "table_at m p n (MpIoapic i # es) = (m p = MPIOAPIC \<and> m (p + 1) = i \<and> table_at m (p + 8) n es)"
| "table_at m p n (MpOther # es) = (m p \<in> {MPBUS, MPIOINTR, MPLINTR} \<and> table_at m (p + 8) n es)"

definition entry_size :: "mpentry \<Rightarrow> nat" where
  "entry_size e = (case e of MpProc _ \<Rightarrow> 20 | _ \<Rightarrow> 8)"

definition procs :: "mpentry list \<Rightarrow> nat" where
  "procs es = length (filter (\<lambda>e. case e of MpProc _ \<Rightarrow> True | _ \<Rightarrow> False) es)"

lemma entry_size_simps [simp]: "entry_size (MpProc b) = 20" "entry_size (MpIoapic i) = 8" "entry_size MpOther = 8"
  by (simp_all add: entry_size_def)

lemma procs_simps [simp]: "procs [] = 0" "procs (MpProc b # es) = Suc (procs es)" "procs (MpIoapic i # es) = procs es" "procs (MpOther # es) = procs es"
  by (simp_all add: procs_def)

text \<open>The machine after the entries.\<close>

fun found :: "mpentry list \<Rightarrow> machine \<Rightarrow> machine" where
  "found [] h = h"
| "found (MpProc b # es) h = (let n = h_ncpu h; h1 = (if b then h\<lparr>h_bcpu := n\<rparr> else h)
     in found es (h1\<lparr>h_ids := (h_ids h)[n := of_nat n], h_ncpu := n + 1\<rparr>))"
| "found (MpIoapic i # es) h = found es (h\<lparr>h_ioapicid := i\<rparr>)"
| "found (MpOther # es) h = found es h"

lemma mpinit_loop_found:
  assumes "table_at (mem_of h) p (h_ncpu h) es" "unat e = unat p + sum_list (map entry_size es)" "length es < fuel"
    "h_ncpu h + procs es \<le> length (h_ids h)" "length (h_ids h) \<le> 255"
  shows "mpinit_loop fuel p e h = Ret () (found es h)"
  using assms
proof (induction es arbitrary: p h fuel)
  case Nil
  then show ?case by (cases fuel) (simp_all add: word_less_nat_alt)
next
  case (Cons x es)
  obtain f where f: "fuel = Suc f" "length es < f" using Cons.prems(3) by (cases fuel) auto
  let ?s = "entry_size x"
  have s: "0 < ?s" by (cases x) simp_all
  have e: "unat e < 4294967296" using unsigned_less [of e] by simp
  have lt: "p < e" using Cons.prems(2) s by (simp add: word_less_nat_alt)
  have ps: "unat (p + of_nat ?s) = unat p + ?s" using Cons.prems(2) e by (intro unat_add_of_nat) simp
  have e2: "unat e = unat (p + of_nat ?s) + sum_list (map entry_size es)" using Cons.prems(2) ps by simp
  show ?case
  proof (cases x)
    case (MpProc b)
    let ?n = "h_ncpu h"
    let ?h = "(if b then h\<lparr>h_bcpu := ?n\<rparr> else h)\<lparr>h_ids := (h_ids h)[?n := of_nat ?n], h_ncpu := ?n + 1\<rparr>"
    have n: "?n < length (h_ids h)" "?n + 1 + procs es \<le> length (h_ids h)" using Cons.prems(4) MpProc by simp_all
    then have u: "uint (of_nat ?n :: u8) = int ?n" using Cons.prems(5) by (simp add: uint_nat unat_of_nat take_bit_eq_mod)
    have "mp_proc p h = Ret () ?h" using Cons.prems(1) MpProc n u by (auto simp: mp_proc_def)
    moreover have "mpinit_loop f (p + 20) e ?h = Ret () (found es ?h)"
      using Cons.IH [of ?h "p + 20" f] Cons.prems(1,5) MpProc n(2) f(2) e2 by (auto simp: mem_of_def)
    ultimately show ?thesis using f(1) lt Cons.prems(1) MpProc by (simp add: Let_def)
  next
    case (MpIoapic i)
    have "mpinit_loop f (p + 8) e (h\<lparr>h_ioapicid := i\<rparr>) = Ret () (found es (h\<lparr>h_ioapicid := i\<rparr>))"
      using Cons.IH [of "h\<lparr>h_ioapicid := i\<rparr>" "p + 8" f] Cons.prems(1,4,5) MpIoapic f(2) e2 by (auto simp: mem_of_def)
    then show ?thesis using f(1) lt Cons.prems(1) MpIoapic by (simp add: mem_of_def)
  next
    case MpOther
    have "mpinit_loop f (p + 8) e h = Ret () (found es h)"
      using Cons.IH [of h "p + 8" f] Cons.prems(1,4,5) MpOther f(2) e2 by auto
    then show ?thesis using f(1) lt Cons.prems(1) MpOther by auto
  qed
qed

lemma found_fields:
  "h_ismp (found es h) = h_ismp h" "h_lapic (found es h) = h_lapic h" "h_kernel (found es h) = h_kernel h"
  "h_ncpu (found es h) = h_ncpu h + procs es" "length (h_ids (found es h)) = length (h_ids h)"
  by (induction es h rule: found.induct) (simp_all add: Let_def)

lemma found_ids:
  "i < length (h_ids h) \<Longrightarrow> h_ids (found es h) ! i =
     (if h_ncpu h \<le> i \<and> i < h_ncpu h + procs es then of_nat i else h_ids h ! i)"
proof (induction es arbitrary: h)
  case (Cons x es)
  then show ?case by (cases x) (auto simp: Let_def nth_list_update not_less_eq_eq dest: le_antisym)
qed auto

text \<open>C37. On a valid table with processors numbered from 0, \<^verbatim>\<open>mpinit\<close> returns with every processor registered under its
  number, and does not leave the multiprocessor mode.\<close>

theorem mpinit_processors:
  assumes "mpconfig (mem_of h) = Some (mp, conf)" "table_at (mem_of h) (conf + 44) 0 es"
    "unat (load16 (mem_of h) (conf + 4)) = 44 + sum_list (map entry_size es)" "unat conf + 65536 \<le> 4294967296"
    "h_ncpu h = 0" "length (h_ids h) = NCPU" "procs es \<le> NCPU" "mem_of h (mp + 12) = 0"
  shows "\<exists>h'. mpinit h = Ret () h' \<and> h_ismp h' \<and> h_ncpu h' = procs es \<and> take (procs es) (h_ids h') = map of_nat [0..<procs es] \<and>
     h_lapic h' = load32 (mem_of h) (conf + 36)"
proof -
  let ?len = "load16 (mem_of h) (conf + 4)"
  let ?h = "h\<lparr>h_bcpu := 0, h_ismp := True, h_lapic := load32 (mem_of h) (conf + 36)\<rparr>"
  have l: "unat ?len < 65536" using unsigned_less [of ?len] by simp
  have "unat (ucast ?len :: u32) = unat ?len" using l by (simp add: unsigned_ucast_eq) (simp add: take_bit_nat_eq_self)
  then have e: "unat (conf + ucast ?len) = unat conf + unat ?len"
    using unat_add_of_nat [of conf "unat ?len"] assms(4) l by simp
  have c: "unat (conf + 44) = unat conf + 44" using unat_add_of_nat [of conf 44] assms(4) by simp
  have "length es \<le> sum_list (map entry_size es)" by (induction es) (auto simp: entry_size_def split: mpentry.split)
  then have "mpinit_loop (Suc (unat ?len)) (conf + 44) (conf + ucast ?len) ?h = Ret () (found es ?h)"
    using assms e c by (intro mpinit_loop_found) (simp_all add: mem_of_def)
  moreover have "take (procs es) (h_ids (found es ?h)) = map of_nat [0..<procs es]"
    using assms(5-7) by (intro nth_equalityI) (simp_all add: found_fields found_ids)
  ultimately show ?thesis using assms by (auto simp: mpinit_def found_fields mem_of_def)
qed

text \<open>A table with two processors and an I/O APIC.\<close>

definition demo_mp_bytes :: "(addr \<times> u8) list" where
  "demo_mp_bytes = [(0x40E, 0xC0), (0x40F, 0x9F), (0x9FC00, 0x5F), (0x9FC01, 0x4D), (0x9FC02, 0x50), (0x9FC03, 0x5F), (0x9FC05,
     0x10), (0x9FC08, 0x1), (0x9FC09, 0x4), (0x9FC0A, 0x90), (0x1000, 0x50), (0x1001, 0x43), (0x1002, 0x4D),
     (0x1003, 0x50), (0x1004, 0x5C), (0x1006, 0x4), (0x1007, 0xB6), (0x1022, 0x3), (0x1026, 0xE0), (0x1027, 0xFE),
     (0x102F, 0x3), (0x1041, 0x1), (0x1043, 0x1), (0x1054, 0x2), (0x1055, 0x2), (0x1056, 0x11), (0x1057, 0x1),
     (0x105A, 0xC0), (0x105B, 0xFE)]"

definition demo_mp_mem :: mem where
  "demo_mp_mem a = (case map_of demo_mp_bytes a of Some v \<Rightarrow> v | None \<Rightarrow> 0)"

definition demo_machine :: "mem \<Rightarrow> machine" where
  "demo_machine m = \<lparr>h_kernel = (demo_kernel [])\<lparr>k_mem := m\<rparr>,
     h_sym = \<lparr>sym_vectors = (\<lambda>i. 0x100000 + 16 * of_nat i), sym_percpu = (\<lambda>c. 0x110000 + 256 * of_nat c),
       sym_ts = (\<lambda>c. 0x112000 + 256 * of_nat c), sym_mpmain = 0x102000, sym_bootother = []\<rparr>,
     h_lapic = 0, h_lreg = (\<lambda>_. 0), h_busy = 0, h_ioreg = 0, h_iodata = (\<lambda>_. 0), h_out = [], h_in = (\<lambda>_. 0),
     h_irqmask = irqmask_init, h_ismp = False, h_ncpu = 0, h_bcpu = 0, h_ioapicid = 0, h_ids = replicate 8 0, h_booted = replicate 8 0,
     h_warned = 0, h_gdt = [], h_ss0 = [], h_idt = [], h_idtr = False, h_cr0 = 0\<rparr>"

lemma load_bytes_simps:
  "load_bytes m a 0 = []" "load_bytes m a (Suc n) = m a # load_bytes m (a + 1) n"
  "load_bytes m a (numeral k) = m a # load_bytes m (a + 1) (pred_numeral k)"
proof -
  show s: "load_bytes m a (Suc n) = m a # load_bytes m (a + 1) n" for n
    by (simp add: load_bytes_def upt_conv_Cons map_Suc_upt [symmetric] add.assoc del: upt_Suc)
  show "load_bytes m a (numeral k) = m a # load_bytes m (a + 1) (pred_numeral k)" using s [of "pred_numeral k"] by (simp only: numeral_eq_Suc)
qed (simp add: load_bytes_def)

lemma demo_mp_mem_at [simp]:
  "load_bytes demo_mp_mem 0x9FC00 4 = bytes ''_MP_''" "sum8 demo_mp_mem 0x9FC00 16 = 0" "load8 demo_mp_mem 0x40F = 0x9F" "load8 demo_mp_mem 0x40E = 0xC0"
  "load32 demo_mp_mem 0x9FC04 = 0x1000" "load_bytes demo_mp_mem 0x1000 4 = bytes ''PCMP''" "demo_mp_mem 0x1006 = 4" "load16 demo_mp_mem 0x1004 = 92"
  by (simp_all add: sum8_def load_bytes_simps demo_mp_mem_def demo_mp_bytes_def bytes_def ch_def load8_def load32_def dec32_def load16_def dec16_def)

lemma demo_mp_sum [simp]: "sum8 demo_mp_mem 0x1000 92 = 0"
  by (simp add: sum8_def load_bytes_simps demo_mp_mem_def demo_mp_bytes_def)

lemma demo_mpconfig: "mpconfig demo_mp_mem = Some (0x9FC00, 0x1000)"
proof -
  have "mpsearch1 demo_mp_mem 0x9FC00 1024 = 0x9FC00" unfolding mpsearch1_def mpsearch1_loop.simps by simp
  then have "mpsearch demo_mp_mem = 0x9FC00" by (simp add: mpsearch_def)
  then show ?thesis by (simp add: mpconfig_def)
qed

theorem mpinit_processors_witness:
  "\<exists>h'. mpinit (demo_machine demo_mp_mem) = Ret () h' \<and> h_ismp h' \<and> h_ncpu h' = 2 \<and> take 2 (h_ids h') = [0, 1]"
proof -
  let ?es = "[MpProc True, MpProc False, MpIoapic 2]"
  have m: "mem_of (demo_machine demo_mp_mem) = demo_mp_mem" by (simp add: demo_machine_def mem_of_def)
  have "table_at demo_mp_mem (0x1000 + 44) 0 ?es" "demo_mp_mem (0x9FC00 + 12) = 0"
    by (simp_all add: demo_mp_mem_def demo_mp_bytes_def)
  then have "\<exists>h'. mpinit (demo_machine demo_mp_mem) = Ret () h' \<and> h_ismp h' \<and> h_ncpu h' = procs ?es \<and>
     take (procs ?es) (h_ids h') = map of_nat [0..<procs ?es] \<and> h_lapic h' = load32 (mem_of (demo_machine demo_mp_mem)) (0x1000 + 36)"
    by (intro mpinit_processors [of _ "0x9FC00" "0x1000" ?es]) (simp_all add: m demo_mpconfig, simp_all add: demo_machine_def)
  then show ?thesis by (auto simp: numeral_2_eq_2)
qed

end
