(* ===== verification/Boot.thy ===== *)
theory Boot
  imports Mp Exec
begin

text \<open>
  Starting the machine: the boot loader (\<^verbatim>\<open>kernel/bootmain.c\<close>) and the start-up order of the kernel
  (\<^verbatim>\<open>kernel/main.c\<close>). The loader works on memory and on disk 0 before there is a kernel; the disk reads the
  sector its registers name, as in \<open>Ide\<close>, and is assumed to become ready (\<^verbatim>\<open>waitdisk\<close>).
\<close>

section \<open>The boot loader\<close>

type_synonym disk = "u32 \<Rightarrow> u32 \<Rightarrow> u8 list"

definition readsect_ports :: "u32 \<Rightarrow> (u16 \<times> u8) list" where
  "readsect_ports offset = [(0x1F2, 1), (0x1F3, ucast offset), (0x1F4, ucast (drop_bit 8 offset)),
     (0x1F5, ucast (drop_bit 16 offset)), (0x1F6, ucast (drop_bit 24 offset) OR 0xE0), (0x1F7, 0x20)]"

definition readsect :: "disk \<Rightarrow> addr \<Rightarrow> u32 \<Rightarrow> mem \<Rightarrow> mem" where
  "readsect dk dst offset m = (let ports = readsect_ports offset
     in store_bytes dst (take 512 (dk (disk_dev ports) (disk_sector ports))) m)"

primrec readseg_loop :: "nat \<Rightarrow> disk \<Rightarrow> addr \<Rightarrow> addr \<Rightarrow> u32 \<Rightarrow> mem \<Rightarrow> mem" where
  "readseg_loop 0 dk va eva offset m = m"
| "readseg_loop (Suc n) dk va eva offset m = (if va < eva
     then readseg_loop n dk (va + 512) eva (offset + 1) (readsect dk va offset m) else m)"

definition readseg :: "disk \<Rightarrow> addr \<Rightarrow> u32 \<Rightarrow> u32 \<Rightarrow> mem \<Rightarrow> mem" where
  "readseg dk va count offset m =
    (let eva = va + count; va = va - offset mod 512; offset = offset div 512 + 1
     in readseg_loop (Suc (unat (eva - va) div 512)) dk va eva offset m)"

primrec load_segments :: "nat \<Rightarrow> disk \<Rightarrow> addr \<Rightarrow> mem \<Rightarrow> mem" where
  "load_segments 0 dk ph m = m"
| "load_segments (Suc n) dk ph m =
    (let p = dec_proghdr (load_bytes m ph 32);
         m1 = readseg dk (ph_va p) (ph_filesz p) (ph_offset p) m;
         m2 = (if ph_memsz p > ph_filesz p then set_bytes (unat (ph_memsz p - ph_filesz p)) (ph_va p + ph_filesz p) 0 m1 else m1)
     in load_segments n dk (ph + 32) m2)"

text \<open>The memory, and the address the loader jumps to unless the disk holds no kernel.\<close>

definition bootmain :: "disk \<Rightarrow> mem \<Rightarrow> addr option \<times> mem" where
  "bootmain dk m =
    (let elf = 0x10000; m1 = readseg dk elf 4096 0 m; h = dec_elfhdr (load_bytes m1 elf 52) in
     if e_magic h \<noteq> ELF_MAGIC then (None, m1) else
     let m2 = load_segments (unat (e_phnum h)) dk (elf + e_phoff h) m1
     in (Some (e_entry (dec_elfhdr (load_bytes m2 elf 52))), m2))"

section \<open>Start-up of the kernel\<close>

text \<open>
  What start-up depends on: the entry addresses of the kernel, the program of the first process, what disk 1
  answers, which processors come up when they are started, and how the scheduler's processes run.
\<close>

record boot_input =
  bi_sym :: symbols
  bi_initcode :: "u8 list"
  bi_probe :: "u8 list"
  bi_up :: "nat \<Rightarrow> bool"
  bi_pc :: u32
  bi_run :: "(nat \<Rightarrow> env) list"

definition cinit :: "boot_input \<Rightarrow> unit M" where
  "cinit bi = bindP (cpunum (bi_pc bi)) (\<lambda>n. bindP mpbcpu (\<lambda>b.
     thenP (whenP (unat n \<noteq> b) (thenP (seginit (bi_pc bi)) (bindP (cpunum (bi_pc bi)) lapicinit)))
    (thenP vmenable
    (bindP (reads (\<lambda>h. c_id (k_cpu (h_kernel h)))) (\<lambda>i.
     thenP (kern (cprintf (bytes ''cpu%d: starting'' @ [10]) [Word (of_nat i)]))
    (thenP idtinit
    (modify (\<lambda>h. h\<lparr>h_booted := (h_booted h)[i := 1]\<rparr>))))))))"

definition mpmain :: "boot_input \<Rightarrow> unit M" where
  "mpmain bi = thenP (cinit bi) (kern (scheduler (bi_run bi)))"

text \<open>\<^verbatim>\<open>while(c->booted == 0);\<close>\<close>

definition await_cpu :: "boot_input \<Rightarrow> nat \<Rightarrow> unit M" where
  "await_cpu bi c = (\<lambda>h. if h_booted h ! c \<noteq> 0 then Ret () h
     else if bi_up bi c then Ret () (h\<lparr>h_booted := (h_booted h)[c := 1]\<rparr>) else Spin h)"

definition bootothers :: "boot_input \<Rightarrow> unit M" where
  "bootothers bi =
     bindP (reads (\<lambda>h. sym_bootother (h_sym h))) (\<lambda>image.
     thenP (kern (setmem (store_bytes 0x7000 image)))
    (bindP (reads h_ncpu) (\<lambda>ncpu.
     forP [0..<ncpu] (\<lambda>c. bindP (cpunum (bi_pc bi)) (\<lambda>n.
       whenP (c \<noteq> unat n)
        (bindP (kern kalloc) (\<lambda>stack.
         thenP (kern (setmem (\<lambda>m. store32 m (0x7000 - 4) (stack + KSTACKSIZE))))
        (bindP (reads (\<lambda>h. sym_mpmain (h_sym h))) (\<lambda>a.
         thenP (kern (setmem (\<lambda>m. store32 m (0x7000 - 8) a)))
        (bindP (reads (\<lambda>h. h_ids h ! c)) (\<lambda>i.
         thenP (lapicstartap i 0x7000)
         (await_cpu bi c))))))))))))"

definition mainc :: "boot_input \<Rightarrow> unit M" where
  "mainc bi = bindP (reads (\<lambda>h. c_id (k_cpu (h_kernel h)))) (\<lambda>i.
     thenP (kern (cprintf ([10] @ bytes ''cpu%d: starting xv6'' @ [10, 10]) [Word (of_nat i)]))
    (thenP picinit
    (thenP ioapicinit
    (thenP consoleinit
    (thenP uartinit
    (thenP (kern kvmalloc)
    (thenP (kern pinit)
    (thenP tvinit
    (thenP (kern binit)
    (thenP (kern fileinit)
    (thenP (kern iinit)
    (thenP (ideinit (bi_probe bi))
    (bindP (reads h_ismp) (\<lambda>ismp.
     thenP (whenP (\<not> ismp) timerinit)
    (thenP (bootothers bi)
    (thenP (cinit bi)
    (thenP (kern sti)
    (thenP (kern (userinit (bi_sym bi) (bi_initcode bi)))
    (kern (scheduler (bi_run bi)))))))))))))))))))))"

definition jmpkstack :: "boot_input \<Rightarrow> unit M" where
  "jmpkstack bi = bindP (kern kalloc) (\<lambda>kstack.
     if kstack = 0 then panic ''jmpkstack kalloc'' else
     thenP (mainc bi) (panic ''jmpkstack''))"

definition main :: "boot_input \<Rightarrow> unit M" where
  "main bi = thenP mpinit
    (bindP mpbcpu (\<lambda>b.
     thenP (lapicinit (of_nat b))
    (thenP (seginit (bi_pc bi))
    (thenP (kern kinit)
    (jmpkstack bi)))))"

section \<open>What the loader loads\<close>

lemma readsect_sector:
  assumes "unat s < 2 ^ 28"
  shows "disk_sector (readsect_ports s) = s" "disk_dev (readsect_ports s) = 0"
proof -
  have "take_bit 28 (unat s) = unat s" using assms by (simp only: take_bit_nat_eq_self)
  then have "take_bit 28 s = s" by (simp add: word_unat_eq_iff unsigned_take_bit_eq)
  then have b: "\<not> bit s n" if "28 \<le> n" for n using that by (metis bit_take_bit_iff leD)
  have p: "port_value (readsect_ports s) 0x1f3 = ucast (ucast s :: u8)" "port_value (readsect_ports s) 0x1f4 = ucast (ucast (drop_bit 8 s) :: u8)"
    "port_value (readsect_ports s) 0x1f5 = ucast (ucast (drop_bit 16 s) :: u8)" "port_value (readsect_ports s) 0x1f6 = ucast ((ucast (drop_bit 24 s) OR 0xE0) :: u8)"
    by (simp_all add: port_value_def readsect_ports_def)
  show "disk_sector (readsect_ports s) = s" unfolding disk_sector_def p
    by (rule word32_bit_eqI) (use b in \<open>auto simp: bit_simps\<close>)
  show "disk_dev (readsect_ports s) = 0" unfolding disk_dev_def p
    by (rule word32_bit_eqI) (use b in \<open>auto simp: bit_simps\<close>)
qed

text \<open>The byte of the kernel image at an offset; the image starts in sector 1.\<close>

definition image_byte :: "disk \<Rightarrow> nat \<Rightarrow> u8" where
  "image_byte dk i = dk 0 (of_nat (i div 512 + 1)) ! (i mod 512)"

lemma store_bytes_at: "unat a + length bs \<le> 4294967296 \<Longrightarrow>
    store_bytes a bs m x = (if unat a \<le> unat x \<and> unat x < unat a + length bs then bs ! (unat x - unat a) else m x)"
proof -
  assume b: "unat a + length bs \<le> 4294967296"
  have x: "unat x < 4294967296" using unsigned_less [of x] by simp
  show ?thesis
  proof (cases "unat a \<le> unat x")
    case True
    then have "unat (x - a) = unat x - unat a" by (simp add: unat_sub word_le_nat_alt)
    then show ?thesis using True by (auto simp: store_bytes_def)
  next
    case False
    then have "unat (x - a) = 4294967296 + unat x - unat a" by (simp add: unat_sub_if_size word_le_nat_alt word_size)
    then show ?thesis using False b by (auto simp: store_bytes_def)
  qed
qed

lemma sectors_Suc: "0 < d \<Longrightarrow> (d + 511) div 512 = Suc ((d - 512 + 511) div 512)" for d :: nat
  by (cases "d \<le> 512") (simp_all add: le_div_geq)

lemma sectors_enough: "d \<le> 512 * ((d + 511) div 512)" for d :: nat
proof -
  have "512 * ((d + 511) div 512) + (d + 511) mod 512 = d + 511" by (rule mult_div_mod_eq)
  moreover have "(d + 511) mod 512 < 512" by simp
  ultimately show ?thesis by linarith
qed

lemma sectors_fuel: "(d + 511) div 512 \<le> Suc (d div 512)" for d :: nat
proof -
  have "(d + 511) div 512 \<le> (d + 512) div 512" by (rule div_le_mono) simp
  then show ?thesis by simp
qed

lemma readseg_loop_loads:
  assumes "\<And>s. length (dk 0 s) = 512" "unat eva + 512 \<le> 4294967296" "(unat eva - unat va + 511) div 512 \<le> n"
    "unat s + (unat eva - unat va + 511) div 512 < 2 ^ 28"
  shows "readseg_loop n dk va eva s m x =
    (if unat va \<le> unat x \<and> unat x < unat va + 512 * ((unat eva - unat va + 511) div 512)
     then dk 0 (s + of_nat ((unat x - unat va) div 512)) ! ((unat x - unat va) mod 512) else m x)"
  using assms(2-4)
proof (induction n arbitrary: va s m)
  case (Suc n)
  show ?case
  proof (cases "va < eva")
    case False
    then show ?thesis by (auto simp: word_less_nat_alt)
  next
    case True
    then have lt: "unat va < unat eva" by (simp add: word_less_nat_alt)
    have va: "unat (va + 512) = unat va + 512" using lt Suc.prems(1) unat_add_of_nat [of va 512] by simp
    define k where "k = (unat eva - unat (va + 512) + 511) div 512"
    have k: "(unat eva - unat va + 511) div 512 = Suc k"
      using lt sectors_Suc [of "unat eva - unat va"] unfolding k_def va by simp
    have s: "unat (s + 1) = unat s + 1" using Suc.prems(3) unat_add_of_nat [of s 1] by simp
    have "unat s < 2 ^ 28" using Suc.prems(3) by simp
    note sec = readsect_sector [OF this]
    have rs: "readsect dk va s m x = (if unat va \<le> unat x \<and> unat x < unat va + 512 then dk 0 s ! (unat x - unat va) else m x)"
      using store_bytes_at [of va "dk 0 s" m x] assms(1) lt Suc.prems(1) by (simp add: readsect_def sec)
    have "readseg_loop n dk (va + 512) eva (s + 1) (readsect dk va s m) x =
      (if unat (va + 512) \<le> unat x \<and> unat x < unat (va + 512) + 512 * k
       then dk 0 (s + 1 + of_nat ((unat x - unat (va + 512)) div 512)) ! ((unat x - unat (va + 512)) mod 512) else readsect dk va s m x)"
    proof -
      have "k \<le> n" "unat (s + 1) + k < 2 ^ 28" using Suc.prems(2,3) k s by linarith+
      then show ?thesis using Suc.prems(1) unfolding k_def by (intro Suc.IH)
    qed
    moreover have "(unat x - unat va) div 512 = Suc ((unat x - (unat va + 512)) div 512)"
      "(unat x - unat va) mod 512 = (unat x - (unat va + 512)) mod 512" if "unat va + 512 \<le> unat x"
    proof -
      have e: "unat x - unat va = 512 + (unat x - (unat va + 512))" using that by simp
      show "(unat x - unat va) div 512 = Suc ((unat x - (unat va + 512)) div 512)"
        "(unat x - unat va) mod 512 = (unat x - (unat va + 512)) mod 512" unfolding e by simp_all
    qed
    ultimately show ?thesis using True rs by (auto simp: va k add.assoc)
  qed
qed auto

lemma readseg_at:
  assumes "\<forall>s. length (dk 0 s) = 512" "unat va + unat count + 512 \<le> 4294967296" "unat offset mod 512 \<le> unat va"
  shows "readseg dk va count offset m x =
    (if unat va - unat offset mod 512 \<le> unat x \<and>
        unat x < unat va - unat offset mod 512 + 512 * ((unat count + unat offset mod 512 + 511) div 512)
     then image_byte dk (unat offset div 512 * 512 + (unat x - (unat va - unat offset mod 512))) else m x)"
proof -
  let ?r = "unat offset mod 512" and ?va = "va - offset mod 512" and ?s = "offset div 512 + 1"
  have eva: "unat (va + count) = unat va + unat count" using assms(2) unat_add_of_nat [of va "unat count"] by simp
  have va: "unat ?va = unat va - ?r" using assms(3) by (simp add: unat_sub word_le_nat_alt unat_mod)
  have "unat offset < 4294967296" using unsigned_less [of offset] by simp
  then have off: "unat offset div 512 < 8388608" by (simp add: less_mult_imp_div_less)
  then have s: "unat ?s = unat offset div 512 + 1" using unat_add_of_nat [of "offset div 512" 1] by (simp add: unat_div)
  let ?d = "unat (va + count) - unat ?va"
  have d: "?d = unat count + ?r" using va eva assms(3) by simp
  have kb: "(?d + 511) div 512 < 8388609" using assms(2,3) unfolding d by (simp add: less_mult_imp_div_less)
  have "?va \<le> va + count" unfolding word_le_nat_alt using va eva by simp
  then have n: "unat (va + count - ?va) = ?d" by (rule unat_sub)
  let ?j = "unat x - (unat va - ?r)"
  have "readseg dk va count offset m x = (if unat ?va \<le> unat x \<and> unat x < unat ?va + 512 * ((?d + 511) div 512)
      then dk 0 (?s + of_nat ((unat x - unat ?va) div 512)) ! ((unat x - unat ?va) mod 512) else m x)"
    unfolding readseg_def Let_def n using assms(1,2) eva s kb off
    by (subst readseg_loop_loads) (simp_all add: sectors_fuel)
  also have "\<dots> = (if unat va - ?r \<le> unat x \<and> unat x < unat va - ?r + 512 * ((unat count + ?r + 511) div 512)
      then dk 0 (?s + of_nat (?j div 512)) ! (?j mod 512) else m x)"
    unfolding va d [unfolded va] by (rule refl)
  also have "dk 0 (?s + of_nat (?j div 512)) ! (?j mod 512) = image_byte dk (unat offset div 512 * 512 + ?j)"
  proof -
    have "?s = of_nat (unat offset div 512 + 1)" using s by (metis of_nat_unat ucast_id)
    then show ?thesis by (simp add: image_byte_def add_ac)
  qed
  finally show ?thesis .
qed

text \<open>The memory a segment occupies, and what loading it may overwrite: whole sectors, from the sector boundary below its first byte on.\<close>

definition seg_mem :: "proghdr \<Rightarrow> nat set" where
  "seg_mem p = {unat (ph_va p)..<unat (ph_va p) + max (unat (ph_filesz p)) (unat (ph_memsz p))}"

definition seg_span :: "proghdr \<Rightarrow> nat set" where
  "seg_span p = seg_mem p \<union> (let lo = unat (ph_va p) - unat (ph_offset p) mod 512
     in {lo..<lo + 512 * ((unat (ph_filesz p) + unat (ph_offset p) mod 512 + 511) div 512)})"

definition seg_fits :: "proghdr \<Rightarrow> bool" where
  "seg_fits p \<longleftrightarrow> unat (ph_offset p) mod 512 \<le> unat (ph_va p) \<and> unat (ph_va p) + unat (ph_filesz p) + 512 \<le> 4294967296 \<and>
     unat (ph_va p) + unat (ph_memsz p) \<le> 4294967296"

text \<open>The segment is in memory: its bytes of the image, and zeros up to its size.\<close>

definition seg_loaded :: "disk \<Rightarrow> proghdr \<Rightarrow> mem \<Rightarrow> bool" where
  "seg_loaded dk p m \<longleftrightarrow> (\<forall>x. unat (ph_va p) \<le> unat x \<longrightarrow>
     (unat x < unat (ph_va p) + unat (ph_filesz p) \<longrightarrow> m x = image_byte dk (unat (ph_offset p) + (unat x - unat (ph_va p)))) \<and>
     (unat (ph_va p) + unat (ph_filesz p) \<le> unat x \<and> unat x < unat (ph_va p) + unat (ph_memsz p) \<longrightarrow> m x = 0))"

definition load_segment :: "disk \<Rightarrow> proghdr \<Rightarrow> mem \<Rightarrow> mem" where
  "load_segment dk p m = (let m1 = readseg dk (ph_va p) (ph_filesz p) (ph_offset p) m
     in if ph_memsz p > ph_filesz p then set_bytes (unat (ph_memsz p - ph_filesz p)) (ph_va p + ph_filesz p) 0 m1 else m1)"

lemma zeroed:
  assumes "unat a + n \<le> 4294967296"
  shows "set_bytes n a 0 m x = (if unat a \<le> unat x \<and> unat x < unat a + n then 0 else m x)"
proof -
  have "(\<exists>i < n. x = a + of_nat i) \<longleftrightarrow> unat a \<le> unat x \<and> unat x < unat a + n"
  proof
    assume "\<exists>i < n. x = a + of_nat i"
    then obtain i where i: "i < n" "x = a + of_nat i" by blast
    then have "unat x = unat a + i" using assms unat_add_of_nat [of a i] by simp
    then show "unat a \<le> unat x \<and> unat x < unat a + n" using i by simp
  next
    assume "unat a \<le> unat x \<and> unat x < unat a + n"
    then show "\<exists>i < n. x = a + of_nat i"
      by (intro exI [of _ "unat x - unat a"]) (auto simp: of_nat_diff)
  qed
  then show ?thesis using assms by (simp add: set_bytes_eq)
qed

lemma load_segment_loads:
  assumes "\<forall>s. length (dk 0 s) = 512" "seg_fits p"
  shows "seg_loaded dk p (load_segment dk p m)" "unat x \<notin> seg_span p \<Longrightarrow> load_segment dk p m x = m x"
proof -
  let ?va = "unat (ph_va p)" and ?f = "unat (ph_filesz p)" and ?o = "unat (ph_offset p)" and ?s = "unat (ph_memsz p)"
  have fit: "?o mod 512 \<le> ?va" "?va + ?f + 512 \<le> 4294967296" "?va + ?s \<le> 4294967296" using assms(2) by (auto simp: seg_fits_def)
  have va: "unat (ph_va p + ph_filesz p) = ?va + ?f" using fit(2) unat_add_of_nat [of "ph_va p" ?f] by simp
  have seg: "load_segment dk p m x = (if ?va + ?f \<le> unat x \<and> unat x < ?va + ?s then 0
      else readseg dk (ph_va p) (ph_filesz p) (ph_offset p) m x)" for x
  proof (cases "ph_memsz p > ph_filesz p")
    case True
    then have "unat (ph_memsz p - ph_filesz p) = ?s - ?f" "?f \<le> ?s" by (simp_all add: unat_sub word_less_nat_alt word_le_nat_alt)
    then show ?thesis using True zeroed [of "ph_va p + ph_filesz p" "?s - ?f"] va fit by (simp add: load_segment_def Let_def)
  next
    case False
    then have "?s \<le> ?f" by (simp add: word_less_nat_alt not_less)
    then show ?thesis using False by (auto simp: load_segment_def)
  qed
  note rd = readseg_at [where dk = dk, OF assms(1) fit(2,1)]
  show "seg_loaded dk p (load_segment dk p m)" unfolding seg_loaded_def seg
  proof (intro allI impI conjI)
    fix x :: addr assume x: "?va \<le> unat x" "unat x < ?va + ?f"
    have d: "?o div 512 * 512 + ?o mod 512 = ?o" by simp
    have "?f + ?o mod 512 \<le> 512 * ((?f + ?o mod 512 + 511) div 512)" by (rule sectors_enough)
    then have "?va - ?o mod 512 \<le> unat x" "unat x < ?va - ?o mod 512 + 512 * ((?f + ?o mod 512 + 511) div 512)"
      using x fit(1) by linarith+
    then have "readseg dk (ph_va p) (ph_filesz p) (ph_offset p) m x = image_byte dk (?o div 512 * 512 + (unat x - (?va - ?o mod 512)))"
      unfolding rd by (simp only: simp_thms if_True)
    moreover have "?o div 512 * 512 + (unat x - (?va - ?o mod 512)) = ?o + (unat x - ?va)" using x fit(1) d by linarith
    ultimately show "(if ?va + ?f \<le> unat x \<and> unat x < ?va + ?s then 0 else readseg dk (ph_va p) (ph_filesz p) (ph_offset p) m x) =
        image_byte dk (?o + (unat x - ?va))" using x by simp
  qed simp
  assume "unat x \<notin> seg_span p"
  then show "load_segment dk p m x = m x" unfolding seg rd by (auto simp: seg_span_def seg_mem_def Let_def)
qed

section \<open>The whole image\<close>

definition image_bytes :: "disk \<Rightarrow> nat \<Rightarrow> nat \<Rightarrow> u8 list" where
  "image_bytes dk off n = map (\<lambda>i. image_byte dk (off + i)) [0..<n]"

text \<open>The header of the image and its program headers.\<close>

definition boot_hdr :: "disk \<Rightarrow> elfhdr" where
  "boot_hdr dk = dec_elfhdr (image_bytes dk 0 52)"

definition boot_seg :: "disk \<Rightarrow> nat \<Rightarrow> proghdr" where
  "boot_seg dk i = dec_proghdr (image_bytes dk (unat (e_phoff (boot_hdr dk)) + 32 * i) 32)"

text \<open>The scratch page of the loader holds the first page of the image.\<close>

definition scratch :: "nat set" where
  "scratch = {0x10000..<0x11000}"

definition scratch_ok :: "disk \<Rightarrow> mem \<Rightarrow> bool" where
  "scratch_ok dk m \<longleftrightarrow> (\<forall>x. unat x \<in> scratch \<longrightarrow> m x = image_byte dk (unat x - 0x10000))"

lemma scratch_bytes:
  assumes "scratch_ok dk m" "off + n \<le> 4096"
  shows "load_bytes m (0x10000 + of_nat off) n = image_bytes dk off n"
proof -
  have "m (0x10000 + of_nat off + of_nat i) = image_byte dk (off + i)" if "i < n" for i
  proof -
    have "unat (0x10000 + of_nat off + of_nat i :: u32) = 0x10000 + (off + i)"
      using that assms(2) unat_add_of_nat [of "0x10000" "off + i"] by (simp add: add.assoc)
    then show ?thesis using assms that by (auto simp: scratch_ok_def scratch_def)
  qed
  then show ?thesis by (auto simp: load_bytes_def image_bytes_def)
qed

lemma readseg_scratch:
  assumes "\<forall>s. length (dk 0 s) = 512"
  shows "scratch_ok dk (readseg dk 0x10000 4096 0 m)" "unat x \<notin> scratch \<Longrightarrow> readseg dk 0x10000 4096 0 m x = m x"
proof -
  note r = readseg_at [where dk = dk and va = "0x10000" and count = 4096 and offset = 0 and m = m, OF assms]
  show "scratch_ok dk (readseg dk 0x10000 4096 0 m)" by (simp add: scratch_ok_def scratch_def r)
  show "unat x \<notin> scratch \<Longrightarrow> readseg dk 0x10000 4096 0 m x = m x" by (auto simp: scratch_def r)
qed

lemma seg_loaded_frame:
  assumes "seg_loaded dk p m" "\<forall>x. unat x \<in> seg_mem p \<longrightarrow> m' x = m x"
  shows "seg_loaded dk p m'"
  using assms by (auto simp: seg_loaded_def seg_mem_def)

lemma load_segments_loads:
  assumes dk: "\<forall>s. length (dk 0 s) = 512" and tab: "unat (e_phoff (boot_hdr dk)) + 32 * (j + n) \<le> 4096"
    and fit: "\<forall>i. j \<le> i \<and> i < j + n \<longrightarrow> seg_fits (boot_seg dk i) \<and> seg_span (boot_seg dk i) \<inter> scratch = {}"
    and apart: "\<forall>i i'. j \<le> i \<and> i < i' \<and> i' < j + n \<longrightarrow> seg_span (boot_seg dk i') \<inter> seg_mem (boot_seg dk i) = {}"
    and m: "scratch_ok dk m" and ph: "ph = 0x10000 + of_nat (unat (e_phoff (boot_hdr dk)) + 32 * j)"
  shows "let m' = load_segments n dk ph m in scratch_ok dk m' \<and> (\<forall>i. j \<le> i \<and> i < j + n \<longrightarrow> seg_loaded dk (boot_seg dk i) m') \<and>
     (\<forall>x. (\<forall>i. j \<le> i \<and> i < j + n \<longrightarrow> unat x \<notin> seg_span (boot_seg dk i)) \<longrightarrow> m' x = m x)"
  using tab fit apart m ph
proof (induction n arbitrary: j ph m)
  case (Suc n)
  let ?p = "boot_seg dk j" and ?m = "load_segment dk (boot_seg dk j) m"
  have hdr: "dec_proghdr (load_bytes m ph 32) = ?p"
    using scratch_bytes [OF Suc.prems(4), of "unat (e_phoff (boot_hdr dk)) + 32 * j" 32] Suc.prems(1,5) by (simp add: boot_seg_def)
  have p: "seg_fits ?p" "seg_span ?p \<inter> scratch = {}" using Suc.prems(2) by auto
  note l = load_segment_loads [where dk = dk, OF dk p(1)]
  have ok: "scratch_ok dk ?m" using Suc.prems(4) l(2) [of _ m] p(2) unfolding scratch_ok_def by (metis disjoint_iff)
  have ph: "ph + 32 = 0x10000 + of_nat (unat (e_phoff (boot_hdr dk)) + 32 * Suc j)" using Suc.prems(5) by simp
  have step: "load_segments (Suc n) dk ph m = load_segments n dk (ph + 32) ?m"
    by (simp add: hdr load_segment_def Let_def)
  let ?m' = "load_segments n dk (ph + 32) ?m"
  have IH: "scratch_ok dk ?m'" "\<forall>i. Suc j \<le> i \<and> i < Suc j + n \<longrightarrow> seg_loaded dk (boot_seg dk i) ?m'"
    "\<forall>x. (\<forall>i. Suc j \<le> i \<and> i < Suc j + n \<longrightarrow> unat x \<notin> seg_span (boot_seg dk i)) \<longrightarrow> ?m' x = ?m x"
    using Suc.IH [of "Suc j" ?m "ph + 32"] Suc.prems(1-3) ok ph by (auto simp: Let_def)
  have "seg_loaded dk ?p ?m'"
  proof (rule seg_loaded_frame [OF l(1)], intro allI impI)
    fix x :: addr assume "unat x \<in> seg_mem ?p"
    moreover have "seg_span (boot_seg dk i) \<inter> seg_mem ?p = {}" if "Suc j \<le> i \<and> i < Suc j + n" for i
      using Suc.prems(3) that by auto
    ultimately have "\<forall>i. Suc j \<le> i \<and> i < Suc j + n \<longrightarrow> unat x \<notin> seg_span (boot_seg dk i)" by blast
    then show "?m' x = ?m x" using IH(3) by blast
  qed
  then have "\<forall>i. j \<le> i \<and> i < j + Suc n \<longrightarrow> seg_loaded dk (boot_seg dk i) ?m'" using IH(2) by (metis Suc_leI add_Suc_right add_Suc le_neq_implies_less)
  moreover have "?m' x = m x" if "\<forall>i. j \<le> i \<and> i < j + Suc n \<longrightarrow> unat x \<notin> seg_span (boot_seg dk i)" for x
    using IH(3) l(2) [of x m] that by auto
  ultimately show ?case unfolding step using IH(1) by (simp add: Let_def)
qed (auto simp: Let_def)

text \<open>C36. The boot loader brings the kernel into memory. For an image with the ELF magic number whose program headers lie in its first
  page, it jumps to the entry address of the header, and every segment is then in memory at the address, from the offset and of the length its program
  header gives, followed by zeros up to its size in memory; beyond the scratch page and the sectors around the segments nothing has changed. The
  segments may not reach into the scratch page, and the sectors read for one may not reach into an earlier one.\<close>

theorem bootmain_loads:
  assumes "\<forall>s. length (dk 0 s) = 512" and "e_magic (boot_hdr dk) = ELF_MAGIC"
    and "unat (e_phoff (boot_hdr dk)) + 32 * unat (e_phnum (boot_hdr dk)) \<le> 4096"
    and "\<forall>i < unat (e_phnum (boot_hdr dk)). seg_fits (boot_seg dk i) \<and> seg_span (boot_seg dk i) \<inter> scratch = {}"
    and "\<forall>i' < unat (e_phnum (boot_hdr dk)). \<forall>i < i'. seg_span (boot_seg dk i') \<inter> seg_mem (boot_seg dk i) = {}"
  shows "\<exists>m'. bootmain dk m = (Some (e_entry (boot_hdr dk)), m') \<and>
     (\<forall>i < unat (e_phnum (boot_hdr dk)). \<forall>x. let p = boot_seg dk i in
        (unat (ph_va p) \<le> unat x \<and> unat x < unat (ph_va p) + unat (ph_filesz p) \<longrightarrow>
           m' x = image_byte dk (unat (ph_offset p) + (unat x - unat (ph_va p)))) \<and>
        (unat (ph_va p) + unat (ph_filesz p) \<le> unat x \<and> unat x < unat (ph_va p) + unat (ph_memsz p) \<longrightarrow> m' x = 0)) \<and>
     (\<forall>x. unat x \<notin> scratch \<union> (\<Union>i < unat (e_phnum (boot_hdr dk)). seg_span (boot_seg dk i)) \<longrightarrow> m' x = m x)"
proof -
  let ?n = "unat (e_phnum (boot_hdr dk))" and ?m1 = "readseg dk 0x10000 4096 0 m" and ?ph = "0x10000 + e_phoff (boot_hdr dk)"
  let ?m2 = "load_segments ?n dk ?ph ?m1"
  have hdr: "dec_elfhdr (load_bytes m 0x10000 52) = boot_hdr dk" if "scratch_ok dk m" for m
    using scratch_bytes [OF that, of 0 52] by (simp add: boot_hdr_def)
  note r = readseg_scratch [where dk = dk, OF assms(1)]
  have "let m' = ?m2 in scratch_ok dk m' \<and> (\<forall>i. 0 \<le> i \<and> i < 0 + ?n \<longrightarrow> seg_loaded dk (boot_seg dk i) m') \<and>
     (\<forall>x. (\<forall>i. 0 \<le> i \<and> i < 0 + ?n \<longrightarrow> unat x \<notin> seg_span (boot_seg dk i)) \<longrightarrow> m' x = ?m1 x)"
    by (rule load_segments_loads [where dk = dk, OF assms(1)]) (use assms(3-5) r(1) in auto)
  then have l: "scratch_ok dk ?m2" "\<forall>i < ?n. seg_loaded dk (boot_seg dk i) ?m2"
    "\<forall>x. (\<forall>i < ?n. unat x \<notin> seg_span (boot_seg dk i)) \<longrightarrow> ?m2 x = ?m1 x" by (auto simp: Let_def)
  have "bootmain dk m = (Some (e_entry (boot_hdr dk)), ?m2)"
    using assms(2) hdr [OF r(1)] hdr [OF l(1)] by (simp add: bootmain_def Let_def)
  moreover have "?m2 x = m x" if "unat x \<notin> scratch \<union> (\<Union>i < ?n. seg_span (boot_seg dk i))" for x
    using l(3) r(2) [of x m] that by auto
  ultimately show ?thesis using l(2) unfolding seg_loaded_def Let_def by fastforce
qed

text \<open>An image with one segment of 16 bytes, from offset 515 on.\<close>

definition demo_header :: "u8 list" where
  "demo_header = [0x7F, 0x45, 0x4C, 0x46, 0, 0, 0, 0, 0, 0, 0, 0, 0, 0, 0, 0, 0, 0, 0, 0, 0, 0, 0, 0, 3, 0, 0x10, 0, 52, 0, 0, 0,
     0, 0, 0, 0, 0, 0, 0, 0, 0, 0, 0, 0, 1, 0, 0, 0, 0, 0, 0, 0,
     1, 0, 0, 0, 3, 2, 0, 0, 3, 0, 0x10, 0, 0, 0, 0, 0, 16, 0, 0, 0, 32, 0, 0, 0, 0, 0, 0, 0, 0, 0, 0, 0]"

definition demo_image :: disk where
  "demo_image d s = (if s = 1 then demo_header @ replicate 428 0 else if s = 2 then map of_nat [0..<512] else replicate 512 0)"

lemma demo_image_hdr: "boot_hdr demo_image = \<lparr>e_magic = 0x464C457F, e_entry = 0x100003, e_phoff = 52, e_phnum = 1\<rparr>"
  "boot_seg demo_image 0 = \<lparr>ph_type = 1, ph_offset = 515, ph_va = 0x100003, ph_filesz = 16, ph_memsz = 32\<rparr>"
proof -
  have l: "length demo_header = 84" by (simp add: demo_header_def)
  have b: "image_bytes demo_image off n = take n (drop off demo_header)" if "off + n \<le> 84" for off n
    using that l by (auto intro!: nth_equalityI simp: image_bytes_def image_byte_def demo_image_def nth_append)
  show h: "boot_hdr demo_image = \<lparr>e_magic = 0x464C457F, e_entry = 0x100003, e_phoff = 52, e_phnum = 1\<rparr>"
    unfolding boot_hdr_def by (subst b) (simp, simp add: demo_header_def dec_elfhdr_def get32_def get16_def dec32_def dec16_def)
  show "boot_seg demo_image 0 = \<lparr>ph_type = 1, ph_offset = 515, ph_va = 0x100003, ph_filesz = 16, ph_memsz = 32\<rparr>"
    unfolding boot_seg_def h by (simp, subst b) (simp, simp add: demo_header_def dec_proghdr_def get32_def get16_def dec32_def dec16_def)
qed

theorem bootmain_loads_witness:
  "\<exists>m'. bootmain demo_image (\<lambda>_. 9) = (Some 0x100003, m') \<and> m' 0x100007 = 7 \<and> m' 0x100014 = 0 \<and> m' 0x200000 = 9"
proof -
  have s: "seg_mem (boot_seg demo_image 0) = {0x100003..<0x100023}" "seg_span (boot_seg demo_image 0) = {0x100000..<0x100200}"
    unfolding demo_image_hdr seg_span_def seg_mem_def by auto
  have "seg_fits (boot_seg demo_image 0)" unfolding demo_image_hdr by (simp add: seg_fits_def)
  moreover have "\<forall>s. length (demo_image 0 s) = 512" by (simp add: demo_image_def demo_header_def)
  ultimately obtain m' where m': "bootmain demo_image (\<lambda>_. 9) = (Some 0x100003, m')"
    "\<forall>x. (0x100003 \<le> unat x \<and> unat x < 0x100013 \<longrightarrow> m' x = image_byte demo_image (515 + (unat x - 0x100003))) \<and>
       (0x100013 \<le> unat x \<and> unat x < 0x100023 \<longrightarrow> m' x = 0)"
    "\<forall>x. unat x \<notin> scratch \<union> {0x100000..<0x100200} \<longrightarrow> m' x = 9"
    using bootmain_loads [where dk = demo_image and m = "\<lambda>_. 9"] s by (auto simp: demo_image_hdr scratch_def less_Suc_eq lessThan_Suc)
  have "m' 0x100007 = 7" using m'(2) [rule_format, of "0x100007"] by (simp add: image_byte_def demo_image_def)
  moreover have "m' 0x100014 = 0" using m'(2) [rule_format, of "0x100014"] by simp
  moreover have "m' 0x200000 = 9" using m'(3) [rule_format, of "0x200000"] by (simp add: scratch_def)
  ultimately show ?thesis using m'(1) by blast
qed

end
