(* ===== verification/Umalloc.thy ===== *)
theory Umalloc
  imports Prelude "HOL-Library.While_Combinator"
begin

text \<open>
  The allocator of user programs (\<^verbatim>\<open>user/umalloc.c\<close>), a circular list of free blocks in order of
  address. The state holds, for every address, the two words of a \<^verbatim>\<open>Header\<close> there; a block of
  \<open>n\<close> units takes \<open>8 * n\<close> bytes, its header included. \<open>um_base\<close> is the address of the static \<^verbatim>\<open>base\<close>.
  A routine that does not return, because it waits for the lock or runs round a damaged list, has the
  result \<open>None\<close>.
\<close>

section \<open>Operations\<close>

record umem =
  um_ptr :: "addr \<Rightarrow> addr"
  um_size :: "addr \<Rightarrow> u32"
  um_base :: addr
  um_freep :: addr
  um_lock :: u32
  um_count :: u32
  um_brk :: u32

definition setptr :: "addr \<Rightarrow> addr \<Rightarrow> umem \<Rightarrow> umem" where
  "setptr a v m = m\<lparr>um_ptr := (um_ptr m)(a := v)\<rparr>"

definition setsize :: "addr \<Rightarrow> u32 \<Rightarrow> umem \<Rightarrow> umem" where
  "setsize a v m = m\<lparr>um_size := (um_size m)(a := v)\<rparr>"

text \<open>The loop of \<^verbatim>\<open>free\<close> stops at the block after which \<open>bp\<close> belongs.\<close>

definition free_stop :: "(addr \<Rightarrow> addr) \<Rightarrow> addr \<Rightarrow> addr \<Rightarrow> bool" where
  "free_stop ptr bp p \<longleftrightarrow> bp > p \<and> bp < ptr p \<or> p \<ge> ptr p \<and> (bp > p \<or> bp < ptr p)"

definition free_search :: "addr \<Rightarrow> umem \<Rightarrow> addr option" where
  "free_search bp m = while_option (\<lambda>p. \<not> free_stop (um_ptr m) bp p) (um_ptr m) (um_freep m)"

definition free_link :: "addr \<Rightarrow> addr \<Rightarrow> umem \<Rightarrow> umem" where
  "free_link bp p m =
    (let nx = um_ptr m p;
         m1 = (if bp + 8 * um_size m bp = nx
               then setptr bp (um_ptr m nx) (setsize bp (um_size m bp + um_size m nx) m)
               else setptr bp nx m);
         m2 = (if p + 8 * um_size m1 p = bp
               then setptr p (um_ptr m1 bp) (setsize p (um_size m1 p + um_size m1 bp) m1)
               else setptr p bp m1)
     in m2\<lparr>um_freep := p\<rparr>)"

definition freewlock :: "addr \<Rightarrow> umem \<Rightarrow> umem option" where
  "freewlock ap m = map_option (\<lambda>p. free_link (ap - 8) p m) (free_search (ap - 8) m)"

definition free :: "addr \<Rightarrow> umem \<Rightarrow> umem option" where
  "free ap m = (if um_lock m \<noteq> 0 then None else
     map_option (\<lambda>m. m\<lparr>um_lock := 0\<rparr>) (freewlock ap (m\<lparr>um_lock := 1\<rparr>)))"

text \<open>
  The system call \<^verbatim>\<open>sbrk\<close> as the process sees it (\<^verbatim>\<open>growproc\<close>, \<^verbatim>\<open>allocuvm\<close> and \<^verbatim>\<open>deallocuvm\<close> of the
  kernel): \<open>enough sz\<close> tells whether the kernel finds the pages for a size of \<open>sz\<close>. A count that is
  negative as an \<^verbatim>\<open>int\<close> and reaches below zero leaves the size as it is and still succeeds.
\<close>

definition sbrk :: "(u32 \<Rightarrow> bool) \<Rightarrow> u32 \<Rightarrow> umem \<Rightarrow> addr \<times> umem" where
  "sbrk enough n m = (let sz = um_brk m; newsz = sz + n in
     if 0 < sint n then
       (if newsz > 0xA0000 then (- 1, m) else if newsz < sz then (sz, m)
        else if enough newsz then (sz, m\<lparr>um_brk := newsz\<rparr>) else (- 1, m))
     else if sint n < 0 then
       (if newsz \<ge> sz then (if sz = 0 then - 1 else sz, m)
        else if newsz = 0 then (- 1, m) else (sz, m\<lparr>um_brk := newsz\<rparr>))
     else (sz, m))"

definition morecore :: "(u32 \<Rightarrow> bool) \<Rightarrow> u32 \<Rightarrow> umem \<Rightarrow> (addr \<times> umem) option" where
  "morecore enough nu m = (let nu' = (if nu < 4096 then 4096 else nu); (p, m1) = sbrk enough (nu' * 8) m in
     if p = - 1 then Some (0, m1)
     else map_option (\<lambda>m2. (um_freep m2, m2)) (freewlock (p + 8) (setsize p nu' m1)))"

definition nunits :: "u32 \<Rightarrow> u32" where
  "nunits nbytes = (nbytes + 8 - 1) div 8 + 1"

text \<open>The block found: all of it is taken off the list, or the end of it is cut off.\<close>

definition take_block :: "u32 \<Rightarrow> addr \<Rightarrow> addr \<Rightarrow> umem \<Rightarrow> addr \<times> umem" where
  "take_block nu prevp p m =
    (if um_size m p = nu then (p + 8, (setptr prevp (um_ptr m p) m)\<lparr>um_freep := prevp\<rparr>)
     else let sz = um_size m p - nu; q = p + 8 * sz
          in (q + 8, (setsize q nu (setsize p sz m))\<lparr>um_freep := prevp\<rparr>))"

partial_function (option) malloc_loop :: "(u32 \<Rightarrow> bool) \<Rightarrow> u32 \<Rightarrow> addr \<Rightarrow> addr \<Rightarrow> umem \<Rightarrow> (addr \<times> umem) option" where
  "malloc_loop enough nu prevp p m =
    (if um_size m p \<ge> nu then Some (take_block nu prevp p m)
     else if p = um_freep m then
       Option.bind (morecore enough nu m) (\<lambda>(p', m').
         if p' = 0 then Some (0, m') else malloc_loop enough nu p' (um_ptr m' p') m')
     else malloc_loop enough nu p (um_ptr m p) m)"

definition malloc_init :: "umem \<Rightarrow> umem" where
  "malloc_init m = (if um_freep m = 0
     then (setsize (um_base m) 0 (setptr (um_base m) (um_base m) m))\<lparr>um_freep := um_base m\<rparr> else m)"

definition malloc :: "(u32 \<Rightarrow> bool) \<Rightarrow> u32 \<Rightarrow> umem \<Rightarrow> (addr \<times> umem) option" where
  "malloc enough nbytes m = (if um_lock m \<noteq> 0 then None else
     let m1 = malloc_init (m\<lparr>um_lock := 1, um_count := um_count m + 1\<rparr>); prevp = um_freep m1
     in map_option (\<lambda>(r, m2). (r, m2\<lparr>um_lock := 0\<rparr>)) (malloc_loop enough (nunits nbytes) prevp (um_ptr m1 prevp) m1))"

section \<open>Paths in the list\<close>

text \<open>\<open>path f xs\<close>: each element of \<open>xs\<close> points to the next one.\<close>

fun path :: "('a \<Rightarrow> 'a) \<Rightarrow> 'a list \<Rightarrow> bool" where
  "path f (x # y # zs) = (f x = y \<and> path f (y # zs))"
| "path f zs = True"

lemma path_append: "path f (xs @ y # ys) = (path f (xs @ [y]) \<and> path f (y # ys))"
  by (induction xs rule: induct_list012) simp_all

lemma path_cong: "(\<And>x. x \<in> set (butlast xs) \<Longrightarrow> f x = g x) \<Longrightarrow> path f xs = path g xs"
  by (induction f xs rule: path.induct) auto

lemma path_upd: "a \<notin> set (butlast xs) \<Longrightarrow> path (f(a := v)) xs = path f xs"
  by (rule path_cong) auto

lemma while_path:
  "path f (us @ [t]) \<Longrightarrow> \<forall>u \<in> set us. b u \<Longrightarrow> \<not> b t \<Longrightarrow> while_option b f (hd (us @ [t])) = Some t"
proof (induction us)
  case Nil
  then show ?case by (simp add: while_option_unfold)
next
  case (Cons u us)
  have "f u = hd (us @ [t])" "path f (us @ [t])" using Cons.prems(1) by (cases us; simp)+
  then show ?case using Cons by (simp add: while_option_unfold [of b f u])
qed

text \<open>A ring: the last element points to the first. It can be cut open anywhere.\<close>

definition ring_of :: "('a \<Rightarrow> 'a) \<Rightarrow> 'a list \<Rightarrow> bool" where
  "ring_of f xs \<longleftrightarrow> path f (xs @ [hd xs])"

lemma ring_of_rotate: "ring_of f (xs @ ys) = ring_of f (ys @ xs)"
proof (cases "xs = [] \<or> ys = []")
  case False
  then obtain x xs' y ys' where "xs = x # xs'" "ys = y # ys'" by (meson list.exhaust)
  then show ?thesis
    unfolding ring_of_def using path_append [of f xs y "ys' @ [x]"] path_append [of f ys x "xs' @ [y]"] by auto
qed auto

lemma path_appendD: "path f (xs @ ys) \<Longrightarrow> path f xs \<and> path f ys"
proof (induction xs rule: induct_list012)
  case (2 x)
  then show ?case by (cases ys) simp_all
qed simp_all

lemma ring_of_path: "ring_of f (xs @ ys @ zs) \<Longrightarrow> path f ys"
  unfolding ring_of_def by (metis append.assoc path_appendD)
lemma path_image: "path f ys \<Longrightarrow> f ` set (butlast ys) = set (tl ys)"
  by (induction f ys rule: path.induct) auto

lemma ring_of_inj:
  assumes "ring_of f xs" and "distinct xs"
  shows "inj_on f (set xs)"
proof (cases xs)
  case (Cons x r)
  have "f ` set (butlast (xs @ [hd xs])) = set (tl (xs @ [hd xs]))" using assms(1) unfolding ring_of_def by (rule path_image)
  then have "f ` set xs = set xs" using Cons by simp
  then show ?thesis by (intro eq_card_imp_inj_on) simp_all
qed simp

lemma in_butlast_split: "x \<in> set (butlast xs) \<Longrightarrow> \<exists>us y vs. xs = us @ x # y # vs"
proof (induction xs)
  case (Cons a xs)
  show ?case
  proof (cases "xs = [] \<or> x \<noteq> a")
    case True
    then obtain us y vs where "xs = us @ x # y # vs" using Cons by (auto split: if_splits)
    then have "a # xs = (a # us) @ x # y # vs" by simp
    then show ?thesis by blast
  next
    case False
    then obtain y vs where "xs = y # vs" by (meson list.exhaust)
    then have "a # xs = [] @ x # y # vs" using False by simp
    then show ?thesis by blast
  qed
qed simp

lemma sorted_split:
  fixes bp :: "'a::linorder"
  assumes "sorted_wrt (<) xs" and "bp \<notin> set xs"
  shows "\<exists>ys zs. xs = ys @ zs \<and> (\<forall>y \<in> set ys. y < bp) \<and> (\<forall>z \<in> set zs. bp < z)"
  using assms
proof (induction xs)
  case (Cons x xs)
  show ?case
  proof (cases "x < bp")
    case True
    obtain ys zs where "xs = ys @ zs" "\<forall>y \<in> set ys. y < bp" "\<forall>z \<in> set zs. bp < z" using Cons by auto
    then have "x # xs = (x # ys) @ zs \<and> (\<forall>y \<in> set (x # ys). y < bp) \<and> (\<forall>z \<in> set zs. bp < z)" using True by simp
    then show ?thesis by blast
  next
    case False
    then have "\<forall>z \<in> set (x # xs). bp < z" using Cons.prems by force
    then have "x # xs = [] @ (x # xs) \<and> (\<forall>y \<in> set []. y < bp) \<and> (\<forall>z \<in> set (x # xs). bp < z)" by simp
    then show ?thesis by blast
  qed
qed simp

section \<open>The invariant\<close>

text \<open>
  \<open>xs\<close> are the free blocks, in order of address, after \<^verbatim>\<open>base\<close>; \<open>A\<close> are the blocks handed out. All of them
  lie between \<^verbatim>\<open>base\<close> and the end of the process and no two overlap.
\<close>

definition ext :: "umem \<Rightarrow> addr \<Rightarrow> nat" where
  "ext m a = 8 * max 1 (unat (um_size m a))"

definition apart :: "umem \<Rightarrow> addr \<Rightarrow> addr \<Rightarrow> bool" where
  "apart m a b \<longleftrightarrow> unat a + ext m a \<le> unat b \<or> unat b + ext m b \<le> unat a"

definition hbytes :: "umem \<Rightarrow> addr set \<Rightarrow> nat set" where
  "hbytes m S = (\<Union>a \<in> S. {unat a..<unat a + 8 * unat (um_size m a)})"

definition heap_ok :: "umem \<Rightarrow> addr list \<Rightarrow> addr set \<Rightarrow> bool" where
  "heap_ok m xs A \<longleftrightarrow> ring_of (um_ptr m) (um_base m # xs) \<and> um_freep m \<in> set (um_base m # xs) \<and>
     um_base m \<noteq> 0 \<and> um_size m (um_base m) = 0 \<and> unat (um_base m) + 8 \<le> unat (um_brk m) \<and> um_brk m \<le> 0xA0000 \<and>
     sorted_wrt (<) (um_base m # xs) \<and> set xs \<inter> A = {} \<and>
     (\<forall>a \<in> set xs \<union> A. um_base m < a \<and> um_size m a \<noteq> 0 \<and> unat a + ext m a \<le> unat (um_brk m)) \<and>
     pairwise (apart m) (insert (um_base m) (set xs \<union> A))"

lemma heap_okD:
  assumes "heap_ok m xs A"
  shows "ring_of (um_ptr m) (um_base m # xs)" "um_freep m \<in> set (um_base m # xs)" "um_base m \<noteq> 0" "um_size m (um_base m) = 0"
    "unat (um_base m) + 8 \<le> unat (um_brk m)" "um_brk m \<le> 0xA0000" "sorted_wrt (<) (um_base m # xs)" "set xs \<inter> A = {}"
    "\<And>a. a \<in> set xs \<union> A \<Longrightarrow> um_base m < a \<and> um_size m a \<noteq> 0 \<and> unat a + ext m a \<le> unat (um_brk m)"
    "pairwise (apart m) (insert (um_base m) (set xs \<union> A))"
  using assms unfolding heap_ok_def by blast+

lemma ext_eq: "um_size m a \<noteq> 0 \<Longrightarrow> ext m a = 8 * unat (um_size m a)"
  unfolding ext_def by (simp add: unat_gt_0 Suc_leI max_def)

lemma unat_block_end: "unat a + 8 * unat s < 4294967296 \<Longrightarrow> unat (a + 8 * s) = unat a + 8 * unat s" for a s :: u32
  by (simp add: unat_word_ariths)

lemma heap_ok_block:
  assumes "heap_ok m xs A" and "a \<in> set xs \<union> A"
  shows "unat a + 8 * unat (um_size m a) \<le> unat (um_brk m)" "unat (um_brk m) \<le> 655360" "0 < unat (um_size m a)"
    "unat (a + 8 * um_size m a) = unat a + 8 * unat (um_size m a)"
proof -
  have b: "um_size m a \<noteq> 0" "unat a + ext m a \<le> unat (um_brk m)" using heap_okD(9) [OF assms] by auto
  show 1: "unat a + 8 * unat (um_size m a) \<le> unat (um_brk m)" using b by (simp add: ext_eq)
  show 2: "unat (um_brk m) \<le> 655360" using heap_okD(6) [OF assms(1)] by (simp add: word_le_nat_alt)
  show "0 < unat (um_size m a)" using b(1) by (simp add: unat_gt_0)
  show "unat (a + 8 * um_size m a) = unat a + 8 * unat (um_size m a)" by (rule unat_block_end) (use 1 2 in simp)
qed

lemma free_search_eq:
  assumes r: "ring_of (um_ptr m) (b # ys @ zs)" and f: "um_freep m \<in> set (b # ys @ zs)"
    and s: "sorted_wrt (<) (b # ys @ zs)" and bp: "\<forall>y \<in> set (b # ys). y < bp" "\<forall>z \<in> set zs. bp < z"
  shows "free_search bp m = Some (last (b # ys))"
proof -
  let ?f = "um_ptr m" and ?Y = "b # ys" and ?t = "last (b # ys)"
  have rp: "path ?f (?Y @ zs @ [b])" using r by (simp add: ring_of_def)
  have nx: "?f u = v" if "b # ys @ zs @ [b] = us @ u # v # vs" for u v us vs
    using rp that path_appendD [of ?f us "u # v # vs"] by simp
  have Y: "\<not> free_stop ?f bp u" if u: "u \<in> set (butlast ?Y)" for u
  proof -
    obtain us v vs where e: "?Y = us @ u # v # vs" using in_butlast_split [OF u] by blast
    have "?f u = v" using nx [of us u v "vs @ zs @ [b]"] e by simp
    moreover have "sorted_wrt (<) (us @ u # v # vs @ zs)" using s e by (metis append.assoc append_Cons)
    then have "u < v" by (simp add: sorted_wrt_append)
    moreover have "v < bp" using bp(1) e by auto
    ultimately show ?thesis by (auto simp: free_stop_def)
  qed
  have Z: "\<not> free_stop ?f bp u" if u: "u \<in> set zs" for u
  proof -
    obtain us vs where e: "zs = us @ u # vs" using split_list [OF u] by blast
    have lt: "bp < u" "b < bp" using bp u by auto
    show ?thesis
    proof (cases vs)
      case Nil
      then have "?f u = b" using nx [of "b # ys @ us" u b "[]"] e by simp
      then show ?thesis using lt by (auto simp: free_stop_def)
    next
      case (Cons v vs')
      then have "?f u = v" using nx [of "b # ys @ us" u v "vs' @ [b]"] e by simp
      moreover have "u < v" using s e Cons by (simp add: sorted_wrt_append)
      ultimately show ?thesis using lt by (auto simp: free_stop_def)
    qed
  qed
  have T: "free_stop ?f bp ?t"
  proof -
    have e: "?Y = butlast ?Y @ [?t]" by simp
    have lt: "?t < bp" "b \<le> ?t" "b < bp" using bp(1) s by (auto simp: sorted_wrt_append less_imp_le)
    show ?thesis
    proof (cases zs)
      case Nil
      then have "?f ?t = b" using nx [of "butlast ?Y" ?t b "[]"] e by (metis append.assoc append_Cons append_Nil)
      then show ?thesis using lt by (auto simp: free_stop_def)
    next
      case (Cons z zs')
      then have "?f ?t = z" using nx [of "butlast ?Y" ?t z "zs' @ [b]"] e by (metis append.assoc append_Cons append_Nil)
      then show ?thesis using lt bp(2) Cons by (auto simp: free_stop_def)
    qed
  qed
  have st: "while_option (\<lambda>p. \<not> free_stop ?f bp p) ?f (hd (us @ [?t])) = Some ?t"
    if "path ?f (us @ [?t])" "set us \<subseteq> set (butlast ?Y) \<union> set zs" for us
    by (rule while_path [OF that(1)]) (use that(2) Y Z T in auto)
  show ?thesis
  proof (cases "um_freep m \<in> set ?Y")
    case True
    then obtain y1 y2 where e: "?Y = y1 @ um_freep m # y2" by (meson split_list)
    have p: "path ?f (um_freep m # y2)" using rp path_appendD [of ?f y1 "(um_freep m # y2) @ zs @ [b]"]
      path_appendD [of ?f "um_freep m # y2" "zs @ [b]"] e by (metis append.assoc)
    have e2: "um_freep m # y2 = butlast (um_freep m # y2) @ [?t]" using e by (metis append_butlast_last_id last_appendR list.discI)
    have "set (butlast (um_freep m # y2)) \<subseteq> set (butlast ?Y)" unfolding e by (auto simp: butlast_append)
    then show ?thesis using st [of "butlast (um_freep m # y2)"] p e2 unfolding free_search_def by (metis le_supI1 list.sel(1))
  next
    case False
    then obtain z1 z2 where e: "zs = z1 @ um_freep m # z2" using f by (metis UnE append_Cons set_append split_list)
    have "ring_of ?f ((um_freep m # z2) @ ?Y @ z1)" using r e ring_of_rotate [of ?f "?Y @ z1" "um_freep m # z2"] by simp
    then have p: "path ?f ((um_freep m # z2) @ ?Y)" using ring_of_path [of ?f "[]" "(um_freep m # z2) @ ?Y" z1] by simp
    have e2: "(um_freep m # z2) @ ?Y = (um_freep m # z2 @ butlast ?Y) @ [?t]" by simp
    show ?thesis using st [of "um_freep m # z2 @ butlast ?Y"] p e2 e unfolding free_search_def by (auto simp del: butlast.simps last.simps)
  qed
qed
section \<open>Linking in and merging\<close>

text \<open>\<open>free_link\<close> links the block in and then merges it with its neighbours.\<close>

definition link_in :: "addr \<Rightarrow> addr \<Rightarrow> umem \<Rightarrow> umem" where
  "link_in p bp m = (setptr p bp (setptr bp (um_ptr m p) m))\<lparr>um_freep := p\<rparr>"

definition merge_next :: "addr \<Rightarrow> addr \<Rightarrow> umem \<Rightarrow> umem" where
  "merge_next a b m = setptr a (um_ptr m b) (setsize a (um_size m a + um_size m b) m)"

lemma umem_upd [simp]:
  "um_ptr (setptr a v m) = (um_ptr m)(a := v)" "um_size (setptr a v m) = um_size m" "um_base (setptr a v m) = um_base m"
  "um_freep (setptr a v m) = um_freep m" "um_lock (setptr a v m) = um_lock m" "um_brk (setptr a v m) = um_brk m"
  "um_count (setptr a v m) = um_count m"
  "um_ptr (setsize a n m) = um_ptr m" "um_size (setsize a n m) = (um_size m)(a := n)" "um_base (setsize a n m) = um_base m"
  "um_freep (setsize a n m) = um_freep m" "um_lock (setsize a n m) = um_lock m" "um_brk (setsize a n m) = um_brk m"
  "um_count (setsize a n m) = um_count m"
  by (simp_all add: setptr_def setsize_def)

lemma free_link_eq:
  assumes "p \<noteq> bp" "um_ptr m p \<noteq> bp" "bp + 8 * um_size m bp = um_ptr m p \<longrightarrow> um_ptr m p \<noteq> p"
  shows "free_link bp p m =
    (let m1 = link_in p bp m;
         m2 = (if bp + 8 * um_size m bp = um_ptr m p then merge_next bp (um_ptr m p) m1 else m1)
     in if p + 8 * um_size m p = bp then merge_next p bp m2 else m2)"
  using assms by (intro umem.equality) (auto simp: free_link_def link_in_def merge_next_def Let_def fun_eq_iff)

lemma ext_cong: "um_size m' a = um_size m a \<Longrightarrow> ext m' a = ext m a"
  by (simp add: ext_def)

lemma apart_cong: "um_size m' a = um_size m a \<Longrightarrow> um_size m' b = um_size m b \<Longrightarrow> apart m' a b = apart m a b"
  by (simp add: apart_def ext_def)

lemma hbytes_cong: "(\<And>x. x \<in> S \<Longrightarrow> um_size m' x = um_size m x) \<Longrightarrow> hbytes m' S = hbytes m S"
  by (auto simp: hbytes_def)

lemma link_in_ok:
  assumes h: "heap_ok m (ys @ zs) A" and bp: "bp \<in> A" "\<forall>y \<in> set ys. y < bp" "\<forall>z \<in> set zs. bp < z"
    and p: "p = last (um_base m # ys)"
  shows "heap_ok (link_in p bp m) (ys @ bp # zs) (A - {bp})"
proof -
  let ?b = "um_base m" and ?f = "um_ptr m"
  note D = heap_okD [OF h]
  have b: "?b < bp" using D(9) bp(1) by blast
  have s: "sorted_wrt (<) (?b # ys @ bp # zs)" using D(7) bp b by (auto simp: sorted_wrt_append)
  have dist: "distinct (?b # ys @ bp # zs)" using s strict_sorted_iff sorted_wrt_append by (metis strict_sorted_equal_Uniq strict_sorted_iff)
  obtain y0 where y0: "?b # ys = y0 @ [p]" using p by (metis append_butlast_last_id list.discI)
  have py0: "p \<notin> set y0" "p \<notin> set zs" "bp \<notin> set (?b # ys)" "bp \<notin> set zs" "p \<noteq> bp"
    using dist y0 by (auto simp: Cons_eq_append_conv)
  have e: "y0 @ p # w = ?b # ys @ w" for w using arg_cong [OF y0, of "\<lambda>x. x @ w"] by simp
  have rp: "path ?f (y0 @ p # zs @ [?b])" using D(1) unfolding e by (simp add: ring_of_def)
  have r1: "path ?f (y0 @ [p])" "path ?f (p # zs @ [?b])" using rp path_append [of ?f y0 p "zs @ [?b]"] by simp_all
  let ?m = "link_in p bp m"
  let ?g = "um_ptr ?m"
  have g: "?g = ?f(bp := ?f p, p := bp)" by (simp add: link_in_def)
  have "path ?g (y0 @ [p])" using r1(1) py0 y0 by (subst path_cong [of _ ?g ?f]) (auto simp: g butlast_append)
  moreover have "path ?g (p # bp # zs @ [?b])"
  proof -
    have "?g p = bp" "?g bp = hd (zs @ [?b])" using g py0 r1(2) by (cases zs; simp)+
    moreover have "path ?g (zs @ [?b])"
    proof -
      have "path ?f (zs @ [?b])" using r1(2) by (cases zs) simp_all
      then show ?thesis using py0 by (subst path_cong [of _ ?g ?f]) (auto simp: g butlast_append)
    qed
    ultimately show ?thesis by (cases zs) simp_all
  qed
  ultimately have "path ?g (y0 @ p # bp # zs @ [?b])" using path_append [of ?g y0 p "bp # zs @ [?b]"] by simp
  then have ring: "ring_of ?g (?b # ys @ bp # zs)" unfolding e by (simp add: ring_of_def)
  have set: "set (ys @ bp # zs) \<union> (A - {bp}) = set (ys @ zs) \<union> A" using bp(1) by auto
  have sz: "um_size ?m = um_size m" "um_base ?m = ?b" "um_brk ?m = um_brk m" "um_freep ?m = p" by (simp_all add: link_in_def)
  have pw: "apart ?m = apart m" "ext ?m = ext m" by (simp_all add: fun_eq_iff apart_def ext_def sz)
  have "p = ?b \<or> p \<in> set ys" using p by (metis last.simps last_in_set)
  then show ?thesis unfolding heap_ok_def sz pw set
    using ring s D(3-6,8,9,10) py0 by auto
qed

lemma hbytes_link_in: "hbytes (link_in p bp m) = hbytes m"
  by (simp add: hbytes_def link_in_def fun_eq_iff)

lemma merge_ok:
  assumes h: "heap_ok m (us @ a # c # vs) A" and ad: "a + 8 * um_size m a = c" and f: "um_freep m \<noteq> c"
  shows "heap_ok (merge_next a c m) (us @ a # vs) A"
    "unat (um_size (merge_next a c m) a) = unat (um_size m a) + unat (um_size m c)"
    "hbytes (merge_next a c m) (set (us @ a # vs)) = hbytes m (set (us @ a # c # vs))"
proof -
  let ?b = "um_base m" and ?f = "um_ptr m" and ?m = "merge_next a c m"
  note D = heap_okD [OF h]
  have ac: "unat a + 8 * unat (um_size m a) = unat c" using heap_ok_block(4) [OF h, of a] ad by simp
  have cb: "unat c + 8 * unat (um_size m c) \<le> 655360" using heap_ok_block(1,2) [OF h, of c] by simp
  show sum: "unat (um_size ?m a) = unat (um_size m a) + unat (um_size m c)"
    using ac cb by (simp add: merge_next_def unat_word_ariths)
  have dist: "distinct (?b # us @ a # c # vs)" using D(7) by (metis strict_sorted_iff)
  have sz: "um_size ?m x = um_size m x" if "x \<noteq> a" for x using that by (simp add: merge_next_def)
  have nz: "um_size m a \<noteq> 0" "um_size m c \<noteq> 0" using D(9) by simp_all
  have nza: "um_size ?m a \<noteq> 0" using sum nz(1) by (metis add_is_0 unat_0 unat_eq_zero)
  have ea: "ext ?m a = ext m a + ext m c" using sum nz nza by (simp add: ext_eq)
  have ex: "ext ?m x = ext m x" if "x \<noteq> a" for x using sz [OF that] by (rule ext_cong)
  have aS: "apart ?m a x \<and> apart ?m x a" if x: "x \<in> insert ?b (set (us @ a # vs) \<union> A)" "x \<noteq> a" for x
  proof -
    have S: "a \<in> insert ?b (set (us @ a # c # vs) \<union> A)" "c \<in> insert ?b (set (us @ a # c # vs) \<union> A)"
      "x \<in> insert ?b (set (us @ a # c # vs) \<union> A)" using x by auto
    have "x \<noteq> c" using x D(8) dist by auto
    then have "apart m a x" "apart m c x" using pairwiseD [OF D(10)] S x(2) by auto
    moreover have "unat a + ext m a = unat c" using ac nz by (simp add: ext_eq)
    moreover have "0 < ext m c" "0 < ext m x" by (simp_all add: ext_def)
    ultimately show ?thesis unfolding apart_def ex [OF x(2)] ea by linarith
  qed
  have pw: "pairwise (apart ?m) (insert ?b (set (us @ a # vs) \<union> A))"
  proof (rule pairwiseI)
    fix x y assume x: "x \<in> insert ?b (set (us @ a # vs) \<union> A)" and y: "y \<in> insert ?b (set (us @ a # vs) \<union> A)" and n: "x \<noteq> y"
    show "apart ?m x y"
    proof (cases "x = a \<or> y = a")
      case True
      then show ?thesis using aS x y n by auto
    next
      case False
      then have "apart m x y" using pairwiseD [OF D(10), of x y] x y n by auto
      then show ?thesis using False apart_cong [OF sz sz, of x y] by simp
    qed
  qed
  have rp: "path ?f ((?b # us) @ a # c # vs @ [?b])" using D(1) by (simp add: ring_of_def)
  have r1: "path ?f ((?b # us) @ [a])" "path ?f (c # vs @ [?b])"
    using rp path_append [of ?f "?b # us" a "c # vs @ [?b]"] by simp_all
  let ?g = "um_ptr ?m"
  have g: "?g = ?f(a := ?f c)" by (simp add: merge_next_def)
  have "path ?g ((?b # us) @ [a])" using r1(1) dist by (subst path_cong [of _ ?g ?f]) (auto simp: g butlast_append)
  moreover have "path ?g (a # vs @ [?b])"
  proof -
    have "?g a = hd (vs @ [?b])" using g r1(2) by (cases vs) simp_all
    moreover have "path ?f (vs @ [?b])" using r1(2) by (cases vs) simp_all
    then have "path ?g (vs @ [?b])" using dist by (subst path_cong [of _ ?g ?f]) (auto simp: g butlast_append)
    ultimately show ?thesis by (cases vs) simp_all
  qed
  ultimately have ring: "ring_of ?g (?b # us @ a # vs)" using path_append [of ?g "?b # us" a "vs @ [?b]"] by (simp add: ring_of_def)
  have o: "um_base ?m = ?b" "um_brk ?m = um_brk m" "um_freep ?m = um_freep m" by (simp_all add: merge_next_def)
  have bnd: "?b < x \<and> um_size ?m x \<noteq> 0 \<and> unat x + ext ?m x \<le> unat (um_brk m)" if x: "x \<in> set (us @ a # vs) \<union> A" for x
  proof (cases "x = a")
    case True
    have "unat c + ext m c \<le> unat (um_brk m)" "?b < a" using D(9) [of c] D(9) [of a] by simp_all
    then show ?thesis using True nza ea ac nz by (simp add: ext_eq)
  next
    case False
    then show ?thesis using D(9) [of x] x sz [OF False] ex [OF False] by auto
  qed
  have s: "sorted_wrt (<) (?b # us @ a # vs)" using D(7) by (simp add: sorted_wrt_append)
  have bs: "um_size ?m ?b = 0" using sz [of ?b] D(4) dist by auto
  show "heap_ok ?m (us @ a # vs) A" unfolding heap_ok_def o using ring D(2,3,5,6,8) f s bs bnd pw by auto
  have "hbytes ?m (set (us @ a # vs)) = hbytes ?m {a} \<union> hbytes ?m (set us \<union> set vs)" by (auto simp: hbytes_def)
  also have "hbytes ?m {a} = hbytes m {a, c}" using ac sum by (auto simp: hbytes_def)
  also have "hbytes ?m (set us \<union> set vs) = hbytes m (set us \<union> set vs)" 
    by (rule hbytes_cong, rule sz) (use dist in auto)
  finally show "hbytes ?m (set (us @ a # vs)) = hbytes m (set (us @ a # c # vs))" by (auto simp: hbytes_def)
qed
section \<open>Freeing\<close>

lemma freewlock_ok:
  assumes h: "heap_ok m xs A" and bp: "bp \<in> A"
  shows "\<exists>m' xs'. freewlock (bp + 8) m = Some m' \<and> heap_ok m' xs' (A - {bp}) \<and>
     hbytes m' (set xs') = hbytes m (set xs) \<union> hbytes m {bp} \<and>
     (\<forall>a \<in> A - {bp}. um_size m' a = um_size m a) \<and> (\<exists>x \<in> set xs'. um_size m' x \<ge> um_size m bp) \<and>
     um_brk m' = um_brk m \<and> um_lock m' = um_lock m \<and> um_base m' = um_base m"
proof -
  let ?b = "um_base m" and ?nb = "8 * um_size m bp"
  note D = heap_okD [OF h]
  have "bp \<notin> set xs" "sorted_wrt (<) xs" "?b < bp" using D(7,8,9) bp by auto
  then obtain ys zs where xs: "xs = ys @ zs" and lt: "\<forall>y \<in> set ys. y < bp" "\<forall>z \<in> set zs. bp < z"
    using sorted_split [of xs bp] by blast
  define p where "p = last (?b # ys)"
  have ly: "\<forall>y \<in> set (?b # ys). y < bp" using lt(1) \<open>?b < bp\<close> by simp
  have se: "free_search bp m = Some p" unfolding p_def
    by (rule free_search_eq [where zs = zs]) (use D(1,2,7) xs ly lt(2) in auto)
  have pin: "p \<in> set (?b # ys)" unfolding p_def by (rule last_in_set) simp
  have pbp: "p < bp" using ly pin by blast
  note L = link_in_ok [OF h [unfolded xs] bp lt p_def]
  let ?m1 = "link_in p bp m" and ?nx = "um_ptr m p"
  have sz1: "um_size ?m1 = um_size m" and o1: "um_brk ?m1 = um_brk m" "um_lock ?m1 = um_lock m" "um_base ?m1 = ?b" "um_freep ?m1 = p"
    by (simp_all add: link_in_def)
  have nx: "?nx = hd (zs @ [?b])"
  proof -
    have "?b # ys = butlast (?b # ys) @ [p]" unfolding p_def by (rule append_butlast_last_id [symmetric]) simp
    then have "path (um_ptr m) (butlast (?b # ys) @ p # zs @ [?b])" using D(1) xs unfolding ring_of_def
      by (metis append.assoc append_Cons append_Nil list.sel(1))
    then show ?thesis using path_append [of "um_ptr m" "butlast (?b # ys)" p "zs @ [?b]"] by (cases zs) simp_all
  qed
  have bpe: "unat (bp + ?nb) = unat bp + 8 * unat (um_size m bp)" "0 < unat (um_size m bp)"
    using heap_ok_block(3,4) [OF h, of bp] bp by simp_all
  then have up: "bp < bp + ?nb" by (simp add: word_less_nat_alt)
  have R: "\<exists>z zs'. zs = z # zs' \<and> ?nx = z" if "bp + ?nb = ?nx"
  proof (cases zs)
    case Nil
    then have "bp + ?nb = ?b" using that nx by simp
    then show ?thesis using up \<open>?b < bp\<close> by auto
  qed (use nx in simp)
  have Ly: "p \<in> set ys" if "p + 8 * um_size m p = bp"
  proof (rule ccontr)
    assume "p \<notin> set ys"
    then have "p = ?b" using pin by simp
    then show False using that D(4) pbp by auto
  qed
  have nxbp: "?nx \<noteq> bp" using nx lt \<open>?b < bp\<close> by (cases zs) auto
  have nxp: "?nx \<noteq> p" if "bp + ?nb = ?nx" using R [OF that] lt(2) pbp by auto
  let ?m2 = "if bp + ?nb = ?nx then merge_next bp ?nx ?m1 else ?m1"
  let ?z2 = "if bp + ?nb = ?nx then tl zs else zs"
  have 2: "heap_ok ?m2 (ys @ bp # ?z2) (A - {bp}) \<and> hbytes ?m2 (set (ys @ bp # ?z2)) = hbytes m (set xs) \<union> hbytes m {bp} \<and>
      um_size ?m2 bp \<ge> um_size m bp \<and> (\<forall>a. a \<noteq> bp \<longrightarrow> um_size ?m2 a = um_size m a) \<and>
      um_brk ?m2 = um_brk m \<and> um_lock ?m2 = um_lock m \<and> um_base ?m2 = ?b \<and> um_freep ?m2 = p"
  proof (cases "bp + ?nb = ?nx")
    case True
    obtain z zs' where z: "zs = z # zs'" "?nx = z" using R [OF True] by blast
    note M = merge_ok [OF L [unfolded z(1)], unfolded sz1 o1]
    have "bp + ?nb = z" "p \<noteq> z" using True z(2) nxp [OF True] by simp_all
    note M = M [OF this]
    have "um_size (merge_next bp z ?m1) bp \<ge> um_size m bp" using M(2) by (simp add: word_le_nat_alt)
    moreover have "hbytes m (set (ys @ bp # z # zs')) = hbytes m (set xs) \<union> hbytes m {bp}" by (auto simp: hbytes_def xs z(1))
    ultimately show ?thesis using True z M(1,3) hbytes_link_in [of p bp m] by (simp add: merge_next_def sz1 o1)
  next
    case False
    have "hbytes m (set (ys @ bp # zs)) = hbytes m (set xs) \<union> hbytes m {bp}" by (auto simp: hbytes_def xs)
    then show ?thesis using False L hbytes_link_in [of p bp m] by (simp add: sz1 o1)
  qed
  let ?m3 = "if p + 8 * um_size m p = bp then merge_next p bp ?m2 else ?m2"
  have fl: "freewlock (bp + 8) m = Some ?m3"
  proof -
    have "free_link bp p m = ?m3" using free_link_eq [of p bp m] nxbp nxp pbp by (auto simp: Let_def)
    then show ?thesis by (simp add: freewlock_def se)
  qed
  show ?thesis
  proof (cases "p + 8 * um_size m p = bp")
    case True
    obtain ys' where y: "ys = ys' @ [p]" using Ly [OF True] p_def by (metis append_butlast_last_id empty_iff last.simps list.set(1))
    have h2: "heap_ok ?m2 (ys' @ p # bp # ?z2) (A - {bp})" using 2 y by simp
    have "p + 8 * um_size ?m2 p = bp" "um_freep ?m2 \<noteq> bp" using True 2 pbp by auto
    note M = merge_ok [OF h2 this]
    have "um_size ?m3 p \<ge> um_size m bp" using M(2) 2 True by (simp add: word_le_nat_alt)
    moreover have "hbytes ?m3 (set (ys' @ p # ?z2)) = hbytes m (set xs) \<union> hbytes m {bp}" using M(3) 2 y True by simp
    moreover have "\<forall>a \<in> A - {bp}. um_size ?m3 a = um_size m a" using 2 D(8) Ly [OF True] xs by (auto simp: merge_next_def)
    moreover have "um_brk ?m3 = um_brk m \<and> um_lock ?m3 = um_lock m \<and> um_base ?m3 = ?b" using 2 by (simp add: merge_next_def)
    ultimately show ?thesis using fl M(1) True by (intro exI [of _ ?m3] exI [of _ "ys' @ p # ?z2"]) auto
  next
    case False
    then show ?thesis using fl 2 by (intro exI [of _ ?m3] exI [of _ "ys @ bp # ?z2"]) auto
  qed
qed
section \<open>Allocating\<close>

lemma take_all_ok:
  assumes h: "heap_ok m (us @ p # vs) A" and pr: "prevp = last (um_base m # us)"
  shows "heap_ok ((setptr prevp (um_ptr m p) m)\<lparr>um_freep := prevp\<rparr>) (us @ vs) (insert p A)"
proof -
  let ?b = "um_base m" and ?f = "um_ptr m" and ?m = "(setptr prevp (um_ptr m p) m)\<lparr>um_freep := prevp\<rparr>"
  note D = heap_okD [OF h]
  have dist: "distinct (?b # us @ p # vs)" using D(7) by (metis strict_sorted_iff)
  obtain y0 where y0: "?b # us = y0 @ [prevp]" using pr by (metis append_butlast_last_id list.discI)
  have e: "y0 @ prevp # w = ?b # us @ w" for w using arg_cong [OF y0, of "\<lambda>x. x @ w"] by simp
  have py0: "prevp \<notin> set y0" "prevp \<notin> set vs" using dist y0 by (auto simp: Cons_eq_append_conv)
  have rp: "path ?f (y0 @ prevp # p # vs @ [?b])" using D(1) unfolding e by (simp add: ring_of_def)
  then have r1: "path ?f (y0 @ [prevp])" "path ?f (p # vs @ [?b])" using path_append [of ?f y0 prevp "p # vs @ [?b]"] by simp_all
  let ?g = "um_ptr ?m"
  have g: "?g = ?f(prevp := ?f p)" by simp
  have "path ?g (y0 @ [prevp])" using r1(1) py0 by (subst path_cong [of _ ?g ?f]) (auto simp: butlast_append)
  moreover have "path ?g (prevp # vs @ [?b])"
  proof -
    have "?g prevp = hd (vs @ [?b])" using r1(2) by (cases vs) simp_all
    moreover have "path ?f (vs @ [?b])" using r1(2) by (cases vs) simp_all
    then have "path ?g (vs @ [?b])" using py0 by (subst path_cong [of _ ?g ?f]) (auto simp: butlast_append)
    ultimately show ?thesis by (cases vs) simp_all
  qed
  ultimately have "path ?g (y0 @ prevp # vs @ [?b])" using path_append [of ?g y0 prevp "vs @ [?b]"] by simp
  then have ring: "ring_of ?g (?b # us @ vs)" unfolding e by (simp add: ring_of_def)
  have s: "sorted_wrt (<) (?b # us @ vs)" using D(7) by (simp add: sorted_wrt_append)
  have set: "set (us @ vs) \<union> insert p A = set (us @ p # vs) \<union> A" by auto
  have pw: "apart ?m = apart m" "ext ?m = ext m" by (simp_all add: fun_eq_iff apart_def ext_def)
  have "prevp = ?b \<or> prevp \<in> set us" using pr by (metis last.simps last_in_set)
  moreover have "set (us @ vs) \<inter> insert p A = {}" using D(8) dist by auto
  ultimately show ?thesis unfolding heap_ok_def pw using ring s D(3-6,9,10) set by auto
qed

lemma split_ok:
  assumes h: "heap_ok m xs A" and p: "p \<in> set xs" and nu: "nu < um_size m p" "nu \<noteq> 0" and pr: "prevp \<in> set (um_base m # xs)"
    and q: "q = p + 8 * (um_size m p - nu)"
  defines "m' \<equiv> (setsize q nu (setsize p (um_size m p - nu) m))\<lparr>um_freep := prevp\<rparr>"
  shows "heap_ok m' xs (insert q A)" "q \<notin> A" "q \<notin> set xs" "hbytes m' (insert q (set xs)) = hbytes m (set xs)"
    "\<And>a. a \<in> A \<Longrightarrow> um_size m' a = um_size m a"
proof -
  let ?b = "um_base m" and ?s = "um_size m p - nu"
  note D = heap_okD [OF h]
  note B = heap_ok_block [OF h, of p]
  have us: "unat ?s = unat (um_size m p) - unat nu" using nu(1) by (simp add: unat_sub less_imp_le)
  have lt: "unat nu < unat (um_size m p)" "0 < unat nu" using nu by (simp_all add: word_less_nat_alt unat_gt_0)
  have uq: "unat q = unat p + 8 * unat ?s" unfolding q by (rule unat_block_end) (use B(1,2) p us in auto)
  have ep: "ext m p = 8 * unat (um_size m p)" using D(9) [of p] p by (simp add: ext_eq)
  have inb: "unat p < unat q" "unat q + 8 * unat nu = unat p + ext m p" using uq us lt ep by auto
  have qn: "q \<noteq> x" if "x \<in> insert ?b (set xs \<union> A)" for x
  proof
    assume "q = x"
    then have "p \<noteq> x" using inb(1) by auto
    then have "apart m p x" using pairwiseD [OF D(10), of p x] that p by auto
    then show False using inb \<open>q = x\<close> lt(2) unfolding apart_def ext_def by auto
  qed
  show qA: "q \<notin> A" "q \<notin> set xs" using qn by blast+
  have sz: "um_size m' x = um_size m x" if "x \<noteq> p" "x \<noteq> q" for x using that by (simp add: m'_def)
  have szp: "um_size m' p = ?s" "um_size m' q = nu" using inb(1) by (auto simp: m'_def)
  have ep': "ext m' p = 8 * unat ?s" "ext m' q = 8 * unat nu" using szp us lt by (simp_all add: ext_def)
  have ex: "ext m' x = ext m x" if "x \<noteq> p" "x \<noteq> q" for x using sz [OF that] by (rule ext_cong)
  have pA: "p \<notin> A" "p \<noteq> ?b" using D(8,9) p by auto
  show "um_size m' a = um_size m a" if "a \<in> A" for a using sz [of a] that qA pA by blast
  have ap: "apart m' p x \<and> apart m' q x \<and> apart m' x p \<and> apart m' x q"
    if x: "x \<in> insert ?b (set xs \<union> A)" "x \<noteq> p" for x
  proof -
    have "apart m p x" using pairwiseD [OF D(10), of p x] x p by auto
    then show ?thesis using ep' uq us lt ep inb ex [OF x(2) qn [OF x(1), symmetric]] unfolding apart_def by linarith
  qed
  have pq: "apart m' p q \<and> apart m' q p" using ep' uq by (simp add: apart_def)
  have pw: "pairwise (apart m') (insert ?b (set xs \<union> insert q A))"
  proof (rule pairwiseI)
    fix x y assume x: "x \<in> insert ?b (set xs \<union> insert q A)" and y: "y \<in> insert ?b (set xs \<union> insert q A)" and n: "x \<noteq> y"
    show "apart m' x y"
    proof (cases "x \<in> {p, q} \<or> y \<in> {p, q}")
      case True
      then show ?thesis using ap pq x y n by auto
    next
      case False
      then have "apart m x y" using pairwiseD [OF D(10), of x y] x y n by auto
      then show ?thesis using False ex [of x] ex [of y] unfolding apart_def by auto
    qed
  qed
  have bnd: "?b < x \<and> um_size m' x \<noteq> 0 \<and> unat x + ext m' x \<le> unat (um_brk m)" if x: "x \<in> set xs \<union> insert q A" for x
  proof -
    have P: "?b < p" "unat p + ext m p \<le> unat (um_brk m)" using D(9) [of p] p by auto
    consider "x = p" | "x = q" | "x \<noteq> p" "x \<noteq> q" by blast
    then show ?thesis
    proof cases
      case 1
      have "?s \<noteq> 0" using us lt by (metis diff_is_0_eq not_less unat_0)
      then show ?thesis using 1 P szp ep' inb uq us ep lt by auto
    next
      case 2
      have "?b < q" using P(1) inb(1) by (simp add: word_less_nat_alt)
      then show ?thesis using 2 P szp ep' inb nu(2) by auto
    next
      case 3
      then show ?thesis using D(9) [of x] x sz [OF 3] ex [OF 3] by auto
    qed
  qed
  have o: "um_ptr m' = um_ptr m" "um_base m' = ?b" "um_brk m' = um_brk m" "um_freep m' = prevp" by (simp_all add: m'_def)
  have bs: "um_size m' ?b = 0" using sz [of ?b] D(4) pA qn [of ?b] by auto
  show "heap_ok m' xs (insert q A)" unfolding heap_ok_def o using D(1,3,5,6,7,8) pr bs bnd pw qA by auto
  have "hbytes m' (insert q (set xs)) = hbytes m' {p, q} \<union> hbytes m' (set xs - {p})" using p by (auto simp: hbytes_def)
  also have "hbytes m' {p, q} = hbytes m {p}" using szp uq us lt by (auto simp: hbytes_def)
  also have "hbytes m' (set xs - {p}) = hbytes m (set xs - {p})" by (rule hbytes_cong, rule sz) (use qA in auto)
  finally show "hbytes m' (insert q (set xs)) = hbytes m (set xs)" using p by (auto simp: hbytes_def)
qed

text \<open>A block large enough, with its predecessor in the ring, is taken.\<close>

lemma take_block_ok:
  assumes h: "heap_ok m xs A" and p: "p \<in> set xs" and pr: "prevp \<in> set (um_base m # xs)" "um_ptr m prevp = p"
    and nu: "nu \<le> um_size m p" "nu \<noteq> 0"
  shows "\<exists>q m' xs'. take_block nu prevp p m = (q + 8, m') \<and> heap_ok m' xs' (insert q A) \<and> q \<notin> A \<and> um_size m' q = nu \<and>
     hbytes m' (set xs') \<union> hbytes m' {q} = hbytes m (set xs) \<and> (\<forall>a \<in> A. um_size m' a = um_size m a) \<and>
     um_brk m' = um_brk m \<and> um_lock m' = um_lock m"
proof (cases "um_size m p = nu")
  case True
  let ?m = "(setptr prevp (um_ptr m p) m)\<lparr>um_freep := prevp\<rparr>"
  obtain us vs where xs: "xs = us @ p # vs" using split_list [OF p] by blast
  note D = heap_okD [OF h]
  have dist: "distinct (um_base m # xs)" using D(7) by (metis strict_sorted_iff)
  have "um_ptr m (last (um_base m # us)) = p"
  proof -
    have "path (um_ptr m) (um_base m # us @ [p])" using ring_of_path [of "um_ptr m" "[]" "um_base m # us @ [p]" vs] D(1) xs by simp
    then show ?thesis
      using path_appendD [of "um_ptr m" "butlast (um_base m # us)" "[last (um_base m # us), p]"]
        append_butlast_last_id [of "um_base m # us"] by (metis append.assoc append_Cons append_Nil list.discI path.simps(1))
  qed
  moreover have "last (um_base m # us) \<in> set (um_base m # xs)" using last_in_set [of "um_base m # us"] xs by auto
  ultimately have e: "prevp = last (um_base m # us)" using ring_of_inj [OF D(1) dist] pr by (metis inj_onD)
  have "heap_ok ?m (us @ vs) (insert p A)" by (rule take_all_ok [OF h [unfolded xs] e])
  moreover have "hbytes ?m (set (us @ vs)) \<union> hbytes ?m {p} = hbytes m (set xs)" by (auto simp: hbytes_def xs)
  moreover have "p \<notin> A" using D(8) p by auto
  ultimately show ?thesis using True by (intro exI [of _ p] exI [of _ ?m] exI [of _ "us @ vs"]) (simp add: take_block_def)
next
  case False
  let ?q = "p + 8 * (um_size m p - nu)"
  let ?m = "(setsize ?q nu (setsize p (um_size m p - nu) m))\<lparr>um_freep := prevp\<rparr>"
  have "nu < um_size m p" using nu False by auto
  note S = split_ok [OF h p this nu(2) pr(1) HOL.refl]
  have "hbytes ?m (set xs) \<union> hbytes ?m {?q} = hbytes m (set xs)" using S(4) by (auto simp: hbytes_def)
  then show ?thesis using False S(1,2,5)
    by (intro exI [of _ ?q] exI [of _ ?m] exI [of _ xs]) (simp add: take_block_def Let_def)
qed
lemma malloc_loop_scan:
  "path (um_ptr m) (prevp # us @ [t]) \<Longrightarrow> \<forall>u \<in> set us. um_size m u < nu \<and> u \<noteq> um_freep m \<Longrightarrow>
     malloc_loop en nu prevp (hd (us @ [t])) m = malloc_loop en nu (last (prevp # us)) t m"
proof (induction us arbitrary: prevp)
  case (Cons u us)
  have "um_ptr m u = hd (us @ [t])" "path (um_ptr m) (u # us @ [t])" using Cons.prems(1) by (cases us; simp)+
  moreover have "\<not> nu \<le> um_size m u" "u \<noteq> um_freep m" using Cons.prems(2) by auto
  ultimately show ?case using Cons malloc_loop.simps [of en nu prevp u m] by simp
qed simp

text \<open>One round through the list, from the block after \<^verbatim>\<open>freep\<close> to \<^verbatim>\<open>freep\<close> itself.\<close>

lemma malloc_round:
  assumes h: "heap_ok m xs A" and nu: "nu \<noteq> 0"
  shows "(\<exists>prevp p. prevp \<in> set (um_base m # xs) \<and> p \<in> set xs \<and> um_ptr m prevp = p \<and> nu \<le> um_size m p \<and>
       malloc_loop en nu (um_freep m) (um_ptr m (um_freep m)) m = Some (take_block nu prevp p m)) \<or>
     (\<forall>x \<in> set xs. um_size m x < nu) \<and>
       malloc_loop en nu (um_freep m) (um_ptr m (um_freep m)) m =
         Option.bind (morecore en nu m) (\<lambda>(p', m'). if p' = 0 then Some (0, m') else malloc_loop en nu p' (um_ptr m' p') m')"
proof -
  let ?b = "um_base m" and ?fp = "um_freep m" and ?f = "um_ptr m"
  note D = heap_okD [OF h]
  have dist: "distinct (?b # xs)" using D(7) by (metis strict_sorted_iff)
  obtain c d where cd: "?b # xs = c @ ?fp # d" using D(2) by (meson split_list)
  let ?rs = "d @ c"
  have "ring_of ?f (?fp # d @ c)" using D(1) cd ring_of_rotate [of ?f c "?fp # d"] by simp
  then have rp: "path ?f (?fp # ?rs @ [?fp])" by (simp add: ring_of_def)
  have set: "set (?b # xs) = insert ?fp (set ?rs)" and nfp: "?fp \<notin> set ?rs" unfolding cd using dist cd by auto
  have hd: "?f ?fp = hd (us @ [t])" if "path ?f (?fp # us @ [t])" for us t using that by (cases us) simp_all
  show ?thesis
  proof (cases "\<exists>x \<in> set ?rs. nu \<le> um_size m x")
    case True
    then obtain us t ws where s: "?rs = us @ t # ws" "nu \<le> um_size m t" "\<forall>u \<in> set us. \<not> nu \<le> um_size m u"
      using split_list_first_prop [OF True] by blast
    have p: "path ?f (?fp # us @ [t])" using rp s(1) path_appendD [of ?f "?fp # us @ [t]" "ws @ [?fp]"] by simp
    have "malloc_loop en nu ?fp (hd (us @ [t])) m = malloc_loop en nu (last (?fp # us)) t m"
      by (rule malloc_loop_scan [OF p]) (use s nfp in auto)
    then have "malloc_loop en nu ?fp (?f ?fp) m = Some (take_block nu (last (?fp # us)) t m)"
      using hd [OF p] s(2) malloc_loop.simps [of en nu "last (?fp # us)" t m] by simp
    moreover have "last (?fp # us) \<in> set (?b # xs)" using set s(1) last_in_set [of "?fp # us"] by auto
    moreover have "t \<in> set xs"
    proof -
      have "t \<in> set (?b # xs)" using set s(1) by simp
      moreover have "t \<noteq> ?b" using s(2) nu D(4) by auto
      ultimately show ?thesis by simp
    qed
    moreover have "?f (last (?fp # us)) = t"
      using p path_appendD [of ?f "butlast (?fp # us)" "[last (?fp # us), t]"] append_butlast_last_id [of "?fp # us"]
      by (metis append.assoc append_Cons append_Nil list.discI path.simps(1))
    ultimately show ?thesis using s(2) by blast
  next
    case False
    have "malloc_loop en nu ?fp (hd (?rs @ [?fp])) m = malloc_loop en nu (last (?fp # ?rs)) ?fp m"
      by (rule malloc_loop_scan [OF rp]) (use False nfp in \<open>auto simp: not_le\<close>)
    then have e: "malloc_loop en nu ?fp (?f ?fp) m = malloc_loop en nu (last (?fp # ?rs)) ?fp m" using hd [OF rp] by simp
    show ?thesis
    proof (cases "nu \<le> um_size m ?fp")
      case True
      have "?fp \<in> set xs" using True nu D(2,4) by auto
      moreover have "?f (last (?fp # ?rs)) = ?fp"
        using rp path_appendD [of ?f "butlast (?fp # ?rs)" "[last (?fp # ?rs), ?fp]"] append_butlast_last_id [of "?fp # ?rs"]
        by (metis append.assoc append_Cons append_Nil list.discI path.simps(1))
      moreover have "last (?fp # ?rs) \<in> set (?b # xs)" unfolding set using last_in_set [of "?fp # ?rs"] by auto
      ultimately show ?thesis using e True malloc_loop.simps [of en nu "last (?fp # ?rs)" ?fp m] by auto
    next
      case small: False
      have "\<forall>x \<in> set xs. um_size m x < nu"
      proof
        fix x assume "x \<in> set xs"
        then have "x = ?fp \<or> x \<in> set ?rs" using set by auto
        then show "um_size m x < nu" using False small by (auto simp: not_le)
      qed
      then show ?thesis using e small malloc_loop.simps [of en nu "last (?fp # ?rs)" ?fp m] by simp
    qed
  qed
qed

text \<open>New memory is a block of its own until \<^verbatim>\<open>freewlock\<close> links it in.\<close>

lemma new_core_ok:
  assumes h: "heap_ok m xs A" and n: "n \<noteq> 0" "unat (um_brk m) + 8 * unat n \<le> 0xA0000"
  defines "m' \<equiv> setsize (um_brk m) n (m\<lparr>um_brk := um_brk m + 8 * n\<rparr>)"
  shows "heap_ok m' xs (insert (um_brk m) A)" "um_brk m \<notin> A" "um_brk m \<notin> set xs" "\<And>a. a \<in> set xs \<union> A \<Longrightarrow> um_size m' a = um_size m a"
proof -
  let ?b = "um_base m" and ?k = "um_brk m"
  note D = heap_okD [OF h]
  have e0: "0 < ext m x" for x by (simp add: ext_def)
  have end': "unat x + ext m x \<le> unat ?k" if "x \<in> insert ?b (set xs \<union> A)" for x
    using that D(4,5,9) by (auto simp: ext_def)
  have ne: "x \<noteq> ?k" if "x \<in> insert ?b (set xs \<union> A)" for x using end' [OF that] e0 [of x] by auto
  show "?k \<notin> A" "?k \<notin> set xs" using ne by blast+
  have sz: "um_size m' x = um_size m x" if "x \<noteq> ?k" for x using that by (simp add: m'_def)
  then show "um_size m' a = um_size m a" if "a \<in> set xs \<union> A" for a using ne that by blast
  have ex: "ext m' x = ext m x" if "x \<noteq> ?k" for x using sz [OF that] by (rule ext_cong)
  have uk: "unat (?k + 8 * n) = unat ?k + 8 * unat n" by (rule unat_block_end) (use n in simp)
  have ek: "ext m' ?k = 8 * unat n" using n(1) by (simp add: m'_def ext_eq)
  have o: "um_ptr m' = um_ptr m" "um_base m' = ?b" "um_brk m' = ?k + 8 * n" "um_freep m' = um_freep m" by (simp_all add: m'_def)
  have pw: "pairwise (apart m') (insert ?b (set xs \<union> insert ?k A))"
  proof (rule pairwiseI)
    fix x y assume x: "x \<in> insert ?b (set xs \<union> insert ?k A)" and y: "y \<in> insert ?b (set xs \<union> insert ?k A)" and d: "x \<noteq> y"
    consider "x = ?k" | "y = ?k" | "x \<noteq> ?k" "y \<noteq> ?k" by blast
    then show "apart m' x y"
    proof cases
      case 1
      then show ?thesis using end' [of y] ex [of y] y d by (auto simp: apart_def)
    next
      case 2
      then show ?thesis using end' [of x] ex [of x] x d by (auto simp: apart_def)
    next
      case 3
      then have "apart m x y" using pairwiseD [OF D(10), of x y] x y d by auto
      then show ?thesis using ex [OF 3(1)] ex [OF 3(2)] by (simp add: apart_def)
    qed
  qed
  have bk: "?b < ?k" using D(5) by (simp add: word_less_nat_alt)
  have bnd: "?b < x \<and> um_size m' x \<noteq> 0 \<and> unat x + ext m' x \<le> unat (?k + 8 * n)" if x: "x \<in> set xs \<union> insert ?k A" for x
  proof (cases "x = ?k")
    case True
    then show ?thesis using bk ek uk n(1) by (simp add: m'_def)
  next
    case False
    then show ?thesis using D(9) [of x] x sz [OF False] ex [OF False] uk by auto
  qed
  have "um_size m' ?b = 0" using sz [of ?b] ne [of ?b] D(4) by simp
  moreover have "?k + 8 * n \<le> 0xA0000" using n uk by (simp add: word_le_nat_alt)
  ultimately show "heap_ok m' xs (insert ?k A)" unfolding heap_ok_def o
    using D(1,2,3,5,7,8) pw bnd uk \<open>?k \<notin> set xs\<close> by auto
qed

lemma sbrk_eq:
  assumes "0 < unat n" "unat n < 2147483648" "um_brk m \<le> 0xA0000"
  shows "sbrk en n m = (if unat (um_brk m) + unat n \<le> 0xA0000 \<and> en (um_brk m + n) then (um_brk m, m\<lparr>um_brk := um_brk m + n\<rparr>) else (- 1, m))"
proof -
  have "0 < int (unat n)" using assms(1) by linarith
  then have s: "0 < sint n" unfolding sint_small [OF assms(2)] .
  have b: "unat (um_brk m) \<le> 655360" using assms(3) by (simp add: word_le_nat_alt)
  then have u: "unat (um_brk m + n) = unat (um_brk m) + unat n" using assms(2) by (simp add: unat_word_ariths)
  show ?thesis using s u by (simp add: sbrk_def Let_def word_less_nat_alt)
qed

lemma morecore_ok:
  assumes h: "heap_ok m xs A" and nu: "nu \<noteq> 0" "unat nu \<le> 33554432"
  shows "morecore en nu m = Some (0, m) \<or>
    (\<exists>m' xs'. morecore en nu m = Some (um_freep m', m') \<and> um_freep m' \<noteq> 0 \<and> heap_ok m' xs' A \<and>
      (\<exists>x \<in> set xs'. nu \<le> um_size m' x) \<and> (\<forall>a \<in> A. um_size m' a = um_size m a) \<and> um_lock m' = um_lock m \<and>
      unat (um_brk m) \<le> unat (um_brk m') \<and>
      hbytes m' (set xs') = hbytes m (set xs) \<union> {unat (um_brk m)..<unat (um_brk m')})"
proof -
  let ?nu = "if nu < 4096 then 4096 else nu" and ?k = "um_brk m"
  have un: "0 < unat ?nu" "unat ?nu \<le> 33554432" "nu \<le> ?nu" "?nu \<noteq> 0" using nu by (auto simp: unat_gt_0 word_less_nat_alt word_le_nat_alt)
  have u8: "unat (?nu * 8) = 8 * unat ?nu" using unat_block_end [of 0 ?nu] un(2) by (simp add: mult.commute)
  have kb: "?k \<le> 0xA0000" using heap_okD(6) [OF h] .
  have sb: "sbrk en (?nu * 8) m = (if unat ?k + 8 * unat ?nu \<le> 0xA0000 \<and> en (?k + ?nu * 8) then (?k, m\<lparr>um_brk := ?k + ?nu * 8\<rparr>) else (- 1, m))"
    using sbrk_eq [of "?nu * 8" m en] u8 un kb by simp
  show ?thesis
  proof (cases "unat ?k + 8 * unat ?nu \<le> 0xA0000 \<and> en (?k + ?nu * 8)")
    case False
    then have "sbrk en (?nu * 8) m = (- 1, m)" unfolding sb by (simp only: if_False)
    then show ?thesis by (simp add: morecore_def Let_def)
  next
    case True
    let ?m1 = "setsize ?k ?nu (m\<lparr>um_brk := ?k + 8 * ?nu\<rparr>)"
    have le: "unat ?k + 8 * unat ?nu \<le> 0xA0000" using True by simp
    note N = new_core_ok [OF h un(4) le]
    obtain m' xs' where F: "freewlock (?k + 8) ?m1 = Some m'" "heap_ok m' xs' (insert ?k A - {?k})"
      "hbytes m' (set xs') = hbytes ?m1 (set xs) \<union> hbytes ?m1 {?k}" "\<forall>a \<in> insert ?k A - {?k}. um_size m' a = um_size ?m1 a"
      "\<exists>x \<in> set xs'. um_size m' x \<ge> um_size ?m1 ?k" "um_brk m' = um_brk ?m1" "um_lock m' = um_lock ?m1"
      using freewlock_ok [OF N(1), of ?k] by auto
    have A: "insert ?k A - {?k} = A" using N(2) by auto
    have kn: "?k \<noteq> - 1" using kb by (auto simp: word_le_nat_alt unsigned_minus_1_eq_mask mask_eq_exp_minus_1)
    have s1: "sbrk en (?nu * 8) m = (?k, m\<lparr>um_brk := ?k + ?nu * 8\<rparr>)" using sb True by (simp only: if_True simp_thms)
    have mc: "morecore en nu m = Some (um_freep m', m')"
      unfolding morecore_def Let_def s1 prod.case using F(1) kn by (simp add: mult.commute)
    have fp: "um_freep m' \<noteq> 0"
    proof -
      have "um_base m' \<noteq> 0" "um_freep m' = um_base m' \<or> um_base m' < um_freep m'" using heap_okD(2,3,9) [OF F(2)] by auto
      then show ?thesis by auto
    qed
    have uk: "unat (um_brk m') = unat ?k + 8 * unat ?nu" using F(6) unat_block_end [of ?k ?nu] le by simp
    have "hbytes ?m1 (set xs) = hbytes m (set xs)" by (rule hbytes_cong) (use N(4) in auto)
    moreover have "hbytes ?m1 {?k} = {unat ?k..<unat (um_brk m')}" using uk by (simp add: hbytes_def)
    moreover have "\<exists>x \<in> set xs'. nu \<le> um_size m' x" using F(5) un(3) by (auto intro: order_trans)
    moreover have "\<forall>a \<in> A. um_size m' a = um_size m a" using F(4) A N(4) by auto
    ultimately show ?thesis using mc fp F(2,3,7) A uk by (intro disjI2 exI [of _ m'] exI [of _ xs']) simp
  qed
qed

section \<open>The contract\<close>

lemma nunits_bound:
  assumes "unat n \<le> 0x7fffff0"
  shows "nunits n \<noteq> 0" "unat (nunits n) \<le> 33554432" "unat n + 8 \<le> 8 * unat (nunits n)" "8 * unat (nunits n) < unat n + 16"
proof -
  have a: "unat (n + 8 - 1) = unat n + 7" using assms by (simp add: unat_word_ariths)
  have d: "unat ((n + 8 - 1) div 8) = (unat n + 7) div 8" unfolding unat_div a by simp
  then have u: "unat (nunits n) = (unat n + 7) div 8 + 1" unfolding nunits_def using assms by (simp add: unat_word_ariths)
  show "nunits n \<noteq> 0" "unat (nunits n) \<le> 33554432" using u assms by auto
  define q r where "q = (unat n + 7) div 8" and "r = (unat n + 7) mod 8"
  have qr: "8 * q + r = unat n + 7" "r < 8" unfolding q_def r_def by simp_all
  show "unat n + 8 \<le> 8 * unat (nunits n)" unfolding u q_def [symmetric] using qr by simp
  show "8 * unat (nunits n) < unat n + 16" unfolding u q_def [symmetric] using qr by simp
qed

lemma malloc_loop_ok:
  assumes h: "heap_ok m xs A" and nu: "nu \<noteq> 0" "unat nu \<le> 33554432"
  shows "\<exists>r m' xs'. malloc_loop en nu (um_freep m) (um_ptr m (um_freep m)) m = Some (r, m') \<and> um_lock m' = um_lock m \<and>
     (\<forall>a \<in> A. um_size m' a = um_size m a) \<and> unat (um_brk m) \<le> unat (um_brk m') \<and>
     (if r = 0 then heap_ok m' xs' A \<and> hbytes m' (set xs') = hbytes m (set xs) \<and> um_brk m' = um_brk m
      else heap_ok m' xs' (insert (r - 8) A) \<and> r - 8 \<notin> A \<and> um_size m' (r - 8) = nu \<and>
        hbytes m' (set xs') \<union> hbytes m' {r - 8} = hbytes m (set xs) \<union> {unat (um_brk m)..<unat (um_brk m')})"
proof -
  let ?loop = "\<lambda>m. malloc_loop en nu (um_freep m) (um_ptr m (um_freep m)) m"
  have found: "\<exists>q m' xs'. ?loop m = Some (q + 8, m') \<and> q + 8 \<noteq> 0 \<and> um_lock m' = um_lock m \<and> (\<forall>a \<in> A. um_size m' a = um_size m a) \<and>
      um_brk m' = um_brk m \<and> heap_ok m' xs' (insert q A) \<and> q \<notin> A \<and> um_size m' q = nu \<and> hbytes m' (set xs') \<union> hbytes m' {q} = hbytes m (set xs)"
    if h: "heap_ok m xs A" and p: "prevp \<in> set (um_base m # xs)" "p \<in> set xs" "um_ptr m prevp = p" "nu \<le> um_size m p"
      "?loop m = Some (take_block nu prevp p m)" for m xs prevp p
  proof -
    obtain q m' xs' where T: "take_block nu prevp p m = (q + 8, m')" "heap_ok m' xs' (insert q A)" "q \<notin> A" "um_size m' q = nu"
      "hbytes m' (set xs') \<union> hbytes m' {q} = hbytes m (set xs)" "\<forall>a \<in> A. um_size m' a = um_size m a"
      "um_brk m' = um_brk m" "um_lock m' = um_lock m"
      using take_block_ok [OF h p(2,1,3,4) nu(1)] by blast
    have "unat q + 8 * unat (um_size m' q) \<le> 655360" "0 < unat (um_size m' q)" using heap_ok_block [OF T(2), of q] by simp_all
    then have "unat (q + 8) \<noteq> 0" using unat_block_end [of q 1] by simp
    then have "q + 8 \<noteq> 0" by (metis unat_0)
    then show ?thesis using T p(5) by (intro exI [of _ q] exI [of _ m'] exI [of _ xs']) simp
  qed
  from malloc_round [OF h nu(1), of en] show ?thesis
  proof
    assume "\<exists>prevp p. prevp \<in> set (um_base m # xs) \<and> p \<in> set xs \<and> um_ptr m prevp = p \<and> nu \<le> um_size m p \<and>
       ?loop m = Some (take_block nu prevp p m)"
    then obtain q m' xs' where "?loop m = Some (q + 8, m')" "q + 8 \<noteq> 0" "um_lock m' = um_lock m" "\<forall>a \<in> A. um_size m' a = um_size m a"
      "um_brk m' = um_brk m" "heap_ok m' xs' (insert q A)" "q \<notin> A" "um_size m' q = nu" "hbytes m' (set xs') \<union> hbytes m' {q} = hbytes m (set xs)"
      using found [OF h] by blast
    then show ?thesis by (intro exI [of _ "q + 8"] exI [of _ m'] exI [of _ xs']) simp
  next
    assume none: "(\<forall>x \<in> set xs. um_size m x < nu) \<and> ?loop m =
         Option.bind (morecore en nu m) (\<lambda>(p', m'). if p' = 0 then Some (0, m') else malloc_loop en nu p' (um_ptr m' p') m')"
    from morecore_ok [OF h nu, of en] show ?thesis
    proof
      assume "morecore en nu m = Some (0, m)"
      then show ?thesis using none h by (intro exI [of _ 0] exI [of _ m] exI [of _ xs]) simp
    next
      assume "\<exists>m' xs'. morecore en nu m = Some (um_freep m', m') \<and> um_freep m' \<noteq> 0 \<and> heap_ok m' xs' A \<and>
        (\<exists>x \<in> set xs'. nu \<le> um_size m' x) \<and> (\<forall>a \<in> A. um_size m' a = um_size m a) \<and> um_lock m' = um_lock m \<and>
        unat (um_brk m) \<le> unat (um_brk m') \<and> hbytes m' (set xs') = hbytes m (set xs) \<union> {unat (um_brk m)..<unat (um_brk m')}"
      then obtain m1 xs1 where M: "morecore en nu m = Some (um_freep m1, m1)" "um_freep m1 \<noteq> 0" "heap_ok m1 xs1 A"
        "\<exists>x \<in> set xs1. nu \<le> um_size m1 x" "\<forall>a \<in> A. um_size m1 a = um_size m a" "um_lock m1 = um_lock m" "unat (um_brk m) \<le> unat (um_brk m1)"
        "hbytes m1 (set xs1) = hbytes m (set xs) \<union> {unat (um_brk m)..<unat (um_brk m1)}" by blast
      have e: "?loop m = ?loop m1" using none M(1,2) by simp
      have "\<not> (\<forall>x \<in> set xs1. um_size m1 x < nu)" using M(4) by (auto simp: not_less)
      then obtain q m' xs' where "?loop m1 = Some (q + 8, m')" "q + 8 \<noteq> 0" "um_lock m' = um_lock m1" "\<forall>a \<in> A. um_size m' a = um_size m1 a"
        "um_brk m' = um_brk m1" "heap_ok m' xs' (insert q A)" "q \<notin> A" "um_size m' q = nu" "hbytes m' (set xs') \<union> hbytes m' {q} = hbytes m1 (set xs1)"
        using malloc_round [OF M(3) nu(1), of en] found [OF M(3)] by blast
      then show ?thesis using e M(5-8) by (intro exI [of _ "q + 8"] exI [of _ m'] exI [of _ xs']) simp
    qed
  qed
qed
text \<open>A process that has not called \<^verbatim>\<open>malloc\<close> yet.\<close>

definition heap_start :: "umem \<Rightarrow> bool" where
  "heap_start m \<longleftrightarrow> um_freep m = 0 \<and> um_lock m = 0 \<and> um_base m \<noteq> 0 \<and>
     unat (um_base m) + 8 \<le> unat (um_brk m) \<and> um_brk m \<le> 0xA0000"

text \<open>\<open>heap_run en m A\<close>: calls of \<^verbatim>\<open>malloc\<close> and \<^verbatim>\<open>free\<close> lead to the state \<open>m\<close> in which \<open>A\<close> are the
  headers of the blocks handed out and not freed.\<close>

inductive heap_run :: "(u32 \<Rightarrow> bool) \<Rightarrow> umem \<Rightarrow> addr set \<Rightarrow> bool" for en where
  start: "heap_start m \<Longrightarrow> heap_run en m {}"
| malloc: "heap_run en m A \<Longrightarrow> unat n \<le> 0x7fffff0 \<Longrightarrow> malloc en n m = Some (r, m') \<Longrightarrow>
    heap_run en m' (if r = 0 then A else insert (r - 8) A)"
| free: "heap_run en m A \<Longrightarrow> a \<in> A \<Longrightarrow> free (a + 8) m = Some m' \<Longrightarrow> heap_run en m' (A - {a})"

lemma heap_ok_upd [simp]: "heap_ok (m\<lparr>um_lock := l\<rparr>) xs A = heap_ok m xs A" "heap_ok (m\<lparr>um_count := c\<rparr>) xs A = heap_ok m xs A"
    "hbytes (m\<lparr>um_lock := l\<rparr>) S = hbytes m S" "hbytes (m\<lparr>um_count := c\<rparr>) S = hbytes m S"
  by (simp_all add: heap_ok_def apart_def [abs_def] ext_def [abs_def] hbytes_def)

lemma malloc_init_ok:
  assumes "heap_start m"
  shows "heap_ok (malloc_init (m\<lparr>um_lock := 1, um_count := c\<rparr>)) [] {}"
  using assms by (simp add: heap_start_def heap_ok_def malloc_init_def ring_of_def pairwise_def)

definition heap_state :: "umem \<Rightarrow> addr list \<Rightarrow> addr set \<Rightarrow> bool" where
  "heap_state m xs A \<longleftrightarrow> um_lock m = 0 \<and> (heap_ok m xs A \<or> heap_start m \<and> xs = [] \<and> A = {})"

lemma malloc_returns:
  assumes h: "heap_state m xs A" and n: "unat n \<le> 0x7fffff0"
  shows "\<exists>r m' xs'. malloc en n m = Some (r, m') \<and> (\<forall>a \<in> A. um_size m' a = um_size m a) \<and> unat (um_brk m) \<le> unat (um_brk m') \<and>
     (if r = 0 then heap_state m' xs' A \<and> hbytes m' (set xs') = hbytes m (set xs) \<and> um_brk m' = um_brk m
      else heap_state m' xs' (insert (r - 8) A) \<and> r - 8 \<notin> A \<and> um_size m' (r - 8) = nunits n \<and>
        hbytes m' (set xs') \<union> hbytes m' {r - 8} = hbytes m (set xs) \<union> {unat (um_brk m)..<unat (um_brk m')})"
proof -
  let ?start = "m\<lparr>um_lock := 1, um_count := um_count m + 1\<rparr>"
  let ?m = "malloc_init ?start"
  have l: "um_lock m = 0" using h by (simp add: heap_state_def)
  have k: "um_brk ?m = um_brk m" by (simp add: malloc_init_def)
  have "heap_ok ?m xs A \<and> (\<forall>a \<in> A. um_size ?m a = um_size m a) \<and> hbytes ?m (set xs) = hbytes m (set xs)"
  proof (cases "heap_ok m xs A")
    case True
    have "um_base m \<noteq> 0" "um_freep m = um_base m \<or> um_base m < um_freep m" using heap_okD(2,3,9) [OF True] by auto
    then have "um_freep m \<noteq> 0" by auto
    then have e: "?m = ?start" by (simp add: malloc_init_def)
    have "heap_ok ?start xs A" using True by simp
    moreover have "hbytes ?start (set xs) = hbytes m (set xs)" by simp
    moreover have "\<forall>a \<in> A. um_size ?start a = um_size m a" by simp
    ultimately show ?thesis by (simp only: e simp_thms)
  next
    case False
    then have "heap_start m" "xs = []" "A = {}" using h by (simp_all add: heap_state_def)
    then show ?thesis using malloc_init_ok [of m "um_count m + 1"] by (auto simp: hbytes_def)
  qed
  then have ok: "heap_ok ?m xs A" and sz: "\<forall>a \<in> A. um_size ?m a = um_size m a" and hb: "hbytes ?m (set xs) = hbytes m (set xs)" by blast+
  have nu: "nunits n \<noteq> 0" "unat (nunits n) \<le> 33554432" using nunits_bound [OF n] by auto
  obtain r m' xs' where L: "malloc_loop en (nunits n) (um_freep ?m) (um_ptr ?m (um_freep ?m)) ?m = Some (r, m')"
    "\<forall>a \<in> A. um_size m' a = um_size ?m a" "unat (um_brk ?m) \<le> unat (um_brk m')"
    "if r = 0 then heap_ok m' xs' A \<and> hbytes m' (set xs') = hbytes ?m (set xs) \<and> um_brk m' = um_brk ?m
     else heap_ok m' xs' (insert (r - 8) A) \<and> r - 8 \<notin> A \<and> um_size m' (r - 8) = nunits n \<and>
        hbytes m' (set xs') \<union> hbytes m' {r - 8} = hbytes ?m (set xs) \<union> {unat (um_brk ?m)..<unat (um_brk m')}"
    using malloc_loop_ok [OF ok nu, of en] by blast
  have "malloc en n m = Some (r, m'\<lparr>um_lock := 0\<rparr>)" using l L(1) by (simp add: malloc_def Let_def)
  then show ?thesis using L(2-4) sz hb k
    by (intro exI [of _ r] exI [of _ "m'\<lparr>um_lock := 0\<rparr>"] exI [of _ xs']) (simp add: heap_state_def)
qed

lemma free_returns:
  assumes h: "heap_state m xs A" and a: "a \<in> A"
  shows "\<exists>m' xs'. free (a + 8) m = Some m' \<and> heap_state m' xs' (A - {a}) \<and> (\<forall>x \<in> A - {a}. um_size m' x = um_size m x) \<and>
     um_brk m' = um_brk m \<and> hbytes m' (set xs') = hbytes m (set xs) \<union> hbytes m {a}"
proof -
  let ?m = "m\<lparr>um_lock := 1\<rparr>"
  have l: "um_lock m = 0" and ok: "heap_ok ?m xs A" using h a by (auto simp: heap_state_def)
  obtain m' xs' where F: "freewlock (a + 8) ?m = Some m'" "heap_ok m' xs' (A - {a})"
    "hbytes m' (set xs') = hbytes ?m (set xs) \<union> hbytes ?m {a}" "\<forall>x \<in> A - {a}. um_size m' x = um_size ?m x" "um_brk m' = um_brk ?m"
    using freewlock_ok [OF ok a] by blast
  have "free (a + 8) m = Some (m'\<lparr>um_lock := 0\<rparr>)" using l F(1) by (simp add: free_def)
  then show ?thesis using F by (intro exI [of _ "m'\<lparr>um_lock := 0\<rparr>"] exI [of _ xs']) (simp add: heap_state_def)
qed

lemma heap_run_state: "heap_run en m A \<Longrightarrow> \<exists>xs. heap_state m xs A"
proof (induction rule: heap_run.induct)
  case (start m)
  then show ?case by (auto simp: heap_state_def heap_start_def)
next
  case (malloc m A n r m')
  then obtain xs where "heap_state m xs A" by blast
  from malloc_returns [OF this malloc.hyps(2), of en] malloc.hyps(3) show ?case by (auto split: if_splits)
next
  case (free m A a m')
  then obtain xs where "heap_state m xs A" by blast
  from free_returns [OF this free.hyps(2)] free.hyps(3) show ?case by auto
qed

definition demo_umem :: umem where
  "demo_umem = \<lparr>um_ptr = \<lambda>_. 0, um_size = \<lambda>_. 0, um_base = 0x2000, um_freep = 0, um_lock = 0, um_count = 0, um_brk = 0x3000\<rparr>"

lemma demo_malloc: "\<exists>m'. malloc (\<lambda>_. True) 100 demo_umem = Some (0xaf98, m')" "\<exists>m'. malloc (\<lambda>_. True) 0 demo_umem = Some (0xb000, m')"
  by (simp_all add: malloc_def malloc_init_def demo_umem_def setsize_def setptr_def nunits_def malloc_loop.simps morecore_def sbrk_def freewlock_def
    free_search_def while_option_unfold free_stop_def free_link_def Let_def take_block_def)

lemma demo_run: "heap_run (\<lambda>_. True) demo_umem {}"
  by (rule heap_run.start) (simp add: heap_start_def demo_umem_def)

text \<open>\<open>free_list m xs\<close>: the free list is the ring of \<^verbatim>\<open>base\<close> and the blocks \<open>xs\<close>; before the first call of \<^verbatim>\<open>malloc\<close>
  there is none.\<close>

definition free_list :: "umem \<Rightarrow> addr list \<Rightarrow> bool" where
  "free_list m xs \<longleftrightarrow> (if um_freep m = 0 then xs = [] else
     ring_of (um_ptr m) (um_base m # xs) \<and> um_freep m \<in> set (um_base m # xs) \<and> distinct (um_base m # xs))"

lemma heap_state_free_list: "heap_state m xs A \<Longrightarrow> free_list m xs"
proof -
  assume h: "heap_state m xs A"
  show "free_list m xs"
  proof (cases "heap_ok m xs A")
    case True
    have "um_base m \<noteq> 0" "um_freep m = um_base m \<or> um_base m < um_freep m" using heap_okD(2,3,9) [OF True] by auto
    then have "um_freep m \<noteq> 0" by auto
    then show ?thesis using heap_okD(1,2,7) [OF True] strict_sorted_iff [of "um_base m # xs"] unfolding free_list_def by simp
  qed (use h in \<open>simp add: heap_state_def heap_start_def free_list_def\<close>)
qed

lemma heap_state_apart:
  assumes "heap_state m xs A" "a \<in> set xs \<union> A" "b \<in> set xs \<union> A" "a \<noteq> b"
  shows "hbytes m {a} \<inter> hbytes m {b} = {}"
proof -
  have "heap_ok m xs A" using assms(1,2) by (auto simp: heap_state_def)
  then have "apart m a b" using pairwiseD [OF heap_okD(10), of m xs A a b] assms(2-4) by simp
  then show ?thesis by (auto simp: apart_def ext_def hbytes_def)
qed

lemma heap_state_apart_free:
  assumes "heap_state m xs A" "a \<in> A"
  shows "hbytes m (set xs) \<inter> hbytes m {a} = {}"
proof -
  have "heap_ok m xs A" using assms by (auto simp: heap_state_def)
  then have "x \<noteq> a" if "x \<in> set xs" for x using heap_okD(8) that assms(2) by blast
  then have "hbytes m {x} \<inter> hbytes m {a} = {}" if "x \<in> set xs" for x using heap_state_apart [OF assms(1)] that assms(2) by simp
  moreover have "hbytes m (set xs) = (\<Union>x \<in> set xs. hbytes m {x})" by (simp add: hbytes_def)
  ultimately show ?thesis by blast
qed

text \<open>C28. The allocator hands out memory to one owner at a time and always comes back. After any sequence of
  calls of \<^verbatim>\<open>malloc\<close>, for at most 0x7fffff0 bytes each, and of \<^verbatim>\<open>free\<close>, the blocks handed out and the blocks of the free list lie
  below the end of the process and do not overlap, headers included. The next such \<^verbatim>\<open>malloc\<close> returns: either 0, or a block with room for
  the bytes asked for, apart from all the others. \<^verbatim>\<open>free\<close> of any of them returns as well.\<close>

theorem malloc_free_apart:
  assumes "heap_run en m A"
  shows "\<exists>xs. free_list m xs \<and>
     (\<forall>a \<in> set xs \<union> A. unat a + 8 * unat (um_size m a) \<le> unat (um_brk m)) \<and>
     (\<forall>a \<in> set xs \<union> A. \<forall>b \<in> set xs \<union> A. a \<noteq> b \<longrightarrow> hbytes m {a} \<inter> hbytes m {b} = {}) \<and> set xs \<inter> A = {} \<and>
     (\<forall>n. unat n \<le> 0x7fffff0 \<longrightarrow> (\<exists>r m'. malloc en n m = Some (r, m') \<and>
        (r \<noteq> 0 \<longrightarrow> r - 8 \<notin> A \<and> unat n + 8 \<le> 8 * unat (um_size m' (r - 8)) \<and> (\<forall>a \<in> A. hbytes m' {r - 8} \<inter> hbytes m {a} = {})))) \<and>
     (\<forall>a \<in> A. \<exists>m'. free (a + 8) m = Some m')"
proof -
  obtain xs where h: "heap_state m xs A" using heap_run_state [OF assms] by blast
  have ok: "heap_ok m xs A" if "set xs \<union> A \<noteq> {}" using h that by (auto simp: heap_state_def)
  have 1: "\<forall>a \<in> set xs \<union> A. unat a + 8 * unat (um_size m a) \<le> unat (um_brk m)" 
  proof
    fix a assume a: "a \<in> set xs \<union> A"
    then have "heap_ok m xs A" by (intro ok) auto
    then show "unat a + 8 * unat (um_size m a) \<le> unat (um_brk m)" using a by (rule heap_ok_block(1))
  qed
  have 2: "\<forall>a \<in> set xs \<union> A. \<forall>b \<in> set xs \<union> A. a \<noteq> b \<longrightarrow> hbytes m {a} \<inter> hbytes m {b} = {}" "set xs \<inter> A = {}"
    using heap_state_apart [OF h] ok heap_okD(8) by blast+
  have 3: "\<exists>r m'. malloc en n m = Some (r, m') \<and>
      (r \<noteq> 0 \<longrightarrow> r - 8 \<notin> A \<and> unat n + 8 \<le> 8 * unat (um_size m' (r - 8)) \<and> (\<forall>a \<in> A. hbytes m' {r - 8} \<inter> hbytes m {a} = {}))"
    if n: "unat n \<le> 0x7fffff0" for n
  proof -
    obtain r m' xs' where M: "malloc en n m = Some (r, m')" "\<forall>a \<in> A. um_size m' a = um_size m a"
      "r \<noteq> 0 \<longrightarrow> heap_state m' xs' (insert (r - 8) A) \<and> r - 8 \<notin> A \<and> um_size m' (r - 8) = nunits n"
      using malloc_returns [OF h n, of en] by (auto split: if_splits)
    have "hbytes m' {r - 8} \<inter> hbytes m {a} = {}" if "r \<noteq> 0" "a \<in> A" for a
    proof -
      have "hbytes m' {a} = hbytes m {a}" using M(2) that by (intro hbytes_cong) simp
      then show ?thesis using heap_state_apart [of m' xs' "insert (r - 8) A" "r - 8" a] M(3) that by auto
    qed
    then show ?thesis using M nunits_bound(3) [OF n] by (intro exI [of _ r] exI [of _ m']) auto
  qed
  have 4: "\<forall>a \<in> A. \<exists>m'. free (a + 8) m = Some m'" using free_returns [OF h] by blast
  show ?thesis using heap_state_free_list [OF h] 1 2 3 4 by blast
qed

theorem malloc_free_apart_witness:
  "\<exists>r m'. malloc (\<lambda>_. True) 100 demo_umem = Some (r, m') \<and> r = 0xaf98 \<and> 108 \<le> 8 * unat (um_size m' (r - 8))"
proof -
  obtain m' where m': "malloc (\<lambda>_. True) 100 demo_umem = Some (0xaf98, m')" using demo_malloc(1) by blast
  from malloc_free_apart [OF demo_run] have "\<exists>r m'. malloc (\<lambda>_. True) 100 demo_umem = Some (r, m') \<and>
      (r \<noteq> 0 \<longrightarrow> unat (100 :: u32) + 8 \<le> 8 * unat (um_size m' (r - 8)))" by (auto dest!: spec [of _ 100])
  then show ?thesis using m' by simp
qed

text \<open>C29. Nothing is lost between \<^verbatim>\<open>malloc\<close>, for at most 0x7fffff0 bytes, and \<^verbatim>\<open>free\<close>. Seen as a set of bytes, the free list loses exactly the
  block that \<^verbatim>\<open>malloc\<close> hands out, after it has gained the memory obtained from the kernel, if any; a \<^verbatim>\<open>malloc\<close> that
  returns 0 leaves the bytes of the free list as they were; \<^verbatim>\<open>free\<close> gives back exactly the bytes of the block, whether or not it is merged with
  its neighbours; and the other blocks keep their sizes.\<close>

theorem malloc_free_bytes:
  assumes "heap_state m xs A"
  shows "(unat n \<le> 0x7fffff0 \<longrightarrow> (\<exists>r m' xs'. malloc en n m = Some (r, m') \<and> (\<forall>a \<in> A. um_size m' a = um_size m a) \<and> free_list m' xs' \<and>
       (if r = 0 then heap_state m' xs' A \<and> hbytes m' (set xs') = hbytes m (set xs) \<and> um_brk m' = um_brk m
        else heap_state m' xs' (insert (r - 8) A) \<and>
          hbytes m' (set xs') \<union> hbytes m' {r - 8} = hbytes m (set xs) \<union> {unat (um_brk m)..<unat (um_brk m')} \<and>
          hbytes m' (set xs') \<inter> hbytes m' {r - 8} = {}))) \<and>
     (a \<in> A \<longrightarrow> (\<exists>m' xs'. free (a + 8) m = Some m' \<and> heap_state m' xs' (A - {a}) \<and> free_list m' xs' \<and> um_brk m' = um_brk m \<and>
          hbytes m' (set xs') = hbytes m (set xs) \<union> hbytes m {a} \<and> (\<forall>x \<in> A - {a}. um_size m' x = um_size m x)))"
proof (intro conjI impI)
  assume n: "unat n \<le> 0x7fffff0"
  obtain r m' xs' where M: "malloc en n m = Some (r, m')" "\<forall>a \<in> A. um_size m' a = um_size m a"
    "if r = 0 then heap_state m' xs' A \<and> hbytes m' (set xs') = hbytes m (set xs) \<and> um_brk m' = um_brk m
     else heap_state m' xs' (insert (r - 8) A) \<and>
      hbytes m' (set xs') \<union> hbytes m' {r - 8} = hbytes m (set xs) \<union> {unat (um_brk m)..<unat (um_brk m')}"
  proof -
    obtain r m' xs' where "malloc en n m = Some (r, m')" "\<forall>a \<in> A. um_size m' a = um_size m a"
      "if r = 0 then heap_state m' xs' A \<and> hbytes m' (set xs') = hbytes m (set xs) \<and> um_brk m' = um_brk m
       else heap_state m' xs' (insert (r - 8) A) \<and> r - 8 \<notin> A \<and> um_size m' (r - 8) = nunits n \<and>
        hbytes m' (set xs') \<union> hbytes m' {r - 8} = hbytes m (set xs) \<union> {unat (um_brk m)..<unat (um_brk m')}"
      using malloc_returns [OF assms n, of en] by blast
    then show thesis by (intro that [of r m' xs']) (simp_all split: if_splits)
  qed
  moreover have "free_list m' xs'" using M(3) heap_state_free_list by (cases "r = 0") auto
  moreover have "hbytes m' (set xs') \<inter> hbytes m' {r - 8} = {}" if "r \<noteq> 0"
    using heap_state_apart_free [of m' xs' "insert (r - 8) A" "r - 8"] M(3) that by simp
  ultimately show "\<exists>r m' xs'. malloc en n m = Some (r, m') \<and> (\<forall>a \<in> A. um_size m' a = um_size m a) \<and> free_list m' xs' \<and>
       (if r = 0 then heap_state m' xs' A \<and> hbytes m' (set xs') = hbytes m (set xs) \<and> um_brk m' = um_brk m
        else heap_state m' xs' (insert (r - 8) A) \<and>
          hbytes m' (set xs') \<union> hbytes m' {r - 8} = hbytes m (set xs) \<union> {unat (um_brk m)..<unat (um_brk m')} \<and>
          hbytes m' (set xs') \<inter> hbytes m' {r - 8} = {})"
    by (intro exI [of _ r] exI [of _ m'] exI [of _ xs']) auto
next
  assume "a \<in> A"
  then show "\<exists>m' xs'. free (a + 8) m = Some m' \<and> heap_state m' xs' (A - {a}) \<and> free_list m' xs' \<and> um_brk m' = um_brk m \<and>
          hbytes m' (set xs') = hbytes m (set xs) \<union> hbytes m {a} \<and> (\<forall>x \<in> A - {a}. um_size m' x = um_size m x)"
    using free_returns [OF assms] heap_state_free_list by blast
qed

theorem malloc_free_bytes_witness:
  "\<exists>r m' xs'. malloc (\<lambda>_. True) 100 demo_umem = Some (r, m') \<and> r = 0xaf98 \<and>
     hbytes m' (set xs') \<union> hbytes m' {r - 8} = {0x3000..<unat (um_brk m')} \<and> hbytes m' (set xs') \<inter> hbytes m' {r - 8} = {}"
proof -
  obtain m' where m': "malloc (\<lambda>_. True) 100 demo_umem = Some (0xaf98, m')" using demo_malloc(1) by blast
  have "heap_state demo_umem [] {}" by (simp add: heap_state_def heap_start_def demo_umem_def)
  from malloc_free_bytes [OF this, of 100 "\<lambda>_. True" 0] m'
  have "\<exists>xs'. hbytes m' (set xs') \<union> hbytes m' {0xaf98 - 8} = hbytes demo_umem {} \<union> {unat (um_brk demo_umem)..<unat (um_brk m')} \<and>
      hbytes m' (set xs') \<inter> hbytes m' {0xaf98 - 8} = {}" by auto
  moreover have "hbytes demo_umem {} = {}" "unat (um_brk demo_umem) = 0x3000" by (simp_all add: hbytes_def demo_umem_def)
  ultimately show ?thesis using m' by simp
qed

text \<open>C39. A request of more than \<open>2\<^sup>3\<^sup>2 - 8\<close> bytes is not refused: the computation of \<^verbatim>\<open>nunits\<close> wraps around, and \<^verbatim>\<open>malloc\<close>
  does what it does for 0 bytes. If it finds memory, the block it returns is one unit long: a header, and no room behind it.\<close>

theorem malloc_wraps:
  assumes "0xfffffff9 \<le> n" and "heap_run en m A"
  shows "malloc en n m = malloc en 0 m \<and> (\<exists>r m'. malloc en n m = Some (r, m') \<and> (r \<noteq> 0 \<longrightarrow> 8 * unat (um_size m' (r - 8)) = 8))"
proof
  have "unat n \<ge> 4294967289" "unat n < 4294967296" using assms(1) unsigned_less [of n] by (simp_all add: word_le_nat_alt)
  then have "unat (n + 8 - 1) = unat n + 7 - 4294967296" by (simp add: unat_word_ariths mod_if)
  then have "unat (n + 8 - 1) < 8" using \<open>unat n < 4294967296\<close> by simp
  then have "unat ((n + 8 - 1) div 8) = 0" unfolding unat_div by simp
  then have nu: "nunits n = 1" unfolding nunits_def by (simp add: unat_eq_zero)
  have nu0: "nunits 0 = 1" by (simp add: nunits_def)
  show e: "malloc en n m = malloc en 0 m" by (simp add: malloc_def nu nu0)
  obtain xs where h: "heap_state m xs A" using heap_run_state [OF assms(2)] by blast
  obtain r m' where "malloc en 0 m = Some (r, m')" "r \<noteq> 0 \<longrightarrow> um_size m' (r - 8) = nunits 0"
    using malloc_returns [OF h, of 0 en] by (auto split: if_splits)
  then show "\<exists>r m'. malloc en n m = Some (r, m') \<and> (r \<noteq> 0 \<longrightarrow> 8 * unat (um_size m' (r - 8)) = 8)" using e nu0 by simp
qed

theorem malloc_wraps_witness:
  "\<exists>m'. malloc (\<lambda>_. True) 0xffffffff demo_umem = Some (0xb000, m') \<and> 8 * unat (um_size m' (0xb000 - 8)) = 8"
proof -
  obtain m' where "malloc (\<lambda>_. True) 0 demo_umem = Some (0xb000, m')" using demo_malloc(2) by blast
  then show ?thesis using malloc_wraps [of "0xffffffff", OF _ demo_run] by auto
qed

end
