(* ===== verification/Usys.thy ===== *)
theory Usys
  imports Umalloc Cstring Console_Out Fs_Format
begin

text \<open>
  User processes. A user program is written in the outcome monad over \<open>uworld\<close>: the system calls it has
  made, the answers the kernel will give, and its heap. \<open>ucall\<close> makes one call and takes the next answer; when
  there is none the process stays in the kernel (\<open>Switch\<close>), as it does after \<^verbatim>\<open>exit\<close>. What a program
  does is thus the sequence of its calls, for every sequence of answers. Strings are lists of bytes without the final NUL.

  On top of it: \<^verbatim>\<open>printf\<close> (\<^verbatim>\<open>user/printf.c\<close>), \<^verbatim>\<open>stat\<close> of \<^verbatim>\<open>user/ulib.c\<close> and \<^verbatim>\<open>user/threads.c\<close>.
\<close>

section \<open>System calls\<close>

datatype call =
    CFork
  | CExit
  | CWait
  | CPipe
  | CRead int int
  | CWrite int "u8 list"
  | CClose int
  | CKill int
  | CExec "u8 list" "u8 list list"
  | COpen "u8 list" int
  | CMknod "u8 list" int int
  | CUnlink "u8 list"
  | CFstat int
  | CLink "u8 list" "u8 list"
  | CMkdir "u8 list"
  | CChdir "u8 list"
  | CDup int
  | CGetpid
  | CSbrk int
  | CSleep int
  | CUptime
  | CClone addr u32 addr
  | CJoin

text \<open>
  What the kernel answers: the result, and what it stored at the addresses the call gave it: the bytes of \<^verbatim>\<open>read\<close>, the
  structure of \<^verbatim>\<open>fstat\<close>, the stack of \<^verbatim>\<open>join\<close>, the descriptors of \<^verbatim>\<open>pipe\<close>.
\<close>

record answer =
  a_ret :: int
  a_data :: "u8 list"
  a_stat :: stat
  a_stack :: "addr option"
  a_fds :: "int \<times> int"

record uworld =
  w_ans :: "answer list"
  w_calls :: "call list"
  w_heap :: umem
  w_enough :: "u32 \<Rightarrow> bool"
  w_buf :: "u8 list"

type_synonym 'a U = "(uworld, 'a) prog"

definition ucall :: "call \<Rightarrow> answer U" where
  "ucall c = (\<lambda>w. case w_ans w of
       [] \<Rightarrow> Switch (w\<lparr>w_calls := w_calls w @ [c]\<rparr>)
     | a # as \<Rightarrow> Ret a (w\<lparr>w_ans := as, w_calls := w_calls w @ [c]\<rparr>))"

definition ucall_ret :: "call \<Rightarrow> int U" where
  "ucall_ret c = bindP (ucall c) (\<lambda>a. ret (a_ret a))"

definition uexit :: "'a U" where
  "uexit = (\<lambda>w. Switch (w\<lparr>w_calls := w_calls w @ [CExit]\<rparr>))"

text \<open>\<^verbatim>\<open>read\<close> into the array \<open>buf\<close>.\<close>

definition uread :: "int \<Rightarrow> int \<Rightarrow> u8 list \<Rightarrow> (int \<times> u8 list) U" where
  "uread fd n buf = bindP (ucall (CRead fd n)) (\<lambda>a. ret (a_ret a, a_data a @ drop (length (a_data a)) buf))"

definition uwrite :: "int \<Rightarrow> u8 list \<Rightarrow> int U" where
  "uwrite fd bs = ucall_ret (CWrite fd bs)"

text \<open>The bytes written to a descriptor.\<close>

fun written :: "int \<Rightarrow> call list \<Rightarrow> u8 list" where
  "written fd (CWrite f bs # cs) = (if f = fd then bs @ written fd cs else written fd cs)"
| "written fd (c # cs) = written fd cs"
| "written fd [] = []"

section \<open>Formatted output\<close>

definition putc :: "int \<Rightarrow> u8 \<Rightarrow> unit U" where
  "putc fd c = bindP (uwrite fd [c]) (\<lambda>_. ret ())"

definition uputs :: "int \<Rightarrow> u8 list \<Rightarrow> unit U" where
  "uputs fd s = forP s (putc fd)"

definition udigit :: "nat \<Rightarrow> u8" where
  "udigit d = (if d < 10 then 48 + of_nat d else 55 + of_nat d)"

definition uprintint :: "int \<Rightarrow> u32 \<Rightarrow> nat \<Rightarrow> bool \<Rightarrow> unit U" where
  "uprintint fd xx base sign = uputs fd (int_text udigit xx base sign)"

text \<open>The loop over the format; \<open>pct\<close> is \<^verbatim>\<open>state == '%'\<close>.\<close>

fun printf_loop :: "int \<Rightarrow> bool \<Rightarrow> u8 list \<Rightarrow> carg list \<Rightarrow> unit U" where
  "printf_loop fd pct [] args = ret ()"
| "printf_loop fd pct (c # cs) args =
    (if \<not> pct then
       if c = ch CHR ''%'' then printf_loop fd True cs args
       else thenP (putc fd c) (printf_loop fd False cs args)
     else if c = ch CHR ''d'' then
       (case args of Word w # as \<Rightarrow> thenP (uprintint fd w 10 True) (printf_loop fd False cs as) | _ \<Rightarrow> fault ''printf argument'')
     else if c = ch CHR ''x'' \<or> c = ch CHR ''p'' then
       (case args of Word w # as \<Rightarrow> thenP (uprintint fd w 16 False) (printf_loop fd False cs as) | _ \<Rightarrow> fault ''printf argument'')
     else if c = ch CHR ''s'' then
       (case args of Str s # as \<Rightarrow> thenP (uputs fd (case s of None \<Rightarrow> bytes ''(null)'' | Some t \<Rightarrow> t)) (printf_loop fd False cs as)
        | _ \<Rightarrow> fault ''printf argument'')
     else if c = ch CHR ''c'' then
       (case args of Word w # as \<Rightarrow> thenP (putc fd (ucast w)) (printf_loop fd False cs as) | _ \<Rightarrow> fault ''printf argument'')
     else if c = ch CHR ''%'' then thenP (putc fd c) (printf_loop fd False cs args)
     else thenP (putc fd (ch CHR ''%'')) (thenP (putc fd c) (printf_loop fd False cs args)))"

definition printf :: "int \<Rightarrow> u8 list \<Rightarrow> carg list \<Rightarrow> unit U" where
  "printf fd fmt args = printf_loop fd False fmt args"

section \<open>Files and threads\<close>

text \<open>\<^verbatim>\<open>stat\<close>; \<open>st\<close> is the structure as it was before.\<close>

definition ustat :: "u8 list \<Rightarrow> stat \<Rightarrow> (int \<times> stat) U" where
  "ustat n st = bindP (ucall_ret (COpen n 0)) (\<lambda>fd.
     if fd < 0 then ret (- 1, st) else
     bindP (ucall (CFstat fd)) (\<lambda>a.
     bindP (ucall_ret (CClose fd)) (\<lambda>_.
     ret (a_ret a, if a_ret a < 0 then st else a_stat a))))"

definition umalloc :: "u32 \<Rightarrow> addr U" where
  "umalloc n = (\<lambda>w. case malloc (w_enough w) n (w_heap w) of
     None \<Rightarrow> Spin w | Some (p, h) \<Rightarrow> Ret p (w\<lparr>w_heap := h\<rparr>))"

definition ufree :: "addr \<Rightarrow> unit U" where
  "ufree p = (\<lambda>w. case free p (w_heap w) of None \<Rightarrow> Spin w | Some h \<Rightarrow> Ret () (w\<lparr>w_heap := h\<rparr>))"

definition thread_create :: "addr \<Rightarrow> u32 \<Rightarrow> int U" where
  "thread_create thfunc arg = bindP (umalloc 4096) (\<lambda>stackPage. ucall_ret (CClone thfunc arg stackPage))"

text \<open>
  \<^verbatim>\<open>thread_join\<close>; \<open>junk\<close> is what the uninitialised variable \<^verbatim>\<open>stackPage\<close> holds, and what \<^verbatim>\<open>free\<close> is given when
  \<^verbatim>\<open>join\<close> fails and stores nothing.
\<close>

definition thread_join :: "addr \<Rightarrow> int U" where
  "thread_join junk = bindP (ucall CJoin) (\<lambda>a.
     thenP (ufree (case a_stack a of Some s \<Rightarrow> s | None \<Rightarrow> junk)) (ret (a_ret a)))"

text \<open>When \<^verbatim>\<open>join\<close> has no thread to wait for, \<^verbatim>\<open>free\<close> is called with whatever the variable held.\<close>

lemma thread_join_frees_junk:
  "w_ans w = a # as \<Longrightarrow> a_stack a = None \<Longrightarrow> thread_join junk w = Ret r w' \<Longrightarrow> free junk (w_heap w) = Some (w_heap w')"
  by (auto simp: thread_join_def ucall_def ufree_def split: option.splits)

section \<open>What a call leaves behind\<close>

lemma written_append [simp]: "written fd (xs @ ys) = written fd xs @ written fd ys"
  by (induction fd xs rule: written.induct) simp_all

lemma written_bytes [simp]: "written fd (map (\<lambda>c. CWrite f [c]) s) = (if f = fd then s else [])"
  by (induction s) auto

text \<open>\<open>said fd s w\<close>: the process after it has written \<open>s\<close> byte by byte.\<close>

definition said :: "int \<Rightarrow> u8 list \<Rightarrow> uworld \<Rightarrow> uworld" where
  "said fd s w = w\<lparr>w_ans := drop (length s) (w_ans w), w_calls := w_calls w @ map (\<lambda>c. CWrite fd [c]) s\<rparr>"

lemma said_nil [simp]: "said fd [] w = w"
  by (simp add: said_def)

lemma said_said: "said fd t (said fd s w) = said fd (s @ t) w"
  by (simp add: said_def add.commute)

lemma said_fields [simp]:
  "w_ans (said fd s w) = drop (length s) (w_ans w)" "w_heap (said fd s w) = w_heap w" "w_buf (said fd s w) = w_buf w"
  "w_calls (said fd s w) = w_calls w @ map (\<lambda>c. CWrite fd [c]) s"
  by (simp_all add: said_def)

text \<open>\<open>says fd t m\<close>: the program \<open>m\<close> writes \<open>t\<close> to \<open>fd\<close>, and returns when all the writes have been answered.\<close>

definition says :: "int \<Rightarrow> u8 list \<Rightarrow> unit U \<Rightarrow> bool" where
  "says fd t m \<longleftrightarrow> (\<forall>w. length t \<le> length (w_ans w) \<longrightarrow> m w = Ret () (said fd t w))"

lemma saysD: "says fd t m \<Longrightarrow> length t \<le> length (w_ans w) \<Longrightarrow> m w = Ret () (said fd t w)"
  by (simp add: says_def)

lemma says_ret: "says fd [] (ret ())"
  by (simp add: says_def)

lemma says_putc: "says fd [c] (putc fd c)"
  unfolding says_def
proof (intro allI impI)
  fix w :: uworld
  assume "length [c] \<le> length (w_ans w)"
  then show "putc fd c w = Ret () (said fd [c] w)"
    by (cases "w_ans w") (simp_all add: putc_def uwrite_def ucall_ret_def ucall_def said_def)
qed

lemma says_then: "says fd s m \<Longrightarrow> says fd t k \<Longrightarrow> says fd (s @ t) (thenP m k)"
  by (simp add: says_def said_said)

lemma says_cons: "says fd t k \<Longrightarrow> says fd (c # t) (thenP (putc fd c) k)"
  using says_then [OF says_putc] by simp

lemma says_uputs: "says fd s (uputs fd s)"
  unfolding uputs_def by (induction s) (simp_all only: forP.simps says_ret says_cons)

text \<open>The text of a format with its arguments.\<close>

fun fmt_text :: "bool \<Rightarrow> u8 list \<Rightarrow> carg list \<Rightarrow> u8 list option" where
  "fmt_text pct [] args = Some []"
| "fmt_text pct (c # cs) args =
    (if \<not> pct then
       if c = ch CHR ''%'' then fmt_text True cs args
       else map_option (Cons c) (fmt_text False cs args)
     else if c = ch CHR ''d'' then
       (case args of Word w # as \<Rightarrow> map_option (append (int_text udigit w 10 True)) (fmt_text False cs as) | _ \<Rightarrow> None)
     else if c = ch CHR ''x'' \<or> c = ch CHR ''p'' then
       (case args of Word w # as \<Rightarrow> map_option (append (int_text udigit w 16 False)) (fmt_text False cs as) | _ \<Rightarrow> None)
     else if c = ch CHR ''s'' then
       (case args of Str s # as \<Rightarrow> map_option (append (case s of None \<Rightarrow> bytes ''(null)'' | Some t \<Rightarrow> t)) (fmt_text False cs as) | _ \<Rightarrow> None)
     else if c = ch CHR ''c'' then
       (case args of Word w # as \<Rightarrow> map_option (Cons (ucast w)) (fmt_text False cs as) | _ \<Rightarrow> None)
     else if c = ch CHR ''%'' then map_option (Cons c) (fmt_text False cs args)
     else map_option (\<lambda>t. ch CHR ''%'' # c # t) (fmt_text False cs args))"

text \<open>\<^verbatim>\<open>printf\<close> puts out that text, byte by byte.\<close>

lemma uputs_simps: "uputs fd [] = ret ()" "uputs fd (c # s) = thenP (putc fd c) (uputs fd s)"
  unfolding uputs_def by (simp_all only: forP.simps)

lemma uputs_append: "thenP (uputs fd s) (uputs fd t) = uputs fd (s @ t)"
proof (induction s)
  case (Cons c s)
  have "thenP (thenP (putc fd c) (uputs fd s)) (uputs fd t) = thenP (putc fd c) (thenP (uputs fd s) (uputs fd t))"
    by (auto simp: fun_eq_iff split: outcome.splits)
  then show ?case using Cons by (simp only: uputs_simps append_Cons)
qed (simp add: uputs_simps fun_eq_iff)

lemma printf_loop_uputs: "fmt_text pct fmt args = Some t \<Longrightarrow> printf_loop fd pct fmt args = uputs fd t"
proof (induction fmt arbitrary: pct args t)
  case (Cons c cs)
  note IH = Cons.IH and p = Cons.prems
  show ?case
  proof (cases pct)
    case False
    then show ?thesis using p IH by (cases "c = ch CHR ''%''") (auto simp: uputs_simps simp del: thenP_apply)
  next
    case True
    consider "c = ch CHR ''d'' \<or> c = ch CHR ''x'' \<or> c = ch CHR ''p'' \<or> c = ch CHR ''s'' \<or> c = ch CHR ''c''"
      | "c \<noteq> ch CHR ''d''" "c \<noteq> ch CHR ''x''" "c \<noteq> ch CHR ''p''" "c \<noteq> ch CHR ''s''" "c \<noteq> ch CHR ''c''" by blast
    then show ?thesis
    proof cases
      case 1
      then obtain a as where "args = a # as" using p True by (cases args) (auto simp: ch_def)
      then show ?thesis using 1 p True IH
        by (cases a) (auto simp: uprintint_def ch_def uputs_simps uputs_append simp del: thenP_apply)
    next
      case 2
      then show ?thesis using p True IH
        by (cases "c = ch CHR ''%''") (auto simp: uputs_simps simp del: thenP_apply)
    qed
  qed
qed (simp add: uputs_simps del: ret_apply)

lemma printf_uputs: "fmt_text False fmt args = Some t \<Longrightarrow> printf fd fmt args = uputs fd t"
  unfolding printf_def by (rule printf_loop_uputs)

lemma says_printf: "fmt_text False fmt args = Some t \<Longrightarrow> says fd t (printf fd fmt args)"
  by (simp only: printf_uputs says_uputs)

section \<open>Numbers\<close>

lemma digits_length:
  "2 \<le> base \<Longrightarrow> x < base ^ n \<Longrightarrow> 0 < n \<Longrightarrow> length (digits tab base x) \<le> n"
proof (induction tab base x arbitrary: n rule: digits.induct)
  case (1 tab base x)
  show ?case
  proof (cases "x div base = 0")
    case True
    then show ?thesis using 1(4) by (subst digits.simps) simp
  next
    case False
    then obtain m where n: "n = Suc m" "0 < m" using 1(3,4) by (cases n; cases "n = 1") auto
    then have "x div base < base ^ m" using 1(2,3) by (simp add: less_mult_imp_div_less mult.commute)
    then have "length (digits tab base (x div base)) \<le> m" using 1(1) False 1(2) n(2) by simp
    then show ?thesis using n(1) by (subst digits.simps) simp
  qed
qed

text \<open>The array \<^verbatim>\<open>buf[16]\<close> of both \<^verbatim>\<open>printint\<close> routines is large enough.\<close>

lemma int_text_fits: "base = 10 \<or> base = 16 \<Longrightarrow> length (int_text tab xx base sign) \<le> 11"
proof -
  assume b: "base = 10 \<or> base = 16"
  have "unat y < 10 ^ 10" "unat y < 16 ^ 8" for y :: u32 using unsigned_less [of y, where ?'a = nat] by simp_all
  then have "length (digits tab base (unat y)) \<le> 10" for y :: u32
    using digits_length [of 10 "unat y" 10 tab] digits_length [of 16 "unat y" 8 tab] b by (auto intro: order_trans)
  then have "length (digits tab base (unat y)) \<le> 10 + 1" for y :: u32 by (meson le_add1 order_trans)
  then show ?thesis using \<open>\<And>y. length (digits tab base (unat y)) \<le> 10\<close> by (simp add: int_text_def)
qed

lemma udigit_range: "d < 10 \<Longrightarrow> 48 \<le> udigit d \<and> udigit d \<le> 57 \<and> uint (udigit d) = int d + 48"
proof -
  assume d: "d < 10"
  have "unat (udigit d) = 48 + d" using d by (simp add: udigit_def unat_word_ariths unat_of_nat take_bit_eq_mod)
  then show ?thesis using d by (simp add: word_le_nat_alt uint_nat)
qed

text \<open>\<open>string_at m s t\<close>: the C string \<open>t\<close> is at address \<open>s\<close>.\<close>

fun string_at :: "mem \<Rightarrow> addr \<Rightarrow> u8 list \<Rightarrow> bool" where
  "string_at m s [] = (m s = 0)"
| "string_at m s (c # cs) = (m s = c \<and> string_at m (s + 1) cs)"

lemma atoi_string:
  "string_at m s t \<Longrightarrow> \<forall>c \<in> set t. 48 \<le> c \<and> c \<le> 57 \<Longrightarrow> atoi_from m s n = Some (foldl (\<lambda>n c. int32 (n * 10 + uint c - 48)) n t)"
proof (induction t arbitrary: s n)
  case (Cons c t)
  then show ?case by (subst atoi_from.simps) simp
qed (subst atoi_from.simps, simp)

lemma foldl_int32: "foldl (\<lambda>n c. int32 (n * 10 + uint c - 48)) (int32 n) t = int32 (foldl (\<lambda>n c. n * 10 + uint c - 48) n t)"
proof (induction t arbitrary: n)
  case (Cons c t)
  then show ?case using int32_digit [of n "uint c - 48"] by (simp add: add_diff_eq)
qed simp

lemma digits_value:
  "(\<forall>c \<in> set (digits udigit 10 x). 48 \<le> c \<and> c \<le> 57) \<and> foldr (\<lambda>c n. n * 10 + uint c - 48) (digits udigit 10 x) 0 = int x"
proof (induction x rule: less_induct)
  case (less x)
  have d: "48 \<le> udigit (x mod 10) \<and> udigit (x mod 10) \<le> 57 \<and> uint (udigit (x mod 10)) = int (x mod 10) + 48"
    by (rule udigit_range) simp
  show ?case
  proof (cases "x div 10 = 0")
    case True
    then show ?thesis using d by (subst (1 2) digits.simps) simp
  next
    case False
    then have "x div 10 < x" by (intro div_less_dividend) auto
    moreover have "int (x div 10) * 10 + int (x mod 10) = int x" by (metis div_mult_mod_eq of_nat_add of_nat_mult of_nat_numeral)
    ultimately show ?thesis using less.IH [of "x div 10"] False d by (subst (1 2) digits.simps) simp
  qed
qed

text \<open>C34. A number from 0 to 2^31 - 1 printed with \<^verbatim>\<open>%d\<close> is the number \<^verbatim>\<open>atoi\<close> reads: the text fits the buffer of
  \<^verbatim>\<open>printint\<close>, and wherever it is stored as a C string, \<^verbatim>\<open>atoi\<close> returns the number. (\<^verbatim>\<open>atoi\<close> knows no sign, so
  negative numbers are not read back.)\<close>

theorem printf_atoi:
  assumes "n < 2147483648" "11 \<le> length (w_ans w)"
  shows "\<exists>w' t. printf fd (bytes ''%d'') [Word (of_nat n)] w = Ret () w' \<and> written fd (w_calls w') = written fd (w_calls w) @ t \<and>
     length t \<le> 16 \<and> (\<forall>m s. string_at m s t \<longrightarrow> atoi s m = Some (int n))"
proof -
  let ?t = "int_text udigit (of_nat n) 10 True"
  have "fmt_text False (bytes ''%d'') [Word (of_nat n)] = Some ?t" by (simp add: bytes_def ch_def)
  note r = saysD [OF says_printf [OF this]]
  have l: "length ?t \<le> 11" by (rule int_text_fits) simp
  have u: "unat (of_nat n :: u32) = n" using assms(1) by (simp add: unat_of_nat take_bit_eq_mod)
  then have "sint (of_nat n :: u32) = int n" using sint_small [of "of_nat n"] assms(1) by simp
  then have t: "?t = rev (digits udigit 10 n)" using u by (simp add: int_text_def)
  have "atoi s m = Some (int n)" if "string_at m s ?t" for m s
    using atoi_string [OF that, of 0] digits_value [of n] foldl_int32 [of 0 "rev (digits udigit 10 n)"] assms(1)
    unfolding t atoi_def by (simp add: foldl_conv_foldr int32_id)
  then show ?thesis using r [of w fd] l assms(2) by (intro exI [of _ "said fd ?t w"] exI [of _ ?t]) simp
qed

definition demo_world :: "answer list \<Rightarrow> uworld" where
  "demo_world as = \<lparr>w_ans = as, w_calls = [],
     w_heap = \<lparr>um_ptr = (\<lambda>_. 0), um_size = (\<lambda>_. 0), um_base = 0x800, um_freep = 0, um_lock = 0, um_count = 0, um_brk = 0x4000\<rparr>,
     w_enough = (\<lambda>_. True), w_buf = replicate 512 0\<rparr>"

definition number :: "int \<Rightarrow> answer" where
  "number r = \<lparr>a_ret = r, a_data = [], a_stat = \<lparr>st_type = 0, st_dev = 0, st_ino = 0, st_nlink = 0, st_size = 0\<rparr>, a_stack = None, a_fds = (0, 0)\<rparr>"

theorem printf_atoi_witness:
  "\<exists>w' t. printf 1 (bytes ''%d'') [Word 407] (demo_world (replicate 11 (number 1))) = Ret () w' \<and>
     written 1 (w_calls w') = t \<and> (\<forall>m s. string_at m s t \<longrightarrow> atoi s m = Some 407)"
  using printf_atoi [of 407 "demo_world (replicate 11 (number 1))" 1] by (auto simp: demo_world_def)

end
