(* ===== verification/Utils.thy ===== *)
theory Utils
  imports Usys
begin

text \<open>
  The small programs of the user land (\<^verbatim>\<open>user/cat.c\<close>, \<^verbatim>\<open>wc.c\<close>, \<^verbatim>\<open>ls.c\<close>, \<^verbatim>\<open>echo.c\<close>, \<^verbatim>\<open>init.c\<close>, \<^verbatim>\<open>kill.c\<close>, \<^verbatim>\<open>ln.c\<close>,
  \<^verbatim>\<open>mkdir.c\<close>, \<^verbatim>\<open>rm.c\<close>, \<^verbatim>\<open>zombie.c\<close>) over the system calls of \<open>Usys\<close>. \<open>argv\<close> is the list of the arguments, the name of the
  program first. A loop that reads until the kernel says otherwise makes a call in every round, so as many
  rounds as there are answers are enough.
\<close>

section \<open>Programs\<close>

definition line :: "string \<Rightarrow> u8 list" where
  "line s = bytes s @ [10]"

definition str :: "u8 list \<Rightarrow> carg" where
  "str s = Str (Some s)"

definition rounds :: "nat U" where
  "rounds = reads (\<lambda>w. Suc (length (w_ans w)))"

text \<open>\<^verbatim>\<open>read(fd, buf, sizeof(buf))\<close> into the global array.\<close>

definition read_buf :: "int \<Rightarrow> int U" where
  "read_buf fd = bindP (reads w_buf) (\<lambda>buf. bindP (uread fd 512 buf) (\<lambda>(n, buf).
     thenP (modify (\<lambda>w. w\<lparr>w_buf := buf\<rparr>)) (ret n)))"

primrec cat_loop :: "nat \<Rightarrow> int \<Rightarrow> int U" where
  "cat_loop 0 fd = spin"
| "cat_loop (Suc fuel) fd = bindP (read_buf fd) (\<lambda>n.
     if n > 0 then bindP (reads w_buf) (\<lambda>buf. bindP (uwrite 1 (take (nat n) buf)) (\<lambda>_. cat_loop fuel fd)) else ret n)"

definition cat :: "int \<Rightarrow> unit U" where
  "cat fd = bindP rounds (\<lambda>fuel. bindP (cat_loop fuel fd) (\<lambda>n.
     whenP (n < 0) (thenP (printf 1 (line ''cat: read error'') []) uexit)))"

definition cat_main :: "u8 list list \<Rightarrow> unit U" where
  "cat_main argv =
    (if length argv \<le> 1 then thenP (cat 0) uexit else
     thenP (forP (tl argv) (\<lambda>a. bindP (ucall_ret (COpen a 0)) (\<lambda>fd.
       if fd < 0 then thenP (printf 1 (line ''cat: cannot open %s'') [str a]) uexit
       else thenP (cat fd) (bindP (ucall_ret (CClose fd)) (\<lambda>_. ret ())))))
     uexit)"

text \<open>The counts of \<^verbatim>\<open>wc\<close>: lines, words, characters, and whether the last character was inside a word.\<close>

type_synonym counts = "u32 \<times> u32 \<times> u32 \<times> bool"

definition space :: "u8 \<Rightarrow> bool" where
  "space c \<longleftrightarrow> c \<in> set [32, 13, 9, 10, 11]"

definition wc_char :: "u8 \<Rightarrow> counts \<Rightarrow> counts" where
  "wc_char x = (\<lambda>(l, w, c, inword).
     let c = c + 1; l = (if x = 10 then l + 1 else l)
     in if space x then (l, w, c, False) else if \<not> inword then (l, w + 1, c, True) else (l, w, c, inword))"

primrec wc_loop :: "nat \<Rightarrow> int \<Rightarrow> counts \<Rightarrow> (int \<times> counts) U" where
  "wc_loop 0 fd s = spin"
| "wc_loop (Suc fuel) fd s = bindP (read_buf fd) (\<lambda>n.
     if n > 0 then bindP (reads w_buf) (\<lambda>buf. wc_loop fuel fd (fold wc_char (take (nat n) buf) s)) else ret (n, s))"

definition wc :: "int \<Rightarrow> u8 list \<Rightarrow> unit U" where
  "wc fd name = bindP rounds (\<lambda>fuel. bindP (wc_loop fuel fd (0, 0, 0, False)) (\<lambda>(n, l, w, c, _).
     if n < 0 then thenP (printf 1 (line ''wc: read error'') []) uexit
     else printf 1 (line ''%d %d %d %s'') [Word l, Word w, Word c, str name]))"

definition wc_main :: "u8 list list \<Rightarrow> unit U" where
  "wc_main argv =
    (if length argv \<le> 1 then thenP (wc 0 []) uexit else
     thenP (forP (tl argv) (\<lambda>a. bindP (ucall_ret (COpen a 0)) (\<lambda>fd.
       if fd < 0 then thenP (printf 1 (line ''cat: cannot open %s'') [str a]) uexit
       else thenP (wc fd a) (bindP (ucall_ret (CClose fd)) (\<lambda>_. ret ())))))
     uexit)"

subsection \<open>Listing a directory\<close>

text \<open>The part of a path after its last slash, padded with blanks to \<^verbatim>\<open>DIRSIZ\<close>.\<close>

definition fmtname :: "u8 list \<Rightarrow> u8 list" where
  "fmtname pth = (let p = rev (takeWhile (\<lambda>c. c \<noteq> ch CHR ''/'') (rev pth)) in
     if length p \<ge> DIRSIZ then p else p @ replicate (DIRSIZ - length p) 32)"

definition ls_line :: "u8 list \<Rightarrow> stat \<Rightarrow> unit U" where
  "ls_line pth st = printf 1 (line ''%s %d %d %d'')
     [str (fmtname pth), Word (scast (st_type st)), Word (st_ino st), Word (st_size st)]"

text \<open>The loop over the entries; \<open>de\<close> is the last entry read, \<open>st\<close> the last structure \<^verbatim>\<open>stat\<close> filled in.\<close>

primrec ls_loop :: "nat \<Rightarrow> int \<Rightarrow> u8 list \<Rightarrow> u8 list \<Rightarrow> stat \<Rightarrow> unit U" where
  "ls_loop 0 fd pth de st = spin"
| "ls_loop (Suc fuel) fd pth de st = bindP (uread fd 16 de) (\<lambda>(n, de).
     if n = 16 then
       let d = dec_dirent de 0; buf = pth @ ch CHR ''/'' # takeWhile (\<lambda>c. c \<noteq> 0) (de_name d) in
       if de_inum d = 0 then ls_loop fuel fd pth de st else
       bindP (ustat buf st) (\<lambda>(r, st).
       thenP (if r < 0 then printf 1 (line ''ls: cannot stat %s'') [str buf] else ls_line buf st)
         (ls_loop fuel fd pth de st))
     else ret ())"

definition ls :: "u8 list \<Rightarrow> u8 list \<Rightarrow> unit U" where
  "ls junk pth = bindP (ucall_ret (COpen pth 0)) (\<lambda>fd.
     if fd < 0 then printf 2 (line ''ls: cannot open %s'') [str pth] else
     bindP (ucall (CFstat fd)) (\<lambda>a.
     if a_ret a < 0 then thenP (printf 2 (line ''ls: cannot stat %s'') [str pth]) (bindP (ucall_ret (CClose fd)) (\<lambda>_. ret ()))
     else
       let st = a_stat a in
       thenP
        (if st_type st = T_FILE then ls_line pth st
         else if st_type st = T_DIR then
           if length pth + 1 + DIRSIZ + 1 > 512 then printf 1 (line ''ls: path too long'') []
           else bindP rounds (\<lambda>fuel. ls_loop fuel fd pth junk st)
         else ret ())
        (bindP (ucall_ret (CClose fd)) (\<lambda>_. ret ()))))"

definition ls_main :: "u8 list \<Rightarrow> u8 list list \<Rightarrow> unit U" where
  "ls_main junk argv =
    (if length argv < 2 then thenP (ls junk (bytes ''.'')) uexit
     else thenP (forP (tl argv) (ls junk)) uexit)"

subsection \<open>One call each\<close>

fun echo_loop :: "u8 list list \<Rightarrow> unit U" where
  "echo_loop [] = ret ()"
| "echo_loop (a # as) = thenP (printf 1 (bytes ''%s%s'') [str a, str (if as \<noteq> [] then [32] else [10])]) (echo_loop as)"

definition echo_main :: "u8 list list \<Rightarrow> unit U" where
  "echo_main argv = thenP (echo_loop (tl argv)) uexit"

text \<open>\<^verbatim>\<open>atoi\<close> of an argument, which is a string of its own: the digits it starts with.\<close>

definition atoi_str :: "u8 list \<Rightarrow> int" where
  "atoi_str s = foldl (\<lambda>n c. int32 (n * 10 + uint c - 48)) 0 (takeWhile (\<lambda>c. 48 \<le> c \<and> c \<le> 57) s)"

definition kill_main :: "u8 list list \<Rightarrow> unit U" where
  "kill_main argv =
    (if length argv < 1 then thenP (printf 2 (line ''usage: kill pid...'') []) uexit else
     thenP (forP (tl argv) (\<lambda>a. bindP (ucall_ret (CKill (atoi_str a))) (\<lambda>_. ret ()))) uexit)"

text \<open>\<^verbatim>\<open>argv[i]\<close>; an argument that is not there is a null pointer.\<close>

definition arg :: "u8 list list \<Rightarrow> nat \<Rightarrow> u8 list U" where
  "arg argv i = (\<lambda>w. if i < length argv then Ret (argv ! i) w else Fault ''argv'')"

definition ln_main :: "u8 list list \<Rightarrow> unit U" where
  "ln_main argv =
    (if length argv \<noteq> 3 then thenP (printf 2 (line ''Usage: ln old new'') []) uexit else
     bindP (arg argv 1) (\<lambda>old. bindP (arg argv 2) (\<lambda>new.
     bindP (ucall_ret (CLink old new)) (\<lambda>r.
     thenP (whenP (r < 0) (printf 2 (line ''link %s %s: failed'') [str old, str new])) uexit))))"

fun mkdir_loop :: "u8 list list \<Rightarrow> unit U" where
  "mkdir_loop [] = ret ()"
| "mkdir_loop (a # as) = bindP (ucall_ret (CMkdir a)) (\<lambda>r.
     if r < 0 then printf 2 (line ''mkdir: %s failed to create'') [str a] else mkdir_loop as)"

definition mkdir_main :: "u8 list list \<Rightarrow> unit U" where
  "mkdir_main argv =
    (if length argv < 2 then thenP (printf 2 (line ''Usage: mkdir files...'') []) uexit
     else thenP (mkdir_loop (tl argv)) uexit)"

fun rm_loop :: "u8 list list \<Rightarrow> unit U" where
  "rm_loop [] = ret ()"
| "rm_loop (a # as) = bindP (ucall_ret (CUnlink a)) (\<lambda>r.
     if r < 0 then printf 2 (line ''rm: %s failed to delete'') [str a] else rm_loop as)"

definition rm_main :: "u8 list list \<Rightarrow> unit U" where
  "rm_main argv =
    (if length argv < 2 then thenP (printf 2 (line ''Usage: rm files...'') []) uexit
     else thenP (rm_loop (tl argv)) uexit)"

definition zombie_main :: "unit U" where
  "zombie_main = bindP (ucall_ret CFork) (\<lambda>r.
     thenP (whenP (r > 0) (bindP (ucall_ret (CSleep 5)) (\<lambda>_. ret ()))) uexit)"

subsection \<open>The first process\<close>

primrec init_wait :: "nat \<Rightarrow> int \<Rightarrow> unit U" where
  "init_wait 0 pid = spin"
| "init_wait (Suc fuel) pid = bindP (ucall_ret CWait) (\<lambda>wpid.
     whenP (wpid \<ge> 0 \<and> wpid \<noteq> pid) (thenP (printf 1 (line ''zombie!'') []) (init_wait fuel pid)))"

primrec init_loop :: "nat \<Rightarrow> unit U" where
  "init_loop 0 = spin"
| "init_loop (Suc fuel) = thenP (printf 1 (line ''init: starting sh'') [])
    (bindP (ucall_ret CFork) (\<lambda>pid.
     if pid < 0 then thenP (printf 1 (line ''init: fork failed'') []) uexit
     else if pid = 0 then
       bindP (ucall_ret (CExec (bytes ''sh'') [bytes ''sh''])) (\<lambda>_. thenP (printf 1 (line ''init: exec sh failed'') []) uexit)
     else thenP (bindP rounds (\<lambda>n. init_wait n pid)) (init_loop fuel)))"

definition init_main :: "unit U" where
  "init_main = bindP (ucall_ret (COpen (bytes ''console'') 2)) (\<lambda>r.
     thenP (whenP (r < 0)
       (bindP (ucall_ret (CMknod (bytes ''console'') 1 1)) (\<lambda>_.
        bindP (ucall_ret (COpen (bytes ''console'') 2)) (\<lambda>_. ret ()))))
    (bindP (ucall_ret (CDup 0)) (\<lambda>_.
     bindP (ucall_ret (CDup 0)) (\<lambda>_.
     bindP rounds init_loop))))"

section \<open>Every program ends\<close>

text \<open>
  \<open>live n m\<close>: with fewer than \<open>n\<close> answers to come, \<open>m\<close> returns, having used some of them, or ends in the kernel: in
  \<^verbatim>\<open>exit\<close>, or in a call that has not been answered. It neither runs for ever nor faults.
\<close>

definition stopped :: "uworld \<Rightarrow> bool" where
  "stopped w \<longleftrightarrow> w_calls w \<noteq> [] \<and> (last (w_calls w) = CExit \<or> w_ans w = [])"

definition live :: "nat \<Rightarrow> 'a U \<Rightarrow> bool" where
  "live n m \<longleftrightarrow> (\<forall>w. length (w_ans w) < n \<longrightarrow>
     (case m w of Ret _ w' \<Rightarrow> length (w_ans w') \<le> length (w_ans w) | Switch w' \<Rightarrow> stopped w' | _ \<Rightarrow> False))"

text \<open>\<open>calls n m\<close>: as \<open>live\<close>, with at least one answer used.\<close>

definition calls :: "'a U \<Rightarrow> bool" where
  "calls m \<longleftrightarrow> (\<forall>w. case m w of Ret _ w' \<Rightarrow> length (w_ans w') < length (w_ans w) | Switch w' \<Rightarrow> stopped w' | _ \<Rightarrow> False)"

named_theorems live_intro \<open>programs that end, compositional rules\<close>

lemma calls_ucall [live_intro]: "calls (ucall c)"
  by (auto simp: calls_def ucall_def stopped_def split: list.splits)

lemma live_0 [live_intro]: "live 0 m"
  by (simp add: live_def)

lemma live_ret [live_intro]: "live n (ret v)"
  by (simp add: live_def)

lemma live_reads [live_intro]: "live n (reads f)"
  by (simp add: live_def)

lemma live_uexit [live_intro]: "live n uexit"
  by (simp add: live_def uexit_def stopped_def)

lemma liveD:
  assumes "live n m" "length (w_ans w) < n"
  obtains v w' where "m w = Ret v w'" "length (w_ans w') \<le> length (w_ans w)" | w' where "m w = Switch w'" "stopped w'"
  using assms unfolding live_def by (cases "m w") (auto dest: spec [of _ w])

lemma callsD:
  assumes "calls m"
  obtains v w' where "m w = Ret v w'" "length (w_ans w') < length (w_ans w)" | w' where "m w = Switch w'" "stopped w'"
  using assms unfolding calls_def by (cases "m w") (auto dest: spec [of _ w])

lemma liveI: "(\<And>w. length (w_ans w) < n \<Longrightarrow>
    (\<exists>v w'. m w = Ret v w' \<and> length (w_ans w') \<le> length (w_ans w)) \<or> (\<exists>w'. m w = Switch w' \<and> stopped w')) \<Longrightarrow> live n m"
  unfolding live_def by (force split: outcome.splits)

lemma callsI: "(\<And>w. (\<exists>v w'. m w = Ret v w' \<and> length (w_ans w') < length (w_ans w)) \<or> (\<exists>w'. m w = Switch w' \<and> stopped w')) \<Longrightarrow> calls m"
  unfolding calls_def
proof
  fix w :: uworld
  assume "\<And>w. (\<exists>v w'. m w = Ret v w' \<and> length (w_ans w') < length (w_ans w)) \<or> (\<exists>w'. m w = Switch w' \<and> stopped w')"
  from this [of w] show "case m w of Ret _ w' \<Rightarrow> length (w_ans w') < length (w_ans w) | Switch w' \<Rightarrow> stopped w' | _ \<Rightarrow> False" by auto
qed

lemma live_calls: "calls m \<Longrightarrow> live n m"
  by (rule liveI) (metis callsD less_imp_le)

lemma live_bind:
  assumes "live n m" "\<And>v. live n (f v)" shows "live n (bindP m f)"
proof (rule liveI)
  fix w :: uworld
  assume l: "length (w_ans w) < n"
  from assms(1) l show "(\<exists>v w'. bindP m f w = Ret v w' \<and> length (w_ans w') \<le> length (w_ans w)) \<or> (\<exists>w'. bindP m f w = Switch w' \<and> stopped w')"
  proof (cases rule: liveD)
    case (1 v w')
    then have "length (w_ans w') < n" using l by simp
    from assms(2) [of v] this show ?thesis by (cases rule: liveD) (use 1 in auto)
  qed simp
qed

lemma live_bind_calls:
  assumes "calls m" "\<And>v. live n (f v)" shows "live (Suc n) (bindP m f)"
proof (rule liveI)
  fix w :: uworld
  assume l: "length (w_ans w) < Suc n"
  from assms(1) show "(\<exists>v w'. bindP m f w = Ret v w' \<and> length (w_ans w') \<le> length (w_ans w)) \<or> (\<exists>w'. bindP m f w = Switch w' \<and> stopped w')"
  proof (cases rule: callsD [where w = w])
    case (1 v w')
    then have "length (w_ans w') < n" using l by simp
    from assms(2) [of v] this show ?thesis by (cases rule: liveD) (use 1 in auto)
  qed simp
qed

lemma calls_bind:
  assumes "calls m" "\<And>v n. live n (f v)" shows "calls (bindP m f)"
proof (rule callsI)
  fix w :: uworld
  from assms(1) show "(\<exists>v w'. bindP m f w = Ret v w' \<and> length (w_ans w') < length (w_ans w)) \<or> (\<exists>w'. bindP m f w = Switch w' \<and> stopped w')"
  proof (cases rule: callsD [where w = w])
    case (1 v w')
    from assms(2) [of "Suc (length (w_ans w'))" v] lessI show ?thesis by (cases rule: liveD [of _ _ w']) (use 1 in auto)
  qed simp
qed

lemma live_then [live_intro]: "live n m \<Longrightarrow> live n k \<Longrightarrow> live n (thenP m k)"
  using live_bind [of n m "\<lambda>_. k"] by (simp only: thenP_def)

lemma live_when [live_intro]: "live n m \<Longrightarrow> live n (whenP b m)"
  by (simp add: whenP_def live_ret del: ret_apply)

lemma live_if [live_intro]: "(b \<Longrightarrow> live n m) \<Longrightarrow> (\<not> b \<Longrightarrow> live n k) \<Longrightarrow> live n (if b then m else k)"
  by simp

lemma live_for [live_intro]: "(\<And>x. live n (f x)) \<Longrightarrow> live n (forP xs f)"
  by (induction xs) (simp_all only: forP.simps live_ret live_then)

lemma calls_ret [live_intro]: "calls (ucall_ret c)"
  unfolding ucall_ret_def by (intro calls_bind calls_ucall live_ret)

lemma calls_uread [live_intro]: "calls (uread fd n buf)"
  unfolding uread_def by (intro calls_bind calls_ucall live_ret)

lemma live_modify [live_intro]: "live n (modify (\<lambda>w. w\<lparr>w_buf := b\<rparr>))"
  by (simp add: live_def)

lemma calls_read_buf [live_intro]: "calls (read_buf fd)"
proof (rule callsI)
  fix w :: uworld
  show "(\<exists>v w'. read_buf fd w = Ret v w' \<and> length (w_ans w') < length (w_ans w)) \<or> (\<exists>w'. read_buf fd w = Switch w' \<and> stopped w')"
    using calls_uread [of fd 512 "w_buf w"]
    by (cases rule: callsD [where w = w]) (auto simp: read_buf_def)
qed

lemma live_putc [live_intro]: "live n (putc fd c)"
  unfolding putc_def uwrite_def by (intro live_bind live_calls calls_ret live_ret)

lemma live_uputs [live_intro]: "live n (uputs fd s)"
  unfolding uputs_def by (intro live_for live_putc)

lemma live_printf: "fmt_text False fmt args \<noteq> None \<Longrightarrow> live n (printf fd fmt args)"
  using printf_uputs [of fmt args] live_uputs by (metis option.exhaust)

lemma fmt_texts [simp]:
  "fmt_text False (line ''cat: read error'') [] \<noteq> None" "fmt_text False (line ''wc: read error'') [] \<noteq> None"
  "fmt_text False (line ''cat: cannot open %s'') [str a] \<noteq> None" "fmt_text False (line ''ls: cannot open %s'') [str a] \<noteq> None"
  "fmt_text False (line ''ls: cannot stat %s'') [str a] \<noteq> None" "fmt_text False (line ''ls: path too long'') [] \<noteq> None"
  "fmt_text False (line ''%d %d %d %s'') [Word l, Word x, Word c, str a] \<noteq> None"
  "fmt_text False (line ''%s %d %d %d'') [str a, Word l, Word x, Word c] \<noteq> None"
  "fmt_text False (bytes ''%s%s'') [str a, str b] \<noteq> None" "fmt_text False (line ''usage: kill pid...'') [] \<noteq> None"
  "fmt_text False (line ''Usage: ln old new'') [] \<noteq> None" "fmt_text False (line ''link %s %s: failed'') [str a, str b] \<noteq> None"
  "fmt_text False (line ''Usage: mkdir files...'') [] \<noteq> None" "fmt_text False (line ''mkdir: %s failed to create'') [str a] \<noteq> None"
  "fmt_text False (line ''Usage: rm files...'') [] \<noteq> None" "fmt_text False (line ''rm: %s failed to delete'') [str a] \<noteq> None"
  "fmt_text False (line ''zombie!'') [] \<noteq> None" "fmt_text False (line ''init: starting sh'') [] \<noteq> None"
  "fmt_text False (line ''init: fork failed'') [] \<noteq> None" "fmt_text False (line ''init: exec sh failed'') [] \<noteq> None"
  by (simp_all add: line_def bytes_def ch_def str_def)

text \<open>A loop with a round for every answer to come.\<close>

lemma live_rounds: "(\<And>fuel. live fuel (m fuel)) \<Longrightarrow> live n (bindP rounds m)"
  unfolding live_def rounds_def by (simp add: less_Suc_eq_le)

lemma live_call [live_intro]: "live n (ucall c)" "live n (ucall_ret c)"
  by (rule live_calls, rule calls_ucall, rule live_calls, rule calls_ret)

lemma live_ustat [live_intro]: "live n (ustat s st)"
  unfolding ustat_def by (intro live_bind live_if live_ret live_call)

lemma live_cat_loop [live_intro]: "live fuel (cat_loop fuel fd)"
proof (induction fuel)
  case (Suc fuel)
  then show ?case unfolding cat_loop.simps uwrite_def
    by (intro live_bind_calls calls_read_buf live_if live_bind live_reads live_call live_ret)
qed (rule live_0)

lemma live_cat [live_intro]: "live n (cat fd)"
  unfolding cat_def by (intro live_rounds live_bind live_cat_loop live_when live_then live_printf fmt_texts live_uexit)

lemma live_wc_loop [live_intro]: "live fuel (wc_loop fuel fd s)"
proof (induction fuel arbitrary: s)
  case (Suc fuel)
  then show ?case unfolding wc_loop.simps
    by (intro live_bind_calls calls_read_buf live_if live_bind live_reads live_ret)
qed (rule live_0)

lemma live_split: "(\<And>a b. live n (f a b)) \<Longrightarrow> live n (case p of (a, b) \<Rightarrow> f a b)"
  by (simp split: prod.split)

lemma live_wc [live_intro]: "live n (wc fd name)"
  unfolding wc_def by (intro live_rounds live_bind live_wc_loop live_split live_if live_then live_printf fmt_texts live_uexit)

lemma live_ls_loop [live_intro]: "live fuel (ls_loop fuel fd pth de st)"
proof (induction fuel arbitrary: de st)
  case (Suc fuel)
  note IH = Suc
  show ?case unfolding ls_loop.simps Let_def ls_line_def
    by (intro live_bind_calls calls_uread live_split live_if IH live_bind live_ustat live_then live_printf fmt_texts live_ret)
qed (rule live_0)

lemma live_ls [live_intro]: "live n (ls junk pth)"
  unfolding ls_def Let_def ls_line_def
  by (intro live_bind live_call live_if live_then live_printf fmt_texts live_ret live_rounds live_ls_loop)

lemma live_echo_loop [live_intro]: "live n (echo_loop as)"
proof (induction as rule: echo_loop.induct)
  case (2 a as)
  then show ?case unfolding echo_loop.simps by (intro live_then live_printf fmt_texts)
qed (simp only: echo_loop.simps live_ret)

lemma live_mkdir_loop [live_intro]: "live n (mkdir_loop as)"
proof (induction as rule: mkdir_loop.induct)
  case (2 a as)
  then show ?case unfolding mkdir_loop.simps by (intro live_bind live_call live_if live_printf fmt_texts)
qed (simp only: mkdir_loop.simps live_ret)

lemma live_rm_loop [live_intro]: "live n (rm_loop as)"
proof (induction as rule: rm_loop.induct)
  case (2 a as)
  then show ?case unfolding rm_loop.simps by (intro live_bind live_call live_if live_printf fmt_texts)
qed (simp only: rm_loop.simps live_ret)

lemma live_init_wait [live_intro]: "live fuel (init_wait fuel pid)"
proof (induction fuel)
  case (Suc fuel)
  then show ?case unfolding init_wait.simps
    by (intro live_bind_calls calls_ret live_when live_then live_printf fmt_texts)
qed (rule live_0)

lemma live_init_loop [live_intro]: "live fuel (init_loop fuel)"
proof (induction fuel)
  case (Suc fuel)
  then show ?case unfolding init_loop.simps
    by (intro live_then live_printf fmt_texts live_bind_calls calls_ret live_if live_bind live_call live_uexit live_rounds live_init_wait)
qed (rule live_0)

text \<open>A program that ends with \<^verbatim>\<open>exit\<close>.\<close>

definition ends :: "unit U \<Rightarrow> bool" where
  "ends m \<longleftrightarrow> (\<forall>w. \<exists>w'. m w = Switch w' \<and> stopped w')"

lemma ends_uexit: "ends uexit"
  by (simp add: ends_def uexit_def stopped_def)

lemma ends_bind:
  assumes "\<And>n. live n m" "\<And>v. ends (f v)" shows "ends (bindP m f)"
  unfolding ends_def
proof
  fix w :: uworld
  from assms(1) [of "Suc (length (w_ans w))"] lessI show "\<exists>w'. bindP m f w = Switch w' \<and> stopped w'"
  proof (cases rule: liveD [of _ _ w])
    case (1 v w')
    then show ?thesis using assms(2) [of v] by (simp add: ends_def)
  qed simp
qed

lemma ends_then: "(\<And>n. live n m) \<Longrightarrow> ends k \<Longrightarrow> ends (thenP m k)"
  using ends_bind [of m "\<lambda>_. k"] by (simp only: thenP_def)

lemma ends_if: "(b \<Longrightarrow> ends m) \<Longrightarrow> (\<not> b \<Longrightarrow> ends k) \<Longrightarrow> ends (if b then m else k)"
  by simp

lemma cat_ends: "ends (cat_main argv)"
  unfolding cat_main_def
  by (intro ends_if ends_then ends_uexit live_cat live_for live_bind live_call live_if live_then live_printf fmt_texts live_uexit live_ret)

lemma wc_ends: "ends (wc_main argv)"
  unfolding wc_main_def
  by (intro ends_if ends_then ends_uexit live_wc live_for live_bind live_call live_if live_then live_printf fmt_texts live_uexit live_ret)

lemma ls_ends: "ends (ls_main junk argv)"
  unfolding ls_main_def by (intro ends_if ends_then ends_uexit live_ls live_for)

lemma echo_ends: "ends (echo_main argv)"
  unfolding echo_main_def by (intro ends_then ends_uexit live_echo_loop)

lemma kill_ends: "ends (kill_main argv)"
  unfolding kill_main_def by (intro ends_if ends_then ends_uexit live_printf fmt_texts live_for live_bind live_call live_ret)

lemma live_arg: "i < length argv \<Longrightarrow> live n (arg argv i)"
  by (simp add: live_def arg_def)

lemma ln_ends: "ends (ln_main argv)"
  unfolding ln_main_def
  by (intro ends_if ends_then ends_bind ends_uexit live_printf fmt_texts live_call live_when live_arg; simp)

lemma mkdir_ends: "ends (mkdir_main argv)"
  unfolding mkdir_main_def by (intro ends_if ends_then ends_uexit live_printf fmt_texts live_mkdir_loop)

lemma rm_ends: "ends (rm_main argv)"
  unfolding rm_main_def by (intro ends_if ends_then ends_uexit live_printf fmt_texts live_rm_loop)

lemma zombie_ends: "ends zombie_main"
  unfolding zombie_main_def by (intro ends_bind ends_then ends_uexit live_call live_when live_bind live_ret)

section \<open>Copying and counting\<close>

text \<open>The answer to a \<^verbatim>\<open>read\<close> that stored \<open>xs\<close>; a file read to its end in the pieces \<open>cs\<close>.\<close>

definition chunk :: "u8 list \<Rightarrow> answer" where
  "chunk xs = (number (int (length xs)))\<lparr>a_data := xs\<rparr>"

definition file_answers :: "u8 list list \<Rightarrow> answer list" where
  "file_answers cs = map chunk cs @ [chunk []]"

lemma read_buf_chunk:
  "w_ans w = chunk xs # as \<Longrightarrow> read_buf fd w = Ret (int (length xs))
     (w\<lparr>w_ans := as, w_calls := w_calls w @ [CRead fd 512], w_buf := xs @ drop (length xs) (w_buf w)\<rparr>)"
  by (simp add: read_buf_def uread_def ucall_def chunk_def number_def)

text \<open>The words of a text: its longest parts without white space.\<close>

function wordlist :: "u8 list \<Rightarrow> u8 list list" where
  "wordlist xs = (case dropWhile space xs of [] \<Rightarrow> []
     | y # ys \<Rightarrow> (y # takeWhile (\<lambda>c. \<not> space c) ys) # wordlist (dropWhile (\<lambda>c. \<not> space c) ys))"
  by pat_completeness auto

termination
proof (relation "measure length")
  fix xs ys :: "u8 list" and y
  assume "dropWhile space xs = y # ys"
  moreover have "length (dropWhile space xs) \<le> length xs" "length (dropWhile (\<lambda>c. \<not> space c) ys) \<le> length ys"
    by (simp_all add: length_dropWhile_le)
  ultimately show "(dropWhile (\<lambda>c. \<not> space c) ys, xs) \<in> measure length" by simp
qed simp

declare wordlist.simps [simp del]

lemma wordlist_simps:
  "wordlist [] = []"
  "wordlist (c # xs) = (if space c then wordlist xs
     else (c # takeWhile (\<lambda>c. \<not> space c) xs) # wordlist (dropWhile (\<lambda>c. \<not> space c) xs))"
  by (subst wordlist.simps, simp) (subst wordlist.simps, simp add: wordlist.simps [of xs])

lemma wc_chars:
  "fold wc_char xs (l, x, c, inw) = (l + of_nat (count_list xs 10),
     x + of_nat (length (wordlist (if inw then dropWhile (\<lambda>c. \<not> space c) xs else xs))),
     c + of_nat (length xs), if xs = [] then inw else \<not> space (last xs))"
proof (induction xs arbitrary: l x c inw)
  case (Cons a xs)
  have "wc_char a (l, x, c, inw) = (if a = 10 then l + 1 else l, if space a \<or> inw then x else x + 1, c + 1, \<not> space a)"
    by (simp add: wc_char_def Let_def)
  then show ?case by (simp add: Cons.IH wordlist_simps)
qed (simp add: wordlist_simps)

lemma wc_loop_counts:
  assumes "w_ans w = file_answers cs @ as" "\<forall>xs \<in> set cs. xs \<noteq> []" "length cs < fuel"
  shows "\<exists>w'. wc_loop fuel fd s w = Ret (0, fold wc_char (concat cs) s) w' \<and> w_ans w' = as \<and> written f (w_calls w') = written f (w_calls w)"
  using assms
proof (induction cs arbitrary: w fuel s)
  case Nil
  then obtain m where "fuel = Suc m" by (cases fuel) auto
  then show ?case using read_buf_chunk [of w "[]" as fd] Nil by (simp add: file_answers_def)
next
  case (Cons xs cs)
  then obtain m where m: "fuel = Suc m" "length cs < m" by (cases fuel) auto
  let ?w = "w\<lparr>w_ans := file_answers cs @ as, w_calls := w_calls w @ [CRead fd 512], w_buf := xs @ drop (length xs) (w_buf w)\<rparr>"
  have r: "read_buf fd w = Ret (int (length xs)) ?w"
    using read_buf_chunk [of w xs "file_answers cs @ as" fd] Cons.prems(1) by (simp add: file_answers_def)
  obtain w' where "wc_loop m fd (fold wc_char xs s) ?w = Ret (0, fold wc_char (concat cs) (fold wc_char xs s)) w'" "w_ans w' = as"
     "written f (w_calls w') = written f (w_calls ?w)"
    using Cons.IH [of ?w m "fold wc_char xs s"] Cons.prems(2) m(2) by auto
  then show ?case using r m(1) Cons.prems(2) by simp
qed

definition decimal :: "nat \<Rightarrow> u8 list" where
  "decimal n = rev (digits udigit 10 n)"

lemma int_text_decimal: "n < 2147483648 \<Longrightarrow> int_text udigit (of_nat n) 10 True = decimal n"
proof -
  assume n: "n < 2147483648"
  then have u: "unat (of_nat n :: u32) = n" by (simp add: unat_of_nat take_bit_eq_mod)
  then have "sint (of_nat n :: u32) = int n" using sint_small [of "of_nat n"] n by simp
  then show ?thesis using u by (simp add: int_text_def decimal_def)
qed

lemma length_wordlist: "length (wordlist xs) \<le> length xs"
proof (induction xs rule: length_induct)
  case (1 xs)
  show ?case
  proof (cases xs)
    case (Cons c ys)
    have "length (wordlist ys) \<le> length ys" "length (dropWhile (\<lambda>c. \<not> space c) ys) \<le> length ys"
      "length (wordlist (dropWhile (\<lambda>c. \<not> space c) ys)) \<le> length (dropWhile (\<lambda>c. \<not> space c) ys)"
      using 1 Cons length_dropWhile_le [of "\<lambda>c. \<not> space c" ys] by simp_all
    then show ?thesis using Cons by (simp add: wordlist_simps)
  qed (simp add: wordlist_simps)
qed

text \<open>C32. \<^verbatim>\<open>wc\<close> prints the numbers of lines, words and characters of the file, in whatever pieces the kernel hands it out,
  and then the name.\<close>

theorem wc_counts:
  assumes "w_ans w = file_answers cs @ as" "\<forall>xs \<in> set cs. xs \<noteq> []" "length (concat cs) < 2147483648"
    "t = decimal (count_list (concat cs) 10) @ 32 # decimal (length (wordlist (concat cs))) @ 32 # decimal (length (concat cs)) @ 32 # name @ [10]"
    "length t \<le> length as"
  shows "\<exists>w'. wc fd name w = Ret () w' \<and> written 1 (w_calls w') = written 1 (w_calls w) @ t"
proof -
  let ?file = "concat cs"
  obtain w1 where l: "wc_loop (Suc (length (w_ans w))) fd (0, 0, 0, False) w = Ret (0, fold wc_char ?file (0, 0, 0, False)) w1"
    "w_ans w1 = as" "written 1 (w_calls w1) = written 1 (w_calls w)"
    using wc_loop_counts [OF assms(1,2), of "Suc (length (w_ans w))" fd "(0, 0, 0, False)" 1] assms(1) by (auto simp: file_answers_def)
  have "count_list ?file 10 \<le> length ?file" by (rule count_le_length)
  then have "fmt_text False (line ''%d %d %d %s'') [Word (of_nat (count_list ?file 10)), Word (of_nat (length (wordlist ?file))),
      Word (of_nat (length ?file)), str name] = Some t"
    using length_wordlist [of ?file] assms(3,4) by (simp add: line_def bytes_def ch_def str_def int_text_decimal)
  from saysD [OF says_printf [OF this], of w1 1] assms(5) l show ?thesis
    by (simp add: wc_def rounds_def wc_chars)
qed

theorem wc_counts_witness:
  "\<exists>w'. wc 3 [102] (demo_world (file_answers [[97, 32], [98, 99, 10]] @ replicate 10 (number 1))) = Ret () w' \<and>
     written 1 (w_calls w') = [49, 32, 50, 32, 53, 32, 102, 10]"
proof -
  have "decimal 1 = [49]" "decimal 2 = [50]" "decimal (Suc (Suc (Suc (Suc (Suc 0))))) = [53]" by (simp_all add: decimal_def digits.simps udigit_def)
  moreover have "length (wordlist [97, 32, 98, 99, 10]) = 2" by (simp add: wordlist_simps space_def)
  ultimately show ?thesis
    using wc_counts [of "demo_world (file_answers [[97, 32], [98, 99, 10]] @ replicate 10 (number 1))" "[[97, 32], [98, 99, 10]]"
      "replicate 10 (number 1)" _ "[102]" 3] by (simp add: demo_world_def)
qed

text \<open>\<^verbatim>\<open>cat\<close> copies the file; \<open>opened\<close> are the files opened by a sequence of calls.\<close>

definition opened :: "call list \<Rightarrow> u8 list list" where
  "opened cs = concat (map (\<lambda>c. case c of COpen n m \<Rightarrow> [n] | _ \<Rightarrow> []) cs)"

lemma opened_simps [simp]: "opened [] = []" "opened (xs @ ys) = opened xs @ opened ys" "opened (COpen n m # cs) = n # opened cs"
  "opened (CClose fd # cs) = opened cs" "opened (CRead fd k # cs) = opened cs" "opened (CWrite fd bs # cs) = opened cs" "opened (CExit # cs) = opened cs"
  by (simp_all add: opened_def)

lemma cat_loop_copies:
  assumes "w_ans w = concat (map (\<lambda>xs. [chunk xs, number (int (length xs))]) cs) @ chunk [] # as" "\<forall>xs \<in> set cs. xs \<noteq> []" "length cs < fuel"
  shows "\<exists>w'. cat_loop fuel fd w = Ret 0 w' \<and> w_ans w' = as \<and> written 1 (w_calls w') = written 1 (w_calls w) @ concat cs \<and>
     opened (w_calls w') = opened (w_calls w)"
  using assms
proof (induction cs arbitrary: w fuel)
  case Nil
  then obtain m where "fuel = Suc m" by (cases fuel) auto
  then show ?case using read_buf_chunk [of w "[]" as fd] Nil by simp
next
  case (Cons xs cs)
  then obtain m where m: "fuel = Suc m" "length cs < m" by (cases fuel) auto
  let ?as = "concat (map (\<lambda>xs. [chunk xs, number (int (length xs))]) cs) @ chunk [] # as"
  let ?w = "w\<lparr>w_buf := xs @ drop (length xs) (w_buf w), w_ans := ?as, w_calls := w_calls w @ [CRead fd 512, CWrite 1 xs]\<rparr>"
  have r: "read_buf fd w = Ret (int (length xs))
      (w\<lparr>w_ans := number (int (length xs)) # ?as, w_calls := w_calls w @ [CRead fd 512], w_buf := xs @ drop (length xs) (w_buf w)\<rparr>)"
    using read_buf_chunk [of w xs "number (int (length xs)) # ?as" fd] Cons.prems(1) by simp
  obtain w' where "cat_loop m fd ?w = Ret 0 w'" "w_ans w' = as" "written 1 (w_calls w') = written 1 (w_calls ?w) @ concat cs"
      "opened (w_calls w') = opened (w_calls ?w)"
    using Cons.IH [of ?w m] Cons.prems(2) m(2) by auto
  then show ?case using r m(1) Cons.prems(2) by (simp add: uwrite_def ucall_ret_def ucall_def)
qed

lemma cat_copies:
  assumes "w_ans w = concat (map (\<lambda>xs. [chunk xs, number (int (length xs))]) cs) @ chunk [] # as" "\<forall>xs \<in> set cs. xs \<noteq> []"
  shows "\<exists>w'. cat fd w = Ret () w' \<and> w_ans w' = as \<and> written 1 (w_calls w') = written 1 (w_calls w) @ concat cs \<and>
     opened (w_calls w') = opened (w_calls w)"
proof -
  have "length cs \<le> length (concat (map (\<lambda>xs. [chunk xs, number (int (length xs))]) cs))" by (induction cs) simp_all
  then have "length cs < Suc (length (w_ans w))" using assms(1) by simp
  from cat_loop_copies [OF assms this, of fd] show ?thesis by (auto simp: cat_def rounds_def)
qed

text \<open>The answers the kernel gives for one file: the descriptor \<open>fd\<close> of \<^verbatim>\<open>open\<close>, the pieces \<open>cs\<close> and the results of writing
  them, the end of the file, and the result of \<^verbatim>\<open>close\<close>.\<close>

definition cat_answers :: "int \<times> u8 list list \<Rightarrow> answer list" where
  "cat_answers = (\<lambda>(fd, cs). number fd # concat (map (\<lambda>xs. [chunk xs, number (int (length xs))]) cs) @ [chunk [], number 0])"

lemma cat_files:
  assumes "w_ans w = concat (map cat_answers fs) @ as" "length names = length fs" "\<forall>(fd, cs) \<in> set fs. 0 \<le> fd \<and> (\<forall>xs \<in> set cs. xs \<noteq> [])"
  shows "\<exists>w'. forP names (\<lambda>a. bindP (ucall_ret (COpen a 0)) (\<lambda>fd.
       if fd < 0 then thenP (printf 1 (line ''cat: cannot open %s'') [str a]) uexit
       else thenP (cat fd) (bindP (ucall_ret (CClose fd)) (\<lambda>_. ret ())))) w = Ret () w' \<and> w_ans w' = as \<and>
     written 1 (w_calls w') = written 1 (w_calls w) @ concat (map (concat \<circ> snd) fs) \<and> opened (w_calls w') = opened (w_calls w) @ names"
  using assms
proof (induction fs arbitrary: names w)
  case (Cons f fs)
  obtain fd cs where f: "f = (fd, cs)" by (cases f) auto
  obtain a as' where names: "names = a # as'" "length as' = length fs" using Cons.prems(2) by (cases names) auto
  have fd: "0 \<le> fd" "\<forall>xs \<in> set cs. xs \<noteq> []" using Cons.prems(3) f by auto
  let ?rest = "number 0 # concat (map cat_answers fs) @ as"
  let ?w1 = "w\<lparr>w_ans := concat (map (\<lambda>xs. [chunk xs, number (int (length xs))]) cs) @ chunk [] # ?rest, w_calls := w_calls w @ [COpen a 0]\<rparr>"
  have o: "ucall_ret (COpen a 0) w = Ret fd ?w1"
    using Cons.prems(1) by (simp add: f cat_answers_def ucall_ret_def ucall_def number_def)
  obtain w2 where w2: "cat fd ?w1 = Ret () w2" "w_ans w2 = ?rest" "written 1 (w_calls w2) = written 1 (w_calls w) @ concat cs"
      "opened (w_calls w2) = opened (w_calls w) @ [a]"
    using cat_copies [of ?w1 cs ?rest fd] fd(2) by auto
  let ?w3 = "w2\<lparr>w_ans := concat (map cat_answers fs) @ as, w_calls := w_calls w2 @ [CClose fd]\<rparr>"
  have c: "ucall_ret (CClose fd) w2 = Ret 0 ?w3" using w2(2) by (simp add: ucall_ret_def ucall_def number_def)
  have "\<forall>(fd, cs) \<in> set fs. 0 \<le> fd \<and> (\<forall>xs \<in> set cs. xs \<noteq> [])" using Cons.prems(3) by auto
  from Cons.IH [of ?w3 as', OF _ names(2) this] show ?case
    using o fd(1) w2 c by (simp add: names(1) f)
qed simp



text \<open>\<^verbatim>\<open>echo\<close> prints its arguments on one line.\<close>

fun spaced :: "u8 list list \<Rightarrow> u8 list" where
  "spaced [] = []"
| "spaced (a # as) = a @ (if as \<noteq> [] then [32] else [10]) @ spaced as"

lemma echo_says: "says 1 (spaced as) (echo_loop as)"
proof (induction as rule: echo_loop.induct)
  case (2 a as)
  have "fmt_text False (bytes ''%s%s'') [str a, str b] = Some (a @ b)" for b by (simp add: bytes_def ch_def str_def)
  then have "says 1 (a @ (if as \<noteq> [] then [32] else [10])) (printf 1 (bytes ''%s%s'') [str a, str (if as \<noteq> [] then [32] else [10])])"
    by (intro says_printf) simp
  from says_then [OF this 2] show ?case by (simp only: echo_loop.simps spaced.simps append_assoc)
qed (simp only: echo_loop.simps spaced.simps says_ret)

text \<open>The name column of \<^verbatim>\<open>ls\<close>: no slash, at least \<^verbatim>\<open>DIRSIZ\<close> wide, the last component of the path and blanks.\<close>

lemma fmtname_column:
  "DIRSIZ \<le> length (fmtname pth)" "ch CHR ''/'' \<notin> set (fmtname pth)"
  "ch CHR ''/'' \<notin> set name \<Longrightarrow> fmtname (dir @ ch CHR ''/'' # name) = name @ replicate (DIRSIZ - length name) 32"
proof -
  show "DIRSIZ \<le> length (fmtname pth)" by (simp add: fmtname_def Let_def)
  show "ch CHR ''/'' \<notin> set (fmtname pth)" by (auto simp: fmtname_def Let_def ch_def dest: set_takeWhileD)
  show "fmtname (dir @ ch CHR ''/'' # name) = name @ replicate (DIRSIZ - length name) 32" if "ch CHR ''/'' \<notin> set name"
  proof -
    have "takeWhile (\<lambda>c. c \<noteq> ch CHR ''/'') (rev name @ ch CHR ''/'' # rev dir) = rev name"
      using that by (simp add: takeWhile_append)
    then show ?thesis by (simp add: fmtname_def)
  qed
qed

text \<open>\<open>atoi_str\<close> is \<^verbatim>\<open>atoi\<close> on a string in memory.\<close>

lemma atoi_str_atoi: "string_at m s t \<Longrightarrow> atoi s m = Some (atoi_str t)"
proof -
  have "string_at m s t \<Longrightarrow> atoi_from m s n = Some (foldl (\<lambda>n c. int32 (n * 10 + uint c - 48)) n (takeWhile (\<lambda>c. 48 \<le> c \<and> c \<le> 57) t))" for n
  proof (induction t arbitrary: s n)
    case (Cons c t)
    then show ?case by (subst atoi_from.simps) simp
  qed (subst atoi_from.simps, simp)
  then show "string_at m s t \<Longrightarrow> atoi s m = Some (atoi_str t)" by (simp add: atoi_def atoi_str_def)
qed

lemma init_live: "live n init_main"
  unfolding init_main_def by (intro live_bind live_call live_then live_when live_ret live_rounds live_init_loop)

end
