(* ===== verification/Pidqueue.thy ===== *)
theory Pidqueue
  imports Prelude
begin

text \<open>
  The queue of process ids the user-level synchronisation library is built on
  (\<^verbatim>\<open>user/pidqueue.c\<close>), a singly linked list with head and tail pointers. The state
  \<open>pidQueue\<close> holds the two pointers, the word of the spin lock \<^verbatim>\<open>q->clock\<close> and the
  heap of list nodes. \<^verbatim>\<open>malloc\<close> is an argument of \<open>queue_init\<close> and \<open>queue_add\<close>: the address it
  returned, with \<open>0\<close> for a failed allocation. The field \<^verbatim>\<open>pidMutex\<close> of a node is never used
  and left out.

  The contract of the queue is the locale \<open>fifo\<close>; the clients of the queue rest on it.
\<close>

record pidStruct =
  ps_pid :: u32
  ps_next :: addr

record pidQueue =
  q_head :: addr
  q_tail :: addr
  q_clock :: u32
  q_heap :: "addr \<Rightarrow> pidStruct option"

section \<open>Spin locks of user programs\<close>

text \<open>
  \<^verbatim>\<open>user/spinlock.c\<close>: a lock is one word. \<open>spin_lock\<close> is one iteration of the
  \<^verbatim>\<open>xchg\<close> loop; while the loop goes on its outcome is \<open>Spin\<close>.
\<close>

definition xchg :: "u32 \<Rightarrow> (u32, u32) prog" where
  "xchg newval = (\<lambda>l. Ret l newval)"

definition spin_init :: "(u32, unit) prog" where
  "spin_init = modify (\<lambda>_. 0)"

definition spin_lock :: "(u32, unit) prog" where
  "spin_lock = bindP (xchg 1) (\<lambda>old. if old \<noteq> 0 then spin else ret ())"

definition spin_unlock :: "(u32, unit) prog" where
  "spin_unlock = bindP (xchg 0) (\<lambda>_. ret ())"

section \<open>Operations\<close>

definition queue_init :: "addr \<Rightarrow> (pidQueue, unit) prog" where
  "queue_init clk = thenP (modify (\<lambda>q. q\<lparr>q_head := 0\<rparr>))
    (thenP (modify (\<lambda>q. q\<lparr>q_tail := 0\<rparr>))
    (if clk = 0 then fault ''spin_init of a null lock'' else
     zoom q_clock (\<lambda>l q. q\<lparr>q_clock := l\<rparr>) spin_init))"

definition q_deref :: "addr \<Rightarrow> (pidQueue, pidStruct) prog" where
  "q_deref a = (\<lambda>q. if a = 0 then Fault ''null node'' else
     case q_heap q a of Some n \<Rightarrow> Ret n q | None \<Rightarrow> Fault ''dangling node'')"

definition q_store :: "addr \<Rightarrow> (pidStruct \<Rightarrow> pidStruct) \<Rightarrow> (pidQueue, unit) prog" where
  "q_store a f = bindP (q_deref a) (\<lambda>n. modify (\<lambda>q. q\<lparr>q_heap := (q_heap q)(a \<mapsto> f n)\<rparr>))"

definition queue_remove :: "(pidQueue, u32) prog" where
  "queue_remove = bindP (reads q_head) (\<lambda>rem.
     if rem = 0 then ret (- 1) else
     bindP (reads q_tail) (\<lambda>tl.
     thenP
       (if rem = tl
        then modify (\<lambda>q. q\<lparr>q_head := 0, q_tail := 0\<rparr>)
        else bindP (q_deref rem) (\<lambda>n. modify (\<lambda>q. q\<lparr>q_head := ps_next n\<rparr>)))
    (bindP (q_deref rem) (\<lambda>n.
     thenP (modify (\<lambda>q. q\<lparr>q_heap := (q_heap q)(rem := None)\<rparr>))
     (ret (ps_pid n))))))"

definition queue_add :: "addr \<Rightarrow> u32 \<Rightarrow> (pidQueue, unit) prog" where
  "queue_add new pid =
     (if new = 0 then fault ''null node'' else
     thenP (modify (\<lambda>q. q\<lparr>q_heap := (q_heap q)(new \<mapsto> \<lparr>ps_pid = pid, ps_next = 0\<rparr>)\<rparr>))
    (bindP (reads (\<lambda>q. q_head q = 0 \<and> q_tail q = 0)) (\<lambda>isEmpty.
     if isEmpty
     then thenP (modify (\<lambda>q. q\<lparr>q_head := new, q_tail := new\<rparr>))
                (q_store new (\<lambda>n. n\<lparr>ps_next := 0\<rparr>))
     else bindP (reads q_tail) (\<lambda>tl.
          thenP (q_store tl (\<lambda>n. n\<lparr>ps_next := new\<rparr>))
         (thenP (modify (\<lambda>q. q\<lparr>q_tail := new\<rparr>))
                (q_store new (\<lambda>n. n\<lparr>ps_next := 0\<rparr>)))))))"

definition queue_empty :: "pidQueue \<Rightarrow> bool" where
  "queue_empty q \<longleftrightarrow> q_head q = 0 \<and> q_tail q = 0"

section \<open>The contract\<close>

locale fifo =
  fixes R :: "'q \<Rightarrow> 'x list \<Rightarrow> bool"
    and fresh :: "'q \<Rightarrow> 'a \<Rightarrow> bool"
    and add :: "'a \<Rightarrow> 'x \<Rightarrow> ('q, unit) prog"
    and remove :: "('q, 'x) prog"
    and is_empty :: "'q \<Rightarrow> bool"
    and nothing :: 'x
  assumes R_unique: "R q xs \<Longrightarrow> R q ys \<Longrightarrow> xs = ys"
    and add_law: "R q xs \<Longrightarrow> fresh q a \<Longrightarrow> \<exists>q'. add a x q = Ret () q' \<and> R q' (xs @ [x])"
    and remove_law: "R q (x # xs) \<Longrightarrow> \<exists>q'. remove q = Ret x q' \<and> R q' xs"
    and remove_empty_law: "R q [] \<Longrightarrow> remove q = Ret nothing q"
    and is_empty_law: "R q xs \<Longrightarrow> is_empty q \<longleftrightarrow> xs = []"
begin

lemma add_ret:
  assumes "R q xs" and "fresh q a"
  obtains q' where "add a x q = Ret () q'" and "R q' (xs @ [x])"
  using add_law [OF assms] by blast

lemma remove_ret:
  assumes "R q (x # xs)"
  obtains q' where "remove q = Ret x q'" and "R q' xs"
  using remove_law [OF assms] by blast

text \<open>Emptying the queue returns what was added, in the order it was added.\<close>

lemma remove_all:
  assumes "R q xs"
  shows "\<exists>qs. length qs = Suc (length xs) \<and> qs ! 0 = q \<and> R (last qs) [] \<and>
     (\<forall>i < length xs. remove (qs ! i) = Ret (xs ! i) (qs ! Suc i))"
  using assms
proof (induction xs arbitrary: q)
  case Nil
  then show ?case by (intro exI [of _ "[q]"]) simp
next
  case (Cons x xs)
  obtain q' where q': "remove q = Ret x q'" "R q' xs" using Cons.prems by (rule remove_ret)
  from Cons.IH [OF q'(2)] obtain qs where qs: "length qs = Suc (length xs)" "qs ! 0 = q'"
    "R (last qs) []" "\<forall>i < length xs. remove (qs ! i) = Ret (xs ! i) (qs ! Suc i)" by blast
  have "remove ((q # qs) ! i) = Ret ((x # xs) ! i) ((q # qs) ! Suc i)" if "i < length (x # xs)" for i
    using that q' qs by (cases i) auto
  moreover have "last (q # qs) = last qs" using qs(1) by auto
  ultimately show ?case using qs by (intro exI [of _ "q # qs"]) simp
qed

end

section \<open>The linked list implements it\<close>

fun linked :: "(addr \<Rightarrow> pidStruct option) \<Rightarrow> addr list \<Rightarrow> u32 list \<Rightarrow> bool" where
  "linked h [] [] = True"
| "linked h [a] [x] = (\<exists>n. h a = Some n \<and> ps_pid n = x)"
| "linked h (a # b # as) (x # xs) = (\<exists>n. h a = Some n \<and> ps_pid n = x \<and> ps_next n = b \<and> linked h (b # as) xs)"
| "linked h _ _ = False"

definition pq_rep :: "pidQueue \<Rightarrow> u32 list \<Rightarrow> bool" where
  "pq_rep q xs \<longleftrightarrow> (\<exists>as. distinct as \<and> 0 \<notin> set as \<and> linked (q_heap q) as xs \<and>
     (if as = [] then q_head q = 0 \<and> q_tail q = 0 else q_head q = hd as \<and> q_tail q = last as))"

definition pq_fresh :: "pidQueue \<Rightarrow> addr \<Rightarrow> bool" where
  "pq_fresh q a \<longleftrightarrow> a \<noteq> 0 \<and> q_heap q a = None"

lemma linked_length: "linked h as xs \<Longrightarrow> length as = length xs"
  by (induction h as xs rule: linked.induct) auto

lemma linked_alloc: "linked h as xs \<Longrightarrow> a \<in> set as \<Longrightarrow> h a \<noteq> None"
  by (induction h as xs rule: linked.induct) auto

lemma linked_upd_other: "a \<notin> set as \<Longrightarrow> linked (h(a := v)) as xs = linked h as xs"
  by (induction h as xs rule: linked.induct) auto

lemma linked_Cons:
  "linked h (a # as) (x # xs) \<longleftrightarrow> (\<exists>n. h a = Some n \<and> ps_pid n = x \<and>
     (as \<noteq> [] \<longrightarrow> ps_next n = hd as) \<and> linked h as xs)"
proof (cases as)
  case Nil
  then show ?thesis by (cases xs) auto
next
  case (Cons b bs)
  then show ?thesis by simp
qed

lemma linked_snoc:
  "linked h as xs \<Longrightarrow> as \<noteq> [] \<Longrightarrow> distinct as \<Longrightarrow> a \<notin> set as \<Longrightarrow> h (last as) = Some l \<Longrightarrow>
     linked (h(last as \<mapsto> l\<lparr>ps_next := a\<rparr>, a \<mapsto> \<lparr>ps_pid = x, ps_next = 0\<rparr>)) (as @ [a]) (xs @ [x])"
proof (induction as arbitrary: xs)
  case Nil
  then show ?case by simp
next
  case (Cons b bs)
  then obtain y ys where xs: "xs = y # ys" by (cases xs) auto
  from Cons.prems(1) obtain n where n: "h b = Some n" "ps_pid n = y"
    "bs \<noteq> [] \<longrightarrow> ps_next n = hd bs" "linked h bs ys"
    unfolding xs linked_Cons by blast
  show ?case
  proof (cases "bs = []")
    case True
    with n have "ys = []" using linked_length by fastforce
    with True n Cons.prems xs show ?thesis by auto
  next
    case False
    define H where "H = h(last bs \<mapsto> l\<lparr>ps_next := a\<rparr>, a \<mapsto> \<lparr>ps_pid = x, ps_next = 0\<rparr>)"
    have "linked H (bs @ [a]) (ys @ [x])"
      unfolding H_def by (rule Cons.IH [OF n(4) False]) (use Cons.prems False in simp_all)
    moreover have "last bs \<noteq> b" "a \<noteq> b" using Cons.prems False by auto
    then have "H b = Some n" using n(1) by (simp add: H_def)
    ultimately have "linked H ((b # bs) @ [a]) (xs @ [x])"
      using n(2,3) False xs by (simp add: linked_Cons)
    moreover have "last (b # bs) = last bs" using False by simp
    ultimately show ?thesis by (simp only: H_def)
  qed
qed

lemma queue_add_law:
  assumes "pq_rep q xs" and "pq_fresh q a"
  shows "\<exists>q'. queue_add a x q = Ret () q' \<and> pq_rep q' (xs @ [x])"
proof -
  from assms(2) have a: "a \<noteq> 0" "q_heap q a = None" by (auto simp: pq_fresh_def)
  from assms(1) obtain as where as: "distinct as" "0 \<notin> set as" "linked (q_heap q) as xs"
    "if as = [] then q_head q = 0 \<and> q_tail q = 0 else q_head q = hd as \<and> q_tail q = last as"
    unfolding pq_rep_def by blast
  have a_as: "a \<notin> set as" using linked_alloc [OF as(3)] a(2) by blast
  show ?thesis
  proof (cases "as = []")
    case True
    with as(3) have "xs = []" by (cases xs) auto
    with True as(4) a show ?thesis
      by (auto simp: queue_add_def q_store_def q_deref_def pq_rep_def intro!: exI [of _ "[a]"])
  next
    case False
    have in_as: "last as \<in> set as" "hd as \<in> set as" using False by simp_all
    have lst: "last as \<in> set as" "last as \<noteq> 0" "last as \<noteq> a" "q_tail q = last as" "q_head q \<noteq> 0"
      using in_as as(2) a_as as(4) False by metis+
    obtain l where l: "q_heap q (last as) = Some l" using linked_alloc [OF as(3) lst(1)] by blast
    define H where "H = (q_heap q)(last as \<mapsto> l\<lparr>ps_next := a\<rparr>, a \<mapsto> \<lparr>ps_pid = x, ps_next = 0\<rparr>)"
    have H: "linked H (as @ [a]) (xs @ [x])"
      unfolding H_def by (rule linked_snoc [OF as(3) False as(1) a_as l])
    have H_eq: "(q_heap q)(a \<mapsto> \<lparr>ps_pid = x, ps_next = 0\<rparr>, last as \<mapsto> l\<lparr>ps_next := a\<rparr>,
        a \<mapsto> \<lparr>ps_pid = x, ps_next = 0\<rparr>) = H"
      unfolding H_def using lst(3) by (intro ext) simp
    have "queue_add a x q = Ret () (q\<lparr>q_tail := a, q_heap := (q_heap q)(a \<mapsto> \<lparr>ps_pid = x, ps_next = 0\<rparr>,
        last as \<mapsto> l\<lparr>ps_next := a\<rparr>, a \<mapsto> \<lparr>ps_pid = x, ps_next = 0\<rparr>)\<rparr>)"
      using a lst l by (simp add: queue_add_def q_store_def q_deref_def)
    then have run: "queue_add a x q = Ret () (q\<lparr>q_tail := a, q_heap := H\<rparr>)"
      by (simp only: H_eq)
    have "pq_rep (q\<lparr>q_tail := a, q_heap := H\<rparr>) (xs @ [x])"
      unfolding pq_rep_def using H as(1,2,4) a a_as False
      by (intro exI [of _ "as @ [a]"]) simp
    with run show ?thesis by blast
  qed
qed

lemma queue_remove_law:
  assumes "pq_rep q (x # xs)"
  shows "\<exists>q'. queue_remove q = Ret x q' \<and> pq_rep q' xs"
proof -
  from assms obtain as where as: "distinct as" "0 \<notin> set as" "linked (q_heap q) as (x # xs)"
    "if as = [] then q_head q = 0 \<and> q_tail q = 0 else q_head q = hd as \<and> q_tail q = last as"
    unfolding pq_rep_def by blast
  then obtain a bs where asc: "as = a # bs" by (cases as) auto
  from as(3) obtain n where n: "q_heap q a = Some n" "ps_pid n = x"
    "bs \<noteq> [] \<longrightarrow> ps_next n = hd bs" "linked (q_heap q) bs xs"
    unfolding asc linked_Cons by blast
  have bs: "linked ((q_heap q)(a := None)) bs xs"
    using n(4) as(1) asc by (simp add: linked_upd_other)
  show ?thesis
  proof (cases "bs = []")
    case True
    with n(4) have "xs = []" by (cases xs) auto
    with True asc as n show ?thesis
      by (auto simp: queue_remove_def q_deref_def pq_rep_def intro!: exI [of _ "[]"])
  next
    case False
    then have "last bs \<in> set bs" by simp
    then have "a \<noteq> last bs" using as(1) asc by auto
    with False asc as n bs show ?thesis
      by (auto simp: queue_remove_def q_deref_def pq_rep_def intro!: exI [of _ bs])
  qed
qed

lemma linked_det:
  assumes "linked h as xs" and "linked h bs ys" and "distinct as" and "distinct bs"
    and "as \<noteq> [] \<and> bs \<noteq> [] \<longrightarrow> hd as = hd bs \<and> last as = last bs" and "as = [] \<longleftrightarrow> bs = []"
  shows "xs = ys"
  using assms
proof (induction as arbitrary: bs xs ys)
  case Nil
  then show ?case by (cases xs; cases ys) auto
next
  case (Cons a as)
  then obtain bs' where bs: "bs = a # bs'" by (cases bs) auto
  obtain x xs' where xs: "xs = x # xs'" using Cons.prems(1) by (cases xs) auto
  obtain y ys' where ys: "ys = y # ys'" using Cons.prems(2) bs by (cases ys) auto
  from Cons.prems(1) obtain n where n: "h a = Some n" "ps_pid n = x" "as \<noteq> [] \<longrightarrow> ps_next n = hd as"
    "linked h as xs'" unfolding xs linked_Cons by blast
  from Cons.prems(2) obtain m where m: "h a = Some m" "ps_pid m = y" "bs' \<noteq> [] \<longrightarrow> ps_next m = hd bs'"
    "linked h bs' ys'" unfolding bs ys linked_Cons by blast
  have "m = n" using n(1) m(1) by simp
  have emp: "as = [] \<longleftrightarrow> bs' = []"
  proof
    assume "as = []"
    then have "last (a # bs') = a" using Cons.prems(5) bs by simp
    moreover have "a \<notin> set bs'" using Cons.prems(4) bs by simp
    ultimately show "bs' = []" by (metis last_ConsR last_in_set)
  next
    assume "bs' = []"
    then have "last (a # as) = a" using Cons.prems(5) bs by simp
    moreover have "a \<notin> set as" using Cons.prems(3) by simp
    ultimately show "as = []" by (metis last_ConsR last_in_set)
  qed
  have "xs' = ys'"
  proof (rule Cons.IH [OF n(4) m(4) _ _ _ emp])
    show "distinct as" "distinct bs'" using Cons.prems(3,4) bs by simp_all
    show "as \<noteq> [] \<and> bs' \<noteq> [] \<longrightarrow> hd as = hd bs' \<and> last as = last bs'"
      using n(3) m(3) \<open>m = n\<close> Cons.prems(5) bs by (simp split: if_splits)
  qed
  with n m \<open>m = n\<close> xs ys show ?case by simp
qed

lemma pq_rep_unique: "pq_rep q xs \<Longrightarrow> pq_rep q ys \<Longrightarrow> xs = ys"
proof -
  assume "pq_rep q xs" and "pq_rep q ys"
  then obtain as bs where A: "distinct as" "0 \<notin> set as" "linked (q_heap q) as xs"
    "if as = [] then q_head q = 0 \<and> q_tail q = 0 else q_head q = hd as \<and> q_tail q = last as"
    and B: "distinct bs" "0 \<notin> set bs" "linked (q_heap q) bs ys"
    "if bs = [] then q_head q = 0 \<and> q_tail q = 0 else q_head q = hd bs \<and> q_tail q = last bs"
    unfolding pq_rep_def by blast
  show "xs = ys"
  proof (rule linked_det [OF A(3) B(3) A(1) B(1)])
    show "as = [] \<longleftrightarrow> bs = []"
      using A(2,4) B(2,4) by (metis list.set_sel(1))
    show "as \<noteq> [] \<and> bs \<noteq> [] \<longrightarrow> hd as = hd bs \<and> last as = last bs"
      using A(4) B(4) by auto
  qed
qed

interpretation pidq: fifo pq_rep pq_fresh queue_add queue_remove queue_empty "- 1"
proof unfold_locales
  show "pq_rep q xs \<Longrightarrow> pq_rep q ys \<Longrightarrow> xs = ys" for q xs ys
    by (rule pq_rep_unique)
  show "pq_rep q xs \<Longrightarrow> pq_fresh q a \<Longrightarrow> \<exists>q'. queue_add a x q = Ret () q' \<and> pq_rep q' (xs @ [x])" for q xs a x
    by (rule queue_add_law)
  show "pq_rep q (x # xs) \<Longrightarrow> \<exists>q'. queue_remove q = Ret x q' \<and> pq_rep q' xs" for q x xs
    by (rule queue_remove_law)
  show "pq_rep q [] \<Longrightarrow> queue_remove q = Ret (- 1) q" for q
  proof -
    assume "pq_rep q []"
    then obtain as where "linked (q_heap q) as []"
      "if as = [] then q_head q = 0 \<and> q_tail q = 0 else q_head q = hd as \<and> q_tail q = last as"
      unfolding pq_rep_def by blast
    then have "q_head q = 0" by (cases as) simp_all
    then show "queue_remove q = Ret (- 1) q" by (simp add: queue_remove_def)
  qed
  show "pq_rep q xs \<Longrightarrow> queue_empty q \<longleftrightarrow> xs = []" for q xs
    unfolding pq_rep_def queue_empty_def using linked_length
    by (metis (no_types, lifting) length_0_conv list.set_sel(1))
qed

lemma queue_init_rep: "clk \<noteq> 0 \<Longrightarrow> \<exists>q'. queue_init clk q = Ret () q' \<and> pq_rep q' [] \<and> q_clock q' = 0"
  by (auto simp: queue_init_def spin_init_def pq_rep_def intro!: exI [of _ "[]"])

end
