(* ===== verification/Threads.thy ===== *)
theory Threads
  imports Sched Pidqueue
begin

text \<open>
  The user-level synchronisation library: the mutex of \<^verbatim>\<open>user/mutex.c\<close>, the condition
  variable of \<^verbatim>\<open>user/condvar.c\<close> and the semaphore of \<^verbatim>\<open>user/semaphore.c\<close>, run by
  any number of threads. A step is one access to a lock word, to \<^verbatim>\<open>mtx->flag\<close> or to
  \<^verbatim>\<open>sem->value\<close>, one operation on a queue, or one system call; the threads interleave
  between steps. The operations of a queue are called with its lock held.

  The state \<open>tsys\<close> holds the processes of the threads (the kernel side of \<^verbatim>\<open>setpark\<close>,
  \<^verbatim>\<open>park\<close> and \<^verbatim>\<open>unpark\<close>, as the functions on process entries that \<open>Sched\<close> shows
  them to be), one semaphore with its mutex and its condition variable, and the
  program counter of each thread. \<open>tstep\<close> runs one thread for one step. A step of a thread
  whose process is asleep is \<open>Switch\<close>, a failed attempt to take a spin lock is \<open>Spin\<close>.
  Any thread that is not asleep may take the next step, which covers every choice the
  scheduler and the timer can make on any number of processors.

  \<open>t_posts\<close> and \<open>t_waits\<close> count the updates of \<^verbatim>\<open>sem->value\<close> made so far; no step
  reads them.
\<close>

section \<open>Program counters\<close>

text \<open>
  \<open>cont\<close> says who called \<^verbatim>\<open>mutex_lock\<close>: a client, \<^verbatim>\<open>sem_wait\<close> (directly or from
  its \<^verbatim>\<open>cv_wait\<close>) or \<^verbatim>\<open>sem_post\<close>. \<open>ucont\<close> says what follows \<^verbatim>\<open>mutex_unlock\<close>:
  the end of the caller, or the rest of \<^verbatim>\<open>cv_wait\<close>. \<open>scont\<close> says who called
  \<^verbatim>\<open>cv_signal\<close> or \<^verbatim>\<open>cv_broadcast\<close>.
\<close>

datatype cont = KUser | KWait | KPost

datatype ucont = UDone | UCv cont

datatype scont = SIdle | SCrit | SPost

datatype pc =
    Idle
  | ML_spin cont | ML_test cont | ML_take cont | ML_add cont | ML_setpark cont | ML_unguard_park cont | ML_park cont
  | ML_parked cont | ML_unguard cont
  | Crit
  | MU_spin ucont | MU_test ucont | MU_clear ucont | MU_remove ucont | MU_unpark ucont u32 | MU_unguard ucont
  | CW_spin cont | CW_add cont | CW_setpark cont | CW_unlock cont | CW_park cont | CW_parked cont
  | CS_spin scont | CS_test scont | CS_remove scont | CS_unpark scont u32 | CS_unlock scont
  | CB_spin scont | CB_test scont | CB_remove scont | CB_unpark scont u32 | CB_unlock scont
  | SW_test | SW_load | SW_store int | SP_load | SP_store int

text \<open>What a client does next, when it is not inside a routine of the library.\<close>

datatype cmd = DoLock | DoUnlock | DoCvWait | DoSignal | DoBroadcast | DoSemWait | DoSemPost

record tsys =
  t_procs :: "proc list"
  t_flag :: int
  t_guard :: u32
  t_mq :: pidQueue
  t_cq :: pidQueue
  t_value :: int
  t_pc :: "nat \<Rightarrow> pc"
  t_posts :: nat
  t_waits :: nat

section \<open>Initialisation\<close>

definition mutex_init :: "addr \<Rightarrow> addr \<Rightarrow> addr \<Rightarrow> (tsys, unit) prog" where
  "mutex_init guard q clk = thenP (modify (\<lambda>s. s\<lparr>t_flag := 0\<rparr>))
    (if guard = 0 then fault ''spin_init of a null lock'' else
     thenP (zoom t_guard (\<lambda>l s. s\<lparr>t_guard := l\<rparr>) spin_init)
    (if q = 0 then fault ''queue_init of a null queue'' else
     zoom t_mq (\<lambda>x s. s\<lparr>t_mq := x\<rparr>) (queue_init clk)))"

definition cv_init :: "addr \<Rightarrow> addr \<Rightarrow> (tsys, unit) prog" where
  "cv_init q clk =
    (if q = 0 then fault ''queue_init of a null queue'' else
     zoom t_cq (\<lambda>x s. s\<lparr>t_cq := x\<rparr>) (queue_init clk))"

definition sem_init :: "int \<Rightarrow> (nat \<Rightarrow> addr) \<Rightarrow> (tsys, unit) prog" where
  "sem_init initval mal =
    (if mal 0 = 0 then fault ''cv_init of a null pointer'' else
     thenP (cv_init (mal 1) (mal 2))
    (if mal 3 = 0 then fault ''mutex_init of a null pointer'' else
     thenP (mutex_init (mal 4) (mal 5) (mal 6))
    (modify (\<lambda>s. s\<lparr>t_value := int32 initval\<rparr>))))"

section \<open>Steps\<close>

definition goto :: "nat \<Rightarrow> pc \<Rightarrow> (tsys, unit) prog" where
  "goto i l = modify (\<lambda>s. s\<lparr>t_pc := (t_pc s)(i := l)\<rparr>)"

definition on_guard :: "(u32, 'a) prog \<Rightarrow> (tsys, 'a) prog" where
  "on_guard = zoom t_guard (\<lambda>l s. s\<lparr>t_guard := l\<rparr>)"

definition on_mq :: "(pidQueue, 'a) prog \<Rightarrow> (tsys, 'a) prog" where
  "on_mq = zoom t_mq (\<lambda>x s. s\<lparr>t_mq := x\<rparr>)"

definition on_cq :: "(pidQueue, 'a) prog \<Rightarrow> (tsys, 'a) prog" where
  "on_cq = zoom t_cq (\<lambda>x s. s\<lparr>t_cq := x\<rparr>)"

definition on_clock :: "(u32, 'a) prog \<Rightarrow> (tsys, 'a) prog" where
  "on_clock m = on_cq (zoom q_clock (\<lambda>l q. q\<lparr>q_clock := l\<rparr>) m)"

text \<open>
  \<open>tid s i\<close> is what \<^verbatim>\<open>getpid()\<close> returns to thread \<open>i\<close>, as the \<^verbatim>\<open>uint\<close> the queue
  stores. \<open>sys_unpark\<close> reads it back as an \<^verbatim>\<open>int\<close>.
\<close>

definition tid :: "tsys \<Rightarrow> nat \<Rightarrow> u32" where
  "tid s i = word_of_int (p_pid (t_procs s ! i))"

definition t_setpark :: "nat \<Rightarrow> (tsys, unit) prog" where
  "t_setpark i = modify (\<lambda>s. s\<lparr>t_procs := (t_procs s)[i := setpark_proc (t_procs s ! i)]\<rparr>)"

definition t_park :: "nat \<Rightarrow> (tsys, unit) prog" where
  "t_park i = modify (\<lambda>s. s\<lparr>t_procs := (t_procs s)[i := park_proc (t_procs s ! i)]\<rparr>)"

definition t_unpark :: "u32 \<Rightarrow> (tsys, unit) prog" where
  "t_unpark pid = (\<lambda>s. case first_idx (\<lambda>p. p_pid p = sint pid) (t_procs s) of
       Some j \<Rightarrow> Ret () (s\<lparr>t_procs := (t_procs s)[j := unpark_proc (t_procs s ! j)]\<rparr>)
     | None \<Rightarrow> Fault ''ptable.proc[NPROC]'')"

primrec locked_pc :: "cont \<Rightarrow> pc" where
  "locked_pc KUser = Crit"
| "locked_pc KWait = SW_test"
| "locked_pc KPost = SP_load"

primrec unlocked_pc :: "ucont \<Rightarrow> pc" where
  "unlocked_pc UDone = Idle"
| "unlocked_pc (UCv k) = CW_park k"

primrec signalled_pc :: "scont \<Rightarrow> pc" where
  "signalled_pc SIdle = Idle"
| "signalled_pc SCrit = Crit"
| "signalled_pc SPost = MU_spin UDone"

text \<open>\<^verbatim>\<open>mutex_lock\<close>, \<open>new\<close> being what \<^verbatim>\<open>malloc\<close> returns to \<^verbatim>\<open>queue_add\<close>.\<close>

fun mutex_lock :: "addr \<Rightarrow> nat \<Rightarrow> pc \<Rightarrow> (tsys, unit) prog" where
  "mutex_lock new i (ML_spin k) = thenP (on_guard spin_lock) (goto i (ML_test k))"
| "mutex_lock new i (ML_test k) = bindP (reads t_flag) (\<lambda>fl. goto i (if fl = 0 then ML_take k else ML_add k))"
| "mutex_lock new i (ML_take k) = thenP (modify (\<lambda>s. s\<lparr>t_flag := 1\<rparr>)) (goto i (ML_unguard k))"
| "mutex_lock new i (ML_add k) = bindP (reads (\<lambda>s. tid s i)) (\<lambda>pid.
     thenP (on_mq (queue_add new pid)) (goto i (ML_setpark k)))"
| "mutex_lock new i (ML_unguard k) = thenP (on_guard spin_unlock) (goto i (locked_pc k))"
| "mutex_lock new i (ML_setpark k) = thenP (t_setpark i) (goto i (ML_unguard_park k))"
| "mutex_lock new i (ML_unguard_park k) = thenP (on_guard spin_unlock) (goto i (ML_park k))"
| "mutex_lock new i (ML_park k) = thenP (t_park i) (goto i (ML_parked k))"
| "mutex_lock new i (ML_parked k) = goto i (locked_pc k)"
| "mutex_lock new i _ = fault ''not in mutex_lock''"

fun mutex_unlock :: "nat \<Rightarrow> pc \<Rightarrow> (tsys, unit) prog" where
  "mutex_unlock i (MU_spin k) = thenP (on_guard spin_lock) (goto i (MU_test k))"
| "mutex_unlock i (MU_test k) = bindP (reads (\<lambda>s. queue_empty (t_mq s))) (\<lambda>e.
     goto i (if e then MU_clear k else MU_remove k))"
| "mutex_unlock i (MU_clear k) = thenP (modify (\<lambda>s. s\<lparr>t_flag := 0\<rparr>)) (goto i (MU_unguard k))"
| "mutex_unlock i (MU_remove k) = bindP (on_mq queue_remove) (\<lambda>pid. goto i (MU_unpark k pid))"
| "mutex_unlock i (MU_unpark k pid) = thenP (t_unpark pid) (goto i (MU_unguard k))"
| "mutex_unlock i (MU_unguard k) = thenP (on_guard spin_unlock) (goto i (unlocked_pc k))"
| "mutex_unlock i _ = fault ''not in mutex_unlock''"

fun cv_wait :: "addr \<Rightarrow> nat \<Rightarrow> pc \<Rightarrow> (tsys, unit) prog" where
  "cv_wait new i (CW_spin k) = thenP (on_clock spin_lock) (goto i (CW_add k))"
| "cv_wait new i (CW_add k) = bindP (reads (\<lambda>s. tid s i)) (\<lambda>pid.
     thenP (on_cq (queue_add new pid)) (goto i (CW_setpark k)))"
| "cv_wait new i (CW_setpark k) = thenP (t_setpark i) (goto i (CW_unlock k))"
| "cv_wait new i (CW_unlock k) = thenP (on_clock spin_unlock) (goto i (MU_spin (UCv k)))"
| "cv_wait new i (CW_park k) = thenP (t_park i) (goto i (CW_parked k))"
| "cv_wait new i (CW_parked k) = goto i (ML_spin k)"
| "cv_wait new i _ = fault ''not in cv_wait''"

fun cv_signal :: "nat \<Rightarrow> pc \<Rightarrow> (tsys, unit) prog" where
  "cv_signal i (CS_spin k) = thenP (on_clock spin_lock) (goto i (CS_test k))"
| "cv_signal i (CS_test k) = bindP (reads (\<lambda>s. queue_empty (t_cq s))) (\<lambda>e.
     goto i (if \<not> e then CS_remove k else CS_unlock k))"
| "cv_signal i (CS_remove k) = bindP (on_cq queue_remove) (\<lambda>pid. goto i (CS_unpark k pid))"
| "cv_signal i (CS_unpark k pid) = thenP (t_unpark pid) (goto i (CS_unlock k))"
| "cv_signal i (CS_unlock k) = thenP (on_clock spin_unlock) (goto i (signalled_pc k))"
| "cv_signal i _ = fault ''not in cv_signal''"

fun cv_broadcast :: "nat \<Rightarrow> pc \<Rightarrow> (tsys, unit) prog" where
  "cv_broadcast i (CB_spin k) = thenP (on_clock spin_lock) (goto i (CB_test k))"
| "cv_broadcast i (CB_test k) = bindP (reads (\<lambda>s. queue_empty (t_cq s))) (\<lambda>e.
     goto i (if \<not> e then CB_remove k else CB_unlock k))"
| "cv_broadcast i (CB_remove k) = bindP (on_cq queue_remove) (\<lambda>pid. goto i (CB_unpark k pid))"
| "cv_broadcast i (CB_unpark k pid) = thenP (t_unpark pid) (goto i (CB_test k))"
| "cv_broadcast i (CB_unlock k) = thenP (on_clock spin_unlock) (goto i (signalled_pc k))"
| "cv_broadcast i _ = fault ''not in cv_broadcast''"

text \<open>
  The bodies of \<^verbatim>\<open>sem_wait\<close> and \<^verbatim>\<open>sem_post\<close> between their \<^verbatim>\<open>mutex_lock\<close> and
  \<^verbatim>\<open>mutex_unlock\<close>. Reading \<^verbatim>\<open>sem->value\<close> and writing it back are two steps.
\<close>

fun sem_wait :: "nat \<Rightarrow> pc \<Rightarrow> (tsys, unit) prog" where
  "sem_wait i SW_test = bindP (reads t_value) (\<lambda>v.
     if v \<le> 0 then goto i (CW_spin KWait) else goto i SW_load)"
| "sem_wait i SW_load = bindP (reads t_value) (\<lambda>v. goto i (SW_store v))"
| "sem_wait i (SW_store v) = thenP (modify (\<lambda>s. s\<lparr>t_value := int32 (v - 1), t_waits := t_waits s + 1\<rparr>))
     (goto i (MU_spin UDone))"
| "sem_wait i _ = fault ''not in sem_wait''"

fun sem_post :: "nat \<Rightarrow> pc \<Rightarrow> (tsys, unit) prog" where
  "sem_post i SP_load = bindP (reads t_value) (\<lambda>v. goto i (SP_store v))"
| "sem_post i (SP_store v) = thenP (modify (\<lambda>s. s\<lparr>t_value := int32 (v + 1), t_posts := t_posts s + 1\<rparr>))
     (goto i (CS_spin SPost))"
| "sem_post i _ = fault ''not in sem_post''"

text \<open>Where a client's call starts; \<open>None\<close> if the client may not make it there.\<close>

definition client :: "cmd \<Rightarrow> pc \<Rightarrow> pc option" where
  "client c l = (if l = Idle then (case c of
       DoLock \<Rightarrow> Some (ML_spin KUser) | DoSemWait \<Rightarrow> Some (ML_spin KWait)
     | DoSemPost \<Rightarrow> Some (ML_spin KPost) | DoSignal \<Rightarrow> Some (CS_spin SIdle)
     | DoBroadcast \<Rightarrow> Some (CB_spin SIdle) | _ \<Rightarrow> None)
   else if l = Crit then (case c of
       DoUnlock \<Rightarrow> Some (MU_spin UDone) | DoCvWait \<Rightarrow> Some (CW_spin KUser)
     | DoSignal \<Rightarrow> Some (CS_spin SCrit) | DoBroadcast \<Rightarrow> Some (CB_spin SCrit) | _ \<Rightarrow> None)
   else None)"

definition awake :: "proc \<Rightarrow> bool" where
  "awake p \<longleftrightarrow> p_state p = RUNNABLE \<or> p_state p = RUNNING"

definition run_pc :: "cmd \<Rightarrow> addr \<Rightarrow> nat \<Rightarrow> pc \<Rightarrow> (tsys, unit) prog" where
  "run_pc c new i l = (case l of
       Idle \<Rightarrow> (case client c l of Some l' \<Rightarrow> goto i l' | None \<Rightarrow> switch)
     | Crit \<Rightarrow> (case client c l of Some l' \<Rightarrow> goto i l' | None \<Rightarrow> switch)
     | ML_spin k \<Rightarrow> mutex_lock new i l | ML_test k \<Rightarrow> mutex_lock new i l
     | ML_take k \<Rightarrow> mutex_lock new i l | ML_add k \<Rightarrow> mutex_lock new i l
     | ML_setpark k \<Rightarrow> mutex_lock new i l | ML_unguard_park k \<Rightarrow> mutex_lock new i l
     | ML_park k \<Rightarrow> mutex_lock new i l | ML_parked k \<Rightarrow> mutex_lock new i l
     | ML_unguard k \<Rightarrow> mutex_lock new i l
     | MU_spin k \<Rightarrow> mutex_unlock i l | MU_test k \<Rightarrow> mutex_unlock i l
     | MU_clear k \<Rightarrow> mutex_unlock i l | MU_remove k \<Rightarrow> mutex_unlock i l
     | MU_unpark k pid \<Rightarrow> mutex_unlock i l | MU_unguard k \<Rightarrow> mutex_unlock i l
     | CW_spin k \<Rightarrow> cv_wait new i l | CW_add k \<Rightarrow> cv_wait new i l
     | CW_setpark k \<Rightarrow> cv_wait new i l | CW_unlock k \<Rightarrow> cv_wait new i l
     | CW_park k \<Rightarrow> cv_wait new i l | CW_parked k \<Rightarrow> cv_wait new i l
     | CS_spin k \<Rightarrow> cv_signal i l | CS_test k \<Rightarrow> cv_signal i l | CS_remove k \<Rightarrow> cv_signal i l
     | CS_unpark k pid \<Rightarrow> cv_signal i l | CS_unlock k \<Rightarrow> cv_signal i l
     | CB_spin k \<Rightarrow> cv_broadcast i l | CB_test k \<Rightarrow> cv_broadcast i l | CB_remove k \<Rightarrow> cv_broadcast i l
     | CB_unpark k pid \<Rightarrow> cv_broadcast i l | CB_unlock k \<Rightarrow> cv_broadcast i l
     | SW_test \<Rightarrow> sem_wait i l | SW_load \<Rightarrow> sem_wait i l | SW_store v \<Rightarrow> sem_wait i l
     | SP_load \<Rightarrow> sem_post i l | SP_store v \<Rightarrow> sem_post i l)"

definition tstep :: "cmd \<Rightarrow> addr \<Rightarrow> nat \<Rightarrow> (tsys, unit) prog" where
  "tstep c new i = (\<lambda>s.
     if \<not> awake (t_procs s ! i) then Switch s else run_pc c new i (t_pc s i) s)"

end
