(* ===== verification/Threads_Inv.thy ===== *)
theory Threads_Inv
  imports Threads
begin

text \<open>
  Executions of the synchronisation library and the invariant of its mutex and its
  condition variable.
\<close>

section \<open>Executions\<close>

text \<open>
  A move is a step of one thread, with a client command from \<open>C\<close> and with \<^verbatim>\<open>malloc\<close>
  returning 0 or a node that is not in use. \<open>boot\<close> describes the threads before the
  semaphore is initialised. The threads stay alive: none of them exits or is killed while it is in a queue.
\<close>

definition idle_flags :: "proc \<Rightarrow> bool" where
  "idle_flags p \<longleftrightarrow> p_setPark p = 0 \<and> p_isParked p = 0 \<and> p_immediateUnpark p = 0 \<and> awake p"

definition pids_ok :: "proc list \<Rightarrow> bool" where
  "pids_ok ps \<longleftrightarrow> distinct (map p_pid ps) \<and> (\<forall>p \<in> set ps. 0 < p_pid p \<and> p_pid p < 2147483648)"

definition boot :: "tsys \<Rightarrow> bool" where
  "boot s \<longleftrightarrow> pids_ok (t_procs s) \<and> (\<forall>p \<in> set (t_procs s). idle_flags p) \<and>
     t_pc s = (\<lambda>_. Idle) \<and> t_posts s = 0 \<and> t_waits s = 0"

definition malloc_ok :: "tsys \<Rightarrow> addr \<Rightarrow> bool" where
  "malloc_ok s new \<longleftrightarrow> new = 0 \<or> pq_fresh (t_mq s) new \<and> pq_fresh (t_cq s) new"

inductive treach :: "cmd set \<Rightarrow> tsys \<Rightarrow> tsys \<Rightarrow> bool" for C s where
  start: "treach C s s"
| move: "treach C s t \<Longrightarrow> c \<in> C \<Longrightarrow> i < length (t_procs t) \<Longrightarrow>
     malloc_ok t new \<Longrightarrow> tstep c new i t = Ret () u \<Longrightarrow> treach C s u"

section \<open>The invariant\<close>

text \<open>
  Where a thread stands with respect to the guard word, the queue lock, the mutex and
  the two queues.
\<close>

fun in_guard :: "pc \<Rightarrow> bool" where
  "in_guard (ML_test k) = True" | "in_guard (ML_take k) = True" | "in_guard (ML_add k) = True" | "in_guard (ML_setpark k) = True" | "in_guard (ML_unguard_park k) = True"
| "in_guard (ML_unguard k) = True" | "in_guard (MU_test u) = True" | "in_guard (MU_clear u) = True"
| "in_guard (MU_remove u) = True" | "in_guard (MU_unpark u pid) = True" | "in_guard (MU_unguard u) = True"
| "in_guard _ = False"

fun in_clock :: "pc \<Rightarrow> bool" where
  "in_clock (CW_add k) = True" | "in_clock (CW_setpark k) = True" | "in_clock (CW_unlock k) = True"
| "in_clock (CS_test c) = True" | "in_clock (CS_remove c) = True" | "in_clock (CS_unpark c pid) = True" | "in_clock (CS_unlock c) = True"
| "in_clock (CB_test c) = True" | "in_clock (CB_remove c) = True" | "in_clock (CB_unpark c pid) = True" | "in_clock (CB_unlock c) = True"
| "in_clock _ = False"

fun holds_mutex :: "pc \<Rightarrow> bool" where
  "holds_mutex (ML_unguard k) = True" | "holds_mutex Crit = True"
| "holds_mutex (MU_spin u) = True" | "holds_mutex (MU_test u) = True" | "holds_mutex (MU_clear u) = True"
| "holds_mutex (MU_remove u) = True" | "holds_mutex (MU_unpark u pid) = True"
| "holds_mutex (CW_spin k) = True" | "holds_mutex (CW_add k) = True"
| "holds_mutex (CW_setpark k) = True" | "holds_mutex (CW_unlock k) = True"
| "holds_mutex (CS_spin c) = (c \<noteq> SIdle)" | "holds_mutex (CS_test c) = (c \<noteq> SIdle)"
| "holds_mutex (CS_remove c) = (c \<noteq> SIdle)" | "holds_mutex (CS_unpark c pid) = (c \<noteq> SIdle)"
| "holds_mutex (CS_unlock c) = (c \<noteq> SIdle)" | "holds_mutex (CB_spin c) = (c \<noteq> SIdle)"
| "holds_mutex (CB_test c) = (c \<noteq> SIdle)" | "holds_mutex (CB_remove c) = (c \<noteq> SIdle)"
| "holds_mutex (CB_unpark c pid) = (c \<noteq> SIdle)" | "holds_mutex (CB_unlock c) = (c \<noteq> SIdle)"
| "holds_mutex SW_test = True" | "holds_mutex SW_load = True" | "holds_mutex (SW_store v) = True"
| "holds_mutex SP_load = True" | "holds_mutex (SP_store v) = True"
| "holds_mutex _ = False"

fun in_mutex_queue :: "pc \<Rightarrow> bool" where
  "in_mutex_queue (ML_setpark k) = True" | "in_mutex_queue (ML_unguard_park k) = True"
| "in_mutex_queue (ML_park k) = True" | "in_mutex_queue (ML_parked k) = True"
| "in_mutex_queue _ = False"

text \<open>
  A thread owns the mutex when it is past the acquisition, or when it waits in
  \<^verbatim>\<open>mutex_lock\<close> and an unlocker has already unparked it. \<open>ms\<close> are the threads that wait for the mutex
  and have not been unparked: those in the queue, preceded by the one that an unlocker has
  taken off the queue and is about to unpark.
\<close>

definition owner :: "nat list \<Rightarrow> (nat \<Rightarrow> pc) \<Rightarrow> nat \<Rightarrow> bool" where
  "owner ms l i \<longleftrightarrow> holds_mutex (l i) \<or> (in_mutex_queue (l i) \<and> i \<notin> set ms)"

definition set_flags :: "bool \<Rightarrow> proc \<Rightarrow> bool" where
  "set_flags q p \<longleftrightarrow> p_setPark p = 1 \<and> p_isParked p = 0 \<and> p_immediateUnpark p = (if q then 0 else 1) \<and> awake p"

definition parked_flags :: "bool \<Rightarrow> proc \<Rightarrow> bool" where
  "parked_flags q p \<longleftrightarrow> p_setPark p = 0 \<and> p_immediateUnpark p = 0 \<and>
     (if q then p_state p = SLEEPING \<and> p_isParked p = 1 else awake p \<and> p_isParked p = 0)"

fun flags_ok :: "pc \<Rightarrow> bool \<Rightarrow> bool \<Rightarrow> proc \<Rightarrow> bool" where
  "flags_ok (ML_setpark k) m c p = (m \<and> \<not> c \<and> idle_flags p)"
| "flags_ok (ML_unguard_park k) m c p = (m \<and> \<not> c \<and> set_flags m p)"
| "flags_ok (ML_park k) m c p = (\<not> c \<and> set_flags m p)"
| "flags_ok (ML_parked k) m c p = (\<not> c \<and> parked_flags m p)"
| "flags_ok (CW_setpark k) m c p = (\<not> m \<and> c \<and> idle_flags p)"
| "flags_ok (CW_unlock k) m c p = (\<not> m \<and> c \<and> set_flags c p)"
| "flags_ok (MU_spin (UCv k)) m c p = (\<not> m \<and> set_flags c p)"
| "flags_ok (MU_test (UCv k)) m c p = (\<not> m \<and> set_flags c p)"
| "flags_ok (MU_clear (UCv k)) m c p = (\<not> m \<and> set_flags c p)"
| "flags_ok (MU_remove (UCv k)) m c p = (\<not> m \<and> set_flags c p)"
| "flags_ok (MU_unpark (UCv k) pid) m c p = (\<not> m \<and> set_flags c p)"
| "flags_ok (MU_unguard (UCv k)) m c p = (\<not> m \<and> set_flags c p)"
| "flags_ok (CW_park k) m c p = (\<not> m \<and> set_flags c p)"
| "flags_ok (CW_parked k) m c p = (\<not> m \<and> parked_flags c p)"
| "flags_ok _ m c p = (\<not> m \<and> \<not> c \<and> idle_flags p)"

text \<open>What a thread has read and what still holds, since it keeps the lock: whether the flag is
  clear and whether the queues are empty.\<close>

fun fact_ok :: "pc \<Rightarrow> bool \<Rightarrow> bool \<Rightarrow> bool \<Rightarrow> bool" where
  "fact_ok (ML_take k) f m c = f" | "fact_ok (ML_add k) f m c = (\<not> f)"
| "fact_ok (MU_clear u) f m c = m" | "fact_ok (MU_remove u) f m c = (\<not> m)"
| "fact_ok (CS_remove k) f m c = (\<not> c)" | "fact_ok (CB_remove k) f m c = (\<not> c)"
| "fact_ok _ f m c = True"

lemma fact_ok_region:
  "\<not> in_clock l \<Longrightarrow> fact_ok l f m c = fact_ok l f m c'" "\<not> in_guard l \<Longrightarrow> fact_ok l f m c = fact_ok l f' m' c"
  by (cases l; simp)+

text \<open>
  The invariant, for the threads \<open>ms\<close> and \<open>cs\<close> that wait for the mutex and on the condition variable.
\<close>

definition inv_q :: "nat list \<Rightarrow> nat list \<Rightarrow> tsys \<Rightarrow> bool" where
  "inv_q ms cs s \<longleftrightarrow>
     pids_ok (t_procs s) \<and> distinct ms \<and> distinct cs \<and>
     set ms \<subseteq> {..<length (t_procs s)} \<and> set cs \<subseteq> {..<length (t_procs s)} \<and>
     uniq (length (t_procs s)) (\<lambda>i. in_guard (t_pc s i)) (t_guard s \<noteq> 0) \<and>
     uniq (length (t_procs s)) (\<lambda>i. in_clock (t_pc s i)) (q_clock (t_cq s) \<noteq> 0) \<and>
     uniq (length (t_procs s)) (owner ms (t_pc s)) (t_flag s \<noteq> 0) \<and>
     (t_flag s = 0 \<longrightarrow> ms = []) \<and>
     (\<forall>i < length (t_procs s). flags_ok (t_pc s i) (i \<in> set ms) (i \<in> set cs) (t_procs s ! i)) \<and>
     (\<forall>i < length (t_procs s). fact_ok (t_pc s i) (t_flag s = 0) (ms = []) (cs = []))"

lemma inv_qD:
  assumes "inv_q ms cs s"
  shows "pids_ok (t_procs s)" and "distinct ms" and "distinct cs"
    and "set ms \<subseteq> {..<length (t_procs s)}" and "set cs \<subseteq> {..<length (t_procs s)}"
    and "uniq (length (t_procs s)) (\<lambda>i. in_guard (t_pc s i)) (t_guard s \<noteq> 0)"
    and "uniq (length (t_procs s)) (\<lambda>i. in_clock (t_pc s i)) (q_clock (t_cq s) \<noteq> 0)"
    and "uniq (length (t_procs s)) (owner ms (t_pc s)) (t_flag s \<noteq> 0)"
    and "t_flag s = 0 \<Longrightarrow> ms = []"
    and "i < length (t_procs s) \<Longrightarrow> flags_ok (t_pc s i) (i \<in> set ms) (i \<in> set cs) (t_procs s ! i)"
    and "i < length (t_procs s) \<Longrightarrow> fact_ok (t_pc s i) (t_flag s = 0) (ms = []) (cs = [])"
  using assms unfolding inv_q_def by blast+

text \<open>
  How the lock words may change when thread \<open>i\<close> moves from inside to outside a region:
  \<open>shift a b w w'\<close> relates the thread's presence before and after to the lock word.
\<close>

definition shift :: "bool \<Rightarrow> bool \<Rightarrow> bool \<Rightarrow> bool \<Rightarrow> bool" where
  "shift a b w w' \<longleftrightarrow> (if a then w' = b else (w' \<longleftrightarrow> w \<or> b) \<and> (b \<longrightarrow> \<not> w))"

lemma uniq_shift:
  assumes "uniq n P w" and "i < n" and "shift (P i) (P' i) w w'"
    and "\<And>j. j < n \<Longrightarrow> j \<noteq> i \<Longrightarrow> P' j = P j"
  shows "uniq n P' w'"
  using assms unfolding uniq_def shift_def by (smt (verit))

lemma facts_other:
  assumes inv: "inv_q ms cs s" and i: "i < length (t_procs s)" and j: "j < length (t_procs s)" "j \<noteq> i"
    and "in_guard (t_pc s i) \<or> f = t_flag s \<and> ms' = ms" "in_clock (t_pc s i) \<or> cs' = cs"
  shows "fact_ok (t_pc s j) (f = 0) (ms' = []) (cs' = [])"
proof -
  have "\<not> (in_guard (t_pc s i) \<and> in_guard (t_pc s j))" "\<not> (in_clock (t_pc s i) \<and> in_clock (t_pc s j))"
    using uniqD [OF inv_qD(6) [OF inv], of i j] uniqD [OF inv_qD(7) [OF inv], of i j] i j by auto
  then show ?thesis using inv_qD(11) [OF inv j(1)] assms(5,6) fact_ok_region by metis
qed

lemma inv_local:
  assumes inv: "inv_q ms cs s" and i: "i < length (t_procs s)"
    and procs: "t_procs s' = (t_procs s)[i := p]" "p_pid p = p_pid (t_procs s ! i)"
    and pc: "t_pc s' = (t_pc s)(i := l)"
    and dist: "distinct ms'" "distinct cs'"
    and ms: "\<And>j. j \<noteq> i \<Longrightarrow> j \<in> set ms' \<longleftrightarrow> j \<in> set ms" and cs: "\<And>j. j \<noteq> i \<Longrightarrow> j \<in> set cs' \<longleftrightarrow> j \<in> set cs"
    and guard: "shift (in_guard (t_pc s i)) (in_guard l) (t_guard s \<noteq> 0) (t_guard s' \<noteq> 0)"
    and clock: "shift (in_clock (t_pc s i)) (in_clock l) (q_clock (t_cq s) \<noteq> 0) (q_clock (t_cq s') \<noteq> 0)"
    and flag: "shift (owner ms (t_pc s) i) (owner ms' (t_pc s') i) (t_flag s \<noteq> 0) (t_flag s' \<noteq> 0)"
    and empty: "t_flag s' = 0 \<longrightarrow> ms' = []"
    and flags: "flags_ok l (i \<in> set ms') (i \<in> set cs') p"
    and facts: "fact_ok l (t_flag s' = 0) (ms' = []) (cs' = [])"
      "in_guard (t_pc s i) \<or> t_flag s' = t_flag s \<and> ms' = ms" "in_clock (t_pc s i) \<or> cs' = cs"
  shows "inv_q ms' cs' s'"
proof -
  have len: "length (t_procs s') = length (t_procs s)" by (simp add: procs)
  have "map p_pid (t_procs s') = map p_pid (t_procs s)"
    using procs i by (simp add: map_update list_update_same_conv)
  then have pids: "pids_ok (t_procs s')"
    using inv_qD(1) [OF inv] unfolding pids_ok_def by (metis (no_types, lifting) image_iff list.set_map)
  have sub: "set ms' \<subseteq> {..<length (t_procs s)}" "set cs' \<subseteq> {..<length (t_procs s)}"
    using inv_qD(4,5) [OF inv] i ms cs by (metis lessThan_iff subset_iff)+
  have "uniq (length (t_procs s)) (\<lambda>j. in_guard (t_pc s' j)) (t_guard s' \<noteq> 0)"
    by (rule uniq_shift [OF inv_qD(6) [OF inv] i]) (use guard in \<open>simp_all add: pc\<close>)
  moreover have "uniq (length (t_procs s)) (\<lambda>j. in_clock (t_pc s' j)) (q_clock (t_cq s') \<noteq> 0)"
    by (rule uniq_shift [OF inv_qD(7) [OF inv] i]) (use clock in \<open>simp_all add: pc\<close>)
  moreover have "uniq (length (t_procs s)) (owner ms' (t_pc s')) (t_flag s' \<noteq> 0)"
  proof (rule uniq_shift [OF inv_qD(8) [OF inv] i])
    show "shift (owner ms (t_pc s) i) (owner ms' (t_pc s') i) (t_flag s \<noteq> 0) (t_flag s' \<noteq> 0)"
      by (rule flag)
    fix j
    assume "j \<noteq> i"
    then show "owner ms' (t_pc s') j = owner ms (t_pc s) j" by (simp add: owner_def pc ms)
  qed
  moreover have "flags_ok (t_pc s' j) (j \<in> set ms') (j \<in> set cs') (t_procs s' ! j)"
    if "j < length (t_procs s)" for j
  proof (cases "j = i")
    case True
    with flags i show ?thesis by (simp add: pc procs)
  next
    case False
    with inv_qD(10) [OF inv that] show ?thesis by (simp add: pc procs ms cs)
  qed
  moreover have "fact_ok (t_pc s' j) (t_flag s' = 0) (ms' = []) (cs' = [])" if "j < length (t_procs s)" for j
  proof (cases "j = i")
    case True
    with facts(1) show ?thesis by (simp add: pc)
  next
    case False
    with facts_other [OF inv i that _ facts(2,3)] show ?thesis by (simp add: pc)
  qed
  ultimately show ?thesis
    using pids sub dist empty unfolding inv_q_def len by blast
qed

lemma pq_rep_clock [simp]: "pq_rep (q\<lparr>q_clock := l\<rparr>) xs = pq_rep q xs"
  by (simp add: pq_rep_def)

text \<open>
  The process id a thread is about to pass to \<^verbatim>\<open>unpark\<close>, for the mutex and for the condition
  variable. \<open>handing\<close> relates a queue to the threads that wait on it: while somebody is about to unpark
  the first of them, the queue holds the others.
\<close>

fun m_wakes :: "pc \<Rightarrow> u32 option" where
  "m_wakes (MU_unpark u pid) = Some pid" | "m_wakes _ = None"

fun c_wakes :: "pc \<Rightarrow> u32 option" where
  "c_wakes (CS_unpark k pid) = Some pid" | "c_wakes (CB_unpark k pid) = Some pid" | "c_wakes _ = None"

definition handing :: "(pc \<Rightarrow> u32 option) \<Rightarrow> nat \<Rightarrow> (nat \<Rightarrow> pc) \<Rightarrow> u32 list \<Rightarrow> pidQueue \<Rightarrow> bool" where
  "handing wakes n l xs q \<longleftrightarrow> (\<forall>i < n. wakes (l i) = None) \<and> pq_rep q xs \<or>
     (\<exists>i < n. \<exists>p ys. wakes (l i) = Some p \<and> xs = p # ys \<and> pq_rep q ys \<and> (\<forall>j < n. j \<noteq> i \<longrightarrow> wakes (l j) = None))"

lemma handing_keep:
  assumes "handing wakes n l xs q" and "wakes x = wakes (l i)" and "\<And>ys. pq_rep q' ys = pq_rep q ys"
  shows "handing wakes n (l(i := x)) xs q'"
proof -
  have "wakes ((l(i := x)) j) = wakes (l j)" for j using assms(2) by simp
  then show ?thesis using assms(1) unfolding handing_def assms(3) by simp
qed

lemma handing_free:
  assumes "handing wakes n l xs q" and "i < n" and "wakes (l i) = None" and "\<And>j. j < n \<Longrightarrow> j \<noteq> i \<Longrightarrow> wakes (l j) = None"
  shows "pq_rep q xs"
  using assms unfolding handing_def by (metis option.distinct(1))

lemma handing_queue:
  assumes "pq_rep q' xs" and "\<And>j. j < n \<Longrightarrow> j \<noteq> i \<Longrightarrow> wakes (l j) = None" and "wakes x = None"
  shows "handing wakes n (l(i := x)) xs q'"
  using assms unfolding handing_def by auto

lemma handing_start:
  assumes "pq_rep q' ys" and "i < n" and "\<And>j. j < n \<Longrightarrow> j \<noteq> i \<Longrightarrow> wakes (l j) = None" and "wakes x = Some p"
  shows "handing wakes n (l(i := x)) (p # ys) q'"
  using assms unfolding handing_def by auto

lemma handing_end:
  assumes "handing wakes n l xs q" and "i < n" and "wakes (l i) = Some p"
  obtains ys where "xs = p # ys" and "pq_rep q ys" and "\<And>j. j < n \<Longrightarrow> j \<noteq> i \<Longrightarrow> wakes (l j) = None"
  using assms unfolding handing_def by (metis option.distinct(1) option.inject)

text \<open>A state satisfying the invariant, with the waiting threads named.\<close>

definition at_inv :: "nat list \<Rightarrow> nat list \<Rightarrow> tsys \<Rightarrow> bool" where
  "at_inv ms cs s \<longleftrightarrow> handing m_wakes (length (t_procs s)) (t_pc s) (map (tid s) ms) (t_mq s) \<and>
     handing c_wakes (length (t_procs s)) (t_pc s) (map (tid s) cs) (t_cq s) \<and> inv_q ms cs s"

lemma at_inv_local:
  assumes inv: "at_inv ms cs s" and i: "i < length (t_procs s)"
    and mq: "handing m_wakes (length (t_procs s)) (t_pc s') (map (tid s) ms') (t_mq s')"
    and cq: "handing c_wakes (length (t_procs s)) (t_pc s') (map (tid s) cs') (t_cq s')"
    and procs: "t_procs s' = (t_procs s)[i := p]" "p_pid p = p_pid (t_procs s ! i)"
    and pc: "t_pc s' = (t_pc s)(i := l)"
    and dist: "distinct ms'" "distinct cs'"
    and ms: "\<And>j. j \<noteq> i \<Longrightarrow> j \<in> set ms' \<longleftrightarrow> j \<in> set ms" and cs: "\<And>j. j \<noteq> i \<Longrightarrow> j \<in> set cs' \<longleftrightarrow> j \<in> set cs"
    and guard: "shift (in_guard (t_pc s i)) (in_guard l) (t_guard s \<noteq> 0) (t_guard s' \<noteq> 0)"
    and clock: "shift (in_clock (t_pc s i)) (in_clock l) (q_clock (t_cq s) \<noteq> 0) (q_clock (t_cq s') \<noteq> 0)"
    and flag: "shift (owner ms (t_pc s) i) (owner ms' (t_pc s') i) (t_flag s \<noteq> 0) (t_flag s' \<noteq> 0)"
    and empty: "t_flag s' = 0 \<longrightarrow> ms' = []"
    and flags: "flags_ok l (i \<in> set ms') (i \<in> set cs') p"
    and facts: "fact_ok l (t_flag s' = 0) (ms' = []) (cs' = [])"
      "in_guard (t_pc s i) \<or> t_flag s' = t_flag s \<and> ms' = ms" "in_clock (t_pc s i) \<or> cs' = cs"
  shows "at_inv ms' cs' s'"
proof -
  have I: "inv_q ms cs s" using inv by (simp add: at_inv_def)
  note J = inv_local [OF I i procs pc dist ms cs guard clock flag empty flags facts]
  have "tid s' j = tid s j" for j
    using procs i by (cases "j = i") (simp_all add: tid_def)
  then have "tid s' = tid s" by (rule ext)
  moreover have "length (t_procs s') = length (t_procs s)" by (simp add: procs)
  ultimately show ?thesis using mq cq J by (simp add: at_inv_def)
qed

text \<open>Steps that change neither the queues nor who waits.\<close>

lemma at_inv_step:
  assumes inv: "at_inv ms cs s" and i: "i < length (t_procs s)"
    and q: "t_mq s' = t_mq s" "\<And>ys. pq_rep (t_cq s') ys = pq_rep (t_cq s) ys"
      "m_wakes l = m_wakes (t_pc s i)" "c_wakes l = c_wakes (t_pc s i)"
    and procs: "t_procs s' = (t_procs s)[i := p]" "p_pid p = p_pid (t_procs s ! i)"
    and pc: "t_pc s' = (t_pc s)(i := l)"
    and guard: "shift (in_guard (t_pc s i)) (in_guard l) (t_guard s \<noteq> 0) (t_guard s' \<noteq> 0)"
    and clock: "shift (in_clock (t_pc s i)) (in_clock l) (q_clock (t_cq s) \<noteq> 0) (q_clock (t_cq s') \<noteq> 0)"
    and flag: "shift (owner ms (t_pc s) i) (owner ms (t_pc s') i) (t_flag s \<noteq> 0) (t_flag s' \<noteq> 0)"
    and empty: "t_flag s' = 0 \<longrightarrow> ms = []"
    and flags: "flags_ok l (i \<in> set ms) (i \<in> set cs) p"
    and facts: "fact_ok l (t_flag s' = 0) (ms = []) (cs = [])" "in_guard (t_pc s i) \<or> t_flag s' = t_flag s"
  shows "at_inv ms cs s'"
proof -
  have H: "handing m_wakes (length (t_procs s)) (t_pc s') (map (tid s) ms) (t_mq s')"
    "handing c_wakes (length (t_procs s)) (t_pc s') (map (tid s) cs) (t_cq s')"
    using inv q unfolding pc at_inv_def by (auto intro!: handing_keep)
  have "distinct ms" "distinct cs" using inv by (simp_all add: at_inv_def inv_q_def)
  then show ?thesis
    by (intro at_inv_local [OF inv i H procs pc _ _ _ _ guard clock flag empty flags facts(1)]) (use facts(2) in auto)
qed

text \<open>How the waiting threads change when thread \<open>i\<close> takes its next step.\<close>

definition mq_next :: "tsys \<Rightarrow> nat \<Rightarrow> nat list \<Rightarrow> nat list" where
  "mq_next s i ms = (case t_pc s i of
       ML_add k \<Rightarrow> ms @ [i]
     | MU_unpark u pid \<Rightarrow> tl ms
     | _ \<Rightarrow> ms)"

definition cq_next :: "tsys \<Rightarrow> nat \<Rightarrow> nat list \<Rightarrow> nat list" where
  "cq_next s i cs = (case t_pc s i of
       CW_add k \<Rightarrow> cs @ [i]
     | CS_unpark k pid \<Rightarrow> tl cs
     | CB_unpark k pid \<Rightarrow> tl cs
     | _ \<Rightarrow> cs)"

lemmas next_simps = mq_next_def cq_next_def

lemmas step_simps = goto_def on_guard_def on_mq_def on_cq_def on_clock_def spin_lock_def spin_unlock_def
  xchg_def t_setpark_def t_park_def

lemmas region_simps = shift_def owner_def idle_flags_def set_flags_def parked_flags_def awake_def

lemma at_invD:
  assumes "at_inv ms cs s" and "i < length (t_procs s)"
  shows "flags_ok (t_pc s i) (i \<in> set ms) (i \<in> set cs) (t_procs s ! i)"
    and "in_guard (t_pc s i) \<Longrightarrow> t_guard s \<noteq> 0" and "in_clock (t_pc s i) \<Longrightarrow> q_clock (t_cq s) \<noteq> 0"
    and "owner ms (t_pc s) i \<Longrightarrow> t_flag s \<noteq> 0" and "t_flag s = 0 \<Longrightarrow> ms = []"
    and "distinct ms" and "distinct cs"
    and "fact_ok (t_pc s i) (t_flag s = 0) (ms = []) (cs = [])"
  using assms inv_qD [of ms cs s] unfolding at_inv_def by (auto dest: uniq_holder)

lemma wakes_region: "m_wakes l = Some p \<Longrightarrow> in_guard l" "c_wakes l = Some p \<Longrightarrow> in_clock l"
  by (cases l; simp)+

lemma at_inv_alone:
  assumes inv: "at_inv ms cs s" and i: "i < length (t_procs s)" and j: "j < length (t_procs s)" "j \<noteq> i"
  shows "in_guard (t_pc s i) \<Longrightarrow> m_wakes (t_pc s j) = None" "in_clock (t_pc s i) \<Longrightarrow> c_wakes (t_pc s j) = None"
proof -
  note I = conjunct2 [OF conjunct2 [OF inv [unfolded at_inv_def]]]
  show "in_guard (t_pc s i) \<Longrightarrow> m_wakes (t_pc s j) = None"
    using uniqD [OF inv_qD(6) [OF I] _ _ i j(1)] j(2) wakes_region(1) [of "t_pc s j"] by (cases "m_wakes (t_pc s j)") auto
  show "in_clock (t_pc s i) \<Longrightarrow> c_wakes (t_pc s j) = None"
    using uniqD [OF inv_qD(7) [OF I] _ _ i j(1)] j(2) wakes_region(2) [of "t_pc s j"] by (cases "c_wakes (t_pc s j)") auto
qed

lemma at_inv_rep:
  assumes "at_inv ms cs s" and "i < length (t_procs s)"
  shows "in_guard (t_pc s i) \<Longrightarrow> m_wakes (t_pc s i) = None \<Longrightarrow> pq_rep (t_mq s) (map (tid s) ms)"
    "in_clock (t_pc s i) \<Longrightarrow> c_wakes (t_pc s i) = None \<Longrightarrow> pq_rep (t_cq s) (map (tid s) cs)"
  using assms at_inv_alone [OF assms] handing_free [of m_wakes _ "t_pc s" _ "t_mq s" i] handing_free [of c_wakes _ "t_pc s" _ "t_cq s" i]
  unfolding at_inv_def by blast+

text \<open>The next thread in line, while its unparker holds its process id.\<close>

lemma at_inv_waking:
  assumes inv: "at_inv ms cs s" and i: "i < length (t_procs s)"
  shows "m_wakes (t_pc s i) = Some pid \<Longrightarrow> \<exists>j ms'. ms = j # ms' \<and> pid = tid s j \<and> j < length (t_procs s) \<and> pq_rep (t_mq s) (map (tid s) ms')"
    "c_wakes (t_pc s i) = Some pid \<Longrightarrow> \<exists>j cs'. cs = j # cs' \<and> pid = tid s j \<and> j < length (t_procs s) \<and> pq_rep (t_cq s) (map (tid s) cs')"
proof -
  have h: "handing m_wakes (length (t_procs s)) (t_pc s) (map (tid s) ms) (t_mq s)"
    "handing c_wakes (length (t_procs s)) (t_pc s) (map (tid s) cs) (t_cq s)"
    and sub: "set ms \<subseteq> {..<length (t_procs s)}" "set cs \<subseteq> {..<length (t_procs s)}"
    using inv by (simp_all add: at_inv_def inv_q_def)
  show "\<exists>j ms'. ms = j # ms' \<and> pid = tid s j \<and> j < length (t_procs s) \<and> pq_rep (t_mq s) (map (tid s) ms')" if "m_wakes (t_pc s i) = Some pid"
    by (rule handing_end [OF h(1) i that]) (use sub(1) in \<open>cases ms; auto\<close>)
  show "\<exists>j cs'. cs = j # cs' \<and> pid = tid s j \<and> j < length (t_procs s) \<and> pq_rep (t_cq s) (map (tid s) cs')" if "c_wakes (t_pc s i) = Some pid"
    by (rule handing_end [OF h(2) i that]) (use sub(2) in \<open>cases cs; auto\<close>)
qed

lemma mutex_lock_inv:
  assumes inv: "at_inv ms cs s" and i: "i < length (t_procs s)"
    and new: "malloc_ok s new" and up: "awake (t_procs s ! i)"
    and step: "mutex_lock new i (t_pc s i) s = Ret () s'"
  shows "at_inv (mq_next s i ms) (cq_next s i cs) s'"
proof -
  note F = at_invD [OF inv i]
  show ?thesis
  proof (cases "t_pc s i")
    case (ML_spin k)
    with step have s': "s' = s\<lparr>t_guard := 1, t_pc := (t_pc s)(i := ML_test k)\<rparr>" "t_guard s = 0"
      by (auto simp: step_simps split: if_splits)
    have "at_inv ms cs s'"
      by (rule at_inv_step [OF inv i, where p = "t_procs s ! i" and l = "ML_test k"])
        (use F ML_spin s' in \<open>simp_all add: region_simps\<close>)
    then show ?thesis using ML_spin by (simp add: next_simps)
  next
    case (ML_test k)
    with step have s': "s' = s\<lparr>t_pc := (t_pc s)(i := if t_flag s = 0 then ML_take k else ML_add k)\<rparr>"
      by (simp add: step_simps)
    have "at_inv ms cs s'"
      by (rule at_inv_step [OF inv i, where p = "t_procs s ! i" and l = "if t_flag s = 0 then ML_take k else ML_add k"])
        (use F ML_test s' in \<open>simp_all add: region_simps\<close>)
    then show ?thesis using ML_test by (simp add: next_simps)
  next
    case (ML_take k)
    with step have s': "s' = s\<lparr>t_flag := 1, t_pc := (t_pc s)(i := ML_unguard k)\<rparr>"
      by (simp add: step_simps)
    have "at_inv ms cs s'"
      by (rule at_inv_step [OF inv i, where p = "t_procs s ! i" and l = "ML_unguard k"])
        (use F ML_take s' in \<open>simp_all add: region_simps\<close>)
    then show ?thesis using ML_take by (simp add: next_simps)
  next
    case (ML_add k)
    have new0: "new \<noteq> 0" using step ML_add by (auto simp: step_simps queue_add_def split: if_splits)
    have "pq_rep (t_mq s) (map (tid s) ms)" "pq_fresh (t_mq s) new"
      using at_inv_rep(1) [OF inv i] ML_add new new0 by (simp_all add: malloc_ok_def)
    then obtain q where q: "queue_add new (tid s i) (t_mq s) = Ret () q" "pq_rep q (map (tid s) (ms @ [i]))"
      using pidq.add_law by fastforce
    with step ML_add have s': "s' = s\<lparr>t_mq := q, t_pc := (t_pc s)(i := ML_setpark k)\<rparr>"
      by (auto simp: step_simps split: if_splits)
    have h: "handing m_wakes (length (t_procs s)) (t_pc s') (map (tid s) (ms @ [i])) (t_mq s')"
      "handing c_wakes (length (t_procs s)) (t_pc s') (map (tid s) cs) (t_cq s')"
      using handing_queue [OF q(2)] at_inv_alone(1) [OF inv i] handing_keep [of c_wakes _ "t_pc s" _ "t_cq s"] inv ML_add
      by (auto simp: s' at_inv_def)
    have "at_inv (ms @ [i]) cs s'"
      by (rule at_inv_local [OF inv i h, where p = "t_procs s ! i" and l = "ML_setpark k"])
        (use F ML_add s' q in \<open>simp_all add: region_simps\<close>)
    then show ?thesis using ML_add by (simp add: next_simps)
  next
    case (ML_setpark k)
    with step have s': "s' = s\<lparr>t_procs := (t_procs s)[i := setpark_proc (t_procs s ! i)], t_pc := (t_pc s)(i := ML_unguard_park k)\<rparr>"
      by (auto simp: step_simps split: if_splits)
    have "at_inv ms cs s'"
      by (rule at_inv_step [OF inv i, where p = "setpark_proc (t_procs s ! i)" and l = "ML_unguard_park k"])
        (use F ML_setpark s' in \<open>simp_all add: region_simps setpark_proc_def\<close>)
    then show ?thesis using ML_setpark by (simp add: next_simps)
  next
    case (ML_unguard_park k)
    with step have s': "s' = s\<lparr>t_guard := 0, t_pc := (t_pc s)(i := ML_park k)\<rparr>"
      by (auto simp: step_simps split: if_splits)
    have "at_inv ms cs s'"
      by (rule at_inv_step [OF inv i, where p = "t_procs s ! i" and l = "ML_park k"])
        (use F ML_unguard_park s' in \<open>simp_all add: region_simps\<close>)
    then show ?thesis using ML_unguard_park by (simp add: next_simps)
  next
    case (ML_park k)
    with step have s': "s' = s\<lparr>t_procs := (t_procs s)[i := park_proc (t_procs s ! i)], t_pc := (t_pc s)(i := ML_parked k)\<rparr>"
      by (auto simp: step_simps split: if_splits)
    have "at_inv ms cs s'"
      by (rule at_inv_step [OF inv i, where p = "park_proc (t_procs s ! i)" and l = "ML_parked k"])
        (use F ML_park s' in \<open>simp_all add: region_simps park_proc_def\<close>)
    then show ?thesis using ML_park by (simp add: next_simps)
  next
    case (ML_parked k)
    with step have s': "s' = s\<lparr>t_pc := (t_pc s)(i := locked_pc k)\<rparr>" by (simp add: step_simps)
    have "at_inv ms cs s'"
      by (rule at_inv_step [OF inv i, where p = "t_procs s ! i" and l = "locked_pc k"])
        (use F ML_parked s' up in \<open>cases k; auto simp add: region_simps split: if_splits\<close>)+
    then show ?thesis using ML_parked by (simp add: next_simps)
  next
    case (ML_unguard k)
    with step have s': "s' = s\<lparr>t_guard := 0, t_pc := (t_pc s)(i := locked_pc k)\<rparr>"
      by (auto simp: step_simps split: if_splits)
    have "at_inv ms cs s'"
      by (rule at_inv_step [OF inv i, where p = "t_procs s ! i" and l = "locked_pc k"])
        (use F ML_unguard s' in \<open>cases k; simp add: region_simps\<close>)+
    then show ?thesis using ML_unguard by (simp add: next_simps)
  qed (use step in simp_all)
qed

lemma sint_pid: "0 < p \<Longrightarrow> p < 2147483648 \<Longrightarrow> sint (word_of_int p :: u32) = p"
  by (simp add: sint_sbintrunc' signed_take_bit_int_eq_self)

lemma find_thread:
  assumes "pids_ok (t_procs s)" and "j < length (t_procs s)"
  shows "first_idx (\<lambda>p. p_pid p = sint (tid s j)) (t_procs s) = Some j"
proof -
  have "sint (tid s j) = p_pid (t_procs s ! j)"
    using assms unfolding tid_def pids_ok_def by (simp add: sint_pid)
  moreover have "k = j" if "k < length (t_procs s)" "p_pid (t_procs s ! k) = p_pid (t_procs s ! j)" for k
    using assms that unfolding pids_ok_def by (metis length_map nth_eq_iff_index_eq nth_map)
  ultimately show ?thesis
    using assms(2) by (intro first_idx_eqI) (auto dest: less_trans)
qed

lemma at_inv_unpark:
  assumes "at_inv ms cs s" and "j < length (t_procs s)" and "t_procs s' = t_procs s"
  shows "t_unpark (tid s j) s' = Ret () (s'\<lparr>t_procs := (t_procs s)[j := unpark_proc (t_procs s ! j)]\<rparr>)"
  using find_thread [of s j] assms inv_qD(1) [of ms cs s] by (simp add: t_unpark_def at_inv_def)

lemma flags_mutex_queue:
  assumes "flags_ok l True c p" and "\<not> in_guard l"
  shows "(\<exists>k. l = ML_park k \<and> \<not> c \<and> set_flags True p) \<or> (\<exists>k. l = ML_parked k \<and> \<not> c \<and> parked_flags True p)"
proof (cases l)
  case (MU_spin u)
  then show ?thesis using assms by (cases u) simp_all
qed (use assms in simp_all)

lemma flags_cond_queue:
  assumes "flags_ok l m True p" and "\<not> in_clock l"
  shows "\<not> m \<and> ((\<exists>k pid. l \<in> {MU_spin (UCv k), MU_test (UCv k), MU_clear (UCv k), MU_remove (UCv k), MU_unpark (UCv k) pid,
       MU_unguard (UCv k), CW_park k}) \<and> set_flags True p \<or> (\<exists>k. l = CW_parked k) \<and> parked_flags True p)"
proof (cases l)
  case (MU_spin u)
  then show ?thesis using assms by (cases u) simp_all
next
  case (MU_test u)
  then show ?thesis using assms by (cases u) simp_all
next
  case (MU_clear u)
  then show ?thesis using assms by (cases u) simp_all
next
  case (MU_remove u)
  then show ?thesis using assms by (cases u) simp_all
next
  case (MU_unpark u pid)
  then show ?thesis using assms by (cases u) simp_all
next
  case (MU_unguard u)
  then show ?thesis using assms by (cases u) simp_all
qed (use assms in simp_all)

lemma unpark_set_flags: "set_flags True p \<Longrightarrow> set_flags False (unpark_proc p)"
  by (auto simp: set_flags_def unpark_proc_def awake_def)

lemma unpark_parked_flags: "parked_flags True p \<Longrightarrow> parked_flags False (unpark_proc p)"
  by (auto simp: parked_flags_def unpark_proc_def awake_def)

lemma pids_ok_update:
  assumes "pids_ok ps" and "p_pid p = p_pid (ps ! j)"
  shows "pids_ok (ps[j := p])"
proof -
  have "map p_pid (ps[j := p]) = map p_pid ps"
    by (cases "j < length ps") (simp_all add: assms(2) map_update list_update_same_conv list_update_beyond)
  then show ?thesis using assms(1) unfolding pids_ok_def by (metis (no_types, lifting) image_iff list.set_map)
qed

lemma tid_update:
  "j < length (t_procs s) \<Longrightarrow> p_pid p = p_pid (t_procs s ! j) \<Longrightarrow> t_procs t = (t_procs s)[j := p] \<Longrightarrow> tid t = tid s"
  by (rule ext) (simp add: tid_def nth_list_update)

text \<open>Taking the first thread off the mutex queue and unparking it hands the mutex over.\<close>

lemma inv_hand_over:
  assumes inv: "at_inv (j # ms) cs s" and i: "i < length (t_procs s)" "t_pc s i = MU_unpark k (tid s j)"
  shows "at_inv ms cs (s\<lparr>t_procs := (t_procs s)[j := unpark_proc (t_procs s ! j)],
     t_pc := (t_pc s)(i := MU_unguard k)\<rparr>)" (is "at_inv ms cs ?t")
proof -
  note I' = conjunct2 [OF conjunct2 [OF inv [unfolded at_inv_def]]]
  note I = inv_qD [OF I']
  let ?n = "length (t_procs s)" and ?p = "unpark_proc (t_procs s ! j)"
  have j: "j < ?n" "j \<notin> set ms" using I(2,4) by auto
  have Fj: "flags_ok (t_pc s j) True (j \<in> set cs) (t_procs s ! j)" using I(10) [OF j(1)] by simp
  have Fi: "flags_ok (t_pc s i) (i \<in> set (j # ms)) (i \<in> set cs) (t_procs s ! i)" using I(10) [OF i(1)] .
  have ij: "i \<noteq> j" using Fi Fj i(2) by (cases k) auto
  have nog: "\<not> in_guard (t_pc s j)" using uniqD [OF I(6) _ _ i(1) j(1)] i(2) ij by auto
  have tid: "tid ?t = tid s" by (rule tid_update [OF j(1)]) simp_all
  have q: "pq_rep (t_mq s) (map (tid s) ms)" using at_inv_waking(1) [OF inv i(1)] i(2) by auto
  have h: "handing m_wakes ?n (t_pc ?t) (map (tid s) ms) (t_mq s)" "handing c_wakes ?n (t_pc ?t) (map (tid s) cs) (t_cq s)"
    using handing_queue [OF q] at_inv_alone(1) [OF inv i(1)] handing_keep [of c_wakes _ "t_pc s" _ "t_cq s"] inv i(2)
    by (auto simp: at_inv_def)
  have "uniq ?n (\<lambda>a. in_guard (t_pc ?t a)) (t_guard s \<noteq> 0)"
    by (rule uniq_keep [OF I(6)]) (use i in auto)
  moreover have "uniq ?n (\<lambda>a. in_clock (t_pc ?t a)) (q_clock (t_cq s) \<noteq> 0)"
    by (rule uniq_keep [OF I(7)]) (use i in auto)
  moreover have "uniq ?n (owner ms (t_pc ?t)) (t_flag s \<noteq> 0)"
  proof (rule uniq_pass [OF I(8) i(1)])
    show "owner (j # ms) (t_pc s) i" "\<not> owner ms (t_pc ?t) i" using i(2) by (simp_all add: owner_def)
    show "j < ?n" by (rule j(1))
    show "owner ms (t_pc ?t) j" using flags_mutex_queue [OF Fj nog] ij j(2) by (auto simp: owner_def)
    show "owner ms (t_pc ?t) a = owner (j # ms) (t_pc s) a" if "a \<noteq> i" "a \<noteq> j" for a
      using that by (simp add: owner_def)
  qed
  moreover have "flags_ok (t_pc ?t a) (a \<in> set ms) (a \<in> set cs) (t_procs ?t ! a)" if a: "a < ?n" for a
  proof (cases "a = j")
    case True
    then show ?thesis using flags_mutex_queue [OF Fj nog] ij j by (auto simp: unpark_set_flags unpark_parked_flags)
  next
    case False
    then show ?thesis using I(10) [OF a] i(2) by (cases k) auto
  qed
  moreover have "fact_ok (t_pc ?t a) (t_flag s = 0) (ms = []) (cs = [])" if a: "a < ?n" for a
    using facts_other [OF I' i(1) a, of "t_flag s" ms cs] i(2) by (cases "a = i") auto
  moreover have "pids_ok (t_procs ?t)" using pids_ok_update [OF I(1)] by simp
  moreover have "t_flag s \<noteq> 0" by (rule uniq_holder [OF I(8) _ i(1)]) (simp add: owner_def i(2))
  ultimately have "inv_q ms cs ?t" unfolding inv_q_def using I(2,3,4,5) by simp
  then show ?thesis using h by (simp add: at_inv_def tid)
qed

text \<open>Unparking the thread that was first in the queue of the condition variable.\<close>

lemma inv_signal:
  assumes inv: "at_inv ms (j # cs) s" and i: "i < length (t_procs s)"
    and l: "t_pc s i = CS_unpark k (tid s j) \<and> l = CS_unlock k \<or> t_pc s i = CB_unpark k (tid s j) \<and> l = CB_test k"
  shows "at_inv ms cs (s\<lparr>t_procs := (t_procs s)[j := unpark_proc (t_procs s ! j)], t_pc := (t_pc s)(i := l)\<rparr>)" (is "at_inv ms cs ?t")
proof -
  note I' = conjunct2 [OF conjunct2 [OF inv [unfolded at_inv_def]]]
  note I = inv_qD [OF I']
  let ?n = "length (t_procs s)" and ?p = "unpark_proc (t_procs s ! j)"
  have j: "j < ?n" "j \<notin> set cs" using I(3,5) by auto
  have Fj: "flags_ok (t_pc s j) (j \<in> set ms) True (t_procs s ! j)" using I(10) [OF j(1)] by simp
  have Fi: "flags_ok (t_pc s i) (i \<in> set ms) (i \<in> set (j # cs)) (t_procs s ! i)" using I(10) [OF i] .
  have inot: "i \<notin> set ms" "i \<notin> set (j # cs)" using Fi l by auto
  then have ij: "i \<noteq> j" by auto
  have nog: "\<not> in_clock (t_pc s j)" using uniqD [OF I(7) _ _ i j(1)] l ij by auto
  have tid: "tid ?t = tid s" by (rule tid_update [OF j(1)]) simp_all
  have q: "pq_rep (t_cq s) (map (tid s) cs)" using at_inv_waking(2) [OF inv i] l by auto
  have h: "handing m_wakes ?n (t_pc ?t) (map (tid s) ms) (t_mq s)" "handing c_wakes ?n (t_pc ?t) (map (tid s) cs) (t_cq s)"
    using handing_queue [OF q] at_inv_alone(2) [OF inv i] handing_keep [of m_wakes _ "t_pc s" _ "t_mq s"] inv l
    by (auto simp: at_inv_def)
  have "uniq ?n (\<lambda>a. in_guard (t_pc ?t a)) (t_guard s \<noteq> 0)"
    by (rule uniq_keep [OF I(6)]) (use l in auto)
  moreover have "uniq ?n (\<lambda>a. in_clock (t_pc ?t a)) (q_clock (t_cq s) \<noteq> 0)"
    by (rule uniq_keep [OF I(7)]) (use i l in auto)
  moreover have "uniq ?n (owner ms (t_pc ?t)) (t_flag s \<noteq> 0)"
    by (rule uniq_keep [OF I(8)]) (use l in \<open>auto simp: owner_def\<close>)
  moreover have "flags_ok (t_pc ?t a) (a \<in> set ms) (a \<in> set cs) (t_procs ?t ! a)" if a: "a < ?n" for a
  proof -
    consider "a = j" | "a = i" | "a \<noteq> j" "a \<noteq> i" by blast
    then show ?thesis
    proof cases
      case 1
      then show ?thesis using flags_cond_queue [OF Fj nog] ij j
        by (auto simp: unpark_set_flags unpark_parked_flags)
    next
      case 2
      then show ?thesis using Fi inot ij l by auto
    next
      case 3
      then show ?thesis using I(10) [OF a] by simp
    qed
  qed
  moreover have "fact_ok (t_pc ?t a) (t_flag s = 0) (ms = []) (cs = [])" if a: "a < ?n" for a
    using facts_other [OF I' i a, of "t_flag s" ms cs] l by (cases "a = i") auto
  moreover have "pids_ok (t_procs ?t)" using pids_ok_update [OF I(1)] by simp
  ultimately have "inv_q ms cs ?t" unfolding inv_q_def using I(2,3,4,5,9) by simp
  then show ?thesis using h by (simp add: at_inv_def tid)
qed

lemma queue_add_clock: "queue_add new pid q = Ret u q' \<Longrightarrow> q_clock q' = q_clock q"
  by (auto simp: queue_add_def q_store_def q_deref_def split: if_splits option.splits outcome.splits)

lemma queue_remove_clock: "queue_remove q = Ret pid q' \<Longrightarrow> q_clock q' = q_clock q"
  by (auto simp: queue_remove_def q_deref_def split: if_splits option.splits outcome.splits)

lemma mutex_unlock_inv:
  assumes inv: "at_inv ms cs s" and i: "i < length (t_procs s)"
    and step: "mutex_unlock i (t_pc s i) s = Ret () s'"
  shows "at_inv (mq_next s i ms) (cq_next s i cs) s'"
proof -
  note F = at_invD [OF inv i]
  show ?thesis
  proof (cases "t_pc s i")
    case (MU_spin u)
    with step have s': "s' = s\<lparr>t_guard := 1, t_pc := (t_pc s)(i := MU_test u)\<rparr>" "t_guard s = 0"
      by (auto simp: step_simps split: if_splits)
    have "at_inv ms cs s'"
      by (rule at_inv_step [OF inv i, where p = "t_procs s ! i" and l = "MU_test u"])
        (use F MU_spin s' in \<open>cases u; simp add: region_simps\<close>)+
    then show ?thesis using MU_spin by (simp add: next_simps)
  next
    case (MU_test u)
    have rep: "queue_empty (t_mq s) \<longleftrightarrow> ms = []" using pidq.is_empty_law at_inv_rep(1) [OF inv i] MU_test by simp
    with step MU_test have s': "s' = s\<lparr>t_pc := (t_pc s)(i := if ms = [] then MU_clear u else MU_remove u)\<rparr>"
      by (simp add: step_simps)
    have "at_inv ms cs s'"
      by (rule at_inv_step [OF inv i, where p = "t_procs s ! i" and l = "if ms = [] then MU_clear u else MU_remove u"])
        (use F MU_test s' in \<open>cases u; simp add: region_simps\<close>)+
    then show ?thesis using MU_test by (simp add: next_simps)
  next
    case (MU_clear u)
    with step have s': "s' = s\<lparr>t_flag := 0, t_pc := (t_pc s)(i := MU_unguard u)\<rparr>"
      by (simp add: step_simps)
    have "at_inv ms cs s'"
      by (rule at_inv_step [OF inv i, where p = "t_procs s ! i" and l = "MU_unguard u"])
        (use F MU_clear s' in \<open>cases u; simp add: region_simps\<close>)+
    then show ?thesis using MU_clear by (simp add: next_simps)
  next
    case (MU_remove u)
    then obtain j ms' where ms: "ms = j # ms'" using F(8) by (cases ms) auto
    obtain q where q: "queue_remove (t_mq s) = Ret (tid s j) q" "pq_rep q (map (tid s) ms')"
      using at_inv_rep(1) [OF inv i] MU_remove ms by (auto elim: pidq.remove_ret)
    with step MU_remove have s': "s' = s\<lparr>t_mq := q, t_pc := (t_pc s)(i := MU_unpark u (tid s j))\<rparr>"
      by (simp add: step_simps)
    have h: "handing m_wakes (length (t_procs s)) (t_pc s') (map (tid s) ms) (t_mq s')"
      "handing c_wakes (length (t_procs s)) (t_pc s') (map (tid s) cs) (t_cq s')"
      using handing_start [OF q(2) i] at_inv_alone(1) [OF inv i] handing_keep [of c_wakes _ "t_pc s" _ "t_cq s"] inv MU_remove ms
      by (auto simp: s' at_inv_def)
    have "at_inv ms cs s'"
      by (rule at_inv_local [OF inv i h, where p = "t_procs s ! i" and l = "MU_unpark u (tid s j)"])
        (use F MU_remove s' in \<open>cases u; simp add: region_simps\<close>)+
    then show ?thesis using MU_remove by (simp add: next_simps)
  next
    case (MU_unpark u pid)
    then obtain j ms' where j: "ms = j # ms'" "pid = tid s j" "j < length (t_procs s)" using at_inv_waking(1) [OF inv i] by auto
    have "s' = s\<lparr>t_procs := (t_procs s)[j := unpark_proc (t_procs s ! j)], t_pc := (t_pc s)(i := MU_unguard u)\<rparr>"
      using step MU_unpark at_inv_unpark [OF inv j(3), of s] j(2) by (simp add: goto_def)
    with inv_hand_over [OF inv [unfolded j(1)] i] MU_unpark j show ?thesis by (simp add: next_simps)
  next
    case (MU_unguard u)
    with step have s': "s' = s\<lparr>t_guard := 0, t_pc := (t_pc s)(i := unlocked_pc u)\<rparr>"
      by (auto simp: step_simps split: if_splits)
    have "at_inv ms cs s'"
      by (rule at_inv_step [OF inv i, where p = "t_procs s ! i" and l = "unlocked_pc u"])
        (use F MU_unguard s' in \<open>cases u; simp add: region_simps\<close>)+
    then show ?thesis using MU_unguard by (simp add: next_simps)
  qed (use step in simp_all)
qed

lemma cv_wait_inv:
  assumes inv: "at_inv ms cs s" and i: "i < length (t_procs s)"
    and new: "malloc_ok s new" and up: "awake (t_procs s ! i)"
    and step: "cv_wait new i (t_pc s i) s = Ret () s'"
  shows "at_inv (mq_next s i ms) (cq_next s i cs) s'"
proof -
  note F = at_invD [OF inv i]
  show ?thesis
  proof (cases "t_pc s i")
    case (CW_spin k)
    with step have s': "s' = s\<lparr>t_cq := (t_cq s)\<lparr>q_clock := 1\<rparr>, t_pc := (t_pc s)(i := CW_add k)\<rparr>" "q_clock (t_cq s) = 0"
      by (auto simp: step_simps split: if_splits)
    have "at_inv ms cs s'"
      by (rule at_inv_step [OF inv i, where p = "t_procs s ! i" and l = "CW_add k"])
        (use F CW_spin s' in \<open>simp_all add: region_simps\<close>)
    then show ?thesis using CW_spin by (simp add: next_simps)
  next
    case (CW_add k)
    have new0: "new \<noteq> 0" using step CW_add by (auto simp: step_simps queue_add_def split: if_splits)
    have "pq_rep (t_cq s) (map (tid s) cs)" "pq_fresh (t_cq s) new"
      using at_inv_rep(2) [OF inv i] CW_add new new0 by (simp_all add: malloc_ok_def)
    then obtain q where q: "queue_add new (tid s i) (t_cq s) = Ret () q" "pq_rep q (map (tid s) (cs @ [i]))"
      using pidq.add_law by fastforce
    with step CW_add have s': "s' = s\<lparr>t_cq := q, t_pc := (t_pc s)(i := CW_setpark k)\<rparr>"
      by (auto simp: step_simps)
    have h: "handing m_wakes (length (t_procs s)) (t_pc s') (map (tid s) ms) (t_mq s')"
      "handing c_wakes (length (t_procs s)) (t_pc s') (map (tid s) (cs @ [i])) (t_cq s')"
      using handing_queue [OF q(2)] at_inv_alone(2) [OF inv i] handing_keep [of m_wakes _ "t_pc s" _ "t_mq s"] inv CW_add
      by (auto simp: s' at_inv_def)
    have "at_inv ms (cs @ [i]) s'"
      by (rule at_inv_local [OF inv i h, where p = "t_procs s ! i" and l = "CW_setpark k"])
        (use F CW_add s' q queue_add_clock [OF q(1)] in \<open>simp_all add: region_simps\<close>)
    then show ?thesis using CW_add by (simp add: next_simps)
  next
    case (CW_setpark k)
    with step have s': "s' = s\<lparr>t_procs := (t_procs s)[i := setpark_proc (t_procs s ! i)], t_pc := (t_pc s)(i := CW_unlock k)\<rparr>"
      by (auto simp: step_simps)
    have "at_inv ms cs s'"
      by (rule at_inv_step [OF inv i, where p = "setpark_proc (t_procs s ! i)" and l = "CW_unlock k"])
        (use F CW_setpark s' in \<open>simp_all add: region_simps setpark_proc_def\<close>)
    then show ?thesis using CW_setpark by (simp add: next_simps)
  next
    case (CW_unlock k)
    with step have s': "s' = s\<lparr>t_cq := (t_cq s)\<lparr>q_clock := 0\<rparr>, t_pc := (t_pc s)(i := MU_spin (UCv k))\<rparr>"
      by (auto simp: step_simps)
    have "at_inv ms cs s'"
      by (rule at_inv_step [OF inv i, where p = "t_procs s ! i" and l = "MU_spin (UCv k)"])
        (use F CW_unlock s' in \<open>simp_all add: region_simps\<close>)
    then show ?thesis using CW_unlock by (simp add: next_simps)
  next
    case (CW_park k)
    with step have s': "s' = s\<lparr>t_procs := (t_procs s)[i := park_proc (t_procs s ! i)], t_pc := (t_pc s)(i := CW_parked k)\<rparr>"
      by (auto simp: step_simps)
    have "at_inv ms cs s'"
      by (rule at_inv_step [OF inv i, where p = "park_proc (t_procs s ! i)" and l = "CW_parked k"])
        (use F CW_park s' in \<open>simp_all add: region_simps park_proc_def\<close>)
    then show ?thesis using CW_park by (simp add: next_simps)
  next
    case (CW_parked k)
    with step have s': "s' = s\<lparr>t_pc := (t_pc s)(i := ML_spin k)\<rparr>" by (simp add: step_simps)
    have "at_inv ms cs s'"
      by (rule at_inv_step [OF inv i, where p = "t_procs s ! i" and l = "ML_spin k"])
        (use F CW_parked s' up in \<open>auto simp add: region_simps split: if_splits\<close>)
    then show ?thesis using CW_parked by (simp add: next_simps)
  qed (use step in simp_all)
qed

lemma remove_cq_inv:
  assumes inv: "at_inv ms cs s" and i: "i < length (t_procs s)"
    and l: "t_pc s i = CS_remove k \<and> (\<forall>pid. l pid = CS_unpark k pid) \<or> t_pc s i = CB_remove k \<and> (\<forall>pid. l pid = CB_unpark k pid)"
    and step: "bindP (on_cq queue_remove) (\<lambda>pid. goto i (l pid)) s = Ret () s'"
  shows "at_inv ms cs s'"
proof -
  note F = at_invD [OF inv i]
  obtain j cs' where cs: "cs = j # cs'" using F(8) l by (cases cs) auto
  obtain q where q: "queue_remove (t_cq s) = Ret (tid s j) q" "pq_rep q (map (tid s) cs')"
    using at_inv_rep(2) [OF inv i] l cs pidq.remove_law [of "t_cq s" "tid s j" "map (tid s) cs'"] by auto
  with step have s': "s' = s\<lparr>t_cq := q, t_pc := (t_pc s)(i := l (tid s j))\<rparr>"
    by (simp add: step_simps)
  have h: "handing m_wakes (length (t_procs s)) (t_pc s') (map (tid s) ms) (t_mq s')"
    "handing c_wakes (length (t_procs s)) (t_pc s') (map (tid s) cs) (t_cq s')"
    using handing_start [OF q(2) i] at_inv_alone(2) [OF inv i] handing_keep [of m_wakes _ "t_pc s" _ "t_mq s"] inv l cs
    by (auto simp: s' at_inv_def)
  show ?thesis
    by (rule at_inv_local [OF inv i h, where p = "t_procs s ! i" and l = "l (tid s j)"])
      (use F l s' queue_remove_clock [OF q(1)] in \<open>auto simp: region_simps\<close>)
qed

lemma unpark_cq_inv:
  assumes inv: "at_inv ms cs s" and i: "i < length (t_procs s)"
    and l: "t_pc s i = CS_unpark k pid \<and> l = CS_unlock k \<or> t_pc s i = CB_unpark k pid \<and> l = CB_test k"
    and step: "thenP (t_unpark pid) (goto i l) s = Ret () s'"
  shows "at_inv ms (tl cs) s'"
proof -
  obtain j cs' where j: "cs = j # cs'" "pid = tid s j" "j < length (t_procs s)" using at_inv_waking(2) [OF inv i] l by auto
  have "s' = s\<lparr>t_procs := (t_procs s)[j := unpark_proc (t_procs s ! j)], t_pc := (t_pc s)(i := l)\<rparr>"
    using step at_inv_unpark [OF inv j(3), of s] j(2) by (simp add: goto_def)
  with inv_signal [OF inv [unfolded j(1)] i] l j show ?thesis by auto
qed

lemma cv_signal_inv:
  assumes inv: "at_inv ms cs s" and i: "i < length (t_procs s)"
    and step: "cv_signal i (t_pc s i) s = Ret () s'"
  shows "at_inv (mq_next s i ms) (cq_next s i cs) s'"
proof -
  note F = at_invD [OF inv i]
  show ?thesis
  proof (cases "t_pc s i")
    case (CS_spin k)
    with step have s': "s' = s\<lparr>t_cq := (t_cq s)\<lparr>q_clock := 1\<rparr>, t_pc := (t_pc s)(i := CS_test k)\<rparr>" "q_clock (t_cq s) = 0"
      by (auto simp: step_simps split: if_splits)
    have "at_inv ms cs s'"
      by (rule at_inv_step [OF inv i, where p = "t_procs s ! i" and l = "CS_test k"])
        (use F CS_spin s' in \<open>simp_all add: region_simps\<close>)
    then show ?thesis using CS_spin by (simp add: next_simps)
  next
    case (CS_test k)
    have rep: "queue_empty (t_cq s) \<longleftrightarrow> cs = []" using pidq.is_empty_law at_inv_rep(2) [OF inv i] CS_test by simp
    with step CS_test have s': "s' = s\<lparr>t_pc := (t_pc s)(i := if cs \<noteq> [] then CS_remove k else CS_unlock k)\<rparr>"
      by (simp add: step_simps)
    have "at_inv ms cs s'"
      by (rule at_inv_step [OF inv i, where p = "t_procs s ! i" and l = "if cs \<noteq> [] then CS_remove k else CS_unlock k"])
        (use F CS_test s' in \<open>simp_all add: region_simps\<close>)
    then show ?thesis using CS_test by (simp add: next_simps)
  next
    case (CS_remove k)
    then show ?thesis using remove_cq_inv [OF inv i, of k "CS_unpark k" s'] step by (simp add: next_simps)
  next
    case (CS_unpark k pid)
    then show ?thesis using unpark_cq_inv [OF inv i, of k pid] step by (simp add: next_simps)
  next
    case (CS_unlock k)
    with step have s': "s' = s\<lparr>t_cq := (t_cq s)\<lparr>q_clock := 0\<rparr>, t_pc := (t_pc s)(i := signalled_pc k)\<rparr>"
      by (simp add: step_simps)
    have "at_inv ms cs s'"
      by (rule at_inv_step [OF inv i, where p = "t_procs s ! i" and l = "signalled_pc k"])
        (use F CS_unlock s' in \<open>cases k; simp add: region_simps\<close>)+
    then show ?thesis using CS_unlock by (simp add: next_simps)
  qed (use step in simp_all)
qed

lemma cv_broadcast_inv:
  assumes inv: "at_inv ms cs s" and i: "i < length (t_procs s)"
    and step: "cv_broadcast i (t_pc s i) s = Ret () s'"
  shows "at_inv (mq_next s i ms) (cq_next s i cs) s'"
proof -
  note F = at_invD [OF inv i]
  show ?thesis
  proof (cases "t_pc s i")
    case (CB_spin k)
    with step have s': "s' = s\<lparr>t_cq := (t_cq s)\<lparr>q_clock := 1\<rparr>, t_pc := (t_pc s)(i := CB_test k)\<rparr>" "q_clock (t_cq s) = 0"
      by (auto simp: step_simps split: if_splits)
    have "at_inv ms cs s'"
      by (rule at_inv_step [OF inv i, where p = "t_procs s ! i" and l = "CB_test k"])
        (use F CB_spin s' in \<open>simp_all add: region_simps\<close>)
    then show ?thesis using CB_spin by (simp add: next_simps)
  next
    case (CB_test k)
    have rep: "queue_empty (t_cq s) \<longleftrightarrow> cs = []" using pidq.is_empty_law at_inv_rep(2) [OF inv i] CB_test by simp
    with step CB_test have s': "s' = s\<lparr>t_pc := (t_pc s)(i := if cs \<noteq> [] then CB_remove k else CB_unlock k)\<rparr>"
      by (simp add: step_simps)
    have "at_inv ms cs s'"
      by (rule at_inv_step [OF inv i, where p = "t_procs s ! i" and l = "if cs \<noteq> [] then CB_remove k else CB_unlock k"])
        (use F CB_test s' in \<open>simp_all add: region_simps\<close>)
    then show ?thesis using CB_test by (simp add: next_simps)
  next
    case (CB_remove k)
    then show ?thesis using remove_cq_inv [OF inv i, of k "CB_unpark k" s'] step by (simp add: next_simps)
  next
    case (CB_unpark k pid)
    then show ?thesis using unpark_cq_inv [OF inv i, of k pid] step by (simp add: next_simps)
  next
    case (CB_unlock k)
    with step have s': "s' = s\<lparr>t_cq := (t_cq s)\<lparr>q_clock := 0\<rparr>, t_pc := (t_pc s)(i := signalled_pc k)\<rparr>"
      by (simp add: step_simps)
    have "at_inv ms cs s'"
      by (rule at_inv_step [OF inv i, where p = "t_procs s ! i" and l = "signalled_pc k"])
        (use F CB_unlock s' in \<open>cases k; simp add: region_simps\<close>)+
    then show ?thesis using CB_unlock by (simp add: next_simps)
  qed (use step in simp_all)
qed

lemma shift_stay: "(a \<Longrightarrow> w) \<Longrightarrow> shift a a w w"
  by (auto simp: shift_def)

text \<open>Steps that change only the program counter and the value of the semaphore.\<close>

lemma plain_inv:
  assumes inv: "at_inv ms cs s" and i: "i < length (t_procs s)"
    and s': "t_procs s' = t_procs s" "t_pc s' = (t_pc s)(i := l)" "t_mq s' = t_mq s" "t_cq s' = t_cq s"
      "t_guard s' = t_guard s" "t_flag s' = t_flag s"
    and l: "in_guard l = in_guard (t_pc s i)" "in_clock l = in_clock (t_pc s i)"
      "holds_mutex l = holds_mutex (t_pc s i)" "in_mutex_queue l = in_mutex_queue (t_pc s i)"
      "\<And>m c p. flags_ok l m c p = flags_ok (t_pc s i) m c p" "\<And>f m c. fact_ok l f m c"
      "m_wakes l = m_wakes (t_pc s i)" "c_wakes l = c_wakes (t_pc s i)"
  shows "at_inv ms cs s'"
proof -
  note F = at_invD [OF inv i]
  have "owner ms (t_pc s') i = owner ms (t_pc s) i" using s' l by (simp add: owner_def)
  then show ?thesis
    by (intro at_inv_step [OF inv i, where p = "t_procs s ! i" and l = l])
      (use F s' l in \<open>simp_all add: shift_stay\<close>)
qed

lemma sem_wait_inv:
  assumes inv: "at_inv ms cs s" and i: "i < length (t_procs s)"
    and step: "sem_wait i (t_pc s i) s = Ret () s'"
  shows "at_inv (mq_next s i ms) (cq_next s i cs) s'"
proof -
  have "at_inv ms cs s'"
  proof (cases "t_pc s i")
    case SW_test
    with step have "s' = s\<lparr>t_pc := (t_pc s)(i := if t_value s \<le> 0 then CW_spin KWait else SW_load)\<rparr>"
      by (auto simp: goto_def split: if_splits)
    with SW_test show ?thesis by (intro plain_inv [OF inv i, where l = "if t_value s \<le> 0 then CW_spin KWait else SW_load"]) simp_all
  next
    case SW_load
    with step have "s' = s\<lparr>t_pc := (t_pc s)(i := SW_store (t_value s))\<rparr>" by (auto simp: goto_def)
    with SW_load show ?thesis by (intro plain_inv [OF inv i, where l = "SW_store (t_value s)"]) simp_all
  next
    case (SW_store v)
    with step have "s' = s\<lparr>t_value := int32 (v - 1), t_waits := t_waits s + 1, t_pc := (t_pc s)(i := MU_spin UDone)\<rparr>"
      by (auto simp: goto_def)
    with SW_store show ?thesis by (intro plain_inv [OF inv i, where l = "MU_spin UDone"]) simp_all
  qed (use step in simp_all)
  with step show ?thesis by (cases "t_pc s i") (simp_all add: next_simps)
qed

lemma sem_post_inv:
  assumes inv: "at_inv ms cs s" and i: "i < length (t_procs s)"
    and step: "sem_post i (t_pc s i) s = Ret () s'"
  shows "at_inv (mq_next s i ms) (cq_next s i cs) s'"
proof -
  have "at_inv ms cs s'"
  proof (cases "t_pc s i")
    case SP_load
    with step have "s' = s\<lparr>t_pc := (t_pc s)(i := SP_store (t_value s))\<rparr>" by (auto simp: goto_def)
    with SP_load show ?thesis by (intro plain_inv [OF inv i, where l = "SP_store (t_value s)"]) simp_all
  next
    case (SP_store v)
    with step have "s' = s\<lparr>t_value := int32 (v + 1), t_posts := t_posts s + 1, t_pc := (t_pc s)(i := CS_spin SPost)\<rparr>"
      by (auto simp: goto_def)
    with SP_store show ?thesis by (intro plain_inv [OF inv i, where l = "CS_spin SPost"]) simp_all
  qed (use step in simp_all)
  with step show ?thesis by (cases "t_pc s i") (simp_all add: next_simps)
qed

lemma client_inv:
  assumes inv: "at_inv ms cs s" and i: "i < length (t_procs s)" and l: "client c (t_pc s i) = Some l"
  shows "at_inv (mq_next s i ms) (cq_next s i cs) (s\<lparr>t_pc := (t_pc s)(i := l)\<rparr>)"
proof -
  consider "t_pc s i = Idle" | "t_pc s i = Crit" using l by (auto simp: client_def split: if_splits)
  then show ?thesis
  proof cases
    case 1
    then have "at_inv ms cs (s\<lparr>t_pc := (t_pc s)(i := l)\<rparr>)" using l by (intro plain_inv [OF inv i, where l = l]) (auto simp: client_def split: cmd.splits)
    then show ?thesis using 1 by (simp add: next_simps)
  next
    case 2
    then have "at_inv ms cs (s\<lparr>t_pc := (t_pc s)(i := l)\<rparr>)"
      using l by (intro plain_inv [OF inv i, where l = l]) (auto simp: client_def split: cmd.splits)
    then show ?thesis using 2 by (simp add: next_simps)
  qed
qed

lemma run_pcE:
  assumes "run_pc c new i l s = Ret () s'"
  obtains (client) l' where "client c l = Some l'" and "s' = s\<lparr>t_pc := (t_pc s)(i := l')\<rparr>"
    | (lock) "mutex_lock new i l s = Ret () s'" | (unlock) "mutex_unlock i l s = Ret () s'"
    | (wait) "cv_wait new i l s = Ret () s'" | (signal) "cv_signal i l s = Ret () s'"
    | (broadcast) "cv_broadcast i l s = Ret () s'"
    | (sem_wait) "sem_wait i l s = Ret () s'" | (sem_post) "sem_post i l s = Ret () s'"
proof (cases l)
  case Idle
  then show ?thesis using assms client by (auto simp: run_pc_def goto_def split: option.splits)
next
  case Crit
  then show ?thesis using assms client by (auto simp: run_pc_def goto_def split: option.splits)
qed (use assms lock unlock wait signal broadcast sem_wait sem_post in \<open>unfold run_pc_def, simp_all only: pc.case\<close>)

lemma tstepE:
  assumes "tstep c new i s = Ret () s'"
  obtains "awake (t_procs s ! i)" and "run_pc c new i (t_pc s i) s = Ret () s'"
  using assms by (auto simp: tstep_def split: if_splits)

lemma tstep_inv:
  assumes "at_inv ms cs s" and "i < length (t_procs s)" and "malloc_ok s new"
    and step: "tstep c new i s = Ret () s'"
  shows "at_inv (mq_next s i ms) (cq_next s i cs) s'"
proof -
  from step obtain up: "awake (t_procs s ! i)" and run: "run_pc c new i (t_pc s i) s = Ret () s'" by (rule tstepE)
  from run show ?thesis
  proof (cases rule: run_pcE)
    case (client l')
    then show ?thesis using client_inv [OF assms(1,2)] by blast
  qed (use mutex_lock_inv [OF assms(1-3) up] mutex_unlock_inv [OF assms(1,2)] cv_wait_inv [OF assms(1-3) up]
      cv_signal_inv [OF assms(1,2)] cv_broadcast_inv [OF assms(1,2)] sem_wait_inv [OF assms(1,2)]
      sem_post_inv [OF assms(1,2)] in blast)+
qed

lemma sem_init_eq:
  assumes "sem_init v mal s0 = Ret () s"
  shows "\<exists>mq cq. s = s0\<lparr>t_cq := cq, t_flag := 0, t_guard := 0, t_mq := mq, t_value := int32 v\<rparr> \<and>
     pq_rep mq [] \<and> pq_rep cq [] \<and> q_clock cq = 0"
proof -
  have nz: "mal 2 \<noteq> 0" "mal 6 \<noteq> 0"
    using assms by (auto simp: sem_init_def cv_init_def mutex_init_def queue_init_def split: if_splits outcome.splits)
  obtain cq where cq: "queue_init (mal 2) (t_cq s0) = Ret () cq" "pq_rep cq []" "q_clock cq = 0"
    using queue_init_rep [OF nz(1)] by blast
  obtain mq where mq: "queue_init (mal 6) (t_mq s0) = Ret () mq" "pq_rep mq []"
    using queue_init_rep [OF nz(2)] by blast
  have "s = s0\<lparr>t_cq := cq, t_flag := 0, t_guard := 0, t_mq := mq, t_value := int32 v\<rparr>"
    using assms cq(1) mq(1) by (auto simp: sem_init_def cv_init_def mutex_init_def spin_init_def split: if_splits)
  with cq mq show ?thesis by blast
qed

lemma init_inv:
  assumes "boot s0" and "sem_init v mal s0 = Ret () s"
  shows "at_inv [] [] s"
proof -
  obtain mq cq where s: "s = s0\<lparr>t_cq := cq, t_flag := 0, t_guard := 0, t_mq := mq, t_value := int32 v\<rparr>"
    "pq_rep mq []" "pq_rep cq []" "q_clock cq = 0"
    using sem_init_eq [OF assms(2)] by blast
  with assms(1) show ?thesis
    by (simp add: at_inv_def inv_q_def boot_def uniq_def owner_def handing_def)
qed

lemma treach_inv:
  assumes "treach C s t" and "at_inv [] [] s"
  shows "\<exists>ms cs. at_inv ms cs t"
  using assms
proof (induction rule: treach.induct)
  case start
  then show ?case by blast
next
  case (move t c i new u)
  then show ?case using tstep_inv by blast
qed

section \<open>Progress\<close>

text \<open>A thread that owns the mutex is never asleep.\<close>

lemma owner_awake:
  assumes "flags_ok l m c p" and "holds_mutex l \<or> in_mutex_queue l \<and> \<not> m"
  shows "awake p"
proof (cases l)
  case (MU_spin u)
  then show ?thesis using assms by (cases u) (auto simp: idle_flags_def set_flags_def)
next
  case (MU_test u)
  then show ?thesis using assms by (cases u) (auto simp: idle_flags_def set_flags_def)
next
  case (MU_clear u)
  then show ?thesis using assms by (cases u) (auto simp: idle_flags_def set_flags_def)
next
  case (MU_remove u)
  then show ?thesis using assms by (cases u) (auto simp: idle_flags_def set_flags_def)
next
  case (MU_unpark u pid)
  then show ?thesis using assms by (cases u) (auto simp: idle_flags_def set_flags_def)
qed (use assms in \<open>auto simp: idle_flags_def set_flags_def parked_flags_def\<close>)

lemma asleep_parked:
  assumes "flags_ok l m c p" and "\<not> awake p"
  shows "p_state p = SLEEPING \<and> ((\<exists>k. l = ML_parked k) \<and> m \<or> (\<exists>k. l = CW_parked k) \<and> c)"
proof (cases l)
  case (MU_spin u)
  then show ?thesis using assms by (cases u) (auto simp: idle_flags_def set_flags_def)
next
  case (MU_test u)
  then show ?thesis using assms by (cases u) (auto simp: idle_flags_def set_flags_def)
next
  case (MU_clear u)
  then show ?thesis using assms by (cases u) (auto simp: idle_flags_def set_flags_def)
next
  case (MU_remove u)
  then show ?thesis using assms by (cases u) (auto simp: idle_flags_def set_flags_def)
next
  case (MU_unpark u pid)
  then show ?thesis using assms by (cases u) (auto simp: idle_flags_def set_flags_def)
next
  case (MU_unguard u)
  then show ?thesis using assms by (cases u) (auto simp: idle_flags_def set_flags_def)
qed (use assms in \<open>auto simp: idle_flags_def set_flags_def parked_flags_def split: if_splits\<close>)

lemma region_awake:
  assumes "flags_ok l m c p" and "in_guard l \<or> in_clock l"
  shows "awake p"
  using asleep_parked [OF assms(1)] assms(2) by fastforce

text \<open>A step of an awake thread returns, unless it spins on a lock word that is taken.\<close>

lemma lock_returns:
  assumes inv: "at_inv ms cs s" and i: "i < length (t_procs s)" and new: "t_pc s i = ML_add k \<Longrightarrow> pq_fresh (t_mq s) new"
    and l: "t_pc s i \<in> {ML_test k, ML_take k, ML_add k, ML_setpark k, ML_unguard_park k, ML_park k, ML_parked k, ML_unguard k}
       \<or> t_pc s i = ML_spin k \<and> t_guard s = 0"
  shows "\<exists>s'. mutex_lock new i (t_pc s i) s = Ret () s'"
proof (cases "t_pc s i = ML_add k")
  case True
  then obtain q where "queue_add new (tid s i) (t_mq s) = Ret () q"
    using pidq.add_ret [OF at_inv_rep(1) [OF inv i] new [OF True]] by auto
  then show ?thesis using True by (simp add: step_simps)
qed (use l in \<open>auto simp: step_simps\<close>)

lemma unlock_returns:
  assumes inv: "at_inv ms cs s" and i: "i < length (t_procs s)"
    and l: "t_pc s i \<in> {MU_test u, MU_clear u, MU_remove u, MU_unpark u pid, MU_unguard u} \<or> t_pc s i = MU_spin u \<and> t_guard s = 0"
  shows "\<exists>s'. mutex_unlock i (t_pc s i) s = Ret () s'"
proof -
  consider "t_pc s i = MU_remove u" | "t_pc s i = MU_unpark u pid" | "t_pc s i \<noteq> MU_remove u" "t_pc s i \<noteq> MU_unpark u pid" by blast
  then show ?thesis
  proof cases
    case 1
    then obtain j ms' where ms: "ms = j # ms'" using at_invD(8) [OF inv i] by (cases ms) auto
    obtain q where "queue_remove (t_mq s) = Ret (tid s j) q"
      using at_inv_rep(1) [OF inv i] 1 ms by (auto elim: pidq.remove_ret)
    then show ?thesis using 1 by (simp add: step_simps)
  next
    case 2
    then obtain j ms' where j: "pid = tid s j" "j < length (t_procs s)" using at_inv_waking(1) [OF inv i] by auto
    then show ?thesis using 2 at_inv_unpark [OF inv j(2), of s] by (simp add: goto_def)
  qed (use l in \<open>auto simp: step_simps\<close>)
qed

lemma wait_returns:
  assumes inv: "at_inv ms cs s" and i: "i < length (t_procs s)" and new: "t_pc s i = CW_add k \<Longrightarrow> pq_fresh (t_cq s) new"
    and l: "t_pc s i \<in> {CW_add k, CW_setpark k, CW_unlock k, CW_park k, CW_parked k}
       \<or> t_pc s i = CW_spin k \<and> q_clock (t_cq s) = 0"
  shows "\<exists>s'. cv_wait new i (t_pc s i) s = Ret () s'"
proof (cases "t_pc s i = CW_add k")
  case True
  then obtain q where "queue_add new (tid s i) (t_cq s) = Ret () q"
    using pidq.add_ret [OF at_inv_rep(2) [OF inv i] new [OF True]] by auto
  then show ?thesis using True by (simp add: step_simps)
qed (use l in \<open>auto simp: step_simps\<close>)

lemma remove_cq_returns:
  assumes inv: "at_inv ms cs s" and i: "i < length (t_procs s)" and l: "t_pc s i = CS_remove k \<or> t_pc s i = CB_remove k"
  shows "\<exists>pid q. queue_remove (t_cq s) = Ret pid q"
proof -
  obtain j cs' where cs: "cs = j # cs'" using at_invD(8) [OF inv i] l by (cases cs) auto
  show ?thesis using at_inv_rep(2) [OF inv i] l cs pidq.remove_law [of "t_cq s" "tid s j" "map (tid s) cs'"] by auto
qed

lemma unpark_cq_returns:
  assumes inv: "at_inv ms cs s" and i: "i < length (t_procs s)" and l: "t_pc s i = CS_unpark k pid \<or> t_pc s i = CB_unpark k pid"
  shows "\<exists>s'. t_unpark pid s = Ret () s'"
proof -
  obtain j cs' where j: "pid = tid s j" "j < length (t_procs s)" using at_inv_waking(2) [OF inv i] l by auto
  then show ?thesis using at_inv_unpark [OF inv j(2), of s] by simp
qed

lemma signal_returns:
  assumes inv: "at_inv ms cs s" and i: "i < length (t_procs s)"
    and l: "t_pc s i \<in> {CS_test k, CS_remove k, CS_unpark k pid, CS_unlock k} \<or> t_pc s i = CS_spin k \<and> q_clock (t_cq s) = 0"
  shows "\<exists>s'. cv_signal i (t_pc s i) s = Ret () s'"
  using l remove_cq_returns [OF inv i, of k] unpark_cq_returns [OF inv i, of k pid] by (auto simp: step_simps)

lemma broadcast_returns:
  assumes inv: "at_inv ms cs s" and i: "i < length (t_procs s)"
    and l: "t_pc s i \<in> {CB_test k, CB_remove k, CB_unpark k pid, CB_unlock k} \<or> t_pc s i = CB_spin k \<and> q_clock (t_cq s) = 0"
  shows "\<exists>s'. cv_broadcast i (t_pc s i) s = Ret () s'"
  using l remove_cq_returns [OF inv i, of k] unpark_cq_returns [OF inv i, of k pid] by (auto simp: step_simps)

fun spins_on_guard :: "pc \<Rightarrow> bool" where
  "spins_on_guard (ML_spin k) = True" | "spins_on_guard (MU_spin u) = True" | "spins_on_guard _ = False"

fun spins_on_clock :: "pc \<Rightarrow> bool" where
  "spins_on_clock (CW_spin k) = True" | "spins_on_clock (CS_spin c) = True"
| "spins_on_clock (CB_spin c) = True" | "spins_on_clock _ = False"

lemma tstep_returns:
  assumes inv: "at_inv ms cs s" and i: "i < length (t_procs s)"
    and new: "\<And>k. t_pc s i = ML_add k \<Longrightarrow> pq_fresh (t_mq s) new" "\<And>k. t_pc s i = CW_add k \<Longrightarrow> pq_fresh (t_cq s) new"
    and up: "awake (t_procs s ! i)"
    and l: "t_pc s i \<noteq> Idle" "t_pc s i \<noteq> Crit"
    and g: "spins_on_guard (t_pc s i) \<longrightarrow> t_guard s = 0" and c: "spins_on_clock (t_pc s i) \<longrightarrow> q_clock (t_cq s) = 0"
  shows "\<exists>s'. tstep cm new i s = Ret () s'"
proof -
  note R = lock_returns [OF inv i new(1)] unlock_returns [OF inv i] wait_returns [OF inv i new(2)]
    signal_returns [OF inv i] broadcast_returns [OF inv i]
  have "\<exists>s'. run_pc cm new i (t_pc s i) s = Ret () s'"
    by (cases "t_pc s i") (use R g c l in \<open>simp_all add: run_pc_def goto_def\<close>)
  with up show ?thesis by (simp add: tstep_def)
qed

lemma tstep_client:
  "awake (t_procs s ! i) \<Longrightarrow> t_pc s i = Crit \<Longrightarrow> \<exists>s'. tstep DoUnlock new i s = Ret () s'"
  by (simp add: tstep_def run_pc_def client_def goto_def)

text \<open>
  \<open>can_move\<close>: some step of thread \<open>i\<close>, in the middle of a routine of the library or in
  its critical section, returns.
\<close>

definition can_move :: "addr \<Rightarrow> tsys \<Rightarrow> nat \<Rightarrow> bool" where
  "can_move new s i \<longleftrightarrow> i < length (t_procs s) \<and> t_pc s i \<noteq> Idle \<and> (\<exists>c s'. tstep c new i s = Ret () s')"

lemma can_moveI:
  assumes inv: "at_inv ms cs s" and i: "i < length (t_procs s)"
    and new: "pq_fresh (t_mq s) new" "pq_fresh (t_cq s) new" and up: "awake (t_procs s ! i)"
    and l: "t_pc s i \<noteq> Idle"
    and g: "spins_on_guard (t_pc s i) \<longrightarrow> t_guard s = 0" and c: "spins_on_clock (t_pc s i) \<longrightarrow> q_clock (t_cq s) = 0"
  shows "can_move new s i"
proof (cases "t_pc s i = Crit")
  case True
  with tstep_client [OF up True, of new] i show ?thesis unfolding can_move_def by auto
next
  case False
  with tstep_returns [OF inv i new up l False g c] i l show ?thesis by (auto simp: can_move_def)
qed

lemma not_spinning_in_region:
  "in_guard l \<or> in_clock l \<Longrightarrow> \<not> spins_on_guard l \<and> \<not> spins_on_clock l \<and> l \<noteq> Idle"
  by (cases l) simp_all

lemma progress:
  assumes inv: "at_inv ms cs s" and i: "i < length (t_procs s)" "t_pc s i \<noteq> Idle"
    and w: "awake (t_procs s ! i) \<or> (\<forall>k. t_pc s i \<noteq> CW_parked k)"
    and new: "pq_fresh (t_mq s) new" "pq_fresh (t_cq s) new"
  shows "\<exists>j. can_move new s j"
proof -
  note I = inv_qD [OF conjunct2 [OF conjunct2 [OF inv [unfolded at_inv_def]]]]
  have region: "can_move new s j" if "j < length (t_procs s)" "in_guard (t_pc s j) \<or> in_clock (t_pc s j)" for j
    by (rule can_moveI [OF inv that(1) new region_awake [OF I(10) [OF that(1)] that(2)]])
      (use not_spinning_in_region [OF that(2)] in auto)
  show ?thesis
  proof (cases "t_guard s \<noteq> 0 \<or> q_clock (t_cq s) \<noteq> 0")
    case True
    then show ?thesis using I(6,7) region unfolding uniq_def by blast
  next
    case False
    then have z: "t_guard s = 0" "q_clock (t_cq s) = 0" by simp_all
    show ?thesis
    proof (cases "awake (t_procs s ! i)")
      case True
      then show ?thesis using can_moveI [OF inv i(1) new True i(2)] z by blast
    next
      case asleep: False
      with asleep_parked [OF I(10) [OF i(1)]] w have "i \<in> set ms" by auto
      then have "t_flag s \<noteq> 0" using I(9) by auto
      then obtain j where j: "j < length (t_procs s)" "owner ms (t_pc s) j" using I(8) unfolding uniq_def by blast
      have "awake (t_procs s ! j)"
        by (rule owner_awake [OF I(10) [OF j(1)]]) (use j(2) in \<open>auto simp: owner_def\<close>)
      moreover have "t_pc s j \<noteq> Idle" using j(2) by (auto simp: owner_def)
      ultimately show ?thesis using can_moveI [OF inv j(1) new] z by blast
    qed
  qed
qed

end
