(* ===== verification/Threads_Sem.thy ===== *)
theory Threads_Sem
  imports Threads_Inv
begin

text \<open>
  The semaphore of \<^verbatim>\<open>user/semaphore.c\<close> on top of the mutex and the condition variable:
  no update of the value is lost, and nobody sleeps in \<^verbatim>\<open>sem_wait\<close> beside a value that
  is there to take.
\<close>

section \<open>The value\<close>

text \<open>
  While a thread is between reading and writing \<^verbatim>\<open>sem->value\<close> nobody else changes it,
  and a thread about to sleep on the condition variable has seen a value that is still there.
\<close>

fun value_ok :: "int \<Rightarrow> pc \<Rightarrow> bool" where
  "value_ok v SW_load = (0 < v)"
| "value_ok v (SW_store w) = (w = v \<and> 0 < v)"
| "value_ok v (SP_store w) = (w = v)"
| "value_ok v (CW_spin k) = (k = KWait \<longrightarrow> v \<le> 0)"
| "value_ok v (CW_add k) = (k = KWait \<longrightarrow> v \<le> 0)"
| "value_ok v _ = True"

definition value_inv :: "int \<Rightarrow> tsys \<Rightarrow> bool" where
  "value_inv v0 s \<longleftrightarrow> t_value s = int32 (v0 + int (t_posts s) - int (t_waits s)) \<and>
     (- 2147483648 \<le> v0 \<and> v0 + int (t_posts s) < 2147483648 \<longrightarrow> min v0 0 \<le> v0 + int (t_posts s) - int (t_waits s)) \<and>
     (\<forall>i < length (t_procs s). value_ok (t_value s) (t_pc s i))"

lemma value_ok_other: "\<not> holds_mutex l \<Longrightarrow> value_ok v l"
  by (cases l) simp_all

lemma value_inv_keep:
  assumes "value_inv v0 s" and "i < length (t_procs s)" and "t_pc s' = (t_pc s)(i := l)"
    and "t_value s' = t_value s" "t_posts s' = t_posts s" "t_waits s' = t_waits s"
    and "length (t_procs s') = length (t_procs s)" and "value_ok (t_value s) l"
  shows "value_inv v0 s'"
  using assms by (auto simp: value_inv_def)

lemma value_inv_change:
  assumes inv: "at_inv ms cs s" and v: "value_inv v0 s" and i: "i < length (t_procs s)" "holds_mutex (t_pc s i)"
    and "t_pc s' = (t_pc s)(i := l)" and "t_procs s' = t_procs s"
    and "t_value s' = int32 (v0 + int (t_posts s') - int (t_waits s'))"
    and "- 2147483648 \<le> v0 \<and> v0 + int (t_posts s') < 2147483648 \<longrightarrow> min v0 0 \<le> v0 + int (t_posts s') - int (t_waits s')"
    and "value_ok (t_value s') l"
  shows "value_inv v0 s'"
proof -
  note I = inv_qD(8) [OF conjunct2 [OF conjunct2 [OF inv [unfolded at_inv_def]]]]
  have "value_ok (t_value s') (t_pc s j)" if "j < length (t_procs s)" "j \<noteq> i" for j
    using uniqD [OF I, of i j] that i by (intro value_ok_other) (auto simp: owner_def)
  then show ?thesis using assms by (auto simp: value_inv_def)
qed

lemma t_unpark_keeps: "t_unpark pid s = Ret u s' \<Longrightarrow> s' = s\<lparr>t_procs := t_procs s'\<rparr> \<and> length (t_procs s') = length (t_procs s)"
  by (auto simp: t_unpark_def split: option.splits)

lemma lock_frame:
  assumes "mutex_lock new i l s = Ret () s'"
  obtains l' where "t_pc s' = (t_pc s)(i := l')" "t_value s' = t_value s" "t_posts s' = t_posts s" "t_waits s' = t_waits s"
    "length (t_procs s') = length (t_procs s)" "\<And>v. value_ok v l'"
proof (cases l)
  case (ML_parked k)
  then show ?thesis using assms that by (cases k) (auto simp: step_simps)
next
  case (ML_unguard k)
  then show ?thesis using assms that by (cases k) (auto simp: step_simps)
qed (use assms that in \<open>auto simp: step_simps split: if_splits outcome.splits\<close>)

lemma unlock_frame:
  assumes "mutex_unlock i l s = Ret () s'"
  obtains l' where "t_pc s' = (t_pc s)(i := l')" "t_value s' = t_value s" "t_posts s' = t_posts s" "t_waits s' = t_waits s"
    "length (t_procs s') = length (t_procs s)" "\<And>v. value_ok v l'"
proof (cases l)
  case (MU_unguard u)
  then show ?thesis using assms that by (cases u) (auto simp: step_simps)
qed (use assms that in \<open>auto simp: step_simps t_unpark_def split: if_splits outcome.splits option.splits\<close>)

lemma wait_frame:
  assumes "cv_wait new i l s = Ret () s'"
  obtains l' where "t_pc s' = (t_pc s)(i := l')" "t_value s' = t_value s" "t_posts s' = t_posts s" "t_waits s' = t_waits s"
    "length (t_procs s') = length (t_procs s)" "\<And>v. value_ok v l \<Longrightarrow> value_ok v l'"
  by (cases l) (use assms that in \<open>auto simp: step_simps split: if_splits outcome.splits\<close>)

lemma signal_frame:
  assumes "cv_signal i l s = Ret () s'"
  obtains l' where "t_pc s' = (t_pc s)(i := l')" "t_value s' = t_value s" "t_posts s' = t_posts s" "t_waits s' = t_waits s"
    "length (t_procs s') = length (t_procs s)" "\<And>v. value_ok v l'"
proof (cases l)
  case (CS_unlock k)
  then show ?thesis using assms that by (cases k) (auto simp: step_simps)
qed (use assms that in \<open>auto simp: step_simps t_unpark_def split: if_splits outcome.splits option.splits\<close>)

lemma broadcast_frame:
  assumes "cv_broadcast i l s = Ret () s'"
  obtains l' where "t_pc s' = (t_pc s)(i := l')" "t_value s' = t_value s" "t_posts s' = t_posts s" "t_waits s' = t_waits s"
    "length (t_procs s') = length (t_procs s)" "\<And>v. value_ok v l'"
proof (cases l)
  case (CB_unlock k)
  then show ?thesis using assms that by (cases k) (auto simp: step_simps)
qed (use assms that in \<open>auto simp: step_simps t_unpark_def split: if_splits outcome.splits option.splits\<close>)

lemma tstep_value:
  assumes inv: "at_inv ms cs s" and i: "i < length (t_procs s)" and v: "value_inv v0 s"
    and step: "tstep c new i s = Ret () s'"
  shows "value_inv v0 s'"
proof -
  from step obtain run: "run_pc c new i (t_pc s i) s = Ret () s'" by (rule tstepE)
  have ok: "value_ok (t_value s) (t_pc s i)" using v i unfolding value_inv_def by blast
  from run show ?thesis
  proof (cases rule: run_pcE)
    case (client l')
    then have "value_ok (t_value s) l'" by (auto simp: client_def split: if_splits cmd.splits)
    with client show ?thesis by (intro value_inv_keep [OF v i]) simp_all
  next
    case lock
    then show ?thesis by (rule lock_frame) (metis value_inv_keep [OF v i])
  next
    case unlock
    then show ?thesis by (rule unlock_frame) (metis value_inv_keep [OF v i])
  next
    case wait
    then show ?thesis by (rule wait_frame) (metis value_inv_keep [OF v i] ok)
  next
    case signal
    then show ?thesis by (rule signal_frame) (metis value_inv_keep [OF v i])
  next
    case broadcast
    then show ?thesis by (rule broadcast_frame) (metis value_inv_keep [OF v i])
  next
    case sem_wait
    show ?thesis
    proof (cases "t_pc s i")
      case (SW_store w)
      let ?x = "v0 + int (t_posts s) - int (t_waits s)"
      have t: "t_value s = int32 ?x" "0 < int32 ?x" "w = int32 ?x" using v ok SW_store by (auto simp: value_inv_def)
      have "0 < ?x" if "- 2147483648 \<le> v0" "v0 + int (t_posts s) < 2147483648"
        using t(2) int32_id [of ?x] v that by (simp add: value_inv_def min_def split: if_splits)
      then have m: "min v0 0 \<le> ?x - 1" if "- 2147483648 \<le> v0" "v0 + int (t_posts s) < 2147483648" using that by fastforce
      show ?thesis
        by (rule value_inv_change [OF inv v i, where l = "MU_spin UDone"])
          (use sem_wait SW_store m t int32_int32 [of ?x "- 1"] in \<open>auto simp: goto_def algebra_simps\<close>)
    qed (use sem_wait ok in \<open>auto simp: goto_def intro!: value_inv_keep [OF v i] split: if_splits\<close>)
  next
    case sem_post
    show ?thesis
    proof (cases "t_pc s i")
      case (SP_store w)
      let ?x = "v0 + int (t_posts s) - int (t_waits s)"
      have t: "t_value s = int32 ?x" "w = int32 ?x" using v ok SP_store by (auto simp: value_inv_def)
      have m: "min v0 0 \<le> ?x + 1" if "- 2147483648 \<le> v0" "v0 + int (t_posts s) + 1 < 2147483648"
        using v that unfolding value_inv_def by linarith
      show ?thesis
        by (rule value_inv_change [OF inv v i, where l = "CS_spin SPost"])
          (use sem_post SP_store m t int32_int32 [of ?x 1] in \<open>auto simp: goto_def algebra_simps\<close>)
    qed (use sem_post ok in \<open>auto simp: goto_def intro!: value_inv_keep [OF v i] split: if_splits\<close>)
  qed
qed

text \<open>
  Clients of the semaphore call \<^verbatim>\<open>sem_wait\<close> and \<^verbatim>\<open>sem_post\<close> only. Then the threads stay
  at the program counters of these two.
\<close>

fun sem_pc :: "pc \<Rightarrow> bool" where
  "sem_pc (ML_spin k) = (k \<noteq> KUser)" | "sem_pc (ML_test k) = (k \<noteq> KUser)" | "sem_pc (ML_setpark k) = (k \<noteq> KUser)"
| "sem_pc (ML_unguard_park k) = (k \<noteq> KUser)" | "sem_pc (ML_park k) = (k \<noteq> KUser)"
| "sem_pc (ML_parked k) = (k \<noteq> KUser)" | "sem_pc (ML_unguard k) = (k \<noteq> KUser)"
| "sem_pc (ML_take k) = (k \<noteq> KUser)" | "sem_pc (ML_add k) = (k \<noteq> KUser)"
| "sem_pc Crit = False"
| "sem_pc (MU_spin u) = (u = UDone \<or> u = UCv KWait)" | "sem_pc (MU_test u) = (u = UDone \<or> u = UCv KWait)"
| "sem_pc (MU_clear u) = (u = UDone \<or> u = UCv KWait)" | "sem_pc (MU_remove u) = (u = UDone \<or> u = UCv KWait)"
| "sem_pc (MU_unpark u pid) = (u = UDone \<or> u = UCv KWait)" | "sem_pc (MU_unguard u) = (u = UDone \<or> u = UCv KWait)"
| "sem_pc (CW_spin k) = (k = KWait)" | "sem_pc (CW_add k) = (k = KWait)" | "sem_pc (CW_setpark k) = (k = KWait)"
| "sem_pc (CW_unlock k) = (k = KWait)" | "sem_pc (CW_park k) = (k = KWait)" | "sem_pc (CW_parked k) = (k = KWait)"
| "sem_pc (CS_spin c) = (c = SPost)" | "sem_pc (CS_test c) = (c = SPost)" | "sem_pc (CS_remove c) = (c = SPost)"
| "sem_pc (CS_unpark c pid) = (c = SPost)" | "sem_pc (CS_unlock c) = (c = SPost)"
| "sem_pc (CB_spin c) = False" | "sem_pc (CB_test c) = False" | "sem_pc (CB_remove c) = False"
| "sem_pc (CB_unpark c pid) = False" | "sem_pc (CB_unlock c) = False"
| "sem_pc _ = True"

text \<open>
  \<open>wants\<close>: the thread is on its way to test the value, or is posting and has not signalled
  yet. \<open>cv_waiting\<close>: it has joined the queue of the condition variable; once it is unparked
  it is on its way again.
\<close>

fun wants :: "pc \<Rightarrow> bool" where
  "wants (ML_spin k) = (k = KWait)" | "wants (ML_test k) = (k = KWait)" | "wants (ML_setpark k) = (k = KWait)"
| "wants (ML_unguard_park k) = (k = KWait)" | "wants (ML_park k) = (k = KWait)"
| "wants (ML_take k) = (k = KWait)" | "wants (ML_add k) = (k = KWait)"
| "wants (ML_parked k) = (k = KWait)" | "wants (ML_unguard k) = (k = KWait)"
| "wants SW_test = True" | "wants SW_load = True" | "wants (SW_store v) = True"
| "wants (CS_spin c) = (c = SPost)" | "wants (CS_test c) = (c = SPost)" | "wants (CS_remove c) = (c = SPost)"
| "wants (CS_unpark c pid) = (c = SPost)"
| "wants _ = False"

fun cv_waiting :: "pc \<Rightarrow> bool" where
  "cv_waiting (CW_setpark k) = True" | "cv_waiting (CW_unlock k) = True"
| "cv_waiting (MU_spin u) = (u \<noteq> UDone)" | "cv_waiting (MU_test u) = (u \<noteq> UDone)"
| "cv_waiting (MU_clear u) = (u \<noteq> UDone)" | "cv_waiting (MU_remove u) = (u \<noteq> UDone)"
| "cv_waiting (MU_unpark u pid) = (u \<noteq> UDone)" | "cv_waiting (MU_unguard u) = (u \<noteq> UDone)"
| "cv_waiting (CW_park k) = True" | "cv_waiting (CW_parked k) = True"
| "cv_waiting _ = False"

definition pending :: "nat list \<Rightarrow> (nat \<Rightarrow> pc) \<Rightarrow> nat \<Rightarrow> bool" where
  "pending cs l i \<longleftrightarrow> wants (l i) \<or> (cv_waiting (l i) \<and> i \<notin> set cs)"

definition count :: "nat \<Rightarrow> (nat \<Rightarrow> bool) \<Rightarrow> nat" where
  "count n P = card {i. i < n \<and> P i}"

lemma count_split:
  assumes "i < n"
  shows "count n P = count n (\<lambda>j. P j \<and> j \<noteq> i) + (if P i then 1 else 0)"
proof (cases "P i")
  case True
  then have "{j. j < n \<and> P j} = insert i {j. j < n \<and> P j \<and> j \<noteq> i}" using assms by auto
  then show ?thesis using True by (simp add: count_def)
next
  case False
  then have "{j. j < n \<and> P j} = {j. j < n \<and> P j \<and> j \<noteq> i}" by auto
  then show ?thesis using False by (simp add: count_def)
qed

lemma count_cong: "(\<And>j. j < n \<Longrightarrow> P j = Q j) \<Longrightarrow> count n P = count n Q"
  unfolding count_def by (rule arg_cong [where f = card]) auto

lemma count_update:
  assumes i: "i < n" and "\<And>j. j < n \<Longrightarrow> j \<noteq> i \<Longrightarrow> Q j = P j"
  shows "count n Q + (if P i then 1 else 0) = count n P + (if Q i then 1 else 0)"
proof -
  have "count n (\<lambda>j. Q j \<and> j \<noteq> i) = count n (\<lambda>j. P j \<and> j \<noteq> i)" using assms(2) by (intro count_cong) auto
  then show ?thesis using count_split [OF i, of P] count_split [OF i, of Q] by simp
qed

definition signal_inv :: "nat list \<Rightarrow> tsys \<Rightarrow> bool" where
  "signal_inv cs s \<longleftrightarrow> (\<forall>i < length (t_procs s). sem_pc (t_pc s i)) \<and>
     (cs \<noteq> [] \<longrightarrow> t_value s \<le> int (count (length (t_procs s)) (pending cs (t_pc s))))"

text \<open>A step of one thread that leaves the queue of the condition variable alone.\<close>

lemma signal_inv_local:
  assumes inv: "signal_inv cs s" and i: "i < length (t_procs s)"
    and s': "length (t_procs s') = length (t_procs s)" "t_pc s' = (t_pc s)(i := l)"
    and l: "sem_pc l" and v: "t_value s' \<le> t_value s \<or> pending cs (t_pc s') i \<and> \<not> pending cs (t_pc s) i \<and> t_value s' \<le> t_value s + 1"
    and p: "pending cs (t_pc s) i \<longrightarrow> pending cs (t_pc s') i \<or> t_value s' < t_value s \<or> t_value s' \<le> 0"
  shows "signal_inv cs s'"
proof -
  have "count (length (t_procs s)) (pending cs (t_pc s')) + (if pending cs (t_pc s) i then 1 else 0)
      = count (length (t_procs s)) (pending cs (t_pc s)) + (if pending cs (t_pc s') i then 1 else 0)"
    by (rule count_update [OF i]) (simp add: s' pending_def)
  moreover have "sem_pc (t_pc s' j)" if "j < length (t_procs s)" for j
    using inv that l by (simp add: signal_inv_def s')
  ultimately show ?thesis using inv v p unfolding signal_inv_def s'(1) by (auto split: if_splits)
qed

lemma sem_start:
  assumes "c \<in> {DoSemWait, DoSemPost}" and "client c l = Some l'" and "sem_pc l"
  shows "l = Idle \<and> (l' = ML_spin KWait \<or> l' = ML_spin KPost)"
  using assms by (auto simp: client_def split: if_splits)

text \<open>Unparking the first thread: the poster's claim on the value passes to it.\<close>

lemma signal_inv_pass:
  assumes inv: "signal_inv (j # cs) s" and i: "i < length (t_procs s)" "t_pc s i = CS_unpark SPost pid"
    and j: "j < length (t_procs s)" "j \<noteq> i" "j \<notin> set cs" "cv_waiting (t_pc s j)"
    and s': "length (t_procs s') = length (t_procs s)" "t_pc s' = (t_pc s)(i := CS_unlock SPost)" "t_value s' = t_value s"
  shows "signal_inv cs s'"
proof -
  let ?n = "length (t_procs s)" and ?P = "pending (j # cs) (t_pc s)" and ?Q = "pending cs (t_pc s')"
    and ?M = "\<lambda>k. if k = j then True else pending (j # cs) (t_pc s) k"
  have nj: "\<not> ?P j" using j(4) by (cases "t_pc s j") (auto simp: pending_def)
  have "count ?n ?M + (if ?P j then 1 else 0) = count ?n ?P + (if ?M j then 1 else 0)"
    by (rule count_update [OF j(1)]) simp
  moreover have "count ?n ?Q + (if ?M i then 1 else 0) = count ?n ?M + (if ?Q i then 1 else 0)"
    by (rule count_update [OF i(1)]) (use j in \<open>auto simp: pending_def s'\<close>)
  moreover have "?P i" "\<not> ?Q i" using i(2) j(2) by (simp_all add: pending_def s')
  ultimately have "count ?n ?Q = count ?n ?P" using nj j(2) by simp
  moreover have "sem_pc (t_pc s' k)" if "k < ?n" for k
    using inv that by (simp add: signal_inv_def s')
  ultimately show ?thesis using inv s' unfolding signal_inv_def by auto
qed

lemma cond_queue_waiting:
  assumes "flags_ok l m True p" shows "cv_waiting l"
proof (cases l)
  case (MU_spin u)
  then show ?thesis using assms by (cases u) simp_all
next
  case (MU_test u)
  then show ?thesis using assms by (cases u) simp_all
next
  case (MU_clear u)
  then show ?thesis using assms by (cases u) simp_all
next
  case (MU_remove u)
  then show ?thesis using assms by (cases u) simp_all
next
  case (MU_unpark u pid)
  then show ?thesis using assms by (cases u) simp_all
next
  case (MU_unguard u)
  then show ?thesis using assms by (cases u) simp_all
qed (use assms in simp_all)

lemma add_signal_inv:
  assumes inv: "signal_inv cs s" and i: "i < length (t_procs s)" 
    and s': "length (t_procs s') = length (t_procs s)" "t_pc s' = (t_pc s)(i := l)" "sem_pc l" "t_value s' \<le> 0"
  shows "signal_inv cs' s'"
  using assms by (auto simp: signal_inv_def)

lemma locked_sem_pc:
  "k \<noteq> KUser \<Longrightarrow> sem_pc (locked_pc k) \<and> (k = KWait \<longrightarrow> wants (locked_pc k))"
  by (cases k) simp_all

lemma lock_signal_inv:
  assumes i: "i < length (t_procs s)" and sig: "signal_inv cs s"
    and step: "mutex_lock new i (t_pc s i) s = Ret () s'"
  shows "signal_inv (cq_next s i cs) s'"
proof -
  have sp: "sem_pc (t_pc s i)" using sig i by (simp add: signal_inv_def)
  obtain l where l: "t_pc s' = (t_pc s)(i := l)" "t_value s' = t_value s" "length (t_procs s') = length (t_procs s)"
    using step by (rule lock_frame)
  have "sem_pc (t_pc s' i) \<and> (pending cs (t_pc s) i \<longrightarrow> pending cs (t_pc s') i)"
    by (cases "t_pc s i")
      (use step sp locked_sem_pc in \<open>auto simp: step_simps pending_def split: if_splits outcome.splits\<close>)
  then have "signal_inv cs s'"
    by (intro signal_inv_local [OF sig i l(3,1)]) (simp_all add: l(1,2))
  then show ?thesis using step by (cases "t_pc s i") (simp_all add: cq_next_def)
qed

lemma unlock_signal_inv:
  assumes i: "i < length (t_procs s)" and sig: "signal_inv cs s"
    and step: "mutex_unlock i (t_pc s i) s = Ret () s'"
  shows "signal_inv (cq_next s i cs) s'"
proof -
  have sp: "sem_pc (t_pc s i)" using sig i by (simp add: signal_inv_def)
  obtain l where l: "t_pc s' = (t_pc s)(i := l)" "t_value s' = t_value s" "length (t_procs s') = length (t_procs s)"
    using step by (rule unlock_frame)
  have "sem_pc (t_pc s' i) \<and> (pending cs (t_pc s) i \<longrightarrow> pending cs (t_pc s') i)"
    by (cases "t_pc s i")
      (use step sp in \<open>auto simp: step_simps pending_def t_unpark_def split: if_splits outcome.splits option.splits\<close>)
  then have "signal_inv cs s'"
    by (intro signal_inv_local [OF sig i l(3,1)]) (simp_all add: l(1,2))
  then show ?thesis using step by (cases "t_pc s i") (simp_all add: cq_next_def)
qed

lemma wait_signal_inv:
  assumes inv: "at_inv ms cs s" and i: "i < length (t_procs s)" and sig: "signal_inv cs s" and v: "value_inv v0 s"
    and up: "awake (t_procs s ! i)" and step: "cv_wait new i (t_pc s i) s = Ret () s'"
  shows "signal_inv (cq_next s i cs) s'"
proof -
  have sp: "sem_pc (t_pc s i)" using sig i by (simp add: signal_inv_def)
  note F = at_invD [OF inv i]
  obtain l where l: "t_pc s' = (t_pc s)(i := l)" "t_value s' = t_value s" "length (t_procs s') = length (t_procs s)"
    using step by (rule wait_frame)
  show ?thesis
  proof (cases "\<exists>k. t_pc s i = CW_add k")
    case True
    then have a: "t_pc s i = CW_add KWait" using sp by auto
    have "value_ok (t_value s) (t_pc s i)" using v i unfolding value_inv_def by blast
    then have "t_value s' \<le> 0" using a l(2) by simp
    moreover have "sem_pc (t_pc s' i)"
      using step a by (auto simp: step_simps split: outcome.splits)
    ultimately show ?thesis by (intro add_signal_inv [OF sig i l(3,1)]) (simp_all add: l(1))
  next
    case False
    have "sem_pc (t_pc s' i) \<and> (pending cs (t_pc s) i \<longrightarrow> pending cs (t_pc s') i)"
      by (cases "t_pc s i")
        (use step sp False F(1) in \<open>auto simp: step_simps pending_def split: if_splits outcome.splits\<close>)
    then have "signal_inv cs s'"
      by (intro signal_inv_local [OF sig i l(3,1)]) (simp_all add: l(1,2))
    then show ?thesis using step False by (cases "t_pc s i") (simp_all add: cq_next_def)
  qed
qed

lemma post_signal_inv:
  assumes inv: "at_inv ms cs s" and i: "i < length (t_procs s)" and sig: "signal_inv cs s"
    and step: "cv_signal i (t_pc s i) s = Ret () s'"
  shows "signal_inv (cq_next s i cs) s'"
proof -
  have sp: "sem_pc (t_pc s i)" using sig i by (simp add: signal_inv_def)
  note F = at_invD [OF inv i]
  obtain l where l: "t_pc s' = (t_pc s)(i := l)" "t_value s' = t_value s" "length (t_procs s') = length (t_procs s)"
    using step by (rule signal_frame)
  have next_pc: "sem_pc (t_pc s' i)"
    by (cases "t_pc s i")
      (use step sp in \<open>auto simp: step_simps t_unpark_def split: if_splits outcome.splits option.splits\<close>)
  consider (unpark) pid where "t_pc s i = CS_unpark SPost pid" | (none) "t_pc s i = CS_test SPost" "cs = []"
    | (other) "\<forall>k pid. t_pc s i \<noteq> CS_unpark k pid" "t_pc s i = CS_test SPost \<longrightarrow> cs \<noteq> []"
    using sp by (cases "t_pc s i") auto
  then show ?thesis
  proof cases
    case unpark
    then have l': "l = CS_unlock SPost"
      using step l(1) by (auto simp: step_simps t_unpark_def fun_eq_iff split: if_splits outcome.splits option.splits)
    obtain j cs' where cs: "cs = j # cs'" using at_inv_waking(2) [OF inv i] unpark by auto
    have j: "j < length (t_procs s)" "j \<notin> set cs'" using inv cs unfolding at_inv_def inv_q_def by auto
    have w: "cv_waiting (t_pc s j)"
      by (rule cond_queue_waiting) (use at_invD(1) [OF inv j(1)] cs in simp)
    moreover have "j \<noteq> i" using w unpark by auto
    ultimately have "signal_inv cs' s'"
      using signal_inv_pass [OF sig [unfolded cs] i unpark j(1) _ j(2)] l l' by simp
    with cs unpark show ?thesis by (simp add: cq_next_def)
  next
    case none
    then have "signal_inv [] s'" using sig next_pc l unfolding signal_inv_def by auto
    with none show ?thesis by (simp add: cq_next_def)
  next
    case other
    have e: "t_pc s i = CS_test SPost \<longrightarrow> \<not> queue_empty (t_cq s)"
      using other(2) pidq.is_empty_law at_inv_rep(2) [OF inv i] by auto
    have "pending cs (t_pc s) i \<longrightarrow> pending cs (t_pc s') i"
      by (cases "t_pc s i")
        (use step sp other(1) e in \<open>auto simp: step_simps pending_def split: if_splits outcome.splits\<close>)
    then have "signal_inv cs s'"
      using next_pc by (intro signal_inv_local [OF sig i l(3,1)]) (simp_all add: l(1,2))
    then show ?thesis using step other(1) by (cases "t_pc s i") (simp_all add: cq_next_def)
  qed
qed

lemma sem_wait_signal_inv:
  assumes i: "i < length (t_procs s)" and sig: "signal_inv cs s" and v: "value_inv v0 s"
    and step: "sem_wait i (t_pc s i) s = Ret () s'"
  shows "signal_inv (cq_next s i cs) s'"
proof -
  have ok: "value_ok (t_value s) (t_pc s i)" using v i unfolding value_inv_def by blast
  have "signal_inv cs s'"
  proof (cases "t_pc s i")
    case SW_test
    show ?thesis
      by (rule signal_inv_local [OF sig i, where l = "t_pc s' i"])
        (use step SW_test in \<open>auto simp: goto_def pending_def split: if_splits\<close>)
  next
    case SW_load
    show ?thesis
      by (rule signal_inv_local [OF sig i, where l = "t_pc s' i"])
        (use step SW_load in \<open>auto simp: goto_def pending_def split: if_splits\<close>)
  next
    case (SW_store w)
    show ?thesis
      by (rule signal_inv_local [OF sig i, where l = "t_pc s' i"])
        (use step ok SW_store int32_le [of "w - 1"] in \<open>auto simp: goto_def pending_def split: if_splits\<close>)
  qed (use step in simp_all)
  then show ?thesis using step by (cases "t_pc s i") (simp_all add: cq_next_def)
qed

lemma sem_post_signal_inv:
  assumes i: "i < length (t_procs s)" and sig: "signal_inv cs s" and v: "value_inv v0 s"
    and step: "sem_post i (t_pc s i) s = Ret () s'"
  shows "signal_inv (cq_next s i cs) s'"
proof -
  have ok: "value_ok (t_value s) (t_pc s i)" and r: "- 2147483648 \<le> t_value s"
    using v i int32_range unfolding value_inv_def by auto
  have "signal_inv cs s'"
  proof (cases "t_pc s i")
    case SP_load
    show ?thesis
      by (rule signal_inv_local [OF sig i, where l = "t_pc s' i"])
        (use step SP_load in \<open>auto simp: goto_def pending_def split: if_splits\<close>)
  next
    case (SP_store w)
    show ?thesis
      by (rule signal_inv_local [OF sig i, where l = "t_pc s' i"])
        (use step ok SP_store int32_le [of "w + 1"] int32_range(1) r in \<open>auto simp: goto_def pending_def split: if_splits\<close>)
  qed (use step in simp_all)
  then show ?thesis using step by (cases "t_pc s i") (simp_all add: cq_next_def)
qed

lemma tstep_signal:
  assumes inv: "at_inv ms cs s" and i: "i < length (t_procs s)" and sig: "signal_inv cs s" and v: "value_inv v0 s"
    and c: "c \<in> {DoSemWait, DoSemPost}" and step: "tstep c new i s = Ret () s'"
  shows "signal_inv (cq_next s i cs) s'"
proof -
  have sp: "sem_pc (t_pc s i)" using sig i by (simp add: signal_inv_def)
  from step obtain up: "awake (t_procs s ! i)" and run: "run_pc c new i (t_pc s i) s = Ret () s'" by (rule tstepE)
  from run show ?thesis
  proof (cases rule: run_pcE)
    case (client l')
    from sem_start [OF c client(1) sp] have l: "t_pc s i = Idle" "sem_pc l'" by auto
    have "signal_inv cs s'"
      by (rule signal_inv_local [OF sig i, where l = l']) (use client l in \<open>simp_all add: pending_def\<close>)
    then show ?thesis using l by (simp add: cq_next_def)
  next
    case broadcast
    then show ?thesis using sp by (cases "t_pc s i") simp_all
  qed (use lock_signal_inv [OF i sig] unlock_signal_inv [OF i sig] wait_signal_inv [OF inv i sig v up]
      post_signal_inv [OF inv i sig] sem_wait_signal_inv [OF i sig v] sem_post_signal_inv [OF i sig v] in blast)+
qed


text \<open>A step goes wrong only where a node has to be stored and there is none.\<close>

lemma tstep_safe:
  assumes inv: "at_inv ms cs s" and i: "i < length (t_procs s)"
    and new: "\<And>k. t_pc s i = ML_add k \<Longrightarrow> pq_fresh (t_mq s) new" "\<And>k. t_pc s i = CW_add k \<Longrightarrow> pq_fresh (t_cq s) new"
  shows "tstep c new i s \<noteq> Fault w \<and> tstep c new i s \<noteq> Panic w"
proof (cases "awake (t_procs s ! i)")
  case up: True
  show ?thesis
  proof (cases "t_pc s i = Idle \<or> t_pc s i = Crit")
    case True
    then show ?thesis using up by (auto simp: tstep_def run_pc_def goto_def split: option.splits)
  next
    case False
    show ?thesis
    proof (cases "(spins_on_guard (t_pc s i) \<longrightarrow> t_guard s = 0) \<and> (spins_on_clock (t_pc s i) \<longrightarrow> q_clock (t_cq s) = 0)")
      case True
      then obtain s' where "tstep c new i s = Ret () s'" using tstep_returns [OF inv i _ _ up] new False by blast
      then show ?thesis by simp
    next
      case spins: False
      then show ?thesis using up by (cases "t_pc s i") (auto simp: tstep_def run_pc_def step_simps)
    qed
  qed
next
  case False
  then show ?thesis by (simp add: tstep_def)
qed

lemma tstep_null:
  "awake (t_procs s ! i) \<Longrightarrow> t_pc s i = ML_add k \<or> t_pc s i = CW_add k \<Longrightarrow> tstep c 0 i s = Fault ''null node''"
  by (auto simp: tstep_def run_pc_def step_simps queue_add_def)

lemma treach_value:
  assumes "treach C s t" and "at_inv [] [] s" and "value_inv v0 s"
  shows "value_inv v0 t"
  using assms
proof (induction rule: treach.induct)
  case start
  then show ?case by blast
next
  case (move t c i new u)
  then obtain ms cs where "at_inv ms cs t" using treach_inv by blast
  with move show ?case using tstep_value by blast
qed

lemma treach_signal:
  assumes "treach C s t" and "C \<subseteq> {DoSemWait, DoSemPost}" and "at_inv [] [] s" and "value_inv v0 s" and "signal_inv [] s"
  shows "\<exists>ms cs. at_inv ms cs t \<and> signal_inv cs t"
  using assms
proof (induction rule: treach.induct)
  case start
  then show ?case by blast
next
  case (move t c i new u)
  then obtain ms cs where t: "at_inv ms cs t" "signal_inv cs t" by blast
  moreover have "value_inv v0 t" using treach_value move by blast
  moreover have "c \<in> {DoSemWait, DoSemPost}" using move by blast
  ultimately show ?case using tstep_inv [OF t(1)] tstep_signal [OF t(1)] move by blast
qed

lemma init_value:
  assumes "boot s0" and "sem_init v mal s0 = Ret () s"
  shows "value_inv v s" and "signal_inv [] s"
proof -
  obtain mq cq where "s = s0\<lparr>t_cq := cq, t_flag := 0, t_guard := 0, t_mq := mq, t_value := int32 v\<rparr>"
    using sem_init_eq [OF assms(2)] by blast
  with assms(1) show "value_inv v s" and "signal_inv [] s"
    by (simp_all add: boot_def value_inv_def signal_inv_def)
qed

section \<open>A run of given steps\<close>

fun trun :: "(cmd \<times> addr \<times> nat) list \<Rightarrow> tsys \<Rightarrow> tsys option" where
  "trun [] s = Some s"
| "trun ((c, new, i) # xs) s =
     (if i < length (t_procs s) \<and> malloc_ok s new
      then (case tstep c new i s of Ret _ s' \<Rightarrow> trun xs s' | _ \<Rightarrow> None) else None)"

lemma trun_treach:
  assumes "trun xs s = Some t" and "\<forall>x \<in> set xs. fst x \<in> C"
  shows "treach C s t"
proof -
  have "treach C s0 t" if "treach C s0 s" for s0
    using that assms
  proof (induction xs s rule: trun.induct)
    case (1 s)
    then show ?case by simp
  next
    case (2 c new i xs s)
    then obtain s' where s': "tstep c new i s = Ret () s'" "trun xs s' = Some t"
      "i < length (t_procs s)" "malloc_ok s new"
      by (auto split: if_splits outcome.splits)
    then have "treach C s0 s'" using 2(2,4) by (intro treach.move [OF 2(2)]) auto
    with 2 s' show ?case by auto
  qed
  then show ?thesis using treach.start by blast
qed

text \<open>Two threads with the process ids 3 and 4.\<close>

definition demo_q :: pidQueue where
  "demo_q = \<lparr>q_head = 0, q_tail = 0, q_clock = 0, q_heap = (\<lambda>_. None)\<rparr>"

definition demo_threads :: "int \<Rightarrow> tsys" where
  "demo_threads v = \<lparr>t_procs = [demo_proc 3, demo_proc 4], t_flag = 0, t_guard = 0, t_mq = demo_q, t_cq = demo_q,
     t_value = v, t_pc = (\<lambda>_. Idle), t_posts = 0, t_waits = 0\<rparr>"

lemma demo_boot: "boot (demo_threads v)"
  by (simp add: boot_def demo_threads_def demo_proc_def pids_ok_def idle_flags_def awake_def)

lemma demo_init: "sem_init v (\<lambda>i. 64) (demo_threads w) = Ret () (demo_threads (int32 v))"
  by (simp add: sem_init_def cv_init_def mutex_init_def queue_init_def spin_init_def demo_threads_def demo_q_def)

lemmas run_simps = tstep_def run_pc_def client_def step_simps pq_fresh_def demo_threads_def demo_proc_def
  demo_q_def awake_def queue_add_def queue_remove_def queue_empty_def q_store_def q_deref_def tid_def
  t_unpark_def first_idx_def setpark_proc_def park_proc_def unpark_proc_def malloc_ok_def int32_def

lemma demo_start:
  "sem_init 0 (\<lambda>i. 64) (demo_threads 0) = Ret () (demo_threads 0)" "sem_init 1 (\<lambda>i. 64) (demo_threads 0) = Ret () (demo_threads 1)"
  "sem_init 2 (\<lambda>i. 64) (demo_threads 0) = Ret () (demo_threads 2)"
  by (simp_all add: demo_init int32_id)

definition demo_block :: "(cmd \<times> addr \<times> nat) list" where
  "demo_block = [(DoLock, 64, 0), (DoLock, 64, 0), (DoLock, 64, 0), (DoLock, 64, 0), (DoLock, 64, 0),
     (DoLock, 64, 1), (DoLock, 64, 1), (DoLock, 64, 1), (DoLock, 64, 1), (DoLock, 128, 1), (DoLock, 128, 1), (DoLock, 128, 1)]"

lemma demo_block_run:
  "\<exists>t. trun demo_block (demo_threads 1) = Some t \<and> t_pc t 0 = Crit \<and> t_pc t 1 = ML_parked KUser \<and>
     length (t_procs t) = 2 \<and> p_state (t_procs t ! 1) = SLEEPING \<and> pq_fresh (t_mq t) 128 \<and> pq_fresh (t_cq t) 128"
  by (simp add: demo_block_def run_simps)

definition demo_wait :: "(cmd \<times> addr \<times> nat) list" where
  "demo_wait = [(DoSemWait, 64, 0), (DoSemWait, 64, 0), (DoSemWait, 64, 0), (DoSemWait, 64, 0),
     (DoSemWait, 64, 0), (DoSemWait, 64, 0), (DoSemWait, 64, 0), (DoSemWait, 64, 0), (DoSemWait, 128, 0), (DoSemWait, 128, 0),
     (DoSemWait, 128, 0), (DoSemWait, 128, 0), (DoSemWait, 128, 0), (DoSemWait, 128, 0), (DoSemWait, 128, 0)]"

lemma demo_wait_run:
  "\<exists>t. trun demo_wait (demo_threads 0) = Some t \<and> length (t_procs t) = 2 \<and> t_pc t 0 \<noteq> Idle \<and> t_pc t 1 = Idle \<and>
     p_state (t_procs t ! 0) = SLEEPING \<and> pq_fresh (t_mq t) 128 \<and> pq_fresh (t_cq t) 128"
  by (simp add: demo_wait_def run_simps)

section \<open>Who wakes a sleeper\<close>

lemma tid_inj: "pids_ok (t_procs s) \<Longrightarrow> i < length (t_procs s) \<Longrightarrow> j < length (t_procs s) \<Longrightarrow> tid s i = tid s j \<Longrightarrow> i = j"
  by (metis find_thread option.inject)

lemma handing_cases:
  assumes "handing wakes n l xs q" and "x \<in> set xs"
  obtains ys where "pq_rep q ys" "x \<in> set ys" "set ys \<subseteq> set xs" | j where "j < n" "wakes (l j) = Some x"
  using assms unfolding handing_def by (metis order_refl set_ConsD set_subset_Cons)

lemma waker_awake: "at_inv ms cs s \<Longrightarrow> j < length (t_procs s) \<Longrightarrow> m_wakes (t_pc s j) = Some p \<or> c_wakes (t_pc s j) = Some p \<Longrightarrow> awake (t_procs s ! j)"
  using region_awake [OF at_invD(1)] wakes_region by blast

lemma mutex_sleeper:
  assumes inv: "at_inv ms cs t" and i: "i \<in> set ms"
  shows "(\<exists>xs j. pq_rep (t_mq t) xs \<and> tid t i \<in> set xs \<and> j < length (t_procs t) \<and> awake (t_procs t ! j) \<and>
      (holds_mutex (t_pc t j) \<or> in_mutex_queue (t_pc t j) \<and> tid t j \<notin> set xs))
    \<or> (\<exists>j u. j < length (t_procs t) \<and> awake (t_procs t ! j) \<and> t_pc t j = MU_unpark u (tid t i))"
proof -
  note I = inv_qD [OF conjunct2 [OF conjunct2 [OF inv [unfolded at_inv_def]]]]
  have h: "handing m_wakes (length (t_procs t)) (t_pc t) (map (tid t) ms) (t_mq t)" using inv by (simp add: at_inv_def)
  have "tid t i \<in> set (map (tid t) ms)" using i by simp
  with h show ?thesis
  proof (cases rule: handing_cases)
    case (1 ys)
    have "t_flag t \<noteq> 0" using I(9) i by auto
    then obtain j where j: "j < length (t_procs t)" "owner ms (t_pc t) j" using I(8) unfolding uniq_def by blast
    have "awake (t_procs t ! j)"
      by (rule owner_awake [OF I(10) [OF j(1)]]) (use j(2) in \<open>auto simp: owner_def\<close>)
    moreover have "tid t j \<notin> set ys" if "j \<notin> set ms"
      using tid_inj [OF I(1) j(1)] I(4) 1(3) that by fastforce
    ultimately show ?thesis using 1(1,2) j unfolding owner_def by blast
  next
    case (2 j)
    then have "\<exists>u. t_pc t j = MU_unpark u (tid t i)" by (cases "t_pc t j") auto
    then show ?thesis using waker_awake [OF inv 2(1)] 2 by blast
  qed
qed

lemma cond_sleeper:
  assumes inv: "at_inv ms cs t" and i: "i \<in> set cs"
  shows "(\<exists>xs. pq_rep (t_cq t) xs \<and> tid t i \<in> set xs)
    \<or> (\<exists>j u. j < length (t_procs t) \<and> awake (t_procs t ! j) \<and> (t_pc t j = CS_unpark u (tid t i) \<or> t_pc t j = CB_unpark u (tid t i)))"
proof -
  have h: "handing c_wakes (length (t_procs t)) (t_pc t) (map (tid t) cs) (t_cq t)" using inv by (simp add: at_inv_def)
  have "tid t i \<in> set (map (tid t) cs)" using i by simp
  with h show ?thesis
  proof (cases rule: handing_cases)
    case (2 j)
    then have "\<exists>u. t_pc t j = CS_unpark u (tid t i) \<or> t_pc t j = CB_unpark u (tid t i)" by (cases "t_pc t j") auto
    then show ?thesis using waker_awake [OF inv 2(1)] 2 by blast
  qed blast
qed

section \<open>Properties\<close>

text \<open>C1. Mutual exclusion. However the threads of a program interleave, at most one of them is
  between the acquisition and the release of the mutex, no matter which calls of the library
  the clients make.\<close>

theorem mutex_mutual_exclusion:
  assumes "boot s0" and "sem_init v mal s0 = Ret () s" and "treach C s t"
    and "i < length (t_procs t)" and "j < length (t_procs t)"
    and "holds_mutex (t_pc t i)" and "holds_mutex (t_pc t j)"
  shows "i = j"
proof -
  obtain ms cs where "at_inv ms cs t" using treach_inv [OF assms(3) init_inv [OF assms(1,2)]] by blast
  then have "uniq (length (t_procs t)) (owner ms (t_pc t)) (t_flag t \<noteq> 0)"
    using inv_qD(8) unfolding at_inv_def by blast
  then show ?thesis by (rule uniqD) (use assms in \<open>simp_all add: owner_def\<close>)
qed

theorem mutex_mutual_exclusion_witness:
  "\<exists>t. trun demo_block (demo_threads 1) = Some t \<and> t_pc t 0 = Crit \<and> \<not> holds_mutex (t_pc t 1)"
proof -
  obtain t where t: "trun demo_block (demo_threads 1) = Some t" "t_pc t 0 = Crit" "length (t_procs t) = 2"
    using demo_block_run by blast
  have "treach UNIV (demo_threads 1) t" using t(1) by (rule trun_treach) simp
  from mutex_mutual_exclusion [OF demo_boot demo_start(2) this, of 0 1] t show ?thesis by auto
qed

text \<open>C2. No lost wake-up. A thread that sleeps in \<^verbatim>\<open>park\<close>, called from \<^verbatim>\<open>mutex_lock\<close>, is in the
  queue of the mutex, and then a thread that is awake has the mutex and has not left it yet, or has been
  given it and is on its way out of \<^verbatim>\<open>mutex_lock\<close>; or else it is off the queue and a thread that is awake is
  about to unpark it. One that sleeps in \<^verbatim>\<open>cv_wait\<close> is in the queue of the condition variable, or a thread that is awake
  has taken it off and is about to unpark it.\<close>

theorem no_lost_wakeup:
  assumes "boot s0" and "sem_init v mal s0 = Ret () s" and "treach C s t"
    and "i < length (t_procs t)" and "p_state (t_procs t ! i) = SLEEPING"
  shows "(\<exists>k. t_pc t i = ML_parked k \<and>
            ((\<exists>xs j. pq_rep (t_mq t) xs \<and> tid t i \<in> set xs \<and> j < length (t_procs t) \<and> awake (t_procs t ! j) \<and>
                (holds_mutex (t_pc t j) \<or> in_mutex_queue (t_pc t j) \<and> tid t j \<notin> set xs))
             \<or> (\<exists>j u. j < length (t_procs t) \<and> awake (t_procs t ! j) \<and> t_pc t j = MU_unpark u (tid t i))))
       \<or> (\<exists>k. t_pc t i = CW_parked k \<and>
            ((\<exists>xs. pq_rep (t_cq t) xs \<and> tid t i \<in> set xs)
             \<or> (\<exists>j u. j < length (t_procs t) \<and> awake (t_procs t ! j) \<and>
                  (t_pc t j = CS_unpark u (tid t i) \<or> t_pc t j = CB_unpark u (tid t i)))))"
proof -
  obtain ms cs where inv: "at_inv ms cs t" using treach_inv [OF assms(3) init_inv [OF assms(1,2)]] by blast
  note I = inv_qD [OF conjunct2 [OF conjunct2 [OF inv [unfolded at_inv_def]]]]
  have "\<not> awake (t_procs t ! i)" using assms(5) by (simp add: awake_def)
  from asleep_parked [OF I(10) [OF assms(4)] this]
  consider k where "t_pc t i = ML_parked k" "i \<in> set ms" | k where "t_pc t i = CW_parked k" "i \<in> set cs" by blast
  then show ?thesis
  proof cases
    case 1
    then show ?thesis using mutex_sleeper [OF inv] by blast
  next
    case 2
    then show ?thesis using cond_sleeper [OF inv] by blast
  qed
qed

theorem no_lost_wakeup_witness:
  "\<exists>t. trun demo_block (demo_threads 1) = Some t \<and> p_state (t_procs t ! 1) = SLEEPING \<and>
     ((\<exists>xs. pq_rep (t_mq t) xs \<and> tid t 1 \<in> set xs) \<or> (\<exists>j u. t_pc t j = MU_unpark u (tid t 1)))"
proof -
  obtain t where t: "trun demo_block (demo_threads 1) = Some t" "length (t_procs t) = 2"
    "t_pc t 1 = ML_parked KUser" "p_state (t_procs t ! 1) = SLEEPING"
    using demo_block_run by blast
  have "treach UNIV (demo_threads 1) t" using t(1) by (rule trun_treach) simp
  from no_lost_wakeup [OF demo_boot demo_start(2) this, of 1] t show ?thesis by auto
qed

text \<open>C3. Progress. If some thread is inside a routine of the library or in its critical
  section, and is not asleep on the condition variable, then some such thread can take a step:
  the mutex never deadlocks.\<close>

theorem mutex_progress:
  assumes "boot s0" and "sem_init v mal s0 = Ret () s" and "treach C s t"
    and "i < length (t_procs t)" and "t_pc t i \<noteq> Idle"
    and "p_state (t_procs t ! i) \<noteq> SLEEPING \<or> (\<forall>k. t_pc t i \<noteq> CW_parked k)"
    and "pq_fresh (t_mq t) new" and "pq_fresh (t_cq t) new"
  shows "\<exists>j. can_move new t j"
proof -
  obtain ms cs where inv: "at_inv ms cs t" using treach_inv [OF assms(3) init_inv [OF assms(1,2)]] by blast
  have "awake (t_procs t ! i) \<or> (\<forall>k. t_pc t i \<noteq> CW_parked k)"
    using asleep_parked [OF at_invD(1) [OF inv assms(4)]] assms(6) by blast
  then show ?thesis by (rule progress [OF inv assms(4,5) _ assms(7,8)])
qed

theorem mutex_progress_witness:
  "\<exists>t. trun demo_block (demo_threads 1) = Some t \<and> p_state (t_procs t ! 1) = SLEEPING \<and> (\<exists>j. can_move 128 t j)"
proof -
  obtain t where t: "trun demo_block (demo_threads 1) = Some t" "length (t_procs t) = 2"
    "t_pc t 1 = ML_parked KUser" "p_state (t_procs t ! 1) = SLEEPING" "pq_fresh (t_mq t) 128" "pq_fresh (t_cq t) 128"
    using demo_block_run by blast
  have "treach UNIV (demo_threads 1) t" using t(1) by (rule trun_treach) simp
  from mutex_progress [OF demo_boot demo_start(2) this, of 1 128] t show ?thesis by auto
qed

text \<open>C6. The library's memory and system-call safety, while its threads live. The only step that can
  go wrong is a \<^verbatim>\<open>queue_add\<close> for which \<^verbatim>\<open>malloc\<close> returned 0, and it always does, since \<^verbatim>\<open>queue_add\<close> does not test the result.
  With every other result of \<^verbatim>\<open>malloc\<close> no step of any thread follows a null or dangling queue node, and none passes
  \<^verbatim>\<open>unpark\<close> a process id that is not in the process table.\<close>

theorem library_no_fault:
  assumes "boot s0" and "sem_init v mal s0 = Ret () s" and "treach C s t"
    and "i < length (t_procs t)" and "malloc_ok t new"
  shows "(\<exists>w. tstep c new i t = Fault w \<or> tstep c new i t = Panic w) \<longleftrightarrow>
     new = 0 \<and> awake (t_procs t ! i) \<and> (\<exists>k. t_pc t i = ML_add k \<or> t_pc t i = CW_add k)"
proof -
  obtain ms cs where inv: "at_inv ms cs t" using treach_inv [OF assms(3) init_inv [OF assms(1,2)]] by blast
  consider "awake (t_procs t ! i)" "new = 0" "\<exists>k. t_pc t i = ML_add k \<or> t_pc t i = CW_add k" | "\<not> awake (t_procs t ! i)"
    | "new \<noteq> 0 \<or> (\<forall>k. t_pc t i \<noteq> ML_add k \<and> t_pc t i \<noteq> CW_add k)" by blast
  then show ?thesis
  proof cases
    case 1
    then show ?thesis using tstep_null [OF 1(1)] by blast
  next
    case 2
    then show ?thesis by (simp add: tstep_def)
  next
    case 3
    then show ?thesis using tstep_safe [OF inv assms(4), of new c] assms(5) by (auto simp: malloc_ok_def)
  qed
qed

definition demo_hand_over :: "(cmd \<times> addr \<times> nat) list" where
  "demo_hand_over = demo_block @ [(DoUnlock, 0, 0), (DoUnlock, 0, 0), (DoUnlock, 0, 0)]"

lemma demo_hand_over_run:
  "\<exists>t. trun demo_hand_over (demo_threads 1) = Some t \<and> t_pc t 0 = MU_remove UDone \<and> length (t_procs t) = 2"
  by (simp add: demo_hand_over_def demo_block_def run_simps)

theorem library_no_fault_witness:
  "\<exists>t. trun demo_hand_over (demo_threads 1) = Some t \<and> t_pc t 0 = MU_remove UDone \<and> \<not> (\<exists>w. tstep DoUnlock 0 0 t = Fault w)"
proof -
  obtain t where t: "trun demo_hand_over (demo_threads 1) = Some t" "t_pc t 0 = MU_remove UDone" "length (t_procs t) = 2"
    using demo_hand_over_run by blast
  have "treach UNIV (demo_threads 1) t" using t(1) by (rule trun_treach) simp
  from library_no_fault [OF demo_boot demo_start(2) this, of 0 0 DoUnlock] t show ?thesis by (auto simp: malloc_ok_def)
qed

text \<open>C5. The semaphore loses no update: as long as the initial value and the posts together stay within a
  32-bit \<^verbatim>\<open>int\<close>, its value is the initial value plus the posts minus the waits made so far, and never becomes negative
  if it did not start so; beyond that it is this sum as the 32-bit word it wraps to.\<close>

theorem semaphore_value:
  assumes "boot s0" and "sem_init v mal s0 = Ret () s" and "treach C s t"
  shows "t_value t = int32 (v + int (t_posts t) - int (t_waits t)) \<and>
     (- 2147483648 \<le> v \<and> v + int (t_posts t) < 2147483648 \<longrightarrow>
        t_value t = v + int (t_posts t) - int (t_waits t) \<and> (0 \<le> v \<longrightarrow> 0 \<le> t_value t))"
proof -
  let ?x = "v + int (t_posts t) - int (t_waits t)"
  have "t_value t = int32 ?x" "- 2147483648 \<le> v \<and> v + int (t_posts t) < 2147483648 \<longrightarrow> min v 0 \<le> ?x"
    using treach_value [OF assms(3) init_inv [OF assms(1,2)] init_value(1) [OF assms(1,2)]]
    unfolding value_inv_def by blast+
  then show ?thesis using int32_id [of ?x] by (auto simp: min_def split: if_splits)
qed

theorem semaphore_value_witness:
  "\<exists>t. trun [(DoSemWait, 64, 0), (DoSemWait, 64, 0), (DoSemWait, 64, 0), (DoSemWait, 64, 0), (DoSemWait, 64, 0),
      (DoSemWait, 64, 0), (DoSemWait, 64, 0), (DoSemWait, 64, 0)] (demo_threads 2) = Some t \<and> t_waits t = 1 \<and> t_value t = 1"
proof -
  let ?r = "[(DoSemWait, 64, 0), (DoSemWait, 64, 0), (DoSemWait, 64, 0), (DoSemWait, 64, 0), (DoSemWait, 64, 0),
      (DoSemWait, 64, 0), (DoSemWait, 64, 0), (DoSemWait, 64, 0)]"
  have "\<exists>t. trun ?r (demo_threads 2) = Some t \<and> t_waits t = 1 \<and> t_posts t = 0"
    by (simp add: run_simps)
  then obtain t where t: "trun ?r (demo_threads 2) = Some t" "t_waits t = 1" "t_posts t = 0" by blast
  have "treach UNIV (demo_threads 2) t" using t(1) by (rule trun_treach) simp
  from semaphore_value [OF demo_boot demo_start(3) this] t show ?thesis by auto
qed

text \<open>C4. No stranded waiter. When the clients of the semaphore have come to a point where
  no thread inside \<^verbatim>\<open>sem_wait\<close> or \<^verbatim>\<open>sem_post\<close> can take a step, every such thread sleeps in
  \<^verbatim>\<open>sem_wait\<close> and the value is not positive.\<close>

theorem semaphore_no_stranded_waiter:
  assumes "boot s0" and "sem_init v mal s0 = Ret () s" and "treach {DoSemWait, DoSemPost} s t"
    and "pq_fresh (t_mq t) new" and "pq_fresh (t_cq t) new" and "\<forall>j. \<not> can_move new t j"
    and "i < length (t_procs t)" and "t_pc t i \<noteq> Idle"
  shows "t_pc t i = CW_parked KWait \<and> p_state (t_procs t ! i) = SLEEPING \<and> t_value t \<le> 0"
proof -
  obtain ms cs where inv: "at_inv ms cs t" and sig: "signal_inv cs t"
    using treach_signal [OF assms(3) _ init_inv [OF assms(1,2)] init_value [OF assms(1,2)]] by blast
  have parked: "t_pc t j = CW_parked KWait \<and> p_state (t_procs t ! j) = SLEEPING \<and> j \<in> set cs"
    if j: "j < length (t_procs t)" "t_pc t j \<noteq> Idle" for j
  proof -
    have a: "\<not> awake (t_procs t ! j)" and k: "\<exists>k. t_pc t j = CW_parked k"
      using progress [OF inv j _ assms(4,5)] assms(6) by blast+
    moreover have "sem_pc (t_pc t j)" using sig j(1) by (simp add: signal_inv_def)
    ultimately show ?thesis using asleep_parked [OF at_invD(1) [OF inv j(1)] a] by auto
  qed
  have "\<not> pending cs (t_pc t) j" if j: "j < length (t_procs t)" for j
    using parked [OF j] by (cases "t_pc t j = Idle") (auto simp: pending_def)
  then have "count (length (t_procs t)) (pending cs (t_pc t)) = 0" by (auto simp: count_def)
  moreover have "cs \<noteq> []" using parked [OF assms(7,8)] by auto
  ultimately have "t_value t \<le> 0" using sig by (simp add: signal_inv_def)
  with parked [OF assms(7,8)] show ?thesis by blast
qed

theorem semaphore_no_stranded_waiter_witness:
  "\<exists>t. trun demo_wait (demo_threads 0) = Some t \<and> t_pc t 0 = CW_parked KWait \<and> t_value t \<le> 0"
proof -
  obtain t where t: "trun demo_wait (demo_threads 0) = Some t" "length (t_procs t) = 2" "t_pc t 0 \<noteq> Idle"
    "t_pc t 1 = Idle" "p_state (t_procs t ! 0) = SLEEPING" "pq_fresh (t_mq t) 128" "pq_fresh (t_cq t) 128"
    using demo_wait_run by blast
  have r: "treach {DoSemWait, DoSemPost} (demo_threads 0) t"
    using t(1) by (rule trun_treach) (simp add: demo_wait_def)
  have "\<not> can_move 128 t j" for j
    using t by (auto simp: can_move_def tstep_def awake_def less_2_cases_iff)
  with semaphore_no_stranded_waiter [OF demo_boot demo_start(1) r, of 128 0] t show ?thesis by auto
qed

end
