(* ===== verification/Proc_Props.thy ===== *)
theory Proc_Props
  imports Proc Vm_Props
begin

text \<open>
  What \<^verbatim>\<open>allocproc\<close> and \<^verbatim>\<open>clone\<close> of \<^verbatim>\<open>kernel/proc.c\<close> make of the kernel: the entry, the page and the pid a new process gets
  (\<open>born\<close>), the references a thread takes to the open files and the working directory of its creator (\<open>copied\<close>), and the
  stack and the registers it starts with (\<open>started\<close>).
\<close>

section \<open>A new entry\<close>

lemma setproc_upd [simp]:
  "setproc p f (k\<lparr>k_mem := m\<rparr>) = (setproc p f k)\<lparr>k_mem := m\<rparr>"
  "setproc p f (k\<lparr>k_freelist := l\<rparr>) = (setproc p f k)\<lparr>k_freelist := l\<rparr>"
  "setproc p f (k\<lparr>k_nextpid := n\<rparr>) = (setproc p f k)\<lparr>k_nextpid := n\<rparr>"
  "setproc p f (k\<lparr>k_contexts := c\<rparr>) = (setproc p f k)\<lparr>k_contexts := c\<rparr>"
  "setproc p f (set_tframe a g k) = set_tframe a g (setproc p f k)"
  by (simp_all add: setproc_def getproc_def set_tframe_def)

lemma getproc_upd [simp]:
  "getproc p (k\<lparr>k_mem := m\<rparr>) = getproc p k" "getproc p (set_tframe a g k) = getproc p k" "getproc p (setinode i h k) = getproc p k"
  by (simp_all add: getproc_def set_tframe_def setinode_def)

lemma setproc_twice [simp]: "setproc p f (setproc p g k) = setproc p (\<lambda>x. f (g x)) k"
  by (cases "p < length (k_ptable k)") (simp_all add: setproc_def getproc_def list_update_beyond)

lemma alloc_page:
  assumes "free_rep k (x # xs)" and "kmem_ready k"
  shows "kalloc k = Ret x ((touch k)\<lparr>k_freelist := load32 (k_mem k) x\<rparr>)" and "x \<noteq> 0"
  using assms by (auto simp: kalloc_eq free_rep_def page_addr_def)

lemma no_page:
  assumes "free_rep k []" and "kmem_ready k"
  shows "kalloc k = Ret 0 (touch k)"
  using assms by (auto simp: kalloc_eq free_rep_def)

text \<open>The entry and the kernel after \<^verbatim>\<open>allocproc\<close> has taken entry \<open>p\<close> and the page \<open>x\<close>.\<close>

definition born :: "symbols \<Rightarrow> nat \<Rightarrow> addr \<Rightarrow> kernel \<Rightarrow> kernel" where
  "born sy p x k = (setproc p (\<lambda>e. e\<lparr>p_state := EMBRYO, p_pid := k_nextpid k, p_kstack := x, p_tf := x + 4020, p_context := x + 3996\<rparr>) (touch k))
     \<lparr>k_nextpid := int32 (k_nextpid k + 1), k_freelist := load32 (k_mem k) x, k_mem := store32 (k_mem k) (x + 4016) (sym_trapret sy),
      k_contexts := (k_contexts k)(x + 3996 := zero_context\<lparr>ctx_eip := sym_forkret sy\<rparr>)\<rparr>"

lemma allocproc_full:
  assumes "unlocked PtableLock k" "cli_ok k" "first_idx (\<lambda>p. p_state p = UNUSED) (k_ptable k) = None"
  shows "allocproc sy k = Ret None (touch k)"
  using assms by (simp add: allocproc_def cli_ok_def)

lemma allocproc_no_page:
  assumes "unlocked PtableLock k" "kmem_ready k" "free_rep k []" "first_idx (\<lambda>p. p_state p = UNUSED) (k_ptable k) = Some p"
  shows "allocproc sy k = Ret None (setproc p (\<lambda>e. e\<lparr>p_pid := k_nextpid k, p_kstack := 0, p_state := UNUSED\<rparr>) ((touch k)\<lparr>k_nextpid := int32 (k_nextpid k + 1)\<rparr>))"
proof -
  let ?k = "setproc p (\<lambda>x. x\<lparr>p_state := EMBRYO, p_pid := k_nextpid k\<rparr>) ((touch k)\<lparr>k_nextpid := int32 (k_nextpid k + 1)\<rparr>)"
  have "kalloc ?k = Ret 0 (touch ?k)"
    by (rule no_page) (use assms in \<open>simp_all add: free_rep_def kmem_ready_def page_addr_def\<close>)
  then show ?thesis using assms by (simp add: allocproc_def kmem_ready_def cli_ok_def)
qed

lemma allocproc_born:
  assumes "unlocked PtableLock k" "kmem_ready k" "free_rep k (x # xs)" "first_idx (\<lambda>p. p_state p = UNUSED) (k_ptable k) = Some p"
  shows "allocproc sy k = Ret (Some p) (born sy p x k)"
proof -
  let ?k = "setproc p (\<lambda>x. x\<lparr>p_state := EMBRYO, p_pid := k_nextpid k\<rparr>) ((touch k)\<lparr>k_nextpid := int32 (k_nextpid k + 1)\<rparr>)"
  have "kalloc ?k = Ret x ((touch ?k)\<lparr>k_freelist := load32 (k_mem ?k) x\<rparr>)" and "x \<noteq> 0"
    by (rule alloc_page [of _ _ xs]; use assms in \<open>simp add: free_rep_def kmem_ready_def page_addr_def\<close>)+
  then show ?thesis using assms by (simp add: allocproc_def kmem_ready_def cli_ok_def born_def putword_def setmem_def Let_def add.commute)
qed

lemma born_sel [simp]:
  "k_ptable (born sy p x k) = (k_ptable k)[p := (k_ptable k ! p)\<lparr>p_state := EMBRYO, p_pid := k_nextpid k, p_kstack := x,
     p_tf := x + 4020, p_context := x + 3996\<rparr>]"
  "k_nextpid (born sy p x k) = int32 (k_nextpid k + 1)" "k_locks (born sy p x k) = k_locks k" "k_end (born sy p x k) = k_end k"
  "k_mem (born sy p x k) = store32 (k_mem k) (x + 4016) (sym_trapret sy)"
  "k_freelist (born sy p x k) = load32 (k_mem k) x"
  "k_contexts (born sy p x k) = (k_contexts k)(x + 3996 := zero_context\<lparr>ctx_eip := sym_forkret sy\<rparr>)"
  "k_tframes (born sy p x k) = k_tframes k" "k_ftable (born sy p x k) = k_ftable k" "k_icache (born sy p x k) = k_icache k"
  "cli_ok (born sy p x k) = cli_ok k" "c_proc (k_cpu (born sy p x k)) = c_proc (k_cpu k)"
  by (simp_all add: born_def setproc_def getproc_def)

lemma page_offset_aligned: "(x :: addr) mod 4096 = 0 \<Longrightarrow> aligned4 (x + 4016)"
  using page_unat_add [of x 4016] page_multiple [of x] by (auto simp: aligned4_def)

lemma free_rep_born:
  assumes "free_rep k (x # xs)"
  shows "free_rep (born sy p x k) xs"
proof -
  have x: "x mod 4096 = 0" "x \<notin> set xs" using assms by (auto simp: free_rep_def page_addr_def)
  have "load32 (store32 (k_mem k) (x + 4016) w) y = load32 (k_mem k) y" if "y \<in> set xs" for y w
  proof (rule load32_store32_other [OF page_offset_aligned [OF x(1)]])
    have y: "y mod 4096 = 0" using assms that by (auto simp: free_rep_def page_addr_def)
    then show "aligned4 y" by (rule page_aligned4)
    show "x + 4016 \<noteq> y" using pages_disjoint [OF x(1) y, of 4016 0] that x(2) by auto
  qed
  then have "chain (k_mem (born sy p x k)) a xs = chain (k_mem k) a xs" for a by (intro chain_cong) simp
  then show ?thesis using assms by (simp add: free_rep_def page_addr_def)
qed

text \<open>C13. \<^verbatim>\<open>allocproc\<close> makes a process only out of an unused entry of the table and a free page: it fails exactly when every entry
  is in use or no page is free, and then the states of all entries and the free pages are as before. The new process is an
  embryo with the next pid, which no process in use has; its kernel stack is a page that is free no more, with the trap frame at the
  top, below it the address of \<^verbatim>\<open>trapret\<close> to return to and a context that starts in \<^verbatim>\<open>forkret\<close>. No other entry
  changes.\<close>

theorem allocproc_fresh:
  assumes mem: "free_rep k xs" "kmem_ready k" and lock: "unlocked PtableLock k"
    and pid: "0 \<le> k_nextpid k" "k_nextpid k < 2147483647"
    and pids: "\<forall>q < length (k_ptable k). p_state (k_ptable k ! q) \<noteq> UNUSED \<longrightarrow> p_pid (k_ptable k ! q) < k_nextpid k"
  shows "\<exists>r k'. allocproc sy k = Ret r k' \<and>
     (\<forall>q < length (k_ptable k'). p_state (k_ptable k' ! q) \<noteq> UNUSED \<longrightarrow> p_pid (k_ptable k' ! q) < k_nextpid k') \<and>
     (case r of
        None \<Rightarrow> ((\<forall>q < length (k_ptable k). p_state (k_ptable k ! q) \<noteq> UNUSED) \<or> xs = []) \<and>
          map p_state (k_ptable k') = map p_state (k_ptable k) \<and> free_rep k' xs \<and>
          (\<forall>q < length (k_ptable k). p_state (k_ptable k ! q) \<noteq> UNUSED \<longrightarrow> k_ptable k' ! q = k_ptable k ! q)
      | Some p \<Rightarrow> p < length (k_ptable k) \<and> p_state (k_ptable k ! p) = UNUSED \<and> xs \<noteq> [] \<and> free_rep k' (tl xs) \<and>
          length (k_ptable k') = length (k_ptable k) \<and> (\<forall>q. q \<noteq> p \<longrightarrow> k_ptable k' ! q = k_ptable k ! q) \<and>
          p_state (k_ptable k' ! p) = EMBRYO \<and>
          (\<forall>q < length (k_ptable k). q \<noteq> p \<and> p_state (k_ptable k ! q) \<noteq> UNUSED \<longrightarrow> p_pid (k_ptable k ! q) \<noteq> p_pid (k_ptable k' ! p)) \<and>
          p_kstack (k_ptable k' ! p) = hd xs \<and> p_tf (k_ptable k' ! p) + 76 = hd xs + KSTACKSIZE \<and>
          load32 (k_mem k') (p_tf (k_ptable k' ! p) - 4) = sym_trapret sy \<and> p_context (k_ptable k' ! p) + 20 = p_tf (k_ptable k' ! p) - 4 \<and>
          ctx_eip (k_contexts k' (p_context (k_ptable k' ! p))) = sym_forkret sy)"
proof (cases "first_idx (\<lambda>p. p_state p = UNUSED) (k_ptable k)")
  case None
  then have "allocproc sy k = Ret None (touch k)" using lock mem by (simp add: allocproc_full kmem_ready_def)
  moreover have "free_rep (touch k) xs" using mem by (simp add: free_rep_def page_addr_def)
  ultimately show ?thesis using None pids by (simp add: first_idx_None)
next
  case (Some p)
  note p = first_idx_Some [OF Some]
  have n: "int32 (k_nextpid k + 1) = k_nextpid k + 1" using pid by (simp add: int32_id)
  show ?thesis
  proof (cases xs)
    case Nil
    let ?k = "setproc p (\<lambda>e. e\<lparr>p_pid := k_nextpid k, p_kstack := 0, p_state := UNUSED\<rparr>) ((touch k)\<lparr>k_nextpid := int32 (k_nextpid k + 1)\<rparr>)"
    have "allocproc sy k = Ret None ?k" using allocproc_no_page [OF lock mem(2) _ Some] mem(1) Nil by simp
    moreover have "map p_state (k_ptable ?k) = map p_state (k_ptable k)"
      using p by (auto simp: setproc_def getproc_def map_update intro: list_update_same_conv [THEN iffD2])
    moreover have "free_rep ?k []" using mem Nil by (simp add: free_rep_def page_addr_def)
    moreover have "\<forall>q < length (k_ptable ?k). p_state (k_ptable ?k ! q) \<noteq> UNUSED \<longrightarrow> p_pid (k_ptable ?k ! q) < k_nextpid ?k"
      using pids n p by (auto simp: setproc_def getproc_def nth_list_update intro: less_imp_le)
    moreover have "\<forall>q < length (k_ptable k). p_state (k_ptable k ! q) \<noteq> UNUSED \<longrightarrow> k_ptable ?k ! q = k_ptable k ! q"
      using p by (auto simp: setproc_def getproc_def nth_list_update)
    ultimately show ?thesis using Nil by auto
  next
    case (Cons x ys)
    have "allocproc sy k = Ret (Some p) (born sy p x k)" using allocproc_born [OF lock mem(2) _ Some] mem(1) Cons by simp
    moreover have "free_rep (born sy p x k) ys" using mem(1) Cons by (simp add: free_rep_born)
    moreover have "\<forall>q < length (k_ptable (born sy p x k)). p_state (k_ptable (born sy p x k) ! q) \<noteq> UNUSED \<longrightarrow>
        p_pid (k_ptable (born sy p x k) ! q) < k_nextpid (born sy p x k)"
      using pids n p by (auto simp: nth_list_update intro: less_imp_le)
    moreover have "load32 (store32 (k_mem k) (x + 4016) w) (4016 + x) = w" for w by (simp add: add.commute)
    ultimately show ?thesis using p Cons pids by (auto simp: nth_list_update)
  qed
qed

section \<open>Duplicating the open files\<close>

definition dup1 :: "nat option \<Rightarrow> kfile list \<Rightarrow> kfile list" where
  "dup1 fo ft = (case fo of None \<Rightarrow> ft | Some f \<Rightarrow> ft[f := (ft ! f)\<lparr>f_ref := f_ref (ft ! f) + 1\<rparr>])"

definition put_file :: "nat option list \<Rightarrow> nat \<Rightarrow> nat option list \<Rightarrow> nat option list" where
  "put_file fs i os = (case fs ! i of None \<Rightarrow> os | Some f \<Rightarrow> os[i := Some f])"

definition live_files :: "nat option list \<Rightarrow> kfile list \<Rightarrow> bool" where
  "live_files fs ft \<longleftrightarrow> (\<forall>f. Some f \<in> set fs \<longrightarrow> f < length ft \<and> 1 \<le> f_ref (ft ! f))"

definition copied :: "nat \<Rightarrow> nat \<Rightarrow> nat list \<Rightarrow> kernel \<Rightarrow> kernel" where
  "copied me np is k = (let fs = p_ofile (getproc me k) in
     (setproc np (\<lambda>x. x\<lparr>p_ofile := fold (put_file fs) is (p_ofile x)\<rparr>) k)\<lparr>k_ftable := fold (\<lambda>i. dup1 (fs ! i)) is (k_ftable k)\<rparr>)"

lemma live_dup1: "live_files fs ft \<Longrightarrow> live_files fs (dup1 fo ft)"
  by (cases "\<exists>f. fo = Some f \<and> f < length ft")
    (fastforce simp: live_files_def dup1_def nth_list_update list_update_beyond split: option.split)+

lemma setproc_same: "setproc p (\<lambda>x. x) k = k"
  by (simp add: setproc_def getproc_def)

lemma filedup_eq:
  assumes "unlocked FtableLock k" "cli_ok k" "touch k = k" "1 \<le> f_ref (k_ftable k ! f)"
  shows "filedup f k = Ret f (k\<lparr>k_ftable := dup1 (Some f) (k_ftable k)\<rparr>)"
  using assms by (simp add: filedup_def cli_ok_def setfile_def dup1_def)

lemma copy_files_from:
  assumes "unlocked FtableLock k" "cli_ok k" "touch k = k" "me \<noteq> np"
    "live_files (p_ofile (getproc me k)) (k_ftable k)" "\<forall>i \<in> set is. i < length (p_ofile (getproc me k))"
  shows "forP is (\<lambda>i. bindP (reads (\<lambda>k. p_ofile (getproc me k) ! i)) (\<lambda>fo.
     case fo of
       None \<Rightarrow> ret ()
     | Some f \<Rightarrow> bindP (filedup f) (\<lambda>f'. modify (setproc np (\<lambda>x. x\<lparr>p_ofile := (p_ofile x)[i := Some f']\<rparr>))))) k = Ret () (copied me np is k)"
  using assms
proof (induction "is" arbitrary: k)
  case Nil
  then show ?case by (simp add: copied_def Let_def setproc_same)
next
  case (Cons i "is")
  let ?k = "copied me np [i] k"
  have me: "getproc me ?k = getproc me k" using Cons.prems(4) by (simp add: copied_def Let_def getproc_def setproc_def)
  have "bindP (reads (\<lambda>k. p_ofile (getproc me k) ! i)) (\<lambda>fo.
     case fo of
       None \<Rightarrow> ret ()
     | Some f \<Rightarrow> bindP (filedup f) (\<lambda>f'. modify (setproc np (\<lambda>x. x\<lparr>p_ofile := (p_ofile x)[i := Some f']\<rparr>)))) k = Ret () ?k"
  proof (cases "p_ofile (getproc me k) ! i")
    case None
    then show ?thesis by (simp add: copied_def Let_def put_file_def dup1_def setproc_same)
  next
    case (Some f)
    then have "1 \<le> f_ref (k_ftable k ! f)"
      using Cons.prems(5,6) nth_mem [of i "p_ofile (getproc me k)"] by (auto simp: live_files_def)
    then show ?thesis using Some Cons.prems by (simp add: filedup_eq copied_def Let_def put_file_def setproc_def getproc_def)
  qed
  moreover have "copied me np is ?k = copied me np (i # is) k"
    using me by (cases "np < length (k_ptable k)") (simp_all add: copied_def Let_def setproc_def getproc_def list_update_beyond)
  moreover have "unlocked FtableLock ?k" "cli_ok ?k" "touch ?k = ?k"
    using Cons.prems by (simp_all add: copied_def Let_def)
  moreover have "live_files (p_ofile (getproc me ?k)) (k_ftable ?k)" unfolding me using Cons.prems(5) by (simp add: copied_def Let_def live_dup1)
  ultimately show ?case using Cons.IH [of ?k] Cons.prems(4,6) me by simp
qed

lemma put_files:
  "n \<le> length fs \<Longrightarrow> fold (put_file fs) [0..<n] (replicate (length fs) None) = take n fs @ replicate (length fs - n) None"
proof (induction n)
  case (Suc n)
  then have "replicate (length fs - n) None = None # replicate (length fs - Suc n) (None :: nat option)"
    by (metis Suc_diff_Suc Suc_le_lessD replicate_Suc)
  then show ?case using Suc
    by (cases "fs ! n") (simp_all add: put_file_def take_Suc_conv_app_nth list_update_append)
qed simp

lemma length_dup1 [simp]: "length (dup1 fo ft) = length ft"
  by (simp add: dup1_def split: option.split)

lemma length_dups [simp]: "length (fold (\<lambda>i. dup1 (fs ! i)) is ft) = length ft"
  by (induction "is" arbitrary: ft) simp_all

lemma dup1_nth:
  "f < length ft \<Longrightarrow> dup1 fo ft ! f = (if fo = Some f then (ft ! f)\<lparr>f_ref := f_ref (ft ! f) + 1\<rparr> else ft ! f)"
  by (auto simp: dup1_def nth_list_update split: option.split)

lemma dup_files:
  "n \<le> length fs \<Longrightarrow> f < length ft \<Longrightarrow> fold (\<lambda>i. dup1 (fs ! i)) [0..<n] ft ! f =
     (ft ! f)\<lparr>f_ref := f_ref (ft ! f) + int (count_list (take n fs) (Some f))\<rparr>"
proof (induction n)
  case (Suc n)
  then show ?case by (auto simp: dup1_nth take_Suc_conv_app_nth)
qed simp

section \<open>Copying to a user page\<close>

lemma copyout_page:
  assumes ok: "vm_ok k pgdir xs" and t: "translate (k_mem k) pgdir True va = Some pa" "PGSIZE \<le> pa"
    and bs: "bs \<noteq> []" "unat (va AND 0xFFF) + length bs \<le> 4096"
  shows "copyout pgdir va bs k = Ret 0 (k\<lparr>k_mem := store_bytes pa bs (k_mem k)\<rparr>)"
proof -
  let ?e = "entry (k_mem k) pgdir va" and ?va0 = "PGROUNDDOWN va"
  have e: "?e AND 1 \<noteq> 0" "?e AND 4 \<noteq> 0" "pa = PTE_ADDR ?e + (va AND 0xFFF)"
    using t(1) unfolding translate_entry [OF ok] by (auto split: if_splits)
  have off: "va - ?va0 = va AND 0xFFF" using page_split [of va] PGROUNDDOWN_props(3) [of va] by (metis add_diff_cancel_left')
  have small: "va AND 0xFFF \<le> 0xFFF" by (simp add: word_and_le1)
  have idx: "PDX ?va0 = PDX va" "PTX ?va0 = PTX va" using index_eq [of ?va0 va] PGROUNDDOWN_props(2) by auto
  then have e0: "entry (k_mem k) pgdir ?va0 = ?e" and pde: "pde_at (k_mem k) pgdir ?va0 = pde_at (k_mem k) pgdir va"
    by (simp_all add: entry_def slot_def pde_at_def)
  have p: "pde_at (k_mem k) pgdir ?va0 AND 1 \<noteq> 0" using e(1) unfolding pde by (auto simp: entry_def split: if_splits)
  have ld: "load32 (k_mem k) (slot (k_mem k) pgdir ?va0) = ?e" using p e0 by (simp add: entry_def)
  have nz: "PTE_ADDR ?e \<noteq> 0"
  proof
    assume "PTE_ADDR ?e = 0"
    then have "(4096 :: u32) \<le> va AND 0xFFF" using t(2) e(3) by simp
    from order.trans [OF this small] show False by simp
  qed
  have u: "uva2ka pgdir ?va0 k = Ret (PTE_ADDR ?e) k"
    using walk_present [OF ok p] ld e(1,2) by (simp add: uva2ka_def getword_def)
  have "unat (4096 - (va AND 0xFFF)) = 4096 - unat (va AND 0xFFF)" using small by (subst unat_sub) (auto intro: order_trans)
  then have n: "min (unat (PGSIZE - (va - ?va0))) (length bs) = length bs" unfolding off using bs(2) by simp
  obtain m where m: "length bs = Suc m" using bs(1) by (cases bs) auto
  have stop: "copyout_loop j pgdir a [] = ret 0" for j a by (cases j) simp_all
  show ?thesis unfolding copyout_def m
    using bs(1) u nz n stop by (simp add: Let_def off e(3) setmem_def)
qed

lemma vm_ok_born:
  assumes ok: "vm_ok k pgdir (x # xs)"
  shows "vm_ok (born sy p x k) pgdir xs" "translate (k_mem (born sy p x k)) pgdir u va = translate (k_mem k) pgdir u va"
proof -
  have x: "x mod 4096 = 0" using vm_okD(1) [OF ok] by (simp add: free_rep_def page_addr_def)
  have ld: "load32 (store32 (k_mem k) (x + 4016) w) (t + 4 * i) = load32 (k_mem k) (t + 4 * i)"
    if "t mod 4096 = 0" "t \<noteq> x" "unat i < 1024" for t i w
    using load32_store_slot [of x t 1004 i] x that by simp
  have pde: "pde_at (k_mem (born sy p x k)) pgdir va = pde_at (k_mem k) pgdir va" for va
    unfolding pde_at_def born_sel by (rule ld) (use vm_okD(3,4) [OF ok] in auto)
  have ent: "entry (k_mem (born sy p x k)) pgdir va = entry (k_mem k) pgdir va" for va
    using vm_okD(7) [OF ok, of va] ld [of "PTE_ADDR (pde_at (k_mem k) pgdir va)" "PTX va"] unfolding entry_def slot_def pde by simp
  show ok': "vm_ok (born sy p x k) pgdir xs"
    using ok free_rep_born [of k x xs sy p] unfolding vm_ok_def pde Let_def by (auto simp: kmem_ready_def)
  show "translate (k_mem (born sy p x k)) pgdir u va = translate (k_mem k) pgdir u va"
    unfolding translate_entry [OF ok'] translate_entry [OF ok] ent ..
qed

lemma vm_ok_cong:
  "k_mem k' = k_mem k \<Longrightarrow> k_freelist k' = k_freelist k \<Longrightarrow> k_end k' = k_end k \<Longrightarrow> kmem_ready k' = kmem_ready k \<Longrightarrow> vm_ok k' pgdir xs = vm_ok k pgdir xs"
  by (simp add: vm_ok_def free_rep_def page_addr_def)

section \<open>Threads\<close>

text \<open>The kernel when \<^verbatim>\<open>clone\<close> has filled in entry \<open>np\<close>, up to the files.\<close>

definition adopted :: "nat \<Rightarrow> nat \<Rightarrow> kernel \<Rightarrow> kernel" where
  "adopted me np k = set_tframe (p_tf (getproc np k)) (\<lambda>_. k_tframes k (p_tf (getproc me k)))
     (setproc np (\<lambda>e. e\<lparr>p_isThread := 1, p_pgdir := p_pgdir (getproc me k), p_sz := p_sz (getproc me k), p_parent := Some me\<rparr>) k)"

definition started :: "addr \<Rightarrow> addr \<Rightarrow> u32 \<Rightarrow> addr \<Rightarrow> u8 list \<Rightarrow> nat \<Rightarrow> nat \<Rightarrow> nat \<Rightarrow> kernel \<Rightarrow> kernel" where
  "started fn ustack sp pa bs ip me np k =
     (let k1 = setproc np (\<lambda>e. e\<lparr>p_cwd := Some ip, p_bsp := ustack, p_state := RUNNABLE, p_name := p_name (getproc me k)\<rparr>)
         (setinode ip (\<lambda>n. n\<lparr>i_ref := i_ref n + 1\<rparr>) (copied me np [0..<NOFILE] (adopted me np k)))
      in set_tframe (p_tf (getproc np k)) (\<lambda>t. t\<lparr>tf_eip := fn, tf_esp := sp\<rparr>) (k1\<lparr>k_mem := store_bytes pa bs (k_mem k)\<rparr>))"

lemma clone_started:
  assumes all: "allocproc sy k = Ret (Some np) k1" and k1: "vm_ok k1 (p_pgdir (getproc me k1)) xs" "touch k1 = k1"
    and locks: "unlocked FtableLock k1" "unlocked IcacheLock k1"
    and me: "c_proc (k_cpu k1) = Some me" "me \<noteq> np" "np < length (k_ptable k1)"
    and files: "length (p_ofile (getproc me k1)) = NOFILE" "live_files (p_ofile (getproc me k1)) (k_ftable k1)" "p_cwd (getproc me k1) = Some ip"
    and stack: "translate (k_mem k1) (p_pgdir (getproc me k1)) True (4084 + ustack) = Some pa" "PGSIZE \<le> pa"
      "unat ((4084 + ustack) AND 0xFFF) \<le> 4084"
  shows "clone sy fn arg ustack k = Ret (p_pid (getproc np k1))
     (started fn ustack (4084 + ustack) pa (enc32 0xffffffff @ enc32 arg @ enc32 0) ip me np k1)"
proof -
  let ?bs = "enc32 0xffffffff @ enc32 arg @ enc32 0" and ?d = "p_pgdir (getproc me k1)"
  let ?k2 = "adopted me np k1"
  let ?k3 = "copied me np [0..<NOFILE] ?k2"
  let ?k4 = "setproc np (\<lambda>e. e\<lparr>p_cwd := Some ip\<rparr>) (setinode ip (\<lambda>n. n\<lparr>i_ref := i_ref n + 1\<rparr>) ?k3)"
  have me2: "getproc me ?k2 = getproc me k1" using me by (simp add: adopted_def getproc_def setproc_def set_tframe_def)
  have ok: "cli_ok k1" using k1(1) by (simp add: vm_ok_def kmem_ready_def)
  have k2: "unlocked FtableLock ?k2" "cli_ok ?k2" "touch ?k2 = ?k2" using ok locks k1(2) by (simp_all add: adopted_def)
  have files3: "copy_files me np ?k2 = Ret () ?k3" unfolding copy_files_def
    by (rule copy_files_from [OF k2 me(2)]) (use me2 files in \<open>simp_all add: adopted_def\<close>)
  have k3: "unlocked IcacheLock ?k3" "cli_ok ?k3" "touch ?k3 = ?k3"
    using ok locks k1(2) by (simp_all add: copied_def adopted_def Let_def)
  have me3: "getproc me ?k3 = getproc me k1"
    using me by (simp add: copied_def adopted_def Let_def getproc_def setproc_def set_tframe_def)
  have cwd: "copy_cwd me np ?k3 = Ret () ?k4" using k3 me3 files(3) by (simp add: copy_cwd_def idup_def cli_ok_def)
  have "k_mem ?k4 = k_mem k1" "k_freelist ?k4 = k_freelist k1" "k_end ?k4 = k_end k1" "kmem_ready ?k4 = kmem_ready k1"
    by (simp_all add: copied_def adopted_def Let_def kmem_ready_def)
  then have "vm_ok ?k4 ?d xs" "k_mem ?k4 = k_mem k1" using k1(1) vm_ok_cong [of ?k4 k1] by simp_all
  then have out: "copyout ?d (4084 + ustack) ?bs ?k4 = Ret 0 (?k4\<lparr>k_mem := store_bytes pa ?bs (k_mem k1)\<rparr>)"
    using copyout_page [of ?k4 ?d xs "4084 + ustack" pa ?bs] stack by (simp add: enc32_def)
  have tf: "p_tf (getproc np ?k3) = p_tf (getproc np k1)" "p_pid (getproc np ?k3) = p_pid (getproc np k1)"
    "length (k_ptable ?k3) = length (k_ptable k1)"
    using me by (simp_all add: copied_def adopted_def Let_def getproc_def setproc_def set_tframe_def)
  have frame: "copy_tf me np (setproc np (\<lambda>x. x\<lparr>p_isThread := 1, p_pgdir := ?d, p_sz := p_sz (getproc me k1), p_parent := Some me\<rparr>) k1) = Ret () ?k2"
    using me by (simp add: copy_tf_def adopted_def)
  show ?thesis
    using frame all me(1,3) files3 cwd out tf unfolding clone_def
    by (simp add: Let_def started_def)
qed

lemma load_store_bytes:
  assumes "length bs < 4294967296"
  shows "load_bytes (store_bytes a bs m) a (length bs) = bs"
proof (rule nth_equalityI)
  fix i assume i: "i < length (load_bytes (store_bytes a bs m) a (length bs))"
  then have "unat (of_nat i :: u32) = i" using assms by (simp add: load_bytes_def unat_of_nat take_bit_eq_mod)
  then show "load_bytes (store_bytes a bs m) a (length bs) ! i = bs ! i"
    using i by (simp add: load_bytes_def store_bytes_def)
qed (simp add: load_bytes_def)


definition demo_space :: kernel where
  "demo_space = (demo_kernel [(demo_proc 3)\<lparr>p_pgdir := 0x200000, p_cwd := Some 0, p_ofile := Some 0 # Some 0 # replicate 14 None\<rparr>,
       (demo_proc 0)\<lparr>p_state := UNUSED\<rparr>])
     \<lparr>k_mem := store32 (store32 (\<lambda>_. 0) (0x201000 + 4 * 5) 0x400007) (0x200000 + 4 * 0) 0x201007, k_end := 0x100000, k_freelist := 0x300000,
      k_icache := [\<lparr>i_dev = 1, i_inum = 1, i_ref = 1, i_flags = 2, i_type = 1, i_major = 0, i_minor = 0, i_nlink = 1, i_size = 0, i_addrs = replicate 13 0\<rparr>],
      k_ftable := [\<lparr>f_type = FD_INODE, f_ref = 2, f_readable = 1, f_writable = 1, f_pipe = 0, f_ip = 0, f_off = 0\<rparr>]\<rparr>"

lemma demo_space_mem:
  "pde_at (k_mem demo_space) 0x200000 va = (if PDX va = 0 then 0x201007 else 0)"
  "load32 (k_mem demo_space) (0x201000 + 4 * 5) = 0x400007"
  "load32 (k_mem demo_space) (0x300000 + 4 * 0) = 0"
proof -
  have z: "load32 (\<lambda>_. 0) a = 0" for a by (simp add: load32_def dec32_def)
  let ?m = "store32 (\<lambda>_. 0) (0x201000 + 4 * 5) 0x400007"
  have m: "k_mem demo_space = store32 ?m (0x200000 + 4 * 0) 0x201007" by (simp add: demo_space_def)
  show "pde_at (k_mem demo_space) 0x200000 va = (if PDX va = 0 then 0x201007 else 0)"
    using load32_store_slot [of "0x200000" "0x200000" 0 "PDX va" ?m "0x201007"]
      load32_store_slot [of "0x201000" "0x200000" 5 "PDX va" "\<lambda>_. 0" "0x400007"] unfolding pde_at_def m by (simp add: z)
  show "load32 (k_mem demo_space) (0x201000 + 4 * 5) = 0x400007"
    using load32_store_slot [of "0x200000" "0x201000" 0 5 ?m "0x201007"] unfolding m by simp
  show "load32 (k_mem demo_space) (0x300000 + 4 * 0) = 0"
    using load32_store_slot [of "0x200000" "0x300000" 0 0 ?m "0x201007"]
      load32_store_slot [of "0x201000" "0x300000" 5 0 "\<lambda>_. 0" "0x400007"] unfolding m by (simp add: z)
qed

lemma demo_space_ok:
  "vm_ok demo_space 0x200000 [0x300000]" "translate (k_mem demo_space) 0x200000 True 0x5ff4 = Some 0x400ff4"
proof -
  have i: "PDX 0x5ff4 = 0" "PTX 0x5ff4 = 5" by (simp_all add: PDX_def PTX_def)
  show ok: "vm_ok demo_space 0x200000 [0x300000]"
    using demo_space_mem(3) unfolding vm_ok_def demo_space_mem(1)
    by (auto simp: Let_def PTE_ADDR_def free_rep_def page_addr_def kmem_ready_def)
       (simp_all add: demo_space_def demo_kernel_def demo_cpu_def cli_ok_def)
  show "translate (k_mem demo_space) 0x200000 True 0x5ff4 = Some 0x400ff4"
    using demo_space_mem(2) i unfolding translate_entry [OF ok] entry_def slot_def demo_space_mem(1) by (simp add: PTE_ADDR_def)
qed

theorem allocproc_fresh_witness:
  "\<exists>k'. allocproc \<lparr>sym_trapret = 7, sym_forkret = 9\<rparr> demo_space = Ret (Some 1) k' \<and> p_pid (k_ptable k' ! 0) = 3 \<and>
     p_state (k_ptable k' ! 1) = EMBRYO \<and> p_kstack (k_ptable k' ! 1) = 0x300000 \<and> p_pid (k_ptable k' ! 1) \<noteq> 3 \<and> free_rep k' []"
proof -
  have "p_state (k_ptable demo_space ! 0) = RUNNING" "p_pid (k_ptable demo_space ! 0) = 3" "p_state (k_ptable demo_space ! 1) = UNUSED"
    "length (k_ptable demo_space) = 2" "unlocked PtableLock demo_space" "k_nextpid demo_space = 10"
    by (simp_all add: demo_space_def demo_proc_def, simp add: demo_kernel_def)
  note d = this
  obtain r k' where r: "allocproc \<lparr>sym_trapret = 7, sym_forkret = 9\<rparr> demo_space = Ret r k'"
    "case r of None \<Rightarrow> False | Some p \<Rightarrow> p < 2 \<and> p_state (k_ptable demo_space ! p) = UNUSED \<and> free_rep k' [] \<and>
       (\<forall>q. q \<noteq> p \<longrightarrow> k_ptable k' ! q = k_ptable demo_space ! q) \<and> p_state (k_ptable k' ! p) = EMBRYO \<and>
       (\<forall>q < 2. q \<noteq> p \<and> p_state (k_ptable demo_space ! q) \<noteq> UNUSED \<longrightarrow> p_pid (k_ptable demo_space ! q) \<noteq> p_pid (k_ptable k' ! p)) \<and>
       p_kstack (k_ptable k' ! p) = 0x300000"
    using allocproc_fresh [where k = demo_space and xs = "[0x300000]" and sy = "\<lparr>sym_trapret = 7, sym_forkret = 9\<rparr>"]
      vm_okD(1,2) [OF demo_space_ok(1)] d by (fastforce simp: less_2_cases_iff split: option.splits)
  then obtain p where p: "r = Some p" by (cases r) auto
  then have "p = 1" using r d by (auto simp: less_2_cases_iff)
  then show ?thesis using r p d by auto
qed


end
