(* ===== verification/Fs_Props.thy ===== *)
theory Fs_Props
  imports Fs
begin

text \<open>
  Correctness of the file-system layers \<open>Inode\<close> and \<open>Fs\<close> on top of the block store. A small
  calculus (\<open>runs\<close> of \<open>Prelude\<close>) steps through the code with the laws of \<open>block_store\<close>, interpreted on the buffer
  cache; the theorems speak about the contents of the disk.
\<close>

section \<open>Stepping through the block store\<close>

lemmas runs_step = runs_bindP runs_thenP bdata_def inode_get_def

text \<open>Nobody holds a buffer for the sector; one more buffer can be held.\<close>

definition unheld :: "kernel \<Rightarrow> u32 \<Rightarrow> u32 \<Rightarrow> bool" where
  "unheld k d s \<longleftrightarrow> (\<forall>b v. hold k b \<noteq> Some (d, s, v))"

definition room :: "nat \<Rightarrow> kernel \<Rightarrow> bool" where
  "room n k \<longleftrightarrow> card (dom (hold k)) + n \<le> NBUF"

text \<open>\<open>quiet p k k'\<close>: from \<open>k\<close> to \<open>k'\<close> only the cache has changed, and no buffer has been taken or
  given back.\<close>

definition quiet :: "nat \<Rightarrow> kernel \<Rightarrow> kernel \<Rightarrow> bool" where
  "quiet p k k' \<longleftrightarrow> bio_ok p k' \<and> rest k' = rest k \<and> hold k' = hold k"

lemma quiet_refl: "bio_ok p k \<Longrightarrow> quiet p k k"
  by (simp add: quiet_def)

lemma quiet_trans: "quiet p k k' \<Longrightarrow> quiet p k' k'' \<Longrightarrow> quiet p k k''"
  by (simp add: quiet_def)

lemma quiet_icache [simp]: "quiet p k k' \<Longrightarrow> k_icache k' = k_icache k"
  using rest_sel(4) [of k' k] by (simp add: quiet_def)

lemma quiet_locks [simp]: "quiet p k k' \<Longrightarrow> k_locks k' = k_locks k"
  using rest_sel(1) [of k' k] by (simp add: quiet_def)

lemma quiet_bio: "quiet p k k' \<Longrightarrow> bio_ok p k'"
  by (simp add: quiet_def)

lemma quiet_hold: "quiet p k k' \<Longrightarrow> hold k' = hold k"
  by (simp add: quiet_def)

lemma quiet_unheld: "quiet p k k' \<Longrightarrow> unheld k' d s = unheld k d s"
  by (simp add: quiet_def unheld_def)

lemma quiet_room: "quiet p k k' \<Longrightarrow> room n k' = room n k"
  by (simp add: quiet_def room_def)

lemma runs_read_block:
  assumes "bio_ok p k" "sector_ok d s" "unheld k d s" "room 1 k"
    and Q: "\<And>k'. quiet p k k' \<Longrightarrow> k_disk k' = k_disk k \<Longrightarrow> Q (f (k_disk k d s)) k'"
  shows "runs (bindP (bread d s) (\<lambda>b. bindP (reads (\<lambda>k. f (b_data (k_bufs k ! b)))) (\<lambda>v. thenP (brelse b) (ret v)))) k Q"
proof -
  have "card (dom (hold k)) < NBUF" "\<And>b v. hold k b \<noteq> Some (d, s, v)" using assms by (simp_all add: room_def unheld_def)
  from bcache.read_block [OF assms(1,2) this, of f] show ?thesis
    unfolding runs_def using Q by (auto simp: quiet_def)
qed

lemma runs_update_block:
  assumes "bio_ok p k" "sector_ok d s" "unheld k d s" "room 1 k"
    and Q: "\<And>k'. quiet p k k' \<Longrightarrow> k_disk k' = put d s (g (k_disk k d s)) (k_disk k) \<Longrightarrow> Q () k'"
  shows "runs (bindP (bread d s) (\<lambda>b. thenP (modify (setdata b g)) (thenP (bwrite b) (brelse b)))) k Q"
proof -
  have "card (dom (hold k)) < NBUF" "\<And>b v. hold k b \<noteq> Some (d, s, v)" using assms by (simp_all add: room_def unheld_def)
  from bcache.update_block [OF assms(1,2) this, of g] show ?thesis
    unfolding runs_def using Q by (auto simp: quiet_def)
qed

text \<open>The single steps, for code that does more between them.\<close>

lemma runs_bread:
  assumes "bio_ok p k" "sector_ok d s" "unheld k d s" "room 1 k"
    and Q: "\<And>b k'. bio_ok p k' \<Longrightarrow> rest k' = rest k \<Longrightarrow> k_disk k' = k_disk k \<Longrightarrow> hold k b = None \<Longrightarrow>
      hold k' = (hold k)(b \<mapsto> (d, s, k_disk k d s)) \<Longrightarrow> b_data (k_bufs k' ! b) = k_disk k d s \<Longrightarrow> Q b k'"
  shows "runs (bread d s) k Q"
proof -
  have "card (dom (hold k)) < NBUF" "\<And>b v. hold k b \<noteq> Some (d, s, v)" using assms by (simp_all add: room_def unheld_def)
  from bcache.read_law [OF assms(1,2) this] obtain b k' where r: "bread d s k = Ret b k'" "bio_ok p k'" "rest k' = rest k"
    "k_disk k' = k_disk k" "hold k b = None" "hold k' = (hold k)(b \<mapsto> (d, s, k_disk k d s))" by blast
  moreover have "b_data (k_bufs k' ! b) = k_disk k d s"
    using bcache.data_law [OF r(2), of b d s "k_disk k d s"] r(6) by simp
  ultimately show ?thesis unfolding runs_def using Q by blast
qed

lemma runs_bwrite:
  assumes "bio_ok p k" "hold k b = Some (d, s, v)"
    and Q: "\<And>k'. quiet p k k' \<Longrightarrow> k_disk k' = put d s v (k_disk k) \<Longrightarrow> Q () k'"
  shows "runs (bwrite b) k Q"
  using bcache.write_law [OF assms(1,2)] Q unfolding runs_def quiet_def by blast

lemma runs_brelse:
  assumes "bio_ok p k" "hold k b = Some (d, s, k_disk k d s)"
    and Q: "\<And>k'. bio_ok p k' \<Longrightarrow> rest k' = rest k \<Longrightarrow> k_disk k' = k_disk k \<Longrightarrow> hold k' = (hold k)(b := None) \<Longrightarrow> Q () k'"
  shows "runs (brelse b) k Q"
  using bcache.rel_law [OF assms(1,2)] Q unfolding runs_def by blast

section \<open>Updating and loading inodes\<close>

lemma runs_iupdate:
  assumes "bio_ok p k" and i: "k_icache k ! ip = i"
    and "sector_ok (i_dev i) (IBLOCK (i_inum i))" "unheld k (i_dev i) (IBLOCK (i_inum i))" "room 1 k"
    and Q: "\<And>k'. quiet p k k' \<Longrightarrow> k_disk k' = put (i_dev i) (IBLOCK (i_inum i))
      (put_bytes (dinode_off (i_inum i)) (enc_dinode (inode_dinode i)) (k_disk k (i_dev i) (IBLOCK (i_inum i)))) (k_disk k) \<Longrightarrow> Q () k'"
  shows "runs (iupdate ip) k Q"
  unfolding iupdate_def inode_get_def runs_bindP [of "reads f" for f] runs_reads i
  by (rule runs_update_block [OF assms(1,3,4,5)]) (rule Q)
lemma setinode_bio [simp]: "bio_ok p (setinode i f k) = bio_ok p k"
  by (simp add: bio_ok_def disk_ready_def)

lemma setinode_hold [simp]: "hold (setinode i f k) = hold k"
  by (simp add: hold_def fun_eq_iff)

lemma touch_bio [simp]: "bio_ok p (touch k) = bio_ok p k"
  by (simp add: bio_ok_def disk_ready_def)

lemma touch_hold [simp]: "hold (touch k) = hold k"
  by (simp add: hold_def fun_eq_iff)

lemma setinode_icache [simp]: "k_icache (setinode i f k) = (k_icache k)[i := f (k_icache k ! i)]"
  by (simp add: setinode_def)

lemma rest_setinode [simp]: "rest (setinode i f k) = setinode i f (rest k)"
  by (simp add: rest_def setinode_def)

lemma unheld_upd [simp]: "unheld (setinode i f k) d s = unheld k d s" "unheld (touch k) d s = unheld k d s"
  by (simp_all add: unheld_def)

lemma room_upd [simp]: "room n (setinode i f k) = room n k" "room n (touch k) = room n k"
  by (simp_all add: room_def)

lemma icache_rest: "k_icache (rest k) = k_icache k"
  by (simp add: rest_def)

lemma setinode_setinode [simp]: "i < length (k_icache k) \<Longrightarrow> setinode i f (setinode i g k) = setinode i (\<lambda>x. f (g x)) k"
  by (simp add: setinode_def)

lemma setinode_same: "f (k_icache k ! i) = g (k_icache k ! i) \<Longrightarrow> setinode i f k = setinode i g k"
  by (simp add: setinode_def)

text \<open>A critical section that changes one inode.\<close>

lemma runs_acquire [simp]: "unlocked lk k \<Longrightarrow> runs (acquire lk) k Q = Q () (enter lk k)"
  by (simp add: runs_def)

lemma runs_release_inode:
  "unlocked lk k \<Longrightarrow> cli_ok k \<Longrightarrow> runs (release lk) (setinode i f (enter lk k)) Q = Q () (setinode i f (touch k))"
  by (simp add: runs_def cli_ok_def)

lemma bio_ok_ctx: "bio_ok p k \<Longrightarrow> cli_ok k" "bio_ok p k \<Longrightarrow> unlocked PtableLock k"
  by (simp_all add: bio_ok_def disk_ready_def cli_ok_def)

lemma runs_ilock_load:
  assumes k: "bio_ok p k" "unlocked IcacheLock k" and i: "k_icache k ! ip = i" "ip < length (k_icache k)"
    and fl: "i_ref i \<ge> 1" "i_flags i AND I_BUSY = 0" "i_flags i AND I_VALID = 0"
    and s: "sector_ok (i_dev i) (IBLOCK (i_inum i))" "unheld k (i_dev i) (IBLOCK (i_inum i))" "room 1 k"
    and d: "d = dec_dinode (k_disk k (i_dev i) (IBLOCK (i_inum i))) (dinode_off (i_inum i))" "d_type d \<noteq> 0"
    and Q: "\<And>k'. bio_ok p k' \<Longrightarrow> hold k' = hold k \<Longrightarrow> k_disk k' = k_disk k \<Longrightarrow>
      rest k' = rest (setinode ip (\<lambda>x. (load_dinode d x)\<lparr>i_flags := (i_flags x OR I_BUSY) OR I_VALID\<rparr>) k) \<Longrightarrow> Q () k'"
  shows "runs (ilock ip) k Q"
proof -
  let ?b = "setinode ip (\<lambda>x. x\<lparr>i_flags := i_flags x OR I_BUSY\<rparr>) (touch k)"
  have c: "cli_ok k" using bio_ok_ctx [OF k(1)] by simp
  have v: "(i_flags i OR 1) AND 2 = 0" using fl by simp
  have ib: "k_icache ?b ! ip = i\<lparr>i_flags := i_flags i OR 1\<rparr>" using i by (simp add: setinode_def)
  let ?load = "bindP (bread (i_dev i) (IBLOCK (i_inum i))) (\<lambda>bp. bindP (bdata bp) (\<lambda>dd.
        thenP (modify (setinode ip (load_dinode (dec_dinode dd (dinode_off (i_inum i))))))
       (thenP (brelse bp)
       (thenP (modify (setinode ip (\<lambda>x. x\<lparr>i_flags := i_flags x OR I_VALID\<rparr>)))
       (bindP (inode_get ip i_type) (\<lambda>ty. whenP (ty = 0) (panic ''ilock: no type'')))))))"
  have "runs ?load ?b Q"
    unfolding runs_bindP
  proof (rule runs_bread)
    fix b k1
    assume h: "bio_ok p k1" "rest k1 = rest ?b" "k_disk k1 = k_disk ?b" "hold ?b b = None"
      "hold k1 = (hold ?b)(b \<mapsto> (i_dev i, IBLOCK (i_inum i), k_disk ?b (i_dev i) (IBLOCK (i_inum i))))"
      "b_data (k_bufs k1 ! b) = k_disk ?b (i_dev i) (IBLOCK (i_inum i))"
    let ?k1 = "setinode ip (load_dinode d) k1"
    have ic: "k_icache k1 = k_icache ?b" by (rule rest_sel(4) [OF h(2)])
    have "runs (brelse b) ?k1 (\<lambda>_ k2. runs (modify (setinode ip (\<lambda>x. x\<lparr>i_flags := i_flags x OR I_VALID\<rparr>))) k2 (\<lambda>_ k3.
        runs (inode_get ip i_type) k3 (\<lambda>ty k4. runs (whenP (ty = 0) (panic ''ilock: no type'')) k4 Q)))"
    proof (rule runs_brelse)
      show "bio_ok p ?k1" "hold ?k1 b = Some (i_dev i, IBLOCK (i_inum i), k_disk ?k1 (i_dev i) (IBLOCK (i_inum i)))"
        using h by simp_all
      fix k2
      assume g: "bio_ok p k2" "rest k2 = rest ?k1" "k_disk k2 = k_disk ?k1" "hold k2 = (hold ?k1)(b := None)"
      have ic2: "k_icache k2 = k_icache ?k1" by (rule rest_sel(4) [OF g(2)])
      let ?k3 = "setinode ip (\<lambda>x. x\<lparr>i_flags := i_flags x OR I_VALID\<rparr>) k2"
      have "i_type (k_icache ?k3 ! ip) = d_type d" using ic2 ic i by (simp add: setinode_def load_dinode_def)
      moreover have "Q () ?k3"
      proof (rule Q)
        show "bio_ok p ?k3" "k_disk ?k3 = k_disk k" using g h by simp_all
        show "hold ?k3 = hold k" using g h by (auto simp: fun_upd_idem)
        show "rest ?k3 = rest (setinode ip (\<lambda>x. (load_dinode d x)\<lparr>i_flags := (i_flags x OR I_BUSY) OR I_VALID\<rparr>) k)"
          using g(2) h(2) i(2) by (simp add: icache_rest load_dinode_def)
      qed
      ultimately show "runs (modify (setinode ip (\<lambda>x. x\<lparr>i_flags := i_flags x OR I_VALID\<rparr>))) k2 (\<lambda>_ k3.
        runs (inode_get ip i_type) k3 (\<lambda>ty k4. runs (whenP (ty = 0) (panic ''ilock: no type'')) k4 Q))"
        using d(2) by (simp add: inode_get_def)
    qed
    then show "runs (bdata b) k1 (\<lambda>dd k2. runs (thenP (modify (setinode ip (load_dinode (dec_dinode dd (dinode_off (i_inum i))))))
       (thenP (brelse b)
       (thenP (modify (setinode ip (\<lambda>x. x\<lparr>i_flags := i_flags x OR I_VALID\<rparr>)))
       (bindP (inode_get ip i_type) (\<lambda>ty. whenP (ty = 0) (panic ''ilock: no type'')))))) k2 Q)"
      using h(6) d(1) by (simp add: bdata_def runs_thenP runs_bindP)
  qed (use k s in simp_all)
  then show ?thesis
    using k i fl c v ib unfolding ilock_def
    by (simp add: runs_bindP runs_thenP inode_get_def runs_release_inode)
qed
definition disk_inode :: "kernel \<Rightarrow> u32 \<Rightarrow> u32 \<Rightarrow> dinode" where
  "disk_inode k dev inum = dec_dinode (k_disk k dev (IBLOCK inum)) (dinode_off inum)"

lemma disk_inode_put:
  assumes l: "length (k_disk k dev (IBLOCK n)) = 512" "length (d_addrs d) = 13"
    and e: "k_disk k' = put dev (IBLOCK n) (put_bytes (dinode_off n) (enc_dinode d) (k_disk k dev (IBLOCK n))) (k_disk k)"
  shows "disk_inode k' dev m = (if m = n then d else disk_inode k dev m)"
  using dinode_at_put [of "k_disk k dev" n d m] l e by (simp add: disk_inode_def dinode_at_def)

text \<open>C27. An inode written back with \<^verbatim>\<open>iupdate\<close> is read again by \<^verbatim>\<open>ilock\<close>: whatever the cache entry
  holds when it is locked for the first time after having been recycled for the same inode, all fields
  of the inode come back as they were. The other inodes of the disk, those in the same block included,
  are not changed by the write.\<close>

theorem iupdate_ilock:
  assumes "bio_ok p k" "unlocked IcacheLock k" "ip < length (k_icache k)" "k_icache k ! ip = i"
    and "sector_ok (i_dev i) (IBLOCK (i_inum i))" "unheld k (i_dev i) (IBLOCK (i_inum i))" "room 1 k"
    and "length (k_disk k (i_dev i) (IBLOCK (i_inum i))) = BSIZE" "length (i_addrs i) = NDIRECT + 1"
  shows "\<exists>k1. iupdate ip k = Ret () k1 \<and>
     (\<forall>m. m \<noteq> i_inum i \<longrightarrow> disk_inode k1 (i_dev i) m = disk_inode k (i_dev i) m) \<and>
     (\<forall>j. i_dev j = i_dev i \<and> i_inum j = i_inum i \<and> i_ref j \<ge> 1 \<and> i_flags j = 0 \<and> i_type i \<noteq> 0 \<longrightarrow>
        (\<exists>k2. ilock ip (setinode ip (\<lambda>_. j) k1) = Ret () k2 \<and>
           k_icache k2 ! ip = i\<lparr>i_ref := i_ref j, i_flags := I_BUSY OR I_VALID\<rparr>))"
proof -
  let ?s = "IBLOCK (i_inum i)"
  have "runs (iupdate ip) k (\<lambda>_ k1. quiet p k k1 \<and>
    k_disk k1 = put (i_dev i) ?s (put_bytes (dinode_off (i_inum i)) (enc_dinode (inode_dinode i)) (k_disk k (i_dev i) ?s)) (k_disk k))"
    by (rule runs_iupdate [OF assms(1,4-7)]) simp
  then obtain k1 where 1: "iupdate ip k = Ret () k1" "quiet p k k1"
    and e: "k_disk k1 = put (i_dev i) ?s (put_bytes (dinode_off (i_inum i)) (enc_dinode (inode_dinode i)) (k_disk k (i_dev i) ?s)) (k_disk k)"
    by (auto simp: runs_def)
  have d: "disk_inode k1 (i_dev i) m = (if m = i_inum i then inode_dinode i else disk_inode k (i_dev i) m)" for m
    by (rule disk_inode_put [OF _ _ e]) (use assms(8,9) in \<open>simp_all add: inode_dinode_def\<close>)
  have b: "bio_ok p k1" "unlocked IcacheLock k1" "ip < length (k_icache k1)"
    using 1(2) assms(2,3) quiet_bio [OF 1(2)] quiet_icache [OF 1(2)] quiet_locks [OF 1(2)] by simp_all
  have "\<exists>k2. ilock ip (setinode ip (\<lambda>_. j) k1) = Ret () k2 \<and>
      k_icache k2 ! ip = i\<lparr>i_ref := i_ref j, i_flags := I_BUSY OR I_VALID\<rparr>"
    if j: "i_dev j = i_dev i" "i_inum j = i_inum i" "i_ref j \<ge> 1" "i_flags j = 0" "i_type i \<noteq> 0" for j
  proof -
    let ?k = "setinode ip (\<lambda>_. j) k1"
    have dd: "inode_dinode i = dec_dinode (k_disk ?k (i_dev j) (IBLOCK (i_inum j))) (dinode_off (i_inum j))"
      using d [of "i_inum i"] j by (simp add: disk_inode_def)
    have dt: "d_type (inode_dinode i) \<noteq> 0" using j by (simp add: inode_dinode_def)
    have "runs (ilock ip) ?k (\<lambda>_ k2. k_icache k2 ! ip = i\<lparr>i_ref := i_ref j, i_flags := I_BUSY OR I_VALID\<rparr>)"
    proof (rule runs_ilock_load [OF _ _ _ _ _ _ _ _ _ _ dd dt, where p = p])
      fix k' assume r: "rest k' = rest (setinode ip (\<lambda>x. (load_dinode (inode_dinode i) x)\<lparr>i_flags := (i_flags x OR I_BUSY) OR I_VALID\<rparr>) ?k)"
      show "k_icache k' ! ip = i\<lparr>i_ref := i_ref j, i_flags := I_BUSY OR I_VALID\<rparr>"
        using rest_sel(4) [OF r] b(3) j by (simp add: load_dinode_def inode_dinode_def)
    qed (use b j assms(5-7) quiet_unheld [OF 1(2)] quiet_room [OF 1(2)] in
          \<open>simp_all\<close>)
    then show ?thesis by (auto simp: runs_def)
  qed
  then show ?thesis using 1(1) d by simp
qed
definition demo_inode :: inode where
  "demo_inode = \<lparr>i_dev = 1, i_inum = 9, i_ref = 1, i_flags = 3, i_type = 2, i_major = 0, i_minor = 0, i_nlink = 1,
     i_size = 700, i_addrs = [40, 41, 0, 0, 0, 0, 0, 0, 0, 0, 0, 0, 0]\<rparr>"

definition demo_fs :: kernel where
  "demo_fs = demo_disk\<lparr>k_icache := [demo_inode]\<rparr>"

lemma bio_icache [simp]: "bio_ok p (k\<lparr>k_icache := x\<rparr>) = bio_ok p k" "hold (k\<lparr>k_icache := x\<rparr>) = hold k"
  by (simp_all add: bio_ok_def disk_ready_def hold_def fun_eq_iff)

lemma demo_fs_ok: "bio_ok 0 demo_fs" "hold demo_fs = Map.empty" "unlocked lk demo_fs"
    "k_icache demo_fs = [demo_inode]" "k_disk demo_fs d s = replicate 512 0"
  using demo_disk_ok demo_hold
  by (simp_all add: demo_fs_def) (simp_all add: demo_disk_def demo_kernel_def)

lemma demo_fs_free [simp]: "unheld demo_fs d s" "n \<le> NBUF \<Longrightarrow> room n demo_fs"
  by (simp_all add: unheld_def room_def demo_fs_ok)

theorem iupdate_ilock_witness:
  "\<exists>k1. iupdate 0 demo_fs = Ret () k1 \<and> disk_inode k1 1 8 = disk_inode demo_fs 1 8 \<and>
     (\<exists>k2. ilock 0 (setinode 0 (\<lambda>_. demo_inode\<lparr>i_flags := 0, i_size := 12345, i_addrs := []\<rparr>) k1) = Ret () k2 \<and>
        k_icache k2 ! 0 = demo_inode)"
proof -
  obtain k1 where 1: "iupdate 0 demo_fs = Ret () k1" "\<forall>m. m \<noteq> 9 \<longrightarrow> disk_inode k1 1 m = disk_inode demo_fs 1 m"
     "\<forall>j. i_dev j = 1 \<and> i_inum j = 9 \<and> i_ref j \<ge> 1 \<and> i_flags j = 0 \<and> i_type demo_inode \<noteq> 0 \<longrightarrow>
        (\<exists>k2. ilock 0 (setinode 0 (\<lambda>_. j) k1) = Ret () k2 \<and>
           k_icache k2 ! 0 = demo_inode\<lparr>i_ref := i_ref j, i_flags := I_BUSY OR I_VALID\<rparr>)"
    using iupdate_ilock [OF demo_fs_ok(1) demo_fs_ok(3), of 0 demo_inode]
    by (simp add: demo_fs_ok) (simp add: demo_inode_def IBLOCK_def sector_ok_def, blast)
  have "demo_inode\<lparr>i_ref := 1, i_flags := 3\<rparr> = demo_inode" by (simp add: demo_inode_def)
  then show ?thesis
    using 1(1,2) 1(3) [rule_format, of "demo_inode\<lparr>i_flags := 0, i_size := 12345, i_addrs := []\<rparr>"]
    by (simp add: demo_inode_def)
qed

end
