(* ===== verification/Fs_Content.thy ===== *)
theory Fs_Content
  imports Fs_Props
begin

text \<open>
  A file as a sequence of bytes: the loops of \<^verbatim>\<open>readi\<close> and \<^verbatim>\<open>writei\<close> (\<^verbatim>\<open>kernel/fs.c\<close>) against the
  contents of the blocks the inode maps, direct and indirect.
\<close>

section \<open>Contents of a file\<close>

text \<open>
  The block of the disk that holds block \<open>bn\<close> of a file, and the bytes of the file. \<open>file_ok k i n\<close>:
  the first \<open>n\<close> blocks of the file are there, they are different blocks, none of them is the indirect
  block, and nobody holds a buffer for any of them.
\<close>

definition file_block :: "(u32 \<Rightarrow> u32 \<Rightarrow> u8 list) \<Rightarrow> inode \<Rightarrow> nat \<Rightarrow> u32" where
  "file_block disk i bn = (if bn < NDIRECT then i_addrs i ! bn
     else get32 (disk (i_dev i) (i_addrs i ! NDIRECT)) (4 * (bn - NDIRECT)))"

definition file_byte :: "(u32 \<Rightarrow> u32 \<Rightarrow> u8 list) \<Rightarrow> inode \<Rightarrow> nat \<Rightarrow> u8" where
  "file_byte disk i x = disk (i_dev i) (file_block disk i (x div BSIZE)) ! (x mod BSIZE)"

definition block_ok :: "kernel \<Rightarrow> u32 \<Rightarrow> u32 \<Rightarrow> bool" where
  "block_ok k dev b \<longleftrightarrow> b \<noteq> 0 \<and> sector_ok dev b \<and> unheld k dev b \<and> length (k_disk k dev b) = BSIZE"

definition file_ok :: "kernel \<Rightarrow> inode \<Rightarrow> nat \<Rightarrow> bool" where
  "file_ok k i n \<longleftrightarrow> n \<le> MAXFILE \<and> (\<forall>bn < n. block_ok k (i_dev i) (file_block (k_disk k) i bn)) \<and>
     inj_on (file_block (k_disk k) i) {..<n} \<and>
     (NDIRECT < n \<longrightarrow> block_ok k (i_dev i) (i_addrs i ! NDIRECT) \<and>
        (\<forall>bn < n. file_block (k_disk k) i bn \<noteq> i_addrs i ! NDIRECT))"

lemma file_okD:
  assumes "file_ok k i n" "bn < n"
  shows "block_ok k (i_dev i) (file_block (k_disk k) i bn)" "bn < 140"
  using assms by (auto simp: file_ok_def)

lemma runs_bmap_mapped:
  assumes k: "bio_ok p k" "room 1 k" and i: "k_icache k ! ip = i" and f: "file_ok k i n" "unat bn < n"
    and Q: "\<And>k'. quiet p k k' \<Longrightarrow> k_disk k' = k_disk k \<Longrightarrow> Q (file_block (k_disk k) i (unat bn)) k'"
  shows "runs (bmap ip bn) k Q"
proof -
  have b: "block_ok k (i_dev i) (file_block (k_disk k) i (unat bn))" "unat bn < 140" using file_okD [OF f] by auto
  show ?thesis
  proof (cases "unat bn < 12")
    case True
    then have "bn < 12" by (simp add: word_less_nat_alt)
    then show ?thesis using b True i Q [OF quiet_refl [OF k(1)]]
      by (simp add: bmap_def inode_get_def runs_bindP block_ok_def file_block_def Let_def)
  next
    case False
    then have w: "\<not> bn < 12" "bn - 12 < 128" and u: "unat (bn - 12) = unat bn - 12"
      using b(2) by (simp_all add: word_less_nat_alt unat_sub word_le_nat_alt)
    have c: "block_ok k (i_dev i) (i_addrs i ! 12)" using f False by (simp add: file_ok_def)
    let ?a = "get32 (k_disk k (i_dev i) (i_addrs i ! 12)) (4 * (unat bn - 12))"
    have "runs (bindP (bread (i_dev i) (i_addrs i ! 12)) (\<lambda>b. bindP (bdata b) (\<lambda>d.
       bindP (if get32 d (4 * (unat bn - 12)) = 0
              then bindP (balloc (i_dev i)) (\<lambda>a.
                   thenP (modify (setdata b (put_bytes (4 * (unat bn - 12)) (enc32 a))))
                  (thenP (bwrite b) (ret a)))
              else ret (get32 d (4 * (unat bn - 12)))) (\<lambda>addr.
       thenP (brelse b) (ret addr))))) k Q"
      unfolding runs_bindP
    proof (rule runs_bread)
      fix b k1
      assume h: "bio_ok p k1" "rest k1 = rest k" "k_disk k1 = k_disk k" "hold k b = None"
        "hold k1 = (hold k)(b \<mapsto> (i_dev i, i_addrs i ! 12, k_disk k (i_dev i) (i_addrs i ! 12)))"
        "b_data (k_bufs k1 ! b) = k_disk k (i_dev i) (i_addrs i ! 12)"
      have "runs (brelse b) k1 (\<lambda>_. Q ?a)"
      proof (rule runs_brelse)
        fix k' assume g: "bio_ok p k'" "rest k' = rest k1" "k_disk k' = k_disk k1" "hold k' = (hold k1)(b := None)"
        have "hold k' = hold k" using g(4) h(4,5) by (auto simp: fun_upd_idem)
        then have "quiet p k k'" using g h(2) by (simp add: quiet_def)
        then show "Q ?a k'" using Q [of k'] g h False by (simp add: file_block_def)
      qed (use h in simp_all)
      then show "runs (bdata b) k1 (\<lambda>v k'.
            runs (if get32 v (4 * (unat bn - 12)) = 0
                then bindP (balloc (i_dev i)) (\<lambda>a.
                   thenP (modify (setdata b (put_bytes (4 * (unat bn - 12)) (enc32 a)))) (thenP (bwrite b) (ret a)))
                else ret (get32 v (4 * (unat bn - 12)))) k'
              (\<lambda>v k'. runs (thenP (brelse b) (ret v)) k' Q))"
        using h b False by (simp add: bdata_def runs_thenP block_ok_def file_block_def)
    qed (use k c in \<open>simp_all add: block_ok_def\<close>)
    then show ?thesis using w u i c
      by (simp add: bmap_def inode_get_def runs_bindP [of "reads f" for f] block_ok_def Let_def runs_bindP [of "ret v" for v] cong del: if_weak_cong)
  qed
qed

lemma quiet_file:
  assumes "quiet p k k'" "k_disk k' = k_disk k"
  shows "file_ok k' i n = file_ok k i n"
  using assms by (simp add: file_ok_def block_ok_def quiet_unheld)

lemma block_div_mod: "x mod n + j < n \<Longrightarrow> (x + j) div n = x div n \<and> (x + j) mod n = x mod n + j" for n :: nat
proof -
  assume a: "x mod n + j < n"
  have "x + j = (x mod n + j) + x div n * n" using div_mult_mod_eq [of x n] by linarith
  moreover have "((x mod n + j) + x div n * n) div n = x div n" using a by (subst div_mult_self1) simp_all
  moreover have "((x mod n + j) + x div n * n) mod n = x mod n + j" using a by (subst mod_mult_self1) simp
  ultimately show ?thesis by simp
qed

lemma map_split: "m \<le> n \<Longrightarrow> map f [a..<a + n] = map f [a..<a + m] @ map f [a + m..<a + n]" for n :: nat
  using upt_add_eq_append [of a "a + m" "n - m"] by simp

lemma file_bytes_in_block:
  assumes "o' = x mod BSIZE" "m \<le> BSIZE - o'" "length (disk (i_dev i) (file_block disk i (x div BSIZE))) = BSIZE"
  shows "take m (drop o' (disk (i_dev i) (file_block disk i (x div BSIZE)))) = map (file_byte disk i) [x..<x + m]"
proof (rule nth_equalityI)
  show "length (take m (drop o' (disk (i_dev i) (file_block disk i (x div BSIZE))))) = length (map (file_byte disk i) [x..<x + m])"
    using assms by simp
  fix j assume "j < length (take m (drop o' (disk (i_dev i) (file_block disk i (x div BSIZE)))))"
  then have j: "j < m" by simp
  have lt: "x mod BSIZE + j < BSIZE" using j assms by linarith
  let ?d = "disk (i_dev i) (file_block disk i (x div BSIZE))"
  have "take m (drop o' ?d) ! j = ?d ! (x mod BSIZE + j)"
    using j lt assms(1,3) by (simp only: nth_take nth_drop)
  moreover have "map (file_byte disk i) [x..<x + m] ! j = file_byte disk i (x + j)" using j by simp
  moreover have "file_byte disk i (x + j) = ?d ! (x mod BSIZE + j)"
    unfolding file_byte_def by (simp only: block_div_mod [OF lt, THEN conjunct1] block_div_mod [OF lt, THEN conjunct2])
  ultimately show "take m (drop o' ?d) ! j = map (file_byte disk i) [x..<x + m] ! j" by (simp only:)
qed

lemma runs_readi_loop:
  assumes "bio_ok p k" "room 1 k" "k_icache k ! ip = i" "file_ok k i n" "unat off + rem \<le> 512 * n" "rem \<le> fuel"
    and Q: "\<And>k'. quiet p k k' \<Longrightarrow> k_disk k' = k_disk k \<Longrightarrow> Q (map (file_byte (k_disk k) i) [unat off..<unat off + rem]) k'"
  shows "runs (readi_loop fuel ip off rem) k Q"
  using assms
proof (induction fuel arbitrary: off rem k Q)
  case 0
  show ?case using 0(7) [OF quiet_refl [OF 0(1)] HOL.refl] 0(6) by simp
next
  case (Suc fuel)
  show ?case
  proof (cases "rem = 0")
    case True
    then show ?thesis using Suc.prems(7) [OF quiet_refl [OF Suc.prems(1)] HOL.refl] by simp
  next
    case False
    let ?o = "unat (off mod 512)" and ?x = "unat off"
    let ?m = "min rem (512 - ?o)"
    have o: "?o = ?x mod 512" "unat (off div 512) = ?x div 512" by (simp_all add: unat_mod unat_div)
    have bn: "?x div 512 < n" using Suc.prems(5) False by linarith
    have n: "n \<le> 140" using Suc.prems(4) by (simp add: file_ok_def)
    have m: "0 < ?m" "?m \<le> rem" using o False by simp_all
    have om: "unat (off + of_nat ?m) = ?x + ?m"
    proof -
      have "?x + ?m < 2 ^ 32" using Suc.prems(5) n m(2) by simp
      then show ?thesis by (simp add: unat_word_ariths unat_of_nat mod_less)
    qed
    let ?b = "file_block (k_disk k) i (?x div 512)"
    have ok: "block_ok k (i_dev i) ?b" using file_okD(1) [OF Suc.prems(4) bn] .
    have "runs (bmap ip (off div 512)) k (\<lambda>a k1. runs (bindP (inode_get ip i_dev) (\<lambda>dev.
        bindP (bread dev a) (\<lambda>bp. bindP (bdata bp) (\<lambda>d. thenP (brelse bp)
        (bindP (readi_loop fuel ip (off + of_nat ?m) (rem - ?m)) (\<lambda>r. ret (take ?m (drop ?o d) @ r))))))) k1 Q)"
    proof (rule runs_bmap_mapped [OF Suc.prems(1-4), of "off div 512"])
      show "unat (off div 512) < n" using bn o by simp
      fix k1 assume q1: "quiet p k k1" "k_disk k1 = k_disk k"
      have i1: "k_icache k1 ! ip = i" using q1 Suc.prems(3) by simp
      have "runs (bread (i_dev i) ?b) k1 (\<lambda>bp k2. runs (bdata bp) k2 (\<lambda>d k2'. runs (brelse bp) k2' (\<lambda>_ k3.
         runs (readi_loop fuel ip (off + of_nat ?m) (rem - ?m)) k3 (\<lambda>r. Q (take ?m (drop ?o d) @ r)))))"
      proof (rule runs_bread [OF quiet_bio [OF q1(1)]])
        fix b k2
        assume h: "bio_ok p k2" "rest k2 = rest k1" "k_disk k2 = k_disk k1" "hold k1 b = None"
          "hold k2 = (hold k1)(b \<mapsto> (i_dev i, ?b, k_disk k1 (i_dev i) ?b))" "b_data (k_bufs k2 ! b) = k_disk k1 (i_dev i) ?b"
        have "runs (brelse b) k2 (\<lambda>_ k3. runs (readi_loop fuel ip (off + of_nat ?m) (rem - ?m)) k3
            (\<lambda>r. Q (take ?m (drop ?o (k_disk k (i_dev i) ?b)) @ r)))"
        proof (rule runs_brelse [OF h(1)])
          show "hold k2 b = Some (i_dev i, ?b, k_disk k2 (i_dev i) ?b)" using h by simp
          fix k3 assume g: "bio_ok p k3" "rest k3 = rest k2" "k_disk k3 = k_disk k2" "hold k3 = (hold k2)(b := None)"
          have "hold k3 = hold k1" using g(4) h(4,5) by (auto simp: fun_upd_idem)
          then have q3: "quiet p k k3" using g h(2) q1(1) by (simp add: quiet_def)
          have d3: "k_disk k3 = k_disk k" using g h q1 by simp
          have eq: "take ?m (drop ?o (k_disk k (i_dev i) ?b)) @ map (file_byte (k_disk k) i) [?x + ?m..<?x + ?m + (rem - ?m)]
              = map (file_byte (k_disk k) i) [?x..<?x + rem]"
            using file_bytes_in_block [of ?o ?x ?m "k_disk k" i] ok o m(2) map_split [OF m(2), of "file_byte (k_disk k) i" ?x]
            by (simp add: block_ok_def)
          show "runs (readi_loop fuel ip (off + of_nat ?m) (rem - ?m)) k3 (\<lambda>r. Q (take ?m (drop ?o (k_disk k (i_dev i) ?b)) @ r))"
          proof (rule Suc.IH)
            show "bio_ok p k3" by (rule g(1))
            show "room 1 k3" "k_icache k3 ! ip = i" "file_ok k3 i n"
              using quiet_room [OF q3] quiet_icache [OF q3] quiet_file [OF q3 d3] Suc.prems(2-4) by auto
            show "unat (off + of_nat ?m) + (rem - ?m) \<le> 512 * n" "rem - ?m \<le> fuel" using om m Suc.prems(5,6) by auto
            fix k4 assume "quiet p k3 k4" "k_disk k4 = k_disk k3"
            then have "Q (map (file_byte (k_disk k) i) [?x..<?x + rem]) k4"
              using Suc.prems(7) [of k4] quiet_trans [OF q3] d3 by simp
            then show "Q (take ?m (drop ?o (k_disk k (i_dev i) ?b)) @
                map (file_byte (k_disk k3) i) [unat (off + of_nat ?m)..<unat (off + of_nat ?m) + (rem - ?m)]) k4"
              unfolding om d3 eq .
          qed
        qed
        then show "runs (bdata b) k2 (\<lambda>d k2'. runs (brelse b) k2' (\<lambda>_ k3.
           runs (readi_loop fuel ip (off + of_nat ?m) (rem - ?m)) k3 (\<lambda>r. Q (take ?m (drop ?o d) @ r))))"
          using h(6) q1(2) by (simp add: bdata_def)
      qed (use ok quiet_unheld [OF q1(1)] quiet_room [OF q1(1)] Suc.prems(2) in \<open>simp_all add: block_ok_def\<close>)
      then show "runs (bindP (inode_get ip i_dev) (\<lambda>dev.
        bindP (bread dev (file_block (k_disk k) i (unat (off div 512)))) (\<lambda>bp. bindP (bdata bp) (\<lambda>d. thenP (brelse bp)
        (bindP (readi_loop fuel ip (off + of_nat ?m) (rem - ?m)) (\<lambda>r. ret (take ?m (drop ?o d) @ r))))))) k1 Q"
        using i1 o by (simp add: inode_get_def runs_bindP runs_thenP)
    qed
    then show ?thesis using False by (simp only: readi_loop.simps if_False runs_bindP [of "bmap a b" for a b] Let_def BSIZE_def)
  qed
qed

text \<open>\<open>wrote disk disk' i n off bs\<close>: the bytes \<open>bs\<close> have been written at \<open>off\<close> and nothing else has
  changed, neither in the first \<open>n\<close> blocks of the file nor outside them.\<close>

definition wrote :: "(u32 \<Rightarrow> u32 \<Rightarrow> u8 list) \<Rightarrow> (u32 \<Rightarrow> u32 \<Rightarrow> u8 list) \<Rightarrow> inode \<Rightarrow> nat \<Rightarrow> nat \<Rightarrow> u8 list \<Rightarrow> bool" where
  "wrote disk disk' i n off bs \<longleftrightarrow>
     (\<forall>bn < n. file_block disk' i bn = file_block disk i bn) \<and>
     (\<forall>x < BSIZE * n. file_byte disk' i x =
        (if off \<le> x \<and> x < off + length bs then bs ! (x - off) else file_byte disk i x)) \<and>
     (\<forall>d s. d = i_dev i \<and> s \<in> file_block disk i ` {..<n} \<or> disk' d s = disk d s)"

lemma wrote_nil: "wrote disk disk i n off []"
  by (auto simp: wrote_def)

lemma wrote_append:
  assumes a: "wrote d0 d1 i n off bs" and b: "wrote d1 d2 i n (off + length bs) cs"
  shows "wrote d0 d2 i n off (bs @ cs)"
proof -
  have 1: "file_block d2 i bn = file_block d0 i bn" if "bn < n" for bn using a b that by (simp add: wrote_def)
  have im: "file_block d1 i ` {..<n} = file_block d0 i ` {..<n}" using a by (auto simp: wrote_def image_iff)
  have 2: "file_byte d2 i x = (if off \<le> x \<and> x < off + length (bs @ cs) then (bs @ cs) ! (x - off) else file_byte d0 i x)"
    if x: "x < BSIZE * n" for x
  proof -
    have "file_byte d1 i x = (if off \<le> x \<and> x < off + length bs then bs ! (x - off) else file_byte d0 i x)"
      using a x by (simp only: wrote_def)
    moreover have "file_byte d2 i x = (if off + length bs \<le> x \<and> x < off + length bs + length cs then cs ! (x - (off + length bs)) else file_byte d1 i x)"
      using b x by (simp only: wrote_def)
    ultimately show ?thesis by (auto simp: nth_append)
  qed
  have 3: "d = i_dev i \<and> s \<in> file_block d0 i ` {..<n} \<or> d2 d s = d0 d s" for d s
    using a b im unfolding wrote_def by metis
  show ?thesis unfolding wrote_def using 1 2 3 by blast
qed

lemma file_block_put:
  assumes f: "file_ok k i n" and bn: "bn < n" and m: "m < n"
  shows "file_block (put (i_dev i) (file_block (k_disk k) i bn) v (k_disk k)) i m = file_block (k_disk k) i m"
proof (cases "m < 12")
  case False
  then have "file_block (k_disk k) i bn \<noteq> i_addrs i ! 12" using f bn m by (simp add: file_ok_def)
  then show ?thesis using False by (simp add: file_block_def)
qed (simp add: file_block_def)

lemma wrote_block:
  assumes f: "file_ok k i n" and bn: "bn < n" and o: "o' + length c \<le> BSIZE"
    and h: "hold k' = hold k"
    and e: "k_disk k' = put (i_dev i) (file_block (k_disk k) i bn)
      (put_bytes o' c (k_disk k (i_dev i) (file_block (k_disk k) i bn))) (k_disk k)"
  shows "file_ok k' i n" "wrote (k_disk k) (k_disk k') i n (BSIZE * bn + o') c"
proof -
  let ?b = "file_block (k_disk k) i"
  have l: "length (k_disk k (i_dev i) (?b bn)) = BSIZE" using file_okD(1) [OF f bn] by (simp add: block_ok_def)
  have b: "file_block (k_disk k') i m = ?b m" if "m < n" for m unfolding e by (rule file_block_put [OF f bn that])
  have len: "length (k_disk k' d s) = length (k_disk k d s)" for d s using e l o by simp
  have ok: "block_ok k' d s = block_ok k d s" for d s using len [of d s] h by (simp add: block_ok_def unheld_def)
  have inj: "inj_on (file_block (k_disk k') i) {..<n} = inj_on ?b {..<n}" by (rule inj_on_cong) (simp add: b)
  show "file_ok k' i n" using f b unfolding file_ok_def ok inj by simp
  have byte: "file_byte (k_disk k') i x =
      (if BSIZE * bn + o' \<le> x \<and> x < BSIZE * bn + o' + length c then c ! (x - (BSIZE * bn + o')) else file_byte (k_disk k) i x)"
    if x: "x < BSIZE * n" for x
  proof -
    define q r where "q = x div BSIZE" and "r = x mod BSIZE"
    have x': "x = BSIZE * q + r" "r < BSIZE" unfolding q_def r_def by simp_all
    have qn: "q < n" using x unfolding q_def by (simp add: less_mult_imp_div_less mult.commute)
    have bq: "file_byte (k_disk k') i x = k_disk k' (i_dev i) (?b q) ! r" unfolding file_byte_def
      by (fold q_def r_def) (simp only: b [OF qn])
    have bk: "file_byte (k_disk k) i x = k_disk k (i_dev i) (?b q) ! r" unfolding file_byte_def
      by (fold q_def r_def) simp
    show ?thesis
    proof (cases "q = bn")
      case True
      have "k_disk k' (i_dev i) (?b q) ! r = put_bytes o' c (k_disk k (i_dev i) (?b bn)) ! r" using True e by simp
      also have "\<dots> = (if o' \<le> r \<and> r < o' + length c then c ! (r - o') else k_disk k (i_dev i) (?b bn) ! r)"
        by (rule put_bytes_nth) (use l o x'(2) in simp_all)
      finally show ?thesis unfolding bq bk using True x'(1) by auto
    next
      case False
      have "?b q \<noteq> ?b bn" using f False qn bn unfolding file_ok_def inj_on_def by blast
      then have 1: "k_disk k' (i_dev i) (?b q) = k_disk k (i_dev i) (?b q)" using e by simp
      have "\<not> (BSIZE * bn + o' \<le> x \<and> x < BSIZE * bn + o' + length c)"
      proof
        assume a: "BSIZE * bn + o' \<le> x \<and> x < BSIZE * bn + o' + length c"
        then have "x div BSIZE = bn" using o by (intro div_nat_eqI) simp_all
        then show False using False q_def by simp
      qed
      then show ?thesis unfolding bq bk 1 by auto
    qed
  qed
  show "wrote (k_disk k) (k_disk k') i n (BSIZE * bn + o') c"
    unfolding wrote_def using b byte bn e by auto
qed

lemma runs_writei_loop:
  assumes "bio_ok p k" "room 1 k" "k_icache k ! ip = i" "file_ok k i n" "unat off + length bs \<le> 512 * n" "length bs \<le> fuel"
    and Q: "\<And>k'. quiet p k k' \<Longrightarrow> file_ok k' i n \<Longrightarrow> wrote (k_disk k) (k_disk k') i n (unat off) bs \<Longrightarrow>
      Q (off + of_nat (length bs)) k'"
  shows "runs (writei_loop fuel ip off bs) k Q"
  using assms
proof (induction fuel arbitrary: off bs k Q)
  case 0
  show ?case using 0(7) [OF quiet_refl [OF 0(1)] 0(4)] 0(6) wrote_nil by simp
next
  case (Suc fuel)
  show ?case
  proof (cases "bs = []")
    case True
    then show ?thesis using Suc.prems(7) [OF quiet_refl [OF Suc.prems(1)] Suc.prems(4)] wrote_nil by simp
  next
    case False
    let ?o = "unat (off mod 512)" and ?x = "unat off"
    let ?m = "min (length bs) (512 - ?o)"
    have o: "?o = ?x mod 512" "unat (off div 512) = ?x div 512" by (simp_all add: unat_mod unat_div)
    have l: "0 < length bs" using False by simp
    have bn: "?x div 512 < n" using Suc.prems(5) l by linarith
    have n: "n \<le> 140" using Suc.prems(4) by (simp add: file_ok_def)
    have m: "0 < ?m" "?m \<le> length bs" using o False by simp_all
    have om: "unat (off + of_nat ?m) = ?x + ?m"
    proof -
      have "?x + ?m < 2 ^ 32" using Suc.prems(5) n m(2) by simp
      then show ?thesis by (simp add: unat_word_ariths unat_of_nat mod_less)
    qed
    have xo: "512 * (?x div 512) + ?o = ?x" unfolding o by simp
    let ?b = "file_block (k_disk k) i (?x div 512)" and ?c = "take ?m bs"
    have ok: "block_ok k (i_dev i) ?b" using file_okD(1) [OF Suc.prems(4) bn] .
    have "runs (bmap ip (off div 512)) k (\<lambda>a k1. runs (bindP (inode_get ip i_dev) (\<lambda>dev.
        bindP (bread dev a) (\<lambda>bp. thenP (modify (setdata bp (put_bytes ?o ?c))) (thenP (bwrite bp) (thenP (brelse bp)
        (writei_loop fuel ip (off + of_nat ?m) (drop ?m bs))))))) k1 Q)"
    proof (rule runs_bmap_mapped [OF Suc.prems(1-4), of "off div 512"])
      show "unat (off div 512) < n" using bn o by simp
      fix k1 assume q1: "quiet p k k1" "k_disk k1 = k_disk k"
      have i1: "k_icache k1 ! ip = i" using q1 Suc.prems(3) by simp
      have "runs (bindP (bread (i_dev i) ?b) (\<lambda>b. thenP (modify (setdata b (put_bytes ?o ?c))) (thenP (bwrite b) (brelse b)))) k1
         (\<lambda>_ k3. runs (writei_loop fuel ip (off + of_nat ?m) (drop ?m bs)) k3 Q)"
      proof (rule runs_update_block [OF quiet_bio [OF q1(1)]])
        fix k3 assume q: "quiet p k1 k3" and d: "k_disk k3 = put (i_dev i) ?b (put_bytes ?o ?c (k_disk k1 (i_dev i) ?b)) (k_disk k1)"
        have q3: "quiet p k k3" using quiet_trans [OF q1(1) q] .
        have h3: "hold k3 = hold k" using q3 by (simp add: quiet_def)
        have oc: "?o + length ?c \<le> BSIZE" using o by simp
        note w = wrote_block [OF Suc.prems(4) bn oc h3 d [unfolded q1(2)]]
        show "runs (writei_loop fuel ip (off + of_nat ?m) (drop ?m bs)) k3 Q"
        proof (rule Suc.IH)
          show "bio_ok p k3" by (rule quiet_bio [OF q3])
          show "room 1 k3" "k_icache k3 ! ip = i" "file_ok k3 i n"
            using quiet_room [OF q3] quiet_icache [OF q3] w(1) Suc.prems(2-4) by auto
          show "unat (off + of_nat ?m) + length (drop ?m bs) \<le> 512 * n" "length (drop ?m bs) \<le> fuel"
            using om m Suc.prems(5,6) by auto
          fix k4 assume 4: "quiet p k3 k4" "file_ok k4 i n"
            "wrote (k_disk k3) (k_disk k4) i n (unat (off + of_nat ?m)) (drop ?m bs)"
          have "wrote (k_disk k) (k_disk k4) i n ?x (?c @ drop ?m bs)"
            by (rule wrote_append [of _ "k_disk k3"]) (use w(2) 4(3) xo om in simp_all)
          then have w4: "wrote (k_disk k) (k_disk k4) i n ?x bs" by (simp only: append_take_drop_id)
          have "off + of_nat ?m + of_nat (length (drop ?m bs)) = off + of_nat (length bs)"
            using m(2) by (simp add: add.assoc of_nat_add [symmetric] del: of_nat_add)
          then show "Q (off + of_nat ?m + of_nat (length (drop ?m bs))) k4"
            using Suc.prems(7) [OF quiet_trans [OF q3 4(1)] 4(2) w4] by (simp only:)
        qed
      qed (use ok quiet_unheld [OF q1(1)] quiet_room [OF q1(1)] Suc.prems(2) in \<open>simp_all add: block_ok_def\<close>)
      then show "runs (bindP (inode_get ip i_dev) (\<lambda>dev.
        bindP (bread dev (file_block (k_disk k) i (unat (off div 512)))) (\<lambda>bp. thenP (modify (setdata bp (put_bytes ?o ?c)))
          (thenP (bwrite bp) (thenP (brelse bp) (writei_loop fuel ip (off + of_nat ?m) (drop ?m bs))))))) k1 Q"
        using i1 o by (simp only: inode_get_def runs_bindP runs_thenP runs_reads)
    qed
    then show ?thesis using False by (simp only: writei_loop.simps if_False runs_bindP [of "bmap a b" for a b] Let_def BSIZE_def)
  qed
qed

text \<open>
  A regular file whose first \<open>nb\<close> blocks are there, of a size that fits into them; its inode is in a
  block of its own kind. \<open>file_contents\<close> is the file as a sequence of bytes.
\<close>

definition file_contents :: "kernel \<Rightarrow> nat \<Rightarrow> u8 list" where
  "file_contents k ip = map (file_byte (k_disk k) (k_icache k ! ip)) [0..<unat (i_size (k_icache k ! ip))]"

definition inode_block_ok :: "kernel \<Rightarrow> inode \<Rightarrow> nat \<Rightarrow> bool" where
  "inode_block_ok k i nb \<longleftrightarrow> sector_ok (i_dev i) (IBLOCK (i_inum i)) \<and> unheld k (i_dev i) (IBLOCK (i_inum i)) \<and>
     (\<forall>bn < nb. file_block (k_disk k) i bn \<noteq> IBLOCK (i_inum i)) \<and> (NDIRECT < nb \<longrightarrow> i_addrs i ! NDIRECT \<noteq> IBLOCK (i_inum i))"

definition file_ready :: "nat \<Rightarrow> kernel \<Rightarrow> nat \<Rightarrow> nat \<Rightarrow> bool" where
  "file_ready p k ip nb \<longleftrightarrow> bio_ok p k \<and> room 1 k \<and> ip < length (k_icache k) \<and> i_type (k_icache k ! ip) \<noteq> T_DEV \<and>
     file_ok k (k_icache k ! ip) nb \<and> unat (i_size (k_icache k ! ip)) \<le> BSIZE * nb \<and> inode_block_ok k (k_icache k ! ip) nb"

lemma file_block_size [simp]: "file_block disk (i\<lparr>i_size := s\<rparr>) = file_block disk i"
  by (simp add: file_block_def fun_eq_iff)

lemma file_byte_size [simp]: "file_byte disk (i\<lparr>i_size := s\<rparr>) = file_byte disk i"
  by (simp add: file_byte_def fun_eq_iff)

lemma file_ok_size [simp]: "file_ok k (i\<lparr>i_size := s\<rparr>) n = file_ok k i n"
  by (simp add: file_ok_def)

lemma file_ok_mono: "file_ok k i n \<Longrightarrow> m \<le> n \<Longrightarrow> file_ok k i m"
  by (auto simp: file_ok_def inj_on_def)

text \<open>Blocks that are not part of the file do not matter.\<close>

lemma file_frame:
  assumes h: "hold k' = hold k" and e: "k_disk k' = put (i_dev i) s v (k_disk k)"
    and s: "\<forall>bn < n. file_block (k_disk k) i bn \<noteq> s" "NDIRECT < n \<longrightarrow> i_addrs i ! NDIRECT \<noteq> s"
  shows "file_ok k' i n = file_ok k i n" "m < n \<Longrightarrow> file_block (k_disk k') i m = file_block (k_disk k) i m"
    "x < BSIZE * n \<Longrightarrow> file_byte (k_disk k') i x = file_byte (k_disk k) i x"
proof -
  have b: "file_block (k_disk k') i m = file_block (k_disk k) i m" if "m < n" for m
    using that s(2) e by (auto simp: file_block_def)
  show "m < n \<Longrightarrow> file_block (k_disk k') i m = file_block (k_disk k) i m" by (rule b)
  have ok: "block_ok k' (i_dev i) c = block_ok k (i_dev i) c" if "c \<noteq> s" for c
    using that e h by (simp add: block_ok_def unheld_def)
  have inj: "inj_on (file_block (k_disk k') i) {..<n} = inj_on (file_block (k_disk k) i) {..<n}"
    by (rule inj_on_cong) (simp add: b)
  show "file_ok k' i n = file_ok k i n" using s ok inj b unfolding file_ok_def by auto
  show "file_byte (k_disk k') i x = file_byte (k_disk k) i x" if "x < BSIZE * n"
  proof -
    have q: "x div BSIZE < n" using that by (simp add: less_mult_imp_div_less mult.commute)
    then have "file_block (k_disk k) i (x div BSIZE) \<noteq> s" using s(1) by simp
    then have "k_disk k' (i_dev i) (file_block (k_disk k) i (x div BSIZE)) = k_disk k (i_dev i) (file_block (k_disk k) i (x div BSIZE))"
      using e by simp
    then show ?thesis by (simp only: file_byte_def b [OF q])
  qed
qed

lemma runs_readi:
  assumes f: "file_ready p k ip nb" and i: "k_icache k ! ip = i"
    and r: "off \<le> i_size i" "unat off + unat n < 4294967296"
    and Q: "\<And>k'. quiet p k k' \<Longrightarrow> k_disk k' = k_disk k \<Longrightarrow>
      Q (int (length (take (unat n) (drop (unat off) (file_contents k ip)))), take (unat n) (drop (unat off) (file_contents k ip))) k'"
  shows "runs (readi es ip off n) k Q"
proof -
  have k: "bio_ok p k" "room 1 k" "i_type i \<noteq> 3" "file_ok k i nb" "unat (i_size i) \<le> 512 * nb"
    using f i by (simp_all add: file_ready_def)
  have nb: "nb \<le> 140" using k(4) by (simp add: file_ok_def)
  have un: "unat (off + n) = unat off + unat n" using r(2) by (simp add: unat_word_ariths)
  have nov: "\<not> off + n < off" "\<not> off > i_size i" using r(1) un by (simp_all add: word_less_nat_alt word_le_nat_alt not_less)
  define n' where "n' = (if off + n > i_size i then i_size i - off else n)"
  have u': "unat n' = min (unat n) (unat (i_size i) - unat off)"
    using r(1) un by (auto simp: n'_def word_less_nat_alt word_le_nat_alt unat_sub not_less)
  have lt: "unat off + unat n' \<le> 512 * nb" using u' k(5) r(1) by (simp add: word_le_nat_alt)
  then have "unat n' < 2 ^ 31" using nb by simp
  then have sn: "sint n' = int (unat n')" by (intro sint_small [THEN trans]) simp_all
  let ?c = "take (unat n) (drop (unat off) (file_contents k ip))"
  have c: "map (file_byte (k_disk k) i) [unat off..<unat off + unat n'] = ?c"
    using i r(1) u' by (cases "unat n \<le> unat (i_size i) - unat off")
      (simp_all add: file_contents_def word_le_nat_alt take_map drop_map min_def)
  then have lc: "int (unat n') = int (length ?c)" by (metis length_map length_upt add_diff_cancel_left')
  have "runs (readi_loop (unat n') ip off (unat n')) k (\<lambda>bs k'. Q (sint n', bs) k')"
    by (rule runs_readi_loop [OF k(1,2) i k(4) lt order_refl]) (simp only: c sn lc Q)
  then show ?thesis using i k(3) nov
    by (cases "i_size i < off + n") (simp_all add: readi_def inode_get_def runs_bindP n'_def Let_def)
qed

lemma overwrite_nth:
  assumes "n \<le> length c" "j < max (length c) (n + length bs)"
  shows "(take n c @ bs @ drop (n + length bs) c) ! j = (if n \<le> j \<and> j < n + length bs then bs ! (j - n) else c ! j)"
proof -
  consider "j < n" | "n \<le> j" "j < n + length bs" | "n + length bs \<le> j" by linarith
  then show ?thesis
  proof cases
    case 2
    moreover have "j - n < length bs" using 2 by linarith
    ultimately show ?thesis using assms by (simp add: nth_append)
  next
    case 3
    then have "j < length c" using assms(2) by simp
    moreover have "\<not> j - n < length bs" using 3 by simp
    ultimately show ?thesis using 3 assms by (simp add: nth_append)
  qed (use assms in \<open>simp_all add: nth_append\<close>)
qed

text \<open>What a write leaves behind, as a file.\<close>

lemma file_written:
  assumes f: "file_ready p k ip nb" and i: "k_icache k ! ip = i" and r: "off \<le> i_size i" "unat off + length bs \<le> BSIZE * nb"
    and k': "bio_ok p k'" "hold k' = hold k" "length (k_icache k') = length (k_icache k)" "k_icache k' ! ip = i\<lparr>i_size := s\<rparr>"
      "unat s = max (unat (i_size i)) (unat off + length bs)" "file_ok k' i nb"
    and b: "\<And>bn. bn < nb \<Longrightarrow> file_block (k_disk k') i bn = file_block (k_disk k) i bn"
    and w: "\<And>x. x < BSIZE * nb \<Longrightarrow> file_byte (k_disk k') i x =
      (if unat off \<le> x \<and> x < unat off + length bs then bs ! (x - unat off) else file_byte (k_disk k) i x)"
  shows "file_ready p k' ip nb \<and>
    file_contents k' ip = take (unat off) (file_contents k ip) @ bs @ drop (unat off + length bs) (file_contents k ip)"
proof
  show "file_ready p k' ip nb"
    using f i k' r(2) b by (auto simp: file_ready_def inode_block_ok_def room_def unheld_def)
  have o: "unat off \<le> unat (i_size i)" and z: "unat (i_size i) \<le> 512 * nb"
    using r(1) f i by (simp_all add: word_le_nat_alt file_ready_def)
  show "file_contents k' ip = take (unat off) (file_contents k ip) @ bs @ drop (unat off + length bs) (file_contents k ip)"
  proof (rule nth_equalityI)
    show "length (file_contents k' ip) = length (take (unat off) (file_contents k ip) @ bs @ drop (unat off + length bs) (file_contents k ip))"
      using i k' o by (simp add: file_contents_def max_def)
    fix j assume "j < length (file_contents k' ip)"
    then have j: "j < unat s" using k'(4) by (simp add: file_contents_def)
    then have jn: "j < BSIZE * nb" using k'(5) z r(2) by simp
    have "file_contents k' ip ! j = file_byte (k_disk k') i j" using j k'(4) by (simp add: file_contents_def)
    also have "\<dots> = (if unat off \<le> j \<and> j < unat off + length bs then bs ! (j - unat off) else file_byte (k_disk k) i j)" by (rule w [OF jn])
    also have "\<dots> = (take (unat off) (file_contents k ip) @ bs @ drop (unat off + length bs) (file_contents k ip)) ! j"
    proof -
      have l: "length (file_contents k ip) = unat (i_size i)" using i by (simp add: file_contents_def)
      have "file_contents k ip ! j = file_byte (k_disk k) i j" if "\<not> (unat off \<le> j \<and> j < unat off + length bs)"
      proof -
        have "j < unat (i_size i)" using that j k'(5) o by linarith
        then show ?thesis using i by (simp add: file_contents_def)
      qed
      then show ?thesis using overwrite_nth [of "unat off" "file_contents k ip" j bs] l o j k'(5) by auto
    qed
    finally show "file_contents k' ip ! j = (take (unat off) (file_contents k ip) @ bs @ drop (unat off + length bs) (file_contents k ip)) ! j" .
  qed
qed

text \<open>All a write to the file of \<open>i\<close> may change on the disk: the first \<open>n\<close> blocks of the file, and the 64 bytes of its
  inode in the block of inodes.\<close>

definition other_blocks_kept :: "(u32 \<Rightarrow> u32 \<Rightarrow> u8 list) \<Rightarrow> (u32 \<Rightarrow> u32 \<Rightarrow> u8 list) \<Rightarrow> inode \<Rightarrow> nat \<Rightarrow> bool" where
  "other_blocks_kept disk disk' i n \<longleftrightarrow>
     (\<forall>d s. d = i_dev i \<and> (s = IBLOCK (i_inum i) \<or> s \<in> file_block disk i ` {..<n}) \<or> disk' d s = disk d s) \<and>
     (\<forall>j < BSIZE. length (i_addrs i) = NDIRECT + 1 \<and> length (disk (i_dev i) (IBLOCK (i_inum i))) = BSIZE \<and> (j < dinode_off (i_inum i) \<or> dinode_off (i_inum i) + 64 \<le> j) \<longrightarrow>
        disk' (i_dev i) (IBLOCK (i_inum i)) ! j = disk (i_dev i) (IBLOCK (i_inum i)) ! j)"

lemma kept_wrote:
  assumes "wrote disk disk' i n off bs" "\<forall>bn < n. file_block disk i bn \<noteq> IBLOCK (i_inum i)"
  shows "disk' (i_dev i) (IBLOCK (i_inum i)) = disk (i_dev i) (IBLOCK (i_inum i))" "other_blocks_kept disk disk' i n"
proof -
  have "IBLOCK (i_inum i) \<notin> file_block disk i ` {..<n}" using assms(2) by force
  then show "disk' (i_dev i) (IBLOCK (i_inum i)) = disk (i_dev i) (IBLOCK (i_inum i))" using assms(1) unfolding wrote_def by blast
  then show "other_blocks_kept disk disk' i n" using assms(1) unfolding wrote_def other_blocks_kept_def by auto
qed

lemma kept_iupdate:
  assumes "wrote disk disk' i n off bs" "\<forall>bn < n. file_block disk i bn \<noteq> IBLOCK (i_inum i)" "length c = 12 + 4 * length (i_addrs i)"
    and "disk'' = put (i_dev i) (IBLOCK (i_inum i)) (put_bytes (dinode_off (i_inum i)) c (disk' (i_dev i) (IBLOCK (i_inum i)))) disk'"
  shows "other_blocks_kept disk disk'' i n"
  using kept_wrote [OF assms(1,2)] assms(3,4) dinode_off_le [of "i_inum i"] unfolding other_blocks_kept_def
  by (auto simp: put_bytes_out)

lemma runs_writei:
  assumes f: "file_ready p k ip nb" and i: "k_icache k ! ip = i"
    and r: "off \<le> i_size i" "unat off + length bs \<le> BSIZE * nb"
    and Q: "\<And>k'. file_ready p k' ip nb \<Longrightarrow>
      file_contents k' ip = take (unat off) (file_contents k ip) @ bs @ drop (unat off + length bs) (file_contents k ip) \<Longrightarrow>
      other_blocks_kept (k_disk k) (k_disk k') i nb \<Longrightarrow> Q (int (length bs)) k'"
  shows "runs (writei ip bs off (of_nat (length bs))) k Q"
proof -
  have k: "bio_ok p k" "room 1 k" "i_type i \<noteq> 3" "file_ok k i nb" "unat (i_size i) \<le> 512 * nb" "ip < length (k_icache k)"
    and ib: "inode_block_ok k i nb" using f i by (simp_all add: file_ready_def)
  have nb: "nb \<le> 140" using k(4) by (simp add: file_ok_def)
  let ?n = "of_nat (length bs) :: u32"
  have lb: "length bs < 2 ^ 31" using r(2) nb by simp
  have un: "unat ?n = length bs" "unat (off + ?n) = unat off + length bs"
    using r(2) nb by (simp_all add: unat_word_ariths unat_of_nat mod_less)
  have sn: "sint ?n = int (length bs)" using lb un(1) by (intro sint_small [THEN trans]) simp_all
  have nov: "\<not> off + ?n < off" "\<not> off > i_size i" "\<not> off + ?n > 71680"
    using r nb un(2) by (simp_all add: word_less_nat_alt word_le_nat_alt not_less)
  let ?off' = "off + ?n"
  let ?tail = "\<lambda>off'. thenP (whenP (?n > 0 \<and> off' > i_size i) (thenP (modify (setinode ip (\<lambda>x. x\<lparr>i_size := off'\<rparr>))) (iupdate ip))) (ret (int (length bs)))"
  have "runs (writei_loop (length bs) ip off bs) k (\<lambda>off' k1. runs (?tail off') k1 Q)"
  proof (rule runs_writei_loop [OF k(1,2) i k(4) r(2) [unfolded BSIZE_def] order_refl])
    fix k1 assume q: "quiet p k k1" and f1: "file_ok k1 i nb" and w: "wrote (k_disk k) (k_disk k1) i nb (unat off) bs"
    note i1 = quiet_icache [OF q] and h1 = quiet_hold [OF q] and b1 = quiet_bio [OF q]
    have blk: "file_block (k_disk k1) i bn = file_block (k_disk k) i bn" if "bn < nb" for bn
      using w that by (simp add: wrote_def)
    have byt: "file_byte (k_disk k1) i x = (if unat off \<le> x \<and> x < unat off + length bs then bs ! (x - unat off)
        else file_byte (k_disk k) i x)" if "x < BSIZE * nb" for x
      using w that by (simp only: wrote_def)
    show "runs (?tail ?off') k1 Q"
    proof (cases "?off' > i_size i")
      case True
      let ?k2 = "setinode ip (\<lambda>x. x\<lparr>i_size := ?off'\<rparr>) k1"
      have n0: "0 < ?n" using True r(1) by (metis add.right_neutral leD word_gt_0)
      have i2: "k_icache ?k2 ! ip = i\<lparr>i_size := ?off'\<rparr>" using i i1 k(6) by simp
      have "runs (iupdate ip) ?k2 (\<lambda>_. Q (int (length bs)))"
      proof (rule runs_iupdate [OF _ i2, where p = p])
        fix k3 assume q3: "quiet p ?k2 k3" and d3: "k_disk k3 = put (i_dev (i\<lparr>i_size := ?off'\<rparr>)) (IBLOCK (i_inum (i\<lparr>i_size := ?off'\<rparr>)))
           (put_bytes (dinode_off (i_inum (i\<lparr>i_size := ?off'\<rparr>))) (enc_dinode (inode_dinode (i\<lparr>i_size := ?off'\<rparr>)))
             (k_disk ?k2 (i_dev (i\<lparr>i_size := ?off'\<rparr>)) (IBLOCK (i_inum (i\<lparr>i_size := ?off'\<rparr>))))) (k_disk ?k2)"
        let ?v = "put_bytes (dinode_off (i_inum i)) (enc_dinode (inode_dinode (i\<lparr>i_size := ?off'\<rparr>))) (k_disk k1 (i_dev i) (IBLOCK (i_inum i)))"
        have d: "k_disk k3 = put (i_dev i) (IBLOCK (i_inum i)) ?v (k_disk k1)" using d3 by simp
        have h3: "hold k3 = hold k1" using quiet_hold [OF q3] by simp
        have s: "\<forall>bn < nb. file_block (k_disk k1) i bn \<noteq> IBLOCK (i_inum i)" "NDIRECT < nb \<longrightarrow> i_addrs i ! NDIRECT \<noteq> IBLOCK (i_inum i)"
          using ib blk by (simp_all add: inode_block_ok_def)
        note fr = file_frame [OF h3 d s]
        have "file_ready p k3 ip nb \<and>
            file_contents k3 ip = take (unat off) (file_contents k ip) @ bs @ drop (unat off + length bs) (file_contents k ip)"
        proof (rule file_written [OF f i r quiet_bio [OF q3], where s = ?off'])
          show "hold k3 = hold k" "length (k_icache k3) = length (k_icache k)" "k_icache k3 ! ip = i\<lparr>i_size := ?off'\<rparr>"
            using h3 h1 quiet_icache [OF q3] i2 i1 by simp_all
          show "unat ?off' = max (unat (i_size i)) (unat off + length bs)" using True un(2) by (simp add: word_less_nat_alt)
          show "file_ok k3 i nb" using fr(1) f1 by simp
        qed (use fr(2,3) blk byt in \<open>simp_all only:\<close>)
        moreover have "other_blocks_kept (k_disk k) (k_disk k3) i nb"
          by (rule kept_iupdate [OF w _ _ d]) (use ib in \<open>simp_all add: inode_block_ok_def length_enc_dinode inode_dinode_def\<close>)
        ultimately show "Q (int (length bs)) k3" by (intro Q) simp_all
      qed (use b1 ib h1 k(2) in \<open>simp_all add: inode_block_ok_def unheld_def room_def\<close>)
      then show ?thesis using True n0 by (simp add: runs_thenP)
    next
      case False
      have "file_ready p k1 ip nb \<and>
          file_contents k1 ip = take (unat off) (file_contents k ip) @ bs @ drop (unat off + length bs) (file_contents k ip)"
        by (rule file_written [OF f i r b1 h1, where s = "i_size i"])
          (use i1 i f1 False un(2) blk byt in \<open>simp_all add: word_less_nat_alt max_def\<close>)
      moreover have "other_blocks_kept (k_disk k) (k_disk k1) i nb"
        by (rule kept_wrote [OF w]) (use ib in \<open>simp add: inode_block_ok_def\<close>)
      ultimately have "Q (int (length bs)) k1" by (intro Q) simp_all
      then show ?thesis using False by (simp add: runs_thenP)
    qed
  qed
  then show ?thesis using i k(3) nov sn un
    by (simp add: writei_def inode_get_def runs_bindP Let_def)
qed

text \<open>C10. A file is a sequence of bytes. Writing \<open>bs\<close> at an offset inside the file, into the \<open>nb\<close> blocks the file
  already has, replaces the bytes there and extends the file when they reach past its end; nothing else of its
  contents changes, and of the disk nothing but those blocks and the 64 bytes of the file's inode. Reading from any offset then gives the
  bytes of the new contents, as many as asked for or as there are, across block boundaries and through the indirect block, and changes
  nothing on the disk. (Writes that have to allocate a block are not covered.)\<close>

theorem file_write_read:
  assumes "file_ready p k ip nb" and "unat off \<le> length (file_contents k ip)" and "unat off + length bs \<le> BSIZE * nb"
  shows "\<exists>k1 c. writei ip bs off (of_nat (length bs)) k = Ret (int (length bs)) k1 \<and>
     c = take (unat off) (file_contents k ip) @ bs @ drop (unat off + length bs) (file_contents k ip) \<and>
     file_contents k1 ip = c \<and> unat (i_size (k_icache k1 ! ip)) = length c \<and>
     other_blocks_kept (k_disk k) (k_disk k1) (k_icache k ! ip) nb \<and>
     (\<forall>es off' n'. unat off' \<le> length c \<and> unat off' + unat n' < 4294967296 \<longrightarrow>
        (\<exists>k2. readi es ip off' n' k1 = Ret (int (length (take (unat n') (drop (unat off') c))), take (unat n') (drop (unat off') c)) k2 \<and>
          file_contents k2 ip = c \<and> k_disk k2 = k_disk k1))"
proof -
  let ?c = "take (unat off) (file_contents k ip) @ bs @ drop (unat off + length bs) (file_contents k ip)"
  have o: "off \<le> i_size (k_icache k ! ip)" using assms(2) by (simp add: file_contents_def word_le_nat_alt)
  have "runs (writei ip bs off (of_nat (length bs))) k (\<lambda>r k1. r = int (length bs) \<and> file_ready p k1 ip nb \<and> file_contents k1 ip = ?c \<and>
      other_blocks_kept (k_disk k) (k_disk k1) (k_icache k ! ip) nb)"
    by (rule runs_writei [OF assms(1) HOL.refl o assms(3)]) simp
  then obtain k1 where w: "writei ip bs off (of_nat (length bs)) k = Ret (int (length bs)) k1" "file_ready p k1 ip nb"
    "file_contents k1 ip = ?c" "other_blocks_kept (k_disk k) (k_disk k1) (k_icache k ! ip) nb" by (auto simp: runs_def)
  have l: "length ?c = unat (i_size (k_icache k1 ! ip))" using arg_cong [OF w(3), of length] by (simp add: file_contents_def)
  have "\<exists>k2. readi es ip off' n' k1 = Ret (int (length (take (unat n') (drop (unat off') ?c))), take (unat n') (drop (unat off') ?c)) k2 \<and>
      file_contents k2 ip = ?c \<and> k_disk k2 = k_disk k1" if r: "unat off' \<le> length ?c" "unat off' + unat n' < 4294967296" for es off' n'
  proof -
    have o': "off' \<le> i_size (k_icache k1 ! ip)" using r(1) unfolding l by (simp only: word_le_nat_alt)
    have "runs (readi es ip off' n') k1 (\<lambda>v k2. v = (int (length (take (unat n') (drop (unat off') ?c))), take (unat n') (drop (unat off') ?c)) \<and>
        file_contents k2 ip = ?c \<and> k_disk k2 = k_disk k1)"
    proof (rule runs_readi [OF w(2) HOL.refl o' r(2)])
      fix k' assume q: "quiet p k1 k'" "k_disk k' = k_disk k1"
      have "file_contents k' ip = file_contents k1 ip" using q(2) quiet_icache [OF q(1)] by (simp add: file_contents_def)
      then show "(int (length (take (unat n') (drop (unat off') (file_contents k1 ip)))), take (unat n') (drop (unat off') (file_contents k1 ip))) =
         (int (length (take (unat n') (drop (unat off') ?c))), take (unat n') (drop (unat off') ?c)) \<and> file_contents k' ip = ?c \<and> k_disk k' = k_disk k1"
        using q(2) unfolding w(3) by (simp only: simp_thms)
    qed
    then show ?thesis unfolding runs_def by blast
  qed
  then show ?thesis using w l by metis
qed

lemma demo_file_ready: "file_ready 0 demo_fs 0 2"
proof -
  have two: "{..<2} = {0, 1::nat}" by auto
  show ?thesis
    using demo_fs_ok(1) unfolding file_ready_def file_ok_def inode_block_ok_def block_ok_def two
    by (simp add: demo_fs_ok(4,5)) (simp add: demo_inode_def file_block_def sector_ok_def IBLOCK_def less_2_cases_iff)
qed

theorem file_write_read_witness:
  "\<exists>k1 k2. writei 0 [7, 8, 9] 699 3 demo_fs = Ret 3 k1 \<and> i_size (k_icache k1 ! 0) = 702 \<and>
     readi [] 0 698 10 k1 = Ret (4, [0, 7, 8, 9]) k2"
proof -
  have c: "file_contents demo_fs 0 = replicate 700 0"
  proof (rule nth_equalityI)
    fix i assume "i < length (file_contents demo_fs 0)"
    then show "file_contents demo_fs 0 ! i = replicate 700 0 ! i"
      by (simp add: file_contents_def demo_fs_ok(4) file_byte_def) (simp add: demo_fs_ok(5) demo_inode_def)
  qed (simp add: file_contents_def demo_fs_ok(4) demo_inode_def)
  let ?c = "replicate 699 0 @ [7, 8, 9 :: u8]"
  have e: "take (unat (699::u32)) (file_contents demo_fs 0) @ [7, 8, 9] @ drop (unat (699::u32) + length [7, 8, 9 :: u8]) (file_contents demo_fs 0) = ?c"
    unfolding c by simp
  have a: "unat (699::u32) \<le> length (file_contents demo_fs 0)" and b: "unat (699::u32) + length [7, 8, 9 :: u8] \<le> BSIZE * 2"
    unfolding c by simp_all
  obtain k1 where w: "writei 0 [7, 8, 9] 699 (of_nat (length [7, 8, 9 :: u8])) demo_fs = Ret (int (length [7, 8, 9 :: u8])) k1"
    "unat (i_size (k_icache k1 ! 0)) = length ?c"
    "\<forall>es off' n'. unat off' \<le> length ?c \<and> unat off' + unat n' < 4294967296 \<longrightarrow>
        (\<exists>k2. readi es 0 off' n' k1 = Ret (int (length (take (unat n') (drop (unat off') ?c))), take (unat n') (drop (unat off') ?c)) k2 \<and>
          file_contents k2 0 = ?c \<and> k_disk k2 = k_disk k1)"
    "other_blocks_kept (k_disk demo_fs) (k_disk k1) (k_icache demo_fs ! 0) 2"
    using file_write_read [OF demo_file_ready a b] unfolding e by blast
  have "i_size (k_icache k1 ! 0) = 702" using w(2) by (simp add: word_unat_eq_iff)
  moreover have t: "take (unat (10::u32)) (drop (unat (698::u32)) ?c) = [0, 7, 8, 9]" by simp
  moreover obtain k2 where "readi [] 0 698 10 k1 = Ret (int (length [0, 7, 8, 9 :: u8]), [0, 7, 8, 9]) k2"
    using w(3) [rule_format, of 698 10 "[]"] unfolding t by auto
  ultimately show ?thesis using w(1) by auto
qed

end
