(* ===== verification/Mkfs.thy ===== *)
theory Mkfs
  imports Fs_Format
begin

text \<open>
  The image builder (\<^verbatim>\<open>tools/mkfs.c\<close>): the host program that writes a directory tree into a disk image,
  and a proof that the image holds the tree in the format the kernel reads. The image file is a map
  from sectors to their bytes with its length in sectors; a read past its end fails. An
  \<^verbatim>\<open>exit\<close> with an error and a failed \<^verbatim>\<open>assert\<close> are the outcome \<open>Panic\<close>. The directory tree of the host is a
  parameter: what reading its files and directories returns.
\<close>

section \<open>Sectors and inodes\<close>

record image =
  im_disk :: "u32 \<Rightarrow> u8 list"
  im_len :: nat
  im_freeblock :: u32
  im_usedblocks :: u32
  im_bitblocks :: u32
  im_freeinode :: u32

abbreviation zeroes :: "u8 list" where "zeroes \<equiv> replicate 512 0"

definition xshort :: "u16 \<Rightarrow> u16" where
  "xshort x = dec16 (ucast x) (ucast (drop_bit 8 x))"

definition xint :: "u32 \<Rightarrow> u32" where
  "xint x = dec32 (ucast x) (ucast (drop_bit 8 x)) (ucast (drop_bit 16 x)) (ucast (drop_bit 24 x))"

definition wsect :: "u32 \<Rightarrow> u8 list \<Rightarrow> (image, unit) prog" where
  "wsect sec buf = modify (\<lambda>m. m\<lparr>im_disk := (im_disk m)(sec := buf), im_len := max (im_len m) (unat sec + 1)\<rparr>)"

definition rsect :: "u32 \<Rightarrow> (image, u8 list) prog" where
  "rsect sec = bindP (reads im_len) (\<lambda>n. if unat sec < n then reads (\<lambda>m. im_disk m sec) else panic ''read'')"

definition i2b :: "u32 \<Rightarrow> u32" where
  "i2b inum = inum div IPB + 2"

definition winode :: "u32 \<Rightarrow> dinode \<Rightarrow> (image, unit) prog" where
  "winode inum ip = bindP (rsect (i2b inum)) (\<lambda>buf. wsect (i2b inum) (put_bytes (dinode_off inum) (enc_dinode ip) buf))"

definition rinode :: "u32 \<Rightarrow> (image, dinode) prog" where
  "rinode inum = bindP (rsect (i2b inum)) (\<lambda>buf. ret (dec_dinode buf (dinode_off inum)))"

definition ialloc :: "u16 \<Rightarrow> (image, u32) prog" where
  "ialloc type =
    bindP (reads im_freeinode) (\<lambda>inum.
    thenP (modify (\<lambda>m. m\<lparr>im_freeinode := im_freeinode m + 1\<rparr>))
    (thenP (winode inum \<lparr>d_type = xshort type, d_major = 0, d_minor = 0, d_nlink = xshort 1, d_size = xint 0,
       d_addrs = replicate (NDIRECT + 1) 0\<rparr>)
    (ret inum)))"

section \<open>Blocks\<close>

definition set_bit_in :: "nat \<Rightarrow> u8 list \<Rightarrow> u8 list" where
  "set_bit_in i buf = buf[i div 8 := buf ! (i div 8) OR push_bit (i mod 8) 1]"

definition balloc :: "u32 \<Rightarrow> (image, unit) prog" where
  "balloc used = (if \<not> sint used < 4096 then panic ''assert''
     else wsect (200 div IPB + 3) (fold set_bit_in [0..<nat (sint used)] zeroes))"

definition new_block :: "(image, u32) prog" where
  "new_block = bindP (reads im_freeblock) (\<lambda>b.
     thenP (modify (\<lambda>m. m\<lparr>im_freeblock := im_freeblock m + 1, im_usedblocks := im_usedblocks m + 1\<rparr>)) (ret b))"

text \<open>The block of a file with a number, made if it is not there.\<close>

definition map_block :: "dinode \<Rightarrow> nat \<Rightarrow> (image, u32 \<times> dinode) prog" where
  "map_block din fbn =
    (if fbn < NDIRECT then
       bindP (if xint (d_addrs din ! fbn) = 0
              then bindP new_block (\<lambda>b. ret (din\<lparr>d_addrs := (d_addrs din)[fbn := xint b]\<rparr>)) else ret din) (\<lambda>din.
       ret (xint (d_addrs din ! fbn), din))
     else
       bindP (if xint (d_addrs din ! NDIRECT) = 0
              then bindP new_block (\<lambda>b. ret (din\<lparr>d_addrs := (d_addrs din)[NDIRECT := xint b]\<rparr>)) else ret din) (\<lambda>din.
       bindP (rsect (xint (d_addrs din ! NDIRECT))) (\<lambda>indirect.
       bindP (if get32 indirect (4 * (fbn - NDIRECT)) = 0
              then bindP new_block (\<lambda>b.
                   (let ind = put_bytes (4 * (fbn - NDIRECT)) (enc32 (xint b)) indirect
                    in thenP (wsect (xint (d_addrs din ! NDIRECT)) ind) (ret ind)))
              else ret indirect) (\<lambda>indirect.
       ret (xint (get32 indirect (4 * (fbn - NDIRECT))), din)))))"

text \<open>Each round of the loop stores at least one byte, so the length of the data bounds the rounds.\<close>

primrec iappend_loop :: "nat \<Rightarrow> dinode \<Rightarrow> u32 \<Rightarrow> u8 list \<Rightarrow> (image, dinode \<times> u32) prog" where
  "iappend_loop 0 din off p = (if p = [] then ret (din, off) else spin)"
| "iappend_loop (Suc fuel) din off p =
    (if p = [] then ret (din, off) else
     (let fbn = off div 512 in
      if \<not> unat fbn < MAXFILE then panic ''assert'' else
      bindP (map_block din (unat fbn)) (\<lambda>(x, din).
        (let n1 = min (length p) (unat ((fbn + 1) * 512 - off)) in
         bindP (rsect x) (\<lambda>buf.
         thenP (wsect x (put_bytes (unat (off - fbn * 512)) (take n1 p) buf))
         (iappend_loop fuel din (off + of_nat n1) (drop n1 p)))))))"

definition iappend :: "u32 \<Rightarrow> u8 list \<Rightarrow> (image, unit) prog" where
  "iappend inum xp =
    bindP (rinode inum) (\<lambda>din.
    bindP (iappend_loop (length xp) din (xint (d_size din)) xp) (\<lambda>(din, off).
    winode inum (din\<lparr>d_size := xint off\<rparr>)))"

section \<open>The directory tree\<close>

text \<open>
  A file is the sequence of the buffers that \<^verbatim>\<open>read\<close> returns, a directory the sequence of entries that
  \<^verbatim>\<open>readdir\<close> returns, \<open>None\<close> if it could not be opened. \<open>Unreadable\<close> is an entry for which a call of
  the host failed.
\<close>

datatype host =
    Unreadable
  | Regular "u8 list list"
  | Directory "(u8 list \<times> host) list option"

definition dot :: "u8 list" where "dot = [46]"
definition dotdot :: "u8 list" where "dotdot = [46, 46]"

text \<open>\<^verbatim>\<open>strncpy\<close> fills the name with zeros or cuts it off.\<close>

definition name_field :: "u8 list \<Rightarrow> u8 list" where
  "name_field name = take DIRSIZ (name @ replicate DIRSIZ 0)"

definition link_bytes :: "u32 \<Rightarrow> u8 list \<Rightarrow> u8 list" where
  "link_bytes inum name = enc_dirent \<lparr>de_inum = xshort (ucast inum), de_name = name_field name\<rparr>"

definition fix_size :: "u32 \<Rightarrow> (image, int) prog" where
  "fix_size cur = bindP (rinode cur) (\<lambda>din.
     thenP (winode cur (din\<lparr>d_size := xint ((xint (d_size din) div 512 + 1) * 512)\<rparr>)) (ret 0))"

fun host_size :: "host \<Rightarrow> nat" and entries_size :: "(u8 list \<times> host) list \<Rightarrow> nat" where
  "host_size (Directory (Some es)) = Suc (entries_size es)"
| "host_size _ = 0"
| "entries_size [] = 0"
| "entries_size ((_, h) # es) = Suc (host_size h + entries_size es)"

function (sequential) add_dir :: "(u8 list \<times> host) list option \<Rightarrow> u32 \<Rightarrow> u32 \<Rightarrow> (image, int) prog"
  and add_entries :: "(u8 list \<times> host) list \<Rightarrow> u32 \<Rightarrow> (image, int) prog" where
  "add_dir cur_dir cur_inode parent_inode =
    thenP (iappend cur_inode (link_bytes cur_inode dot))
    (thenP (iappend cur_inode (link_bytes parent_inode dotdot))
    (case cur_dir of None \<Rightarrow> ret 0
     | Some es \<Rightarrow> bindP (add_entries es cur_inode) (\<lambda>r. if r \<noteq> 0 then ret r else fix_size cur_inode)))"
| "add_entries [] cur_inode = ret 0"
| "add_entries ((d_name, Unreadable) # es) cur_inode =
    (if d_name = dot \<or> d_name = dotdot then add_entries es cur_inode else ret (- 1))"
| "add_entries ((d_name, Directory dir) # es) cur_inode =
    (if d_name = dot \<or> d_name = dotdot then add_entries es cur_inode else
     bindP (ialloc T_DIR) (\<lambda>child_inode.
     bindP (add_dir dir child_inode cur_inode) (\<lambda>r.
     if r \<noteq> 0 then ret r else
     thenP (iappend cur_inode (link_bytes child_inode d_name)) (add_entries es cur_inode))))"
| "add_entries ((d_name, Regular bufs) # es) cur_inode =
    (if d_name = dot \<or> d_name = dotdot then add_entries es cur_inode else
     bindP (ialloc T_FILE) (\<lambda>child_inode.
     thenP (forP bufs (iappend child_inode))
     (thenP (iappend cur_inode (link_bytes child_inode d_name)) (add_entries es cur_inode))))"
  by pat_completeness auto
termination
  by (relation "measure (\<lambda>x. case x of Inl (d, _, _) \<Rightarrow> host_size (Directory d) | Inr (es, _) \<Rightarrow> entries_size es)")
    (auto split: option.splits)

section \<open>The program\<close>

definition mkfs :: "u32 \<Rightarrow> u32 \<Rightarrow> u32 \<Rightarrow> (image, int) prog" where
  "mkfs nblocks ninodes sz =
    (let sb = \<lparr>sb_size = xint sz, sb_nblocks = xint nblocks, sb_ninodes = xint ninodes\<rparr>;
         bitblocks = sz div (512 * 8) + 1;
         usedblocks = ninodes div IPB + 3 + bitblocks
     in thenP (modify (\<lambda>m. m\<lparr>im_bitblocks := bitblocks, im_usedblocks := usedblocks, im_freeblock := usedblocks\<rparr>))
        (if nblocks + usedblocks \<noteq> sz then panic ''assert'' else
         thenP (forP [0..<unat (nblocks + usedblocks)] (\<lambda>i. wsect (of_nat i) zeroes))
        (thenP (wsect 1 (put_bytes 0 (enc_sb sb) zeroes))
        (ret 0))))"

definition mkfs_main :: "(u8 list \<times> host) list option \<Rightarrow> (image, unit) prog" where
  "mkfs_main root_dir =
    thenP (mkfs 995 200 1024)
    (bindP (ialloc T_DIR) (\<lambda>root_inode.
     if root_inode \<noteq> ROOTINO then panic ''assert'' else
     bindP (add_dir root_dir root_inode root_inode) (\<lambda>r.
     if r \<noteq> 0 then panic ''exit'' else
     bindP (reads im_usedblocks) balloc)))"

text \<open>The empty image file with the globals at their initial values.\<close>

definition image0 :: image where
  "image0 = \<lparr>im_disk = \<lambda>_. zeroes, im_len = 0, im_freeblock = 0, im_usedblocks = 0, im_bitblocks = 0, im_freeinode = 1\<rparr>"

section \<open>Files on the image\<close>

lemma xshort [simp]: "xshort x = x"
  by (simp add: xshort_def)

lemma xint [simp]: "xint x = x"
  by (simp add: xint_def)

lemma i2b_IBLOCK: "i2b inum = IBLOCK inum"
  by (simp add: i2b_def IBLOCK_def)

text \<open>
  The blocks of a file with an inode \<open>d\<close> of which \<open>nb\<close> data blocks are mapped, and its bytes: the
  blocks are different, they lie between the bitmap and the first free block \<open>fb\<close>, and what follows
  the data in the last of them is zero.
\<close>

definition fblock :: "(u32 \<Rightarrow> u8 list) \<Rightarrow> dinode \<Rightarrow> nat \<Rightarrow> u32" where
  "fblock disk d bn = (if bn < 12 then d_addrs d ! bn else get32 (disk (d_addrs d ! 12)) (4 * (bn - 12)))"

definition blocks :: "(u32 \<Rightarrow> u8 list) \<Rightarrow> dinode \<Rightarrow> nat \<Rightarrow> u32 set" where
  "blocks disk d nb = fblock disk d ` {..<nb} \<union> (if 12 < nb then {d_addrs d ! 12} else {})"

definition mapped :: "(u32 \<Rightarrow> u8 list) \<Rightarrow> nat \<Rightarrow> dinode \<Rightarrow> nat \<Rightarrow> bool" where
  "mapped disk fb d nb \<longleftrightarrow> length (d_addrs d) = 13 \<and> nb \<le> 140 \<and>
     (\<forall>b \<in> blocks disk d nb. 29 \<le> unat b \<and> unat b < fb) \<and> inj_on (fblock disk d) {..<nb} \<and>
     (12 < nb \<longrightarrow> d_addrs d ! 12 \<notin> fblock disk d ` {..<nb}) \<and>
     (\<forall>bn. nb \<le> bn \<and> bn < 12 \<longrightarrow> d_addrs d ! bn = 0) \<and> (nb \<le> 12 \<longrightarrow> d_addrs d ! 12 = 0) \<and>
     (\<forall>bn. 12 < nb \<and> nb \<le> bn \<and> bn < 140 \<longrightarrow> fblock disk d bn = 0)"

definition stores :: "(u32 \<Rightarrow> u8 list) \<Rightarrow> dinode \<Rightarrow> nat \<Rightarrow> u8 list \<Rightarrow> bool" where
  "stores disk d nb data \<longleftrightarrow> length data \<le> 512 * nb \<and>
     (\<forall>x < 512 * nb. disk (fblock disk d (x div 512)) ! (x mod 512) = (if x < length data then data ! x else 0))"

definition cost :: "nat \<Rightarrow> nat" where
  "cost nb = nb + (if 12 < nb then 1 else 0)"

text \<open>\<open>n\<close> files with inodes \<open>D\<close>, numbers of blocks \<open>nb\<close> and contents \<open>data\<close>, apart from each other; the
  blocks from \<open>fb\<close> on are still zero.\<close>

definition files_ok :: "(u32 \<Rightarrow> u8 list) \<Rightarrow> nat \<Rightarrow> nat \<Rightarrow> (nat \<Rightarrow> dinode) \<Rightarrow> (nat \<Rightarrow> nat) \<Rightarrow> (nat \<Rightarrow> u8 list) \<Rightarrow> bool" where
  "files_ok disk fb n D nb data \<longleftrightarrow>
     (\<forall>i < n. mapped disk fb (D i) (nb i) \<and> stores disk (D i) (nb i) (data i)) \<and>
     (\<forall>i < n. \<forall>j < n. i \<noteq> j \<longrightarrow> blocks disk (D i) (nb i) \<inter> blocks disk (D j) (nb j) = {}) \<and>
     (\<forall>s. unat s < 1024 \<longrightarrow> length (disk s) = 512) \<and> (\<forall>s. fb \<le> unat s \<and> unat s < 1024 \<longrightarrow> disk s = zeroes) \<and>
     fb = 29 + (\<Sum>i < n. cost (nb i)) \<and> fb \<le> 1024"

lemma files_okD:
  assumes "files_ok disk fb n D nb data"
  shows "i < n \<Longrightarrow> mapped disk fb (D i) (nb i)" "i < n \<Longrightarrow> stores disk (D i) (nb i) (data i)"
    "i < n \<Longrightarrow> j < n \<Longrightarrow> i \<noteq> j \<Longrightarrow> blocks disk (D i) (nb i) \<inter> blocks disk (D j) (nb j) = {}"
    "unat s < 1024 \<Longrightarrow> length (disk s) = 512" "fb \<le> unat s \<Longrightarrow> unat s < 1024 \<Longrightarrow> disk s = zeroes"
    "fb = 29 + (\<Sum>i < n. cost (nb i))" "fb \<le> 1024"
  using assms unfolding files_ok_def by blast+

lemma fblock_cong:
  "(12 < nb \<Longrightarrow> disk' (d_addrs d ! 12) = disk (d_addrs d ! 12)) \<Longrightarrow> bn < nb \<or> 12 < nb \<Longrightarrow> fblock disk' d bn = fblock disk d bn"
  by (auto simp: fblock_def)

lemma same_file:
  assumes e: "\<And>b. b \<in> blocks disk d nb \<Longrightarrow> disk' b = disk b"
  shows "blocks disk' d nb = blocks disk d nb" "mapped disk' fb d nb = mapped disk fb d nb" "stores disk' d nb data = stores disk d nb data"
proof -
  have f: "fblock disk' d bn = fblock disk d bn" if "bn < nb \<or> 12 < nb" for bn
    by (rule fblock_cong [OF _ that]) (simp add: e blocks_def)
  then have im: "fblock disk' d ` {..<nb} = fblock disk d ` {..<nb}" and inj: "inj_on (fblock disk' d) {..<nb} = inj_on (fblock disk d) {..<nb}"
    by (auto intro!: image_cong inj_on_cong)
  show b: "blocks disk' d nb = blocks disk d nb" by (simp add: blocks_def im)
  show "mapped disk' fb d nb = mapped disk fb d nb" unfolding mapped_def b im inj using f by auto
  have "disk' (fblock disk' d (x div 512)) = disk (fblock disk d (x div 512))" if "x < 512 * nb" for x
  proof -
    have "x div 512 < nb" using that by (simp add: less_mult_imp_div_less mult.commute)
    then show ?thesis using f e by (simp add: blocks_def)
  qed
  then show "stores disk' d nb data = stores disk d nb data" unfolding stores_def by auto
qed

lemma mapped_more: "mapped disk fb d nb \<Longrightarrow> fb \<le> fb' \<Longrightarrow> mapped disk fb' d nb"
  unfolding mapped_def by fastforce

text \<open>A change of one file inside its own blocks and blocks that were free.\<close>

lemma files_ok_update:
  assumes f: "files_ok disk fb n D nb data" and i: "i < n"
    and d': "mapped disk' fb' d' nb'" "stores disk' d' nb' data'"
    and fr: "blocks disk' d' nb' \<subseteq> blocks disk (D i) (nb i) \<union> {b. fb \<le> unat b}"
    and ch: "\<And>s. s \<notin> blocks disk' d' nb' \<Longrightarrow> disk' s = disk s" and ln: "\<And>s. unat s < 1024 \<Longrightarrow> length (disk' s) = 512"
    and c: "fb' + cost (nb i) = fb + cost nb'" "fb \<le> fb'" "fb' \<le> 1024"
  shows "files_ok disk' fb' n (D(i := d')) (nb(i := nb')) (data(i := data'))"
proof -
  note m = files_okD(1,2) [OF f]
  have dj: "blocks disk (D j) (nb j) \<inter> blocks disk' d' nb' = {}" if "j < n" "j \<noteq> i" for j
  proof -
    have "blocks disk (D j) (nb j) \<inter> blocks disk (D i) (nb i) = {}" using files_okD(3) [OF f] that i by simp
    moreover have "unat b < fb" if "b \<in> blocks disk (D j) (nb j)" for b using m(1) [OF \<open>j < n\<close>] that by (simp add: mapped_def)
    ultimately show ?thesis using fr by fastforce
  qed
  have same: "disk' b = disk b" if "j < n" "j \<noteq> i" "b \<in> blocks disk (D j) (nb j)" for j b using dj [OF that(1,2)] that(3) ch by blast
  have sf: "blocks disk' (D j) (nb j) = blocks disk (D j) (nb j)" "mapped disk' e (D j) (nb j) = mapped disk e (D j) (nb j)"
    "stores disk' (D j) (nb j) v = stores disk (D j) (nb j) v" if "j < n" "j \<noteq> i" for j e v
    by (rule same_file, use same that in blast)+
  have 1: "mapped disk' fb' ((D(i := d')) j) ((nb(i := nb')) j) \<and> stores disk' ((D(i := d')) j) ((nb(i := nb')) j) ((data(i := data')) j)"
    if "j < n" for j using d' sf(2,3) m [OF that] mapped_more [OF _ c(2)] that by (cases "j = i") simp_all
  have 2: "blocks disk' ((D(i := d')) j) ((nb(i := nb')) j) \<inter> blocks disk' ((D(i := d')) k) ((nb(i := nb')) k) = {}"
    if "j < n" "k < n" "j \<noteq> k" for j k
    using that sf(1) dj [of j] dj [of k] files_okD(3) [OF f that] by (cases "j = i"; cases "k = i") auto
  have 3: "disk' s = zeroes" if "fb' \<le> unat s" "unat s < 1024" for s
  proof -
    have "s \<notin> blocks disk' d' nb'" using d'(1) that by (auto simp: mapped_def)
    then show ?thesis using ch files_okD(5) [OF f] that c(2) by simp
  qed
  have "(\<Sum>j < n. cost ((nb(i := nb')) j)) + cost (nb i) = (\<Sum>j < n. cost (nb j)) + cost nb'"
    using i by (simp add: sum.remove [of "{..<n}" i])
  then have 4: "fb' = 29 + (\<Sum>j < n. cost ((nb(i := nb')) j))" using files_okD(6) [OF f] c(1) by simp
  show ?thesis unfolding files_ok_def using 1 2 3 4 ln c(3) by blast
qed

lemma get32_entry:
  assumes "length blk = 512" "e < 128" "e' < 128"
  shows "get32 (put_bytes (4 * e) (enc32 b) blk) (4 * e') = (if e' = e then b else get32 blk (4 * e'))"
proof (cases "e' = e")
  case True
  have "get32 (put_bytes (4 * e) (enc32 b) blk) (4 * e + 0) = get32 (enc32 b) 0" using assms by (intro get32_put_bytes) simp_all
  then show ?thesis using True get32_enc [of b "[]"] by simp
next
  case False
  then have "4 * e' + 4 \<le> 4 * e \<or> 4 * e + 4 \<le> 4 * e'" by linarith
  then show ?thesis using assms False by (simp add: get32_put_bytes_out)
qed

lemma get32_zeroes: "i + 4 \<le> 512 \<Longrightarrow> get32 zeroes i = 0"
  by (simp add: get32_def dec32_def)

lemma stores_extend:
  assumes s: "stores disk d k data" and o: "\<And>bn. bn < k \<Longrightarrow> disk' (fblock disk' d' bn) = disk (fblock disk d bn)"
    and n: "disk' (fblock disk' d' k) = zeroes"
  shows "stores disk' d' (Suc k) data"
  unfolding stores_def
proof (intro conjI allI impI)
  show "length data \<le> 512 * Suc k" using s by (simp add: stores_def)
  fix x assume "x < 512 * Suc k"
  then consider "x < 512 * k" "x div 512 < k" | "x div 512 = k" "512 * k \<le> x"
    by (metis add.commute div_less_iff_less_mult le_add1 less_Suc_eq_le less_mult_imp_div_less linorder_not_less mult.commute
      mult_Suc_right order_antisym_conv zero_less_numeral)
  then show "disk' (fblock disk' d' (x div 512)) ! (x mod 512) = (if x < length data then data ! x else 0)"
    by cases (use s o n in \<open>auto simp: stores_def\<close>)
qed

text \<open>The next block of a file: a direct one, the first indirect one with the indirect block, and a
  further indirect one.\<close>

lemma block_above:
  assumes "mapped disk fb d nb" "unat b = fb" shows "b \<notin> blocks disk d nb" "bn < nb \<Longrightarrow> fblock disk d bn \<noteq> b"
  using assms by (fastforce simp: mapped_def blocks_def)+

lemma alloc_direct:
  assumes f: "files_ok disk fb n D nb data" and i: "i < n" "nb i < 12" and b: "unat b = fb" "fb < 1024"
  shows "files_ok disk (fb + 1) n (D(i := (D i)\<lparr>d_addrs := (d_addrs (D i))[nb i := b]\<rparr>)) (nb(i := Suc (nb i))) data"
proof -
  let ?d = "D i" and ?k = "nb i" and ?e = "(D i)\<lparr>d_addrs := (d_addrs (D i))[nb i := b]\<rparr>"
  have m: "mapped disk fb ?d ?k" and s: "stores disk ?d ?k (data i)" using files_okD(1,2) [OF f i(1)] by auto
  then have l: "length (d_addrs ?d) = 13" by (simp add: mapped_def)
  have fb: "fblock disk ?e bn = (if bn = ?k then b else fblock disk ?d bn)" if "bn < 12" for bn
    using that i(2) l by (simp add: fblock_def)
  have bl: "blocks disk ?e (Suc ?k) = insert b (blocks disk ?d ?k)"
    using i(2) fb by (auto simp: blocks_def lessThan_Suc image_iff)
  have 29: "29 \<le> fb" using files_okD(6) [OF f] by simp
  have inj: "inj_on (fblock disk ?e) {..<Suc ?k}"
  proof -
    have "inj_on (fblock disk ?e) {..<?k} = inj_on (fblock disk ?d) {..<?k}"
      by (rule inj_on_cong) (use fb i(2) in simp)
    moreover have "fblock disk ?e ?k \<notin> fblock disk ?e ` {..<?k}" using fb i(2) block_above(2) [OF m b(1)] by auto
    ultimately show ?thesis using m unfolding mapped_def lessThan_Suc inj_on_insert by simp
  qed
  have m': "mapped disk (fb + 1) ?e (Suc ?k)"
    using m i(2) l inj b(1) 29 unfolding mapped_def bl by (auto simp: less_Suc_eq)
  have s': "stores disk ?e (Suc ?k) (data i)"
    by (rule stores_extend [OF s]) (use fb i(2) files_okD(5) [OF f, of b] b in auto)
  have "files_ok disk (fb + 1) n (D(i := ?e)) (nb(i := Suc ?k)) (data(i := data i))"
    by (rule files_ok_update [OF f i(1) m' s']) (use bl b i(2) files_okD(4) [OF f] in \<open>auto simp: cost_def\<close>)
  then show ?thesis by simp
qed

lemma alloc_first_indirect:
  assumes f: "files_ok disk fb n D nb data" and i: "i < n" "nb i = 12" and b: "unat a = fb" "unat b = fb + 1" "fb + 1 < 1024"
  shows "files_ok (disk(a := put_bytes 0 (enc32 b) (disk a))) (fb + 2) n
     (D(i := (D i)\<lparr>d_addrs := (d_addrs (D i))[12 := a]\<rparr>)) (nb(i := 13)) data"
proof -
  let ?d = "D i" and ?e = "(D i)\<lparr>d_addrs := (d_addrs (D i))[12 := a]\<rparr>" and ?disk = "disk(a := put_bytes 0 (enc32 b) (disk a))"
  have m: "mapped disk fb ?d 12" and s: "stores disk ?d 12 (data i)" using files_okD(1,2) [OF f i(1)] i(2) by auto
  then have l: "length (d_addrs ?d) = 13" by (simp add: mapped_def)
  have z: "disk a = zeroes" "disk b = zeroes" using files_okD(5) [OF f] b by simp_all
  have ab: "a \<noteq> b" using b by auto
  have fd: "fblock ?disk ?e bn = fblock disk ?d bn" if "bn < 12" for bn using that l by (simp add: fblock_def)
  have fi: "fblock ?disk ?e bn = (if bn = 12 then b else 0)" if "12 \<le> bn" "bn < 140" for bn
  proof -
    have "get32 (put_bytes (4 * 0) (enc32 b) (disk a)) (4 * (bn - 12)) = (if bn - 12 = 0 then b else get32 (disk a) (4 * (bn - 12)))"
      by (rule get32_entry) (use that z in auto)
    then show ?thesis using that l z get32_zeroes [of "4 * (bn - 12)"] by (auto simp: fblock_def)
  qed
  have bl: "blocks ?disk ?e 13 = insert a (insert b (blocks disk ?d 12))"
  proof -
    have "fblock ?disk ?e ` {..<13} = insert (fblock ?disk ?e 12) (fblock ?disk ?e ` {..<12})" using lessThan_Suc [of 12] by simp
    moreover have "fblock ?disk ?e ` {..<12} = fblock disk ?d ` {..<12}" by (rule image_cong) (use fd in auto)
    ultimately show ?thesis using fi [of 12] l by (simp add: blocks_def)
  qed
  have 29: "29 \<le> fb" using files_okD(6) [OF f] by simp
  have lt: "unat (fblock disk ?d bn) < fb" if "bn < 12" for bn using m that by (auto simp: mapped_def blocks_def)
  then have ne: "fblock disk ?d bn \<noteq> a" "fblock disk ?d bn \<noteq> b" if "bn < 12" for bn using b that by fastforce+
  have "inj_on (fblock ?disk ?e) {..<12} = inj_on (fblock disk ?d) {..<12}" by (rule inj_on_cong) (use fd in simp)
  then have inj: "inj_on (fblock ?disk ?e) {..<Suc 12}"
    using m fd fi [of 12] ne unfolding mapped_def lessThan_Suc inj_on_insert by auto
  have na: "a \<notin> fblock ?disk ?e ` {..<13}"
    using fd fi [of 12] ne ab lessThan_Suc [of 12] by (auto simp: eq_commute [of a])
  have m': "mapped ?disk (fb + 2) ?e 13"
    using m l inj b 29 na fi unfolding mapped_def bl by auto
  have s': "stores ?disk ?e (Suc 12) (data i)"
    by (rule stores_extend [OF s]) (use fd fi [of 12] ne z ab in auto)
  have "files_ok ?disk (fb + 2) n (D(i := ?e)) (nb(i := 13)) (data(i := data i))"
    by (rule files_ok_update [OF f i(1) m'])
      (use s' bl b i(2) files_okD(4) [OF f] z in \<open>auto simp: cost_def\<close>)
  then show ?thesis by simp
qed

lemma alloc_indirect:
  assumes f: "files_ok disk fb n D nb data" and i: "i < n" "12 < nb i" "nb i < 140" and b: "unat b = fb" "fb < 1024"
    and a: "a = d_addrs (D i) ! 12"
  shows "files_ok (disk(a := put_bytes (4 * (nb i - 12)) (enc32 b) (disk a))) (fb + 1) n D (nb(i := Suc (nb i))) data"
proof -
  let ?d = "D i" and ?k = "nb i" and ?disk = "disk(a := put_bytes (4 * (nb i - 12)) (enc32 b) (disk a))"
  have m: "mapped disk fb ?d ?k" and s: "stores disk ?d ?k (data i)" using files_okD(1,2) [OF f i(1)] by auto
  have ab: "a \<in> blocks disk ?d ?k" using a i(2) by (simp add: blocks_def)
  then have ua: "29 \<le> unat a" "unat a < fb" and "a \<notin> fblock disk ?d ` {..<?k}" using m a i(2) by (simp_all add: mapped_def)
  then have na: "fblock disk ?d bn \<noteq> a" if "bn < ?k" for bn using that by blast
  have la: "length (disk a) = 512" using files_okD(4) [OF f] ua(2) b(2) by simp
  have fb: "fblock ?disk ?d bn = (if bn = ?k then b else fblock disk ?d bn)" if "bn < 140" for bn
  proof (cases "bn < 12")
    case False
    then have "get32 (put_bytes (4 * (?k - 12)) (enc32 b) (disk a)) (4 * (bn - 12)) =
        (if bn - 12 = ?k - 12 then b else get32 (disk a) (4 * (bn - 12)))"
      by (intro get32_entry) (use la that i in auto)
    then show ?thesis using False i(2) a by (auto simp: fblock_def)
  qed (use i(2) in \<open>simp add: fblock_def\<close>)
  have k: "bn < 140" if "bn < ?k" for bn using that i(3) by simp
  have im: "fblock ?disk ?d ` {..<?k} = fblock disk ?d ` {..<?k}" by (rule image_cong) (use fb k in auto)
  have bl: "blocks ?disk ?d (Suc ?k) = insert b (blocks disk ?d ?k)"
    using fb i im by (auto simp: blocks_def lessThan_Suc)
  have "inj_on (fblock ?disk ?d) {..<?k} = inj_on (fblock disk ?d) {..<?k}" by (rule inj_on_cong) (use fb k in simp)
  then have inj: "inj_on (fblock ?disk ?d) {..<Suc ?k}"
    using m fb i(3) im block_above(2) [OF m b(1)] unfolding mapped_def lessThan_Suc inj_on_insert by auto
  have anb: "a \<noteq> b" using ua b by auto
  have m': "mapped ?disk (fb + 1) ?d (Suc ?k)"
    using m i inj b(1) ua im anb fb a unfolding mapped_def bl by (auto simp: lessThan_Suc)
  have s': "stores ?disk ?d (Suc ?k) (data i)"
    by (rule stores_extend [OF s]) (use fb i(3) na files_okD(5) [OF f, of b] b anb in auto)
  have "files_ok ?disk (fb + 1) n (D(i := ?d)) (nb(i := Suc ?k)) (data(i := data i))"
    by (rule files_ok_update [OF f i(1) m' s'])
      (use bl b ab i la files_okD(4) [OF f] in \<open>auto simp: cost_def\<close>)
  then show ?thesis by simp
qed

text \<open>Bytes appended inside the last block.\<close>

lemma append_bytes:
  assumes f: "files_ok disk fb n D nb data" and i: "i < n" and x: "off = length (data i)" "bn = off div 512" "bn < nb i"
    and p: "off mod 512 + length p \<le> 512" and b: "x = fblock disk (D i) bn"
  shows "files_ok (disk(x := put_bytes (off mod 512) p (disk x))) fb n D nb (data(i := data i @ p))"
proof -
  let ?d = "D i" and ?k = "nb i" and ?disk = "disk(x := put_bytes (off mod 512) p (disk x))"
  have m: "mapped disk fb ?d ?k" and s: "stores disk ?d ?k (data i)" using files_okD(1,2) [OF f i(1)] by auto
  have xb: "x \<in> blocks disk ?d ?k" using b x by (simp add: blocks_def)
  then have u: "unat x < fb" using m by (simp add: mapped_def)
  have lx: "length (disk x) = 512" using u files_okD(4) [OF f, of x] files_okD(7) [OF f] by simp
  have "12 < ?k \<Longrightarrow> d_addrs ?d ! 12 \<noteq> x" using m b x(3) by (auto simp: mapped_def)
  then have fb: "fblock ?disk ?d c = fblock disk ?d c" if "c < ?k \<or> 12 < ?k" for c by (intro fblock_cong [OF _ that]) simp
  then have im: "fblock ?disk ?d ` {..<?k} = fblock disk ?d ` {..<?k}" and inj: "inj_on (fblock ?disk ?d) {..<?k} = inj_on (fblock disk ?d) {..<?k}"
    by (auto intro!: image_cong inj_on_cong)
  have bl: "blocks ?disk ?d ?k = blocks disk ?d ?k" by (simp add: blocks_def im)
  have m': "mapped ?disk fb ?d ?k" using m fb unfolding mapped_def bl im inj by auto
  have off: "off = 512 * bn + off mod 512" using x(2) by simp
  have "stores ?disk ?d ?k (data i @ p)"
    unfolding stores_def
  proof (intro conjI allI impI)
    have "512 * Suc bn \<le> 512 * ?k" using x(3) by (intro mult_le_mono2) simp
    then show "length (data i @ p) \<le> 512 * ?k" using off p x(1) by simp
    fix y assume y: "y < 512 * ?k"
    then have q: "y div 512 < ?k" by (simp add: less_mult_imp_div_less mult.commute)
    have yy: "y = 512 * (y div 512) + y mod 512" by simp
    have old: "disk (fblock disk ?d (y div 512)) ! (y mod 512) = (if y < length (data i) then data i ! y else 0)"
      using s y by (simp add: stores_def)
    show "?disk (fblock ?disk ?d (y div 512)) ! (y mod 512) = (if y < length (data i @ p) then (data i @ p) ! y else 0)"
    proof (cases "y div 512 = bn")
      case True
      have ym: "y mod 512 < 512" by simp
      have "put_bytes (off mod 512) p (disk x) ! (y mod 512) =
          (if off mod 512 \<le> y mod 512 \<and> y mod 512 < off mod 512 + length p then p ! (y mod 512 - off mod 512) else disk x ! (y mod 512))"
        by (rule put_bytes_nth) (use lx p in auto)
      moreover have "(off mod 512 \<le> y mod 512) = (off \<le> y)" "(y mod 512 < off mod 512 + length p) = (y < off + length p)"
        "off \<le> y \<Longrightarrow> y mod 512 - off mod 512 = y - off" using off yy True by linarith+
      ultimately show ?thesis using True fb q b old x(1) by (auto simp: nth_append)
    next
      case False
      then have "fblock disk ?d (y div 512) \<noteq> x" using m q x(3) b by (auto simp: mapped_def inj_on_def)
      moreover have "y < off \<or> off + length p \<le> y"
      proof (cases "y div 512 < bn")
        case True
        then have "y < 512 * bn" using yy mod_less_divisor [of 512 y] by linarith
        then show ?thesis using off by linarith
      next
        case f: False
        then have "512 * bn + 512 \<le> 512 * (y div 512)" using \<open>y div 512 \<noteq> bn\<close> by linarith
        then have "512 * bn + 512 \<le> y" using yy by linarith
        then show ?thesis using off p by linarith
      qed
      ultimately show ?thesis using fb q old x(1) by (auto simp: nth_append)
    qed
  qed
  then have "files_ok ?disk fb n (D(i := ?d)) (nb(i := ?k)) (data(i := data i @ p))"
    by (intro files_ok_update [OF f i m']) (use bl xb files_okD(4,7) [OF f] lx p in auto)
  then show ?thesis by simp
qed

text \<open>Sectors below the data blocks do not matter.\<close>

lemma files_ok_low:
  assumes f: "files_ok disk fb n D nb data" and s: "unat s < 29" "length v = 512"
  shows "files_ok (disk(s := v)) fb n D nb data"
proof -
  have ns: "b \<noteq> s" if "i < n" "b \<in> blocks disk (D i) (nb i)" for i b
    using files_okD(1) [OF f that(1)] that(2) s(1) by (auto simp: mapped_def)
  have sf: "blocks (disk(s := v)) (D i) (nb i) = blocks disk (D i) (nb i)" "mapped (disk(s := v)) fb (D i) (nb i) = mapped disk fb (D i) (nb i)"
    "stores (disk(s := v)) (D i) (nb i) w = stores disk (D i) (nb i) w" if "i < n" for i w
    by (rule same_file, use ns that in fastforce)+
  have "29 \<le> fb" using files_okD(6) [OF f] by simp
  then show ?thesis using files_okD [OF f] s sf unfolding files_ok_def by auto
qed

section \<open>The operations on files\<close>

lemma runs_rsect: "unat sec < im_len m \<Longrightarrow> runs (rsect sec) m Q = Q (im_disk m sec) m"
  by (simp add: rsect_def runs_bindP)

lemma runs_wsect: "unat sec < im_len m \<Longrightarrow> runs (wsect sec v) m Q = Q () (m\<lparr>im_disk := (im_disk m)(sec := v)\<rparr>)"
  by (simp add: wsect_def max_absorb1 Suc_leI)

lemma runs_new_block:
  "runs new_block m Q = Q (im_freeblock m) (m\<lparr>im_freeblock := im_freeblock m + 1, im_usedblocks := im_usedblocks m + 1\<rparr>)"
  by (simp add: new_block_def runs_bindP runs_thenP)

text \<open>The globals of the program between two operations.\<close>

definition globals_ok :: "image \<Rightarrow> nat \<Rightarrow> bool" where
  "globals_ok m fb \<longleftrightarrow> im_len m = 1024 \<and> unat (im_freeblock m) = fb \<and> im_usedblocks m = im_freeblock m"

lemma globals_ok_next:
  "globals_ok m fb \<Longrightarrow> fb < 1024 \<Longrightarrow> globals_ok (m\<lparr>im_freeblock := im_freeblock m + 1, im_usedblocks := im_usedblocks m + 1\<rparr>) (fb + 1)"
  by (simp add: globals_ok_def unat_word_ariths)

lemma globals_ok_disk [simp]: "globals_ok (m\<lparr>im_disk := d\<rparr>) fb = globals_ok m fb"
  by (simp add: globals_ok_def)

definition only_addrs :: "dinode \<Rightarrow> dinode \<Rightarrow> bool" where
  "only_addrs d d' \<longleftrightarrow> d' = d\<lparr>d_addrs := d_addrs d'\<rparr>"

definition low_same :: "image \<Rightarrow> image \<Rightarrow> bool" where
  "low_same m m' \<longleftrightarrow> im_freeinode m' = im_freeinode m \<and> (\<forall>s. unat s < 29 \<longrightarrow> im_disk m' s = im_disk m s)"

lemma low_same_refl [simp]: "low_same m m"
  by (simp add: low_same_def)

lemma low_same_trans: "low_same m m1 \<Longrightarrow> low_same m1 m2 \<Longrightarrow> low_same m m2"
  by (simp add: low_same_def)

lemma only_addrs_trans: "only_addrs d d1 \<Longrightarrow> only_addrs d1 d2 \<Longrightarrow> only_addrs d d2"
  by (cases d; cases d1; cases d2) (simp add: only_addrs_def)

lemma mapped_nonzero:
  assumes "mapped disk fb d nb"
  shows "bn < nb \<Longrightarrow> fblock disk d bn \<noteq> 0" "12 < nb \<Longrightarrow> d_addrs d ! 12 \<noteq> 0" "bn < nb \<Longrightarrow> unat (fblock disk d bn) < fb"
    "12 < nb \<Longrightarrow> unat (d_addrs d ! 12) < fb" "bn < nb \<Longrightarrow> 29 \<le> unat (fblock disk d bn)"
proof -
  have r: "29 \<le> unat b \<and> unat b < fb" if "b \<in> blocks disk d nb" for b using assms that by (simp add: mapped_def)
  show "unat (fblock disk d bn) < fb" "fblock disk d bn \<noteq> 0" "29 \<le> unat (fblock disk d bn)" if "bn < nb"
    using r [of "fblock disk d bn"] that by (auto simp: blocks_def)
  show "unat (d_addrs d ! 12) < fb" "d_addrs d ! 12 \<noteq> 0" if "12 < nb"
    using r [of "d_addrs d ! 12"] that by (auto simp: blocks_def)
qed

lemma runs_map_block:
  assumes f: "files_ok (im_disk m) fb n D nb data" and g: "globals_ok m fb" and i: "i < n" "D i = din"
    and b: "fbn \<le> nb i" "fbn < 140" and r: "fb + cost (max (nb i) (Suc fbn)) \<le> 1024 + cost (nb i)"
    and Q: "\<And>m' din' fb'. files_ok (im_disk m') fb' n (D(i := din')) (nb(i := max (nb i) (Suc fbn))) data \<Longrightarrow> globals_ok m' fb' \<Longrightarrow>
      fb' + cost (nb i) = fb + cost (max (nb i) (Suc fbn)) \<Longrightarrow> only_addrs din din' \<Longrightarrow> low_same m m' \<Longrightarrow> Q (fblock (im_disk m') din' fbn, din') m'"
  shows "runs (map_block din fbn) m Q"
proof -
  have mp: "mapped (im_disk m) fb din (nb i)" using files_okD(1) [OF f i(1)] i(2) by simp
  have fb: "fb \<le> 1024" "29 \<le> fb" using files_okD(6,7) [OF f] by simp_all
  have len: "im_len m = 1024" using g by (simp add: globals_ok_def)
  note nz = mapped_nonzero [OF mp]
  have same: "D(i := din) = D" using i(2) by auto
  show ?thesis
  proof (cases "fbn < nb i")
    case True
    then have mx: "max (nb i) (Suc fbn) = nb i" by simp
    have q: "Q (fblock (im_disk m) din fbn, din) m"
      by (rule Q [where fb' = fb]) (use f g mx same in \<open>simp_all add: only_addrs_def\<close>)
    show ?thesis
    proof (cases "fbn < 12")
      case True
      then show ?thesis using q nz(1) [OF \<open>fbn < nb i\<close>] by (simp add: map_block_def fblock_def runs_bindP)
    next
      case False
      then have "12 < nb i" using \<open>fbn < nb i\<close> by simp
      then show ?thesis using q nz(1) [OF True] nz(2,4) fb len False
        by (simp add: map_block_def fblock_def runs_bindP runs_rsect)
    qed
  next
    case False
    then have e: "fbn = nb i" and mx: "max (nb i) (Suc fbn) = Suc (nb i)" using b by simp_all
    let ?b = "im_freeblock m"
    let ?m = "m\<lparr>im_freeblock := im_freeblock m + 1, im_usedblocks := im_usedblocks m + 1\<rparr>"
    have ub: "unat ?b = fb" using g by (simp add: globals_ok_def)
    have lt: "fb < 1024" using r mx by (auto simp: cost_def split: if_splits)
    consider "nb i < 12" | "nb i = 12" | "12 < nb i" by linarith
    then show ?thesis
    proof cases
      case 1
      let ?d = "din\<lparr>d_addrs := (d_addrs din)[nb i := ?b]\<rparr>"
      have l: "length (d_addrs din) = 13" using mp by (simp add: mapped_def)
      have "files_ok (im_disk m) (fb + 1) n (D(i := ?d)) (nb(i := Suc (nb i))) data"
        using alloc_direct [OF f i(1) 1 ub lt] i(2) by simp
      then have "Q (fblock (im_disk ?m) ?d fbn, ?d) ?m"
        by (intro Q [where fb' = "fb + 1"]) (use mx 1 globals_ok_next [OF g lt] in \<open>simp_all add: cost_def only_addrs_def low_same_def\<close>)
      moreover have "d_addrs din ! fbn = 0" using mp 1 e by (simp add: mapped_def)
      ultimately show ?thesis using 1 e l by (simp add: map_block_def fblock_def runs_bindP runs_new_block)
    next
      case 2
      let ?d = "din\<lparr>d_addrs := (d_addrs din)[12 := ?b]\<rparr>"
      have lt2: "fb + 1 < 1024" using r 2 e by (simp add: cost_def)
      have l: "length (d_addrs din) = 13" and z: "d_addrs din ! 12 = 0" using mp 2 by (simp_all add: mapped_def)
      have ub1: "unat (?b + 1) = fb + 1" using ub lt2 by (simp add: unat_word_ariths)
      let ?disk = "(im_disk m)(?b := put_bytes 0 (enc32 (?b + 1)) (im_disk m ?b))"
      let ?m2 = "m\<lparr>im_freeblock := ?b + 1 + 1, im_usedblocks := im_usedblocks m + 1 + 1, im_disk := ?disk\<rparr>"
      have "files_ok ?disk (fb + 2) n (D(i := ?d)) (nb(i := 13)) data"
        using alloc_first_indirect [OF f i(1) 2 ub ub1 lt2] i(2) by simp
      moreover have "globals_ok ?m2 (fb + 2)" using g lt2 ub by (simp add: globals_ok_def unat_word_ariths)
      ultimately have "Q (fblock (im_disk ?m2) ?d fbn, ?d) ?m2"
        using 2 mx by (intro Q [where fb' = "fb + 2"]) (use ub fb in \<open>auto simp: cost_def only_addrs_def low_same_def\<close>)
      moreover have "get32 (im_disk m ?b) 0 = 0" using files_okD(5) [OF f, of ?b] ub lt by (simp add: get32_zeroes)
      ultimately show ?thesis using 2 e l z ub lt len
        by (simp add: map_block_def fblock_def Let_def runs_bindP runs_thenP runs_new_block runs_rsect runs_wsect)
    next
      case 3
      let ?a = "d_addrs din ! 12"
      let ?disk = "(im_disk m)(?a := put_bytes (4 * (nb i - 12)) (enc32 ?b) (im_disk m ?a))"
      let ?m2 = "?m\<lparr>im_disk := ?disk\<rparr>"
      have fl: "files_ok ?disk (fb + 1) n D (nb(i := Suc (nb i))) data"
        by (rule alloc_indirect [OF f i(1) 3 _ ub lt]) (use b e i in simp_all)
      have a: "29 \<le> unat ?a" "unat ?a < fb" using mp 3 by (auto simp: mapped_def blocks_def)
      have "Q (fblock (im_disk ?m2) din fbn, din) ?m2"
        by (rule Q [where fb' = "fb + 1"])
          (use fl same mx 3 globals_ok_next [OF g lt] a in \<open>auto simp: cost_def only_addrs_def low_same_def\<close>)
      moreover have "get32 (im_disk m ?a) (4 * (nb i - 12)) = 0"
        using mp 3 b e by (auto simp: mapped_def fblock_def)
      moreover have "im_disk m ?a \<noteq> []" using files_okD(4) [OF f, of ?a] a lt by auto
      ultimately show ?thesis using 3 e a lt len nz(2) [OF 3]
        by (simp add: map_block_def fblock_def Let_def runs_bindP runs_thenP runs_new_block runs_rsect runs_wsect)
    qed
  qed
qed

definition nblks :: "nat \<Rightarrow> nat" where
  "nblks len = (len + 511) div 512"

lemma cost_mono: "a \<le> b \<Longrightarrow> cost a \<le> cost b"
  by (auto simp: cost_def)

lemma nblks_mono: "a \<le> b \<Longrightarrow> nblks a \<le> nblks b"
  unfolding nblks_def by (intro div_le_mono) simp

lemma nblks_bounds: "len div 512 \<le> nblks len" "nblks len \<le> Suc (len div 512)"
  unfolding nblks_def by (auto intro: div_le_mono)

lemma nblks_step: "0 < n1 \<Longrightarrow> len mod 512 + n1 \<le> 512 \<Longrightarrow> nblks (len + n1) = Suc (len div 512)"
proof -
  assume a: "0 < n1" "len mod 512 + n1 \<le> 512"
  define q r where "q = len div 512" and "r = len mod 512"
  obtain k where k: "n1 = Suc k" using a by (cases n1) auto
  have "len + n1 + 511 = 512 * Suc q + (r + k)" using k unfolding q_def r_def by simp
  moreover have "(512 * Suc q + (r + k)) div 512 = Suc q + (r + k) div 512" by (rule div_mult_self4) simp
  moreover have "(r + k) div 512 = 0" using a(2) k unfolding r_def by simp
  ultimately show ?thesis unfolding nblks_def q_def by simp
qed

lemma off_words:
  assumes "unat (off::u32) < 71680"
  shows "unat (off div 512) = unat off div 512" "unat ((off div 512 + 1) * 512 - off) = 512 - unat off mod 512"
    "unat (off - off div 512 * 512) = unat off mod 512"
proof -
  show d: "unat (off div 512) = unat off div 512" by (simp add: unat_div)
  have dm: "unat off = 512 * (unat off div 512) + unat off mod 512" by simp
  have q: "unat off div 512 < 140" using assms by (simp add: less_mult_imp_div_less)
  have 1: "unat (off div 512 * 512) = 512 * (unat off div 512)" using d q by (simp add: unat_word_ariths)
  have 2: "unat ((off div 512 + 1) * 512) = 512 * (unat off div 512) + 512" using d q by (simp add: unat_word_ariths)
  have "off \<le> (off div 512 + 1) * 512" "off div 512 * 512 \<le> off"
    unfolding word_le_nat_alt 1 2 using dm mod_less_divisor [of 512 "unat off"] by linarith+
  then show "unat ((off div 512 + 1) * 512 - off) = 512 - unat off mod 512" "unat (off - off div 512 * 512) = unat off mod 512"
    unfolding unat_sub 1 2 using dm by (simp_all only: unat_sub 1 2)
qed

lemma append_nothing:
  assumes f: "files_ok (im_disk m) fb n D nb data" "globals_ok m fb" "D i = din" "nb i = nblks len" "p = []"
    and Q: "\<And>m' din' fb'. files_ok (im_disk m') fb' n (D(i := din')) (nb(i := nblks (len + length p))) (data(i := data i @ p)) \<Longrightarrow>
      globals_ok m' fb' \<Longrightarrow> fb' + cost (nb i) = fb + cost (nblks (len + length p)) \<Longrightarrow> only_addrs din din' \<Longrightarrow> low_same m m' \<Longrightarrow>
      Q (din', off + of_nat (length p)) m'"
  shows "Q (din, off) m"
proof -
  have e: "nb(i := nblks len) = nb" "D(i := din) = D" using f by auto
  have "Q (din, off + of_nat (length p)) m" by (rule Q [where fb' = fb]) (use f in \<open>simp_all add: e only_addrs_def\<close>)
  then show ?thesis using f by simp
qed

lemma runs_iappend_loop:
  assumes "files_ok (im_disk m) fb n D nb data" "globals_ok m fb" "i < n" "D i = din"
    "unat off = length (data i)" "nb i = nblks (unat off)" "unat off + length p \<le> 71680"
    "fb + cost (nblks (unat off + length p)) \<le> 1024 + cost (nb i)" "length p \<le> fuel"
    "\<And>m' din' fb'. files_ok (im_disk m') fb' n (D(i := din')) (nb(i := nblks (unat off + length p))) (data(i := data i @ p)) \<Longrightarrow>
      globals_ok m' fb' \<Longrightarrow> fb' + cost (nb i) = fb + cost (nblks (unat off + length p)) \<Longrightarrow> only_addrs din din' \<Longrightarrow> low_same m m' \<Longrightarrow>
      Q (din', off + of_nat (length p)) m'"
  shows "runs (iappend_loop fuel din off p) m Q"
  using assms
proof (induction fuel arbitrary: m fb D nb data din off p)
  case (Suc fuel)
  note f = Suc.prems(1) and g = Suc.prems(2) and i = Suc.prems(3,4) and o = Suc.prems(5,6,7) and r = Suc.prems(8) and Q = Suc.prems(10)
  show ?case
  proof (cases "p = []")
    case True
    have "Q (din, off) m" by (rule append_nothing [where Q = Q and off = off, OF f g i(2) o(2) True Q])
    then show ?thesis using True by simp
  next
    case False
    let ?q = "unat off div 512" and ?r = "unat off mod 512"
    define n1 where "n1 = min (length p) (512 - ?r)"
    have small: "unat off < 71680" using o(3) False by (cases p) simp_all
    note w = off_words [OF small]
    have rl: "?r < 512" by simp
    have n1: "0 < n1" "?r + n1 \<le> 512" "n1 \<le> length p" using False rl unfolding n1_def by (cases p; simp)+
    have q: "?q < 140" using small by (simp add: less_mult_imp_div_less)
    have nb: "?q \<le> nb i" "max (nb i) (Suc ?q) = Suc ?q" using nblks_bounds [of "unat off"] o(2) by simp_all
    have step: "nblks (unat off + n1) = Suc ?q" by (rule nblks_step) (use n1 in simp_all)
    have le: "cost (Suc ?q) \<le> cost (nblks (unat off + length p))"
      unfolding step [symmetric] by (intro cost_mono nblks_mono) (use n1 in simp)
    have body: "runs (bindP (map_block din ?q) (\<lambda>(x, din). bindP (rsect x) (\<lambda>buf.
         thenP (wsect x (put_bytes ?r (take n1 p) buf)) (iappend_loop fuel din (off + of_nat n1) (drop n1 p))))) m Q"
      unfolding runs_bindP
    proof (rule runs_map_block [OF f g i nb(1) q])
      show "fb + cost (max (nb i) (Suc ?q)) \<le> 1024 + cost (nb i)" using r le nb by simp
    next
      fix m1 d1 fb1
      assume f1: "files_ok (im_disk m1) fb1 n (D(i := d1)) (nb(i := max (nb i) (Suc ?q))) data" and g1: "globals_ok m1 fb1"
        and c1: "fb1 + cost (nb i) = fb + cost (max (nb i) (Suc ?q))" and a1: "only_addrs din d1" and l1: "low_same m m1"
      let ?x = "fblock (im_disk m1) d1 ?q"
      let ?m2 = "m1\<lparr>im_disk := (im_disk m1)(?x := put_bytes ?r (take n1 p) (im_disk m1 ?x))\<rparr>"
      have f2: "files_ok (im_disk ?m2) fb1 n (D(i := d1)) (nb(i := Suc ?q)) (data(i := data i @ take n1 p))"
        using append_bytes [OF f1 i(1) o(1), of ?q "take n1 p" ?x] nb n1 by simp
      have mp: "mapped (im_disk m1) fb1 d1 (Suc ?q)" using files_okD(1) [OF f1 i(1)] nb by simp
      have ux: "29 \<le> unat ?x" "unat ?x < 1024"
        using mapped_nonzero(3,5) [OF mp lessI] files_okD(7) [OF f1] by simp_all
      have len: "im_len m1 = 1024" using g1 by (simp add: globals_ok_def)
      have uo: "unat (off + of_nat n1) = unat off + n1" using small n1 by (simp add: unat_word_ariths unat_of_nat)
      have "runs (iappend_loop fuel d1 (off + of_nat n1) (drop n1 p)) ?m2 Q"
      proof (rule Suc.IH [OF f2])
        fix m3 d3 fb3
        assume f3: "files_ok (im_disk m3) fb3 n (D(i := d1, i := d3)) (nb(i := Suc ?q, i := nblks (unat (off + of_nat n1) + length (drop n1 p))))
            (data(i := data i @ take n1 p, i := (data(i := data i @ take n1 p)) i @ drop n1 p))"
          and g3: "globals_ok m3 fb3"
          and c3: "fb3 + cost ((nb(i := Suc ?q)) i) = fb1 + cost (nblks (unat (off + of_nat n1) + length (drop n1 p)))"
          and a3: "only_addrs d1 d3" and l3: "low_same ?m2 m3"
        have "low_same m1 ?m2" using ux by (auto simp: low_same_def)
        then have l: "low_same m m3" using low_same_trans l1 l3 by blast
        have f4: "files_ok (im_disk m3) fb3 n (D(i := d3)) (nb(i := nblks (unat off + length p))) (data(i := data i @ p))"
          using f3 n1 uo by simp
        have "Q (d3, off + of_nat (length p)) m3"
          by (rule Q [OF f4 g3 _ only_addrs_trans [OF a1 a3] l]) (use c3 c1 nb n1 uo in simp)
        moreover have "off + of_nat n1 + of_nat (length (drop n1 p)) = off + of_nat (length p)" using n1(3) by (simp add: of_nat_diff)
        ultimately show "Q (d3, off + of_nat n1 + of_nat (length (drop n1 p))) m3" by (simp only:)
      qed (use g1 i n1 uo o r c1 nb step Suc.prems(9) in \<open>simp_all\<close>)
      then show "runs (case (?x, d1) of (x, din) \<Rightarrow> bindP (rsect x) (\<lambda>buf.
         thenP (wsect x (put_bytes ?r (take n1 p) buf)) (iappend_loop fuel din (off + of_nat n1) (drop n1 p)))) m1 Q"
        using ux len by (simp add: runs_bindP runs_thenP runs_rsect runs_wsect)
    qed
    then show ?thesis by (simp only: iappend_loop.simps Let_def MAXFILE_def w n1_def False q not_True_eq_False if_False)
  qed
next
  case 0
  then have "p = []" by simp
  then have "Q (din, off) m" by (rule append_nothing [where Q = Q and off = off, OF 0(1,2,4,6) _ 0(10)])
  then show ?case using \<open>p = []\<close> by simp
qed

section \<open>The image as a list of files\<close>

text \<open>
  The abstract state is the list of the files made so far; the file at position \<open>i\<close> has the inode
  number \<open>i + 1\<close>. A directory is closed when its size has been rounded up at the end.
\<close>

record afile =
  a_type :: u16
  a_data :: "u8 list"
  a_closed :: bool

definition inum :: "nat \<Rightarrow> u32" where
  "inum i = of_nat (i + 1)"

definition a_new :: "u16 \<Rightarrow> afile list \<Rightarrow> afile list" where
  "a_new t fl = fl @ [\<lparr>a_type = t, a_data = [], a_closed = False\<rparr>]"

definition a_append :: "nat \<Rightarrow> u8 list \<Rightarrow> afile list \<Rightarrow> afile list" where
  "a_append i p fl = fl[i := (fl ! i)\<lparr>a_data := a_data (fl ! i) @ p\<rparr>]"

definition a_close :: "nat \<Rightarrow> afile list \<Rightarrow> afile list" where
  "a_close i fl = fl[i := (fl ! i)\<lparr>a_closed := True\<rparr>]"

definition a_size :: "afile \<Rightarrow> nat" where
  "a_size f = (if a_closed f then (length (a_data f) div 512 + 1) * 512 else length (a_data f))"

definition file_blocks :: "afile \<Rightarrow> nat" where
  "file_blocks f = nblks (length (a_data f))"

definition space :: "afile list \<Rightarrow> nat" where
  "space fl = (\<Sum>i < length fl. cost (file_blocks (fl ! i)))"

definition fits :: "afile list \<Rightarrow> bool" where
  "fits fl \<longleftrightarrow> space fl \<le> 995 \<and> length fl \<le> 199 \<and> (\<forall>f \<in> set fl. length (a_data f) \<le> 71680)"

definition is_inode :: "afile \<Rightarrow> dinode \<Rightarrow> bool" where
  "is_inode f d \<longleftrightarrow> d_type d = a_type f \<and> d_major d = 0 \<and> d_minor d = 0 \<and> d_nlink d = 1 \<and> unat (d_size d) = a_size f"

definition super :: superblock where
  "super = \<lparr>sb_size = 1024, sb_nblocks = 995, sb_ninodes = 200\<rparr>"

definition files_at :: "image \<Rightarrow> afile list \<Rightarrow> bool" where
  "files_at m fl \<longleftrightarrow> files_ok (im_disk m) (unat (im_freeblock m)) (length fl) (\<lambda>i. dinode_at (im_disk m) (inum i))
     (\<lambda>i. file_blocks (fl ! i)) (\<lambda>i. a_data (fl ! i)) \<and>
     (\<forall>i < length fl. is_inode (fl ! i) (dinode_at (im_disk m) (inum i))) \<and> im_disk m 1 = put_bytes 0 (enc_sb super) zeroes"

definition image_ok :: "image \<Rightarrow> afile list \<Rightarrow> bool" where
  "image_ok m fl \<longleftrightarrow> globals_ok m (unat (im_freeblock m)) \<and> files_at m fl \<and> im_freeinode m = inum (length fl) \<and> length fl \<le> 199"

lemma files_ok_cong:
  assumes "\<And>j. j < n \<Longrightarrow> D j = D' j" "\<And>j. j < n \<Longrightarrow> nb j = nb' j" "\<And>j. j < n \<Longrightarrow> data j = data' j"
  shows "files_ok disk fb n D nb data = files_ok disk fb n D' nb' data'"
proof -
  have "(\<Sum>i < n. cost (nb i)) = (\<Sum>i < n. cost (nb' i))" using assms(2) by simp
  then show ?thesis unfolding files_ok_def using assms by auto
qed

lemma unat_inum: "i \<le> 199 \<Longrightarrow> unat (inum i) = i + 1"
  unfolding inum_def by (simp only: unat_of_nat) simp

lemma inum_eq: "i \<le> 199 \<Longrightarrow> j \<le> 199 \<Longrightarrow> inum i = inum j \<longleftrightarrow> i = j"
  by (metis unat_inum add_right_imp_eq)

lemma IBLOCK_low: "i \<le> 199 \<Longrightarrow> 2 \<le> unat (IBLOCK (inum i)) \<and> unat (IBLOCK (inum i)) < 28"
proof -
  assume i: "i \<le> 199"
  have "unat (inum i div 8) = (i + 1) div 8" unfolding unat_div using unat_inum [OF i] by simp
  moreover have "(i + 1) div 8 \<le> 25" using i by simp
  ultimately show ?thesis unfolding IBLOCK_def IPB_def by (simp add: unat_word_ariths)
qed

lemma runs_winode:
  assumes "im_len m = 1024" "i \<le> 199"
  shows "runs (winode (inum i) d) m Q =
    Q () (m\<lparr>im_disk := (im_disk m)(IBLOCK (inum i) := put_bytes (dinode_off (inum i)) (enc_dinode d) (im_disk m (IBLOCK (inum i))))\<rparr>)"
  using assms IBLOCK_low [OF assms(2)] by (simp add: winode_def i2b_IBLOCK runs_bindP runs_rsect runs_wsect)

lemma runs_rinode:
  assumes "im_len m = 1024" "i \<le> 199"
  shows "runs (rinode (inum i)) m Q = Q (dinode_at (im_disk m) (inum i)) m"
  using assms IBLOCK_low [OF assms(2)] by (simp add: rinode_def i2b_IBLOCK runs_bindP runs_rsect dinode_at_def)

text \<open>Writing an inode back: the file at \<open>i\<close> gets the inode \<open>d\<close>, the others keep theirs.\<close>

lemma winode_files:
  assumes f: "files_ok disk fb n (D(i := d)) nb data" and D: "\<And>j. j < n \<Longrightarrow> j \<noteq> i \<Longrightarrow> D j = dinode_at disk (inum j)"
    and n: "n \<le> 199" "i < n" and disk': "disk' = disk(IBLOCK (inum i) := put_bytes (dinode_off (inum i)) (enc_dinode d) (disk (IBLOCK (inum i))))"
  shows "files_ok disk' fb n (\<lambda>j. dinode_at disk' (inum j)) nb data" "dinode_at disk' (inum i) = d"
    "\<And>j. j < n \<Longrightarrow> j \<noteq> i \<Longrightarrow> dinode_at disk' (inum j) = dinode_at disk (inum j)"
proof -
  have b: "unat (IBLOCK (inum i)) < 29" using IBLOCK_low [of i] n by simp
  have l: "length (disk (IBLOCK (inum i))) = 512" using files_okD(4) [OF f] b by simp
  have ld: "length (d_addrs d) = 13" using files_okD(1) [OF f n(2)] by (simp add: mapped_def)
  have at: "dinode_at disk' (inum j) = (if j = i then d else dinode_at disk (inum j))" if "j < n" for j
    unfolding disk' using dinode_at_put [of disk "inum i" d "inum j"] l ld inum_eq [of j i] that n by simp
  show "dinode_at disk' (inum i) = d" using at n by simp
  show "dinode_at disk' (inum j) = dinode_at disk (inum j)" if "j < n" "j \<noteq> i" for j using at that by simp
  have "files_ok disk' fb n (D(i := d)) nb data"
    unfolding disk' by (rule files_ok_low [OF f b]) (use l ld dinode_off_le [of "inum i"] in \<open>simp add: length_enc_dinode\<close>)
  then show "files_ok disk' fb n (\<lambda>j. dinode_at disk' (inum j)) nb data"
    by (rule files_ok_cong [THEN iffD1, rotated 3]) (use at D in auto)
qed

lemma files_ok_new:
  assumes "files_ok disk fb n D nb data" "length (d_addrs d) = 13" "\<And>j. j < 13 \<Longrightarrow> d_addrs d ! j = 0"
  shows "files_ok disk fb (Suc n) (D(n := d)) (nb(n := 0)) (data(n := []))"
proof -
  have "mapped disk fb d 0" "stores disk d 0 []" "blocks disk d 0 = {}" using assms by (auto simp: mapped_def stores_def blocks_def)
  moreover have "(\<Sum>i < n. cost ((nb(n := 0)) i)) = (\<Sum>i < n. cost (nb i))" by (rule sum.cong) auto
  ultimately show ?thesis using files_okD [OF assms(1)] unfolding files_ok_def by (auto simp: less_Suc_eq cost_def)
qed

section \<open>Refinement\<close>

lemma runs_ialloc:
  assumes m: "image_ok m fl" "length fl < 199"
    and Q: "\<And>m'. image_ok m' (a_new t fl) \<Longrightarrow> Q (inum (length fl)) m'"
  shows "runs (ialloc t) m Q"
proof -
  let ?n = "length fl" and ?d = "\<lparr>d_type = t, d_major = 0, d_minor = 0, d_nlink = 1, d_size = 0, d_addrs = replicate 13 0\<rparr>"
  let ?s = "IBLOCK (inum ?n)"
  let ?disk = "(im_disk m)(?s := put_bytes (dinode_off (inum ?n)) (enc_dinode ?d) (im_disk m ?s))"
  let ?m = "m\<lparr>im_freeinode := inum ?n + 1, im_disk := ?disk\<rparr>"
  have g: "im_len m = 1024" "im_freeinode m = inum ?n" and fa: "files_at m fl" using m(1) by (simp_all add: image_ok_def globals_ok_def)
  have "files_ok (im_disk m) (unat (im_freeblock m)) (Suc ?n) ((\<lambda>i. dinode_at (im_disk m) (inum i))(?n := ?d))
      ((\<lambda>i. file_blocks (fl ! i))(?n := 0)) ((\<lambda>i. a_data (fl ! i))(?n := []))"
    using fa unfolding files_at_def by (intro files_ok_new) (auto simp: nth_append)
  then have f: "files_ok (im_disk m) (unat (im_freeblock m)) (Suc ?n) ((\<lambda>i. dinode_at (im_disk m) (inum i))(?n := ?d))
      (\<lambda>i. file_blocks (a_new t fl ! i)) (\<lambda>i. a_data (a_new t fl ! i))"
    by (rule files_ok_cong [THEN iffD1, rotated 3]) (auto simp: a_new_def nth_append file_blocks_def nblks_def)
  note w = winode_files [OF f _ _ _ refl]
  have 1: "files_ok ?disk (unat (im_freeblock m)) (Suc ?n) (\<lambda>j. dinode_at ?disk (inum j)) (\<lambda>i. file_blocks (a_new t fl ! i)) (\<lambda>i. a_data (a_new t fl ! i))"
    and 2: "dinode_at ?disk (inum ?n) = ?d" and 3: "\<And>j. j < ?n \<Longrightarrow> dinode_at ?disk (inum j) = dinode_at (im_disk m) (inum j)"
    using w m(2) by simp_all
  have s1: "?s \<noteq> 1" using IBLOCK_low [of ?n] m(2) by auto
  have "is_inode (a_new t fl ! i) (dinode_at ?disk (inum i))" if "i < Suc ?n" for i
    using that fa 2 3 [of i] by (cases "i = ?n") (auto simp: a_new_def nth_append is_inode_def a_size_def files_at_def)
  then have "files_at ?m (a_new t fl)" using 1 s1 fa by (simp add: files_at_def a_new_def)
  moreover have "inum ?n + 1 = inum (Suc ?n)" by (simp add: inum_def)
  ultimately have "image_ok ?m (a_new t fl)" using m by (simp add: image_ok_def a_new_def globals_ok_def)
  then have "Q (inum ?n) ?m" by (rule Q)
  then show ?thesis using g m(2) by (simp add: ialloc_def runs_bindP runs_thenP runs_winode)
qed

lemma files_ok_size:
  assumes "files_ok disk fb n D nb data"
  shows "files_ok disk fb n (D(i := (D i)\<lparr>d_size := s\<rparr>)) nb data"
proof -
  have b: "fblock disk (d\<lparr>d_size := s\<rparr>) = fblock disk d" for d by (simp add: fun_eq_iff fblock_def)
  have e: "blocks disk ((D(i := (D i)\<lparr>d_size := s\<rparr>)) j) = blocks disk (D j)" "mapped disk fb ((D(i := (D i)\<lparr>d_size := s\<rparr>)) j) = mapped disk fb (D j)"
    "stores disk ((D(i := (D i)\<lparr>d_size := s\<rparr>)) j) = stores disk (D j)" for j
    by (simp_all add: fun_eq_iff blocks_def mapped_def stores_def b)
  show ?thesis using assms unfolding files_ok_def e .
qed

lemma space_update: "i < length fl \<Longrightarrow> space (fl[i := f]) + cost (file_blocks (fl ! i)) = space fl + cost (file_blocks f)"
  unfolding space_def by (simp add: sum.remove [of "{..<length fl}" i])

lemma image_space: "image_ok m fl \<Longrightarrow> unat (im_freeblock m) = 29 + space fl"
  by (auto simp: image_ok_def files_at_def space_def dest: files_okD(6))

lemma runs_iappend:
  assumes m: "image_ok m fl" "i < length fl" "\<not> a_closed (fl ! i)" and r: "fits (a_append i p fl)"
    and Q: "\<And>m'. image_ok m' (a_append i p fl) \<Longrightarrow> Q () m'"
  shows "runs (iappend (inum i) p) m Q"
proof -
  let ?n = "length fl" and ?D = "\<lambda>i. dinode_at (im_disk m) (inum i)" and ?fb = "unat (im_freeblock m)"
  let ?len = "length (a_data (fl ! i))" and ?f = "(fl ! i)\<lparr>a_data := a_data (fl ! i) @ p\<rparr>"
  have g: "globals_ok m ?fb" "im_len m = 1024" and fa: "files_at m fl" and n: "?n \<le> 199" using m(1) by (simp_all add: image_ok_def globals_ok_def)
  have f: "files_ok (im_disk m) ?fb ?n ?D (\<lambda>i. file_blocks (fl ! i)) (\<lambda>i. a_data (fl ! i))" using fa by (simp add: files_at_def)
  have sz: "unat (d_size (?D i)) = ?len" using fa m by (simp add: files_at_def is_inode_def a_size_def)
  have "?f \<in> set (a_append i p fl)" using m(2) by (simp add: a_append_def set_update_memI)
  then have small: "?len + length p \<le> 71680" using r by (auto simp: fits_def)
  have sp: "space (a_append i p fl) + cost (nblks ?len) = space fl + cost (nblks (?len + length p))"
    using space_update [OF m(2), of ?f] by (simp add: a_append_def file_blocks_def)
  have room: "?fb + cost (nblks (?len + length p)) \<le> 1024 + cost (nblks ?len)"
    using sp image_space [OF m(1)] r by (simp add: fits_def)
  have "runs (iappend_loop (length p) (?D i) (d_size (?D i)) p) m (\<lambda>(din, off) m'. runs (winode (inum i) (din\<lparr>d_size := off\<rparr>)) m' Q)"
  proof (rule runs_iappend_loop [OF f g(1) m(2) refl])
    fix m1 d1 fb1
    assume f1: "files_ok (im_disk m1) fb1 ?n (?D(i := d1)) ((\<lambda>i. file_blocks (fl ! i))(i := nblks (unat (d_size (?D i)) + length p)))
        ((\<lambda>i. a_data (fl ! i))(i := a_data (fl ! i) @ p))"
      and g1: "globals_ok m1 fb1" and a1: "only_addrs (?D i) d1" and l1: "low_same m m1"
    let ?off = "d_size (?D i) + of_nat (length p)"
    let ?d = "d1\<lparr>d_size := ?off\<rparr>" and ?s = "IBLOCK (inum i)"
    let ?disk = "(im_disk m1)(?s := put_bytes (dinode_off (inum i)) (enc_dinode ?d) (im_disk m1 ?s))"
    let ?m = "m1\<lparr>im_disk := ?disk\<rparr>"
    have fl': "a_append i p fl ! j = (if j = i then ?f else fl ! j)" if "j < ?n" for j using that m(2) by (simp add: a_append_def)
    have "files_ok (im_disk m1) fb1 ?n (?D(i := ?d)) ((\<lambda>i. file_blocks (fl ! i))(i := nblks (unat (d_size (?D i)) + length p)))
        ((\<lambda>i. a_data (fl ! i))(i := a_data (fl ! i) @ p))"
      using files_ok_size [OF f1, of i ?off] by simp
    then have f2: "files_ok (im_disk m1) fb1 ?n (?D(i := ?d)) (\<lambda>j. file_blocks (a_append i p fl ! j)) (\<lambda>j. a_data (a_append i p fl ! j))"
      by (rule files_ok_cong [THEN iffD1, rotated 3]) (use fl' sz in \<open>auto simp: file_blocks_def\<close>)
    have same: "dinode_at (im_disk m1) (inum j) = ?D j" if "j < ?n" for j
      using l1 IBLOCK_low [of j] that n by (simp add: dinode_at_def low_same_def)
    note w = winode_files [OF f2 _ n m(2) refl]
    have 1: "files_ok ?disk fb1 ?n (\<lambda>j. dinode_at ?disk (inum j)) (\<lambda>j. file_blocks (a_append i p fl ! j)) (\<lambda>j. a_data (a_append i p fl ! j))"
      and 2: "dinode_at ?disk (inum i) = ?d" and 3: "\<And>j. j < ?n \<Longrightarrow> j \<noteq> i \<Longrightarrow> dinode_at ?disk (inum j) = ?D j"
      using w same by simp_all
    have uo: "unat ?off = ?len + length p" using sz small by (simp add: unat_word_ariths unat_of_nat)
    have di: "is_inode (fl ! j) (?D j)" if "j < ?n" for j using fa that by (simp add: files_at_def)
    have "is_inode ?f ?d" using di [OF m(2)] a1 m(3) uo by (simp add: is_inode_def only_addrs_def a_size_def) (metis dinode.select_convs dinode.surjective dinode.update_convs(6))
    then have "is_inode (a_append i p fl ! j) (dinode_at ?disk (inum j))" if "j < ?n" for j
      using that fl' 2 3 di by (cases "j = i") simp_all
    moreover have "im_disk m1 1 = im_disk m 1" using l1 by (simp add: low_same_def)
    moreover have "?s \<noteq> 1" using IBLOCK_low [of i] n m(2) by auto
    moreover have e: "fb1 = unat (im_freeblock m1)" using g1 by (simp add: globals_ok_def)
    ultimately have "files_at ?m (a_append i p fl)" using 1 fa by (simp add: files_at_def a_append_def)
    then have "image_ok ?m (a_append i p fl)"
      using g1 l1 m(1) unfolding e by (simp add: image_ok_def a_append_def low_same_def)
    then have "Q () ?m" by (rule Q)
    then have "runs (winode (inum i) ?d) m1 Q" using g1 n m(2) by (simp add: runs_winode globals_ok_def)
    then show "(case (d1, ?off) of (din, off) \<Rightarrow> \<lambda>m'. runs (winode (inum i) (din\<lparr>d_size := off\<rparr>)) m' Q) m1" by simp
  qed (use sz small room in \<open>simp_all add: file_blocks_def\<close>)
  then show ?thesis using g n m(2) by (simp add: iappend_def runs_bindP runs_rinode case_prod_unfold)
qed

lemma runs_fix_size:
  assumes m: "image_ok m fl" "i < length fl" "\<not> a_closed (fl ! i)" and r: "fits fl"
    and Q: "\<And>m'. image_ok m' (a_close i fl) \<Longrightarrow> Q 0 m'"
  shows "runs (fix_size (inum i)) m Q"
proof -
  let ?n = "length fl" and ?D = "\<lambda>i. dinode_at (im_disk m) (inum i)" and ?fb = "unat (im_freeblock m)"
  let ?len = "length (a_data (fl ! i))" and ?f = "(fl ! i)\<lparr>a_closed := True\<rparr>"
  let ?off = "(d_size (?D i) div 512 + 1) * 512"
  let ?d = "(?D i)\<lparr>d_size := ?off\<rparr>" and ?s = "IBLOCK (inum i)"
  let ?disk = "(im_disk m)(?s := put_bytes (dinode_off (inum i)) (enc_dinode ?d) (im_disk m ?s))"
  let ?m = "m\<lparr>im_disk := ?disk\<rparr>"
  have g: "im_len m = 1024" and fa: "files_at m fl" and n: "?n \<le> 199" using m(1) by (simp_all add: image_ok_def globals_ok_def)
  have f: "files_ok (im_disk m) ?fb ?n ?D (\<lambda>i. file_blocks (fl ! i)) (\<lambda>i. a_data (fl ! i))" using fa by (simp add: files_at_def)
  have di: "is_inode (fl ! j) (?D j)" if "j < ?n" for j using fa that by (simp add: files_at_def)
  have sz: "unat (d_size (?D i)) = ?len" using di [OF m(2)] m by (simp add: is_inode_def a_size_def)
  have small: "?len \<le> 71680" using r m(2) by (simp add: fits_def)
  have fl': "a_close i fl ! j = (if j = i then ?f else fl ! j)" if "j < ?n" for j using that m(2) by (simp add: a_close_def)
  have f2: "files_ok (im_disk m) ?fb ?n (?D(i := ?d)) (\<lambda>j. file_blocks (a_close i fl ! j)) (\<lambda>j. a_data (a_close i fl ! j))"
    by (rule files_ok_cong [THEN iffD1, rotated 3, OF files_ok_size [OF f, of i ?off]]) (use fl' in \<open>auto simp: file_blocks_def\<close>)
  note w = winode_files [OF f2 _ n m(2) refl]
  have "unat (d_size (?D i) div 512) = ?len div 512" unfolding unat_div using sz by simp
  moreover have "?len div 512 \<le> 140" using small by (simp add: div_le_mono [of _ 71680 512, simplified])
  ultimately have uo: "unat ?off = (?len div 512 + 1) * 512" by (simp add: unat_word_ariths)
  have "is_inode ?f ?d" using di [OF m(2)] uo by (simp add: is_inode_def a_size_def)
  then have "is_inode (a_close i fl ! j) (dinode_at ?disk (inum j))" if "j < ?n" for j
    using that fl' w(2,3) di by (cases "j = i") simp_all
  moreover have "?s \<noteq> 1" using IBLOCK_low [of i] n m(2) by auto
  moreover have "length (a_close i fl) = ?n" by (simp add: a_close_def)
  ultimately have "files_at ?m (a_close i fl)" using w(1) fa by (simp add: files_at_def)
  then have "image_ok ?m (a_close i fl)" using m(1) by (simp add: image_ok_def a_close_def)
  then have "Q 0 ?m" by (rule Q)
  then show ?thesis using g n m(2) by (simp add: fix_size_def runs_bindP runs_thenP runs_rinode runs_winode)
qed

text \<open>What the program does with a tree, on the list of files.\<close>

function (sequential) spec_dir :: "(u8 list \<times> host) list option \<Rightarrow> nat \<Rightarrow> nat \<Rightarrow> afile list \<Rightarrow> afile list"
  and spec_entries :: "(u8 list \<times> host) list \<Rightarrow> nat \<Rightarrow> afile list \<Rightarrow> afile list" where
  "spec_dir dir cur parent fl =
    (let fl' = a_append cur (link_bytes (inum parent) dotdot) (a_append cur (link_bytes (inum cur) dot) fl)
     in case dir of None \<Rightarrow> fl' | Some es \<Rightarrow> a_close cur (spec_entries es cur fl'))"
| "spec_entries [] cur fl = fl"
| "spec_entries ((name, h) # es) cur fl = (if name = dot \<or> name = dotdot then spec_entries es cur fl else
    case h of
      Unreadable \<Rightarrow> fl
    | Directory dir \<Rightarrow> spec_entries es cur (a_append cur (link_bytes (inum (length fl)) name)
        (spec_dir dir (length fl) cur (a_new T_DIR fl)))
    | Regular bufs \<Rightarrow> spec_entries es cur (a_append cur (link_bytes (inum (length fl)) name)
        (a_append (length fl) (concat bufs) (a_new T_FILE fl))))"
  by pat_completeness auto
termination
  by (relation "measure (\<lambda>x. case x of Inl (d, _, _, _) \<Rightarrow> host_size (Directory d) | Inr (es, _, _) \<Rightarrow> entries_size es)")
    (auto split: option.splits)

fun readable :: "host \<Rightarrow> bool" and readable_entries :: "(u8 list \<times> host) list \<Rightarrow> bool" where
  "readable Unreadable = False"
| "readable (Regular bufs) = True"
| "readable (Directory None) = True"
| "readable (Directory (Some es)) = readable_entries es"
| "readable_entries [] = True"
| "readable_entries ((name, h) # es) = (readable h \<and> readable_entries es)"

text \<open>Files only grow.\<close>

definition grows :: "afile list \<Rightarrow> afile list \<Rightarrow> bool" where
  "grows fl fl' \<longleftrightarrow> length fl \<le> length fl' \<and> (\<forall>i < length fl. length (a_data (fl ! i)) \<le> length (a_data (fl' ! i)))"

lemma grows_refl [simp]: "grows fl fl"
  by (simp add: grows_def)

lemma grows_trans: "grows fl fl1 \<Longrightarrow> grows fl1 fl2 \<Longrightarrow> grows fl fl2"
  unfolding grows_def by (meson le_trans order_less_le_trans)

lemma grows_ops [simp]: "grows fl (a_append i p fl)" "grows fl (a_close i fl)" "grows fl (a_new t fl)"
proof -
  show "grows fl (a_append i p fl)" by (cases "i < length fl") (simp_all add: grows_def a_append_def nth_list_update list_update_beyond)
  show "grows fl (a_close i fl)" by (cases "i < length fl") (simp_all add: grows_def a_close_def nth_list_update list_update_beyond)
  show "grows fl (a_new t fl)" by (simp add: grows_def a_new_def nth_append)
qed

lemma fits_grows:
  assumes "fits fl'" "grows fl fl'" shows "fits fl"
proof -
  have "space fl \<le> (\<Sum>i < length fl. cost (file_blocks (fl' ! i)))"
    unfolding space_def using assms(2) by (intro sum_mono cost_mono) (simp add: grows_def file_blocks_def nblks_mono)
  also have "\<dots> \<le> space fl'" unfolding space_def using assms(2) by (intro sum_mono2) (auto simp: grows_def)
  finally have "space fl \<le> 995" using assms(1) by (simp add: fits_def)
  moreover have "length (a_data (fl ! i)) \<le> 71680" if "i < length fl" for i
  proof -
    have "length (a_data (fl' ! i)) \<le> 71680" "length (a_data (fl ! i)) \<le> length (a_data (fl' ! i))"
      using assms that by (simp_all add: fits_def grows_def)
    then show ?thesis by simp
  qed
  ultimately show ?thesis using assms by (auto simp: fits_def grows_def in_set_conv_nth)
qed

lemma length_ops [simp]: "length (a_append i p fl) = length fl" "length (a_close i fl) = length fl" "length (a_new t fl) = Suc (length fl)"
  by (simp_all add: a_append_def a_close_def a_new_def)

lemma nth_ops:
  "j < length fl \<Longrightarrow> a_append i p fl ! j = (if i = j then (fl ! j)\<lparr>a_data := a_data (fl ! j) @ p\<rparr> else fl ! j)"
  "j < length fl \<Longrightarrow> a_close i fl ! j = (if i = j then (fl ! j)\<lparr>a_closed := True\<rparr> else fl ! j)"
  "j < length fl \<Longrightarrow> a_new t fl ! j = fl ! j" "\<not> a_closed (a_new t fl ! length fl)"
  by (auto simp: a_append_def a_close_def a_new_def nth_list_update nth_append)

text \<open>Work below a directory leaves the files made before alone, apart from the directory itself.\<close>

definition extends :: "nat \<Rightarrow> afile list \<Rightarrow> afile list \<Rightarrow> bool" where
  "extends cur fl fl' \<longleftrightarrow> grows fl fl' \<and> (\<forall>j < length fl. j \<noteq> cur \<longrightarrow> fl' ! j = fl ! j)"

lemma extendsD: "extends cur fl fl' \<Longrightarrow> length fl \<le> length fl'" "extends cur fl fl' \<Longrightarrow> grows fl fl'"
  "extends cur fl fl' \<Longrightarrow> j < length fl \<Longrightarrow> j \<noteq> cur \<Longrightarrow> fl' ! j = fl ! j"
  by (simp_all add: extends_def grows_def)

lemma extends_trans: "extends cur fl fl1 \<Longrightarrow> extends cur fl1 fl2 \<Longrightarrow> extends cur fl fl2"
  using extendsD(1) [of cur fl fl1] by (auto simp: extends_def intro: grows_trans)

lemma extends_child: "extends c fl1 fl2 \<Longrightarrow> length fl \<le> c \<Longrightarrow> extends cur fl fl1 \<Longrightarrow> extends cur fl fl2"
  using extendsD(1) [of cur fl fl1] by (auto simp: extends_def intro: grows_trans)

lemma extends_ops [simp]: "extends cur fl (a_append cur p fl)" "extends cur fl (a_close cur fl)" "extends cur fl (a_new t fl)" "extends cur fl fl"
  by (simp_all add: extends_def nth_ops)

declare add_dir.simps [simp del] add_entries.simps [simp del] spec_dir.simps [simp del] spec_entries.simps [simp del] T_DIR_def [simp del] T_FILE_def [simp del]

lemma spec_extends:
  "cur < length fl \<Longrightarrow> extends cur fl (spec_dir dir cur parent fl)"
  "cur < length fl \<Longrightarrow> extends cur fl (spec_entries es cur fl) \<and> a_closed (spec_entries es cur fl ! cur) = a_closed (fl ! cur)"
proof (induction dir cur parent fl and es cur fl rule: spec_dir_spec_entries.induct)
  case (1 dir cur parent fl)
  let ?fl = "a_append cur (link_bytes (inum parent) dotdot) (a_append cur (link_bytes (inum cur) dot) fl)"
  have e: "extends cur fl ?fl" by (rule extends_trans [where ?fl1.0 = "a_append cur (link_bytes (inum cur) dot) fl"]) simp_all
  show ?case
  proof (cases dir)
    case None
    then show ?thesis using e by (simp add: spec_dir.simps)
  next
    case (Some es)
    then have "extends cur ?fl (spec_entries es cur ?fl)" using 1(1) [OF refl Some] 1(2) by simp
    then have "extends cur fl (a_close cur (spec_entries es cur ?fl))" using e extends_trans extends_ops(2) by blast
    then show ?thesis using Some by (simp add: spec_dir.simps)
  qed
next
  case (3 name h es cur fl)
  show ?case
  proof (cases "name = dot \<or> name = dotdot")
    case True
    then show ?thesis using 3(1) 3(5) by (simp add: spec_entries.simps)
  next
    case False
    show ?thesis
    proof (cases h)
      case Unreadable
      then show ?thesis using False by (simp add: spec_entries.simps)
    next
      case (Regular bufs)
      let ?fl = "a_append cur (link_bytes (inum (length fl)) name) (a_append (length fl) (concat bufs) (a_new T_FILE fl))"
      have "extends (length fl) (a_new T_FILE fl) (a_append (length fl) (concat bufs) (a_new T_FILE fl))" by simp
      then have "extends cur fl (a_append (length fl) (concat bufs) (a_new T_FILE fl))" by (rule extends_child) simp_all
      then have e: "extends cur fl ?fl" using extends_trans extends_ops(1) by blast
      have c: "a_closed (?fl ! cur) = a_closed (fl ! cur)" using 3(5) by (simp add: nth_ops)
      have "extends cur ?fl (spec_entries es cur ?fl) \<and> a_closed (spec_entries es cur ?fl ! cur) = a_closed (?fl ! cur)"
        using 3(2) [OF False Regular] 3(5) by simp
      then show ?thesis using False Regular c extends_trans [OF e] by (simp add: spec_entries.simps)
    next
      case (Directory dir)
      let ?f1 = "spec_dir dir (length fl) cur (a_new T_DIR fl)"
      let ?fl = "a_append cur (link_bytes (inum (length fl)) name) ?f1"
      have d: "extends (length fl) (a_new T_DIR fl) ?f1" using 3(3) [OF False Directory] by simp
      then have e1: "extends cur fl ?f1" by (rule extends_child) simp_all
      then have e: "extends cur fl ?fl" using extends_trans extends_ops(1) by blast
      have l: "cur < length ?f1" using extendsD(1) [OF e1] 3(5) by simp
      have "?f1 ! cur = a_new T_DIR fl ! cur" using extendsD(3) [OF d, of cur] 3(5) by simp
      then have c: "a_closed (?fl ! cur) = a_closed (fl ! cur)" using 3(5) l by (simp add: nth_ops)
      have "extends cur ?fl (spec_entries es cur ?fl) \<and> a_closed (spec_entries es cur ?fl ! cur) = a_closed (?fl ! cur)"
        using 3(4) [OF False Directory] l by simp
      then show ?thesis using False Directory c extends_trans [OF e] by (simp add: spec_entries.simps)
    qed
  qed
qed (simp add: spec_entries.simps)

lemma append_append: "i < length fl \<Longrightarrow> a_append i q (a_append i p fl) = a_append i (p @ q) fl"
  by (simp add: a_append_def)

lemma runs_bufs:
  assumes "image_ok m fl" "i < length fl" "\<not> a_closed (fl ! i)" "fits (a_append i (concat bufs) fl)"
    "\<And>m'. image_ok m' (a_append i (concat bufs) fl) \<Longrightarrow> Q () m'"
  shows "runs (forP bufs (iappend (inum i))) m Q"
  using assms
proof (induction bufs arbitrary: m fl)
  case Nil
  have "a_append i [] fl = fl" by (simp add: a_append_def)
  then show ?case using Nil by simp
next
  case (Cons p bufs)
  have e: "a_append i (concat bufs) (a_append i p fl) = a_append i (concat (p # bufs)) fl" using Cons.prems(2) by (simp add: append_append)
  have "fits (a_append i p fl)" by (rule fits_grows [OF Cons.prems(4)]) (simp only: e [symmetric] grows_ops)
  then have "runs (iappend (inum i) p) m (\<lambda>_ m'. runs (forP bufs (iappend (inum i))) m' Q)"
    by (rule runs_iappend [OF Cons.prems(1-3)], intro Cons.IH [where fl = "a_append i p fl"]) (use Cons.prems e in \<open>simp_all add: nth_ops\<close>)
  then show ?case by (simp only: forP.simps runs_thenP)
qed

lemma refine_dir:
  "image_ok m fl \<Longrightarrow> cur < length fl \<Longrightarrow> \<not> a_closed (fl ! cur) \<Longrightarrow> readable (Directory dir) \<Longrightarrow> fits (spec_dir dir cur parent fl) \<Longrightarrow>
     runs (add_dir dir (inum cur) (inum parent)) m (\<lambda>r m'. r = 0 \<and> image_ok m' (spec_dir dir cur parent fl))"
  "image_ok m fl \<Longrightarrow> cur < length fl \<Longrightarrow> \<not> a_closed (fl ! cur) \<Longrightarrow> readable_entries es \<Longrightarrow> fits (spec_entries es cur fl) \<Longrightarrow>
     runs (add_entries es (inum cur)) m (\<lambda>r m'. r = 0 \<and> image_ok m' (spec_entries es cur fl))"
proof (induction dir cur parent fl and es cur fl arbitrary: m and m rule: spec_dir_spec_entries.induct)
  case (1 dir cur parent fl)
  let ?f1 = "a_append cur (link_bytes (inum cur) dot) fl"
  let ?fl = "a_append cur (link_bytes (inum parent) dotdot) ?f1"
  have c: "cur < length ?f1" "\<not> a_closed (?f1 ! cur)" "cur < length ?fl" "\<not> a_closed (?fl ! cur)" using 1(3,4) by (simp_all add: nth_ops)
  have g: "grows ?fl (spec_dir dir cur parent fl)"
  proof (cases dir)
    case (Some es)
    have "grows ?fl (a_close cur (spec_entries es cur ?fl))"
      using spec_extends(2) [OF c(3), of es] extendsD(2) grows_trans grows_ops(2) by blast
    then show ?thesis using Some by (simp add: spec_dir.simps)
  qed (simp add: spec_dir.simps)
  then have f2: "fits ?fl" by (rule fits_grows [OF 1(6)])
  then have f1: "fits ?f1" by (rule fits_grows) simp
  have rest: "runs (case dir of None \<Rightarrow> ret 0 | Some es \<Rightarrow> bindP (add_entries es (inum cur)) (\<lambda>r. if r \<noteq> 0 then ret r else fix_size (inum cur))) m2
      (\<lambda>r m'. r = 0 \<and> image_ok m' (spec_dir dir cur parent fl))" if m2: "image_ok m2 ?fl" for m2
  proof (cases dir)
    case None
    then show ?thesis using m2 by (simp add: spec_dir.simps)
  next
    case (Some es)
    let ?f3 = "spec_entries es cur ?fl"
    have cl: "cur < length ?f3" "\<not> a_closed (?f3 ! cur)" using spec_extends(2) [OF c(3), of es] extendsD(1) c by fastforce+
    have e: "spec_dir dir cur parent fl = a_close cur ?f3" using Some by (simp add: spec_dir.simps)
    have f3: "fits ?f3" by (rule fits_grows [OF 1(6)]) (simp add: e)
    have "runs (add_entries es (inum cur)) m2 (\<lambda>r m'. r = 0 \<and> image_ok m' ?f3)"
      by (rule 1(1) [OF refl Some m2 c(3,4) _ f3]) (use 1(5) Some in simp)
    then have "runs (add_entries es (inum cur)) m2 (\<lambda>r m'. runs (if r \<noteq> 0 then ret r else fix_size (inum cur)) m' (\<lambda>r m'. r = 0 \<and> image_ok m' (a_close cur ?f3)))"
      by (rule runs_mono) (auto intro: runs_fix_size [OF _ cl f3])
    then show ?thesis using Some e by (simp add: runs_bindP)
  qed
  have "runs (iappend (inum cur) (link_bytes (inum cur) dot)) m (\<lambda>_ m1. runs (iappend (inum cur) (link_bytes (inum parent) dotdot)) m1 (\<lambda>_ m2.
      runs (case dir of None \<Rightarrow> ret 0 | Some es \<Rightarrow> bindP (add_entries es (inum cur)) (\<lambda>r. if r \<noteq> 0 then ret r else fix_size (inum cur))) m2
      (\<lambda>r m'. r = 0 \<and> image_ok m' (spec_dir dir cur parent fl))))"
    by (rule runs_iappend [OF 1(2-4) f1], rule runs_iappend [OF _ c(1,2) f2], assumption, rule rest)
  then show ?case by (simp only: add_dir.simps runs_thenP)
next
  case (2 cur fl)
  then show ?case by (simp add: spec_entries.simps add_entries.simps)
next
  case (3 name h es cur fl)
  note m = 3(5) and c = 3(6,7) and rd = 3(8) and ft = 3(9)
  show ?case
  proof (cases "name = dot \<or> name = dotdot")
    case True
    then have s: "spec_entries ((name, h) # es) cur fl = spec_entries es cur fl" by (simp add: spec_entries.simps)
    then have "runs (add_entries es (inum cur)) m (\<lambda>r m'. r = 0 \<and> image_ok m' (spec_entries es cur fl))"
      using 3(1) [OF True m c] rd ft by simp
    then show ?thesis using True unfolding s by (cases h) (simp_all only: add_entries.simps if_True)
  next
    case False
    show ?thesis
    proof (cases h)
      case Unreadable
      then show ?thesis using rd by simp
    next
      case (Regular bufs)
      let ?f1 = "a_append (length fl) (concat bufs) (a_new T_FILE fl)"
      let ?fl = "a_append cur (link_bytes (inum (length fl)) name) ?f1"
      have s: "spec_entries ((name, h) # es) cur fl = spec_entries es cur ?fl" using False Regular by (simp add: spec_entries.simps)
      have cl: "cur < length ?f1" "\<not> a_closed (?f1 ! cur)" "cur < length ?fl" "\<not> a_closed (?fl ! cur)" using c by (simp_all add: nth_ops)
      have f2: "fits ?fl" by (rule fits_grows [OF ft]) (simp only: s extendsD(2) [OF conjunct1 [OF spec_extends(2) [OF cl(3)]]])
      then have f1: "fits ?f1" by (rule fits_grows) simp
      then have f0: "length fl < 199" by (simp add: fits_def)
      have "runs (add_entries es (inum cur)) m3 (\<lambda>r m'. r = 0 \<and> image_ok m' (spec_entries es cur ?fl))" if "image_ok m3 ?fl" for m3
        by (rule 3(2) [OF False Regular that cl(3,4)]) (use rd ft s in simp_all)
      then have "runs (ialloc T_FILE) m (\<lambda>ch m1. runs (forP bufs (iappend ch)) m1 (\<lambda>_ m2. runs (iappend (inum cur) (link_bytes ch name)) m2 (\<lambda>_ m3.
          runs (add_entries es (inum cur)) m3 (\<lambda>r m'. r = 0 \<and> image_ok m' (spec_entries es cur ?fl)))))"
        by (intro runs_ialloc [OF m f0] runs_bufs [OF _ _ _ f1] runs_iappend [OF _ cl(1,2) f2]) (simp_all add: nth_ops)
      then show ?thesis using False Regular unfolding s by (simp only: add_entries.simps if_False runs_bindP runs_thenP)
    next
      case (Directory dir)
      let ?f1 = "spec_dir dir (length fl) cur (a_new T_DIR fl)"
      let ?fl = "a_append cur (link_bytes (inum (length fl)) name) ?f1"
      have s: "spec_entries ((name, h) # es) cur fl = spec_entries es cur ?fl" using False Directory by (simp add: spec_entries.simps)
      have d: "extends (length fl) (a_new T_DIR fl) ?f1" by (rule spec_extends(1)) simp
      have l: "Suc (length fl) \<le> length ?f1" using extendsD(1) [OF d] by simp
      have "?f1 ! cur = a_new T_DIR fl ! cur" using extendsD(3) [OF d, of cur] c(1) by simp
      then have cl: "cur < length ?f1" "\<not> a_closed (?f1 ! cur)" "cur < length ?fl" "\<not> a_closed (?fl ! cur)" using c l by (simp_all add: nth_ops)
      have f2: "fits ?fl" by (rule fits_grows [OF ft]) (simp only: s extendsD(2) [OF conjunct1 [OF spec_extends(2) [OF cl(3)]]])
      then have f1: "fits ?f1" by (rule fits_grows) simp
      then have f0: "length fl < 199" using l by (simp add: fits_def)
      have e: "runs (add_entries es (inum cur)) m3 (\<lambda>r m'. r = 0 \<and> image_ok m' (spec_entries es cur ?fl))" if "image_ok m3 ?fl" for m3
        by (rule 3(4) [OF False Directory that cl(3,4)]) (use rd ft s in simp_all)
      have a: "runs (add_dir dir (inum (length fl)) (inum cur)) m1 (\<lambda>r m2. r = 0 \<and> image_ok m2 ?f1)" if "image_ok m1 (a_new T_DIR fl)" for m1
        by (rule 3(3) [OF False Directory that]) (use rd Directory f1 in \<open>simp_all add: nth_ops\<close>)
      have "runs (add_dir dir (inum (length fl)) (inum cur)) m1 (\<lambda>r m2. runs (if r \<noteq> 0 then ret r else thenP (iappend (inum cur) (link_bytes (inum (length fl)) name))
          (add_entries es (inum cur))) m2 (\<lambda>r m'. r = 0 \<and> image_ok m' (spec_entries es cur ?fl)))" if "image_ok m1 (a_new T_DIR fl)" for m1
        by (rule runs_mono [OF a [OF that]]) (auto simp: runs_thenP intro: runs_iappend [OF _ cl(1,2) f2] e)
      then have "runs (ialloc T_DIR) m (\<lambda>ch m1. runs (add_dir dir ch (inum cur)) m1 (\<lambda>r m2. runs (if r \<noteq> 0 then ret r else thenP (iappend (inum cur) (link_bytes ch name))
          (add_entries es (inum cur))) m2 (\<lambda>r m'. r = 0 \<and> image_ok m' (spec_entries es cur ?fl))))"
        by (rule runs_ialloc [OF m f0])
      then show ?thesis using False Directory unfolding s by (simp only: add_entries.simps if_False runs_bindP)
    qed
  qed
qed

section \<open>The whole image\<close>

lemma zero_sectors:
  "im_disk m = (\<lambda>_. zeroes) \<Longrightarrow> \<forall>i \<in> set is. i < 1024 \<Longrightarrow>
     forP is (\<lambda>i. wsect (of_nat i) zeroes) m = Ret () (m\<lparr>im_len := fold (\<lambda>i n. max n (Suc i)) is (im_len m)\<rparr>)"
proof (induction "is" arbitrary: m)
  case (Cons i "is")
  have "unat (of_nat i :: u32) = i" using Cons.prems by (simp add: unat_of_nat)
  moreover have "(im_disk m)(w := zeroes) = im_disk m" for w using Cons.prems(1) by auto
  ultimately show ?case using Cons by (simp add: wsect_def)
qed simp

lemma fold_max_upt: "fold (\<lambda>i n. max n (Suc i)) [0..<k] l = max l k"
  by (induction k) auto

lemma runs_mkfs: "runs (mkfs 995 200 1024) image0 (\<lambda>r m. r = 0 \<and> image_ok m [])"
proof -
  have "forP [0..<1024] (\<lambda>i. wsect (of_nat i) zeroes) (image0\<lparr>im_bitblocks := 1, im_usedblocks := 29, im_freeblock := 29\<rparr>) =
      Ret () (image0\<lparr>im_bitblocks := 1, im_usedblocks := 29, im_freeblock := 29, im_len := 1024\<rparr>)"
    by (subst zero_sectors) (simp_all add: image0_def fold_max_upt del: upt_Suc)
  then have "runs (forP [0..<1024] (\<lambda>i. wsect (of_nat i) zeroes)) (image0\<lparr>im_bitblocks := 1, im_usedblocks := 29, im_freeblock := 29\<rparr>) Q =
      Q () (image0\<lparr>im_bitblocks := 1, im_usedblocks := 29, im_freeblock := 29, im_len := 1024\<rparr>)" for Q
    by (simp add: runs_def)
  moreover have "image_ok (image0\<lparr>im_bitblocks := 1, im_usedblocks := 29, im_freeblock := 29, im_len := 1024,
      im_disk := (im_disk image0)(1 := put_bytes 0 (enc_sb super) zeroes)\<rparr>) []"
    by (auto simp: image_ok_def files_at_def globals_ok_def files_ok_def inum_def image0_def enc_sb_def)
  ultimately show ?thesis
    by (simp add: mkfs_def Let_def runs_thenP runs_wsect image0_def super_def del: upt_Suc)
qed

lemma bitmap_bits:
  assumes "n \<le> 4096"
  shows "length (fold set_bit_in [0..<n] zeroes) = 512 \<and>
    (\<forall>b < 4096. bit (fold set_bit_in [0..<n] zeroes ! (b div 8)) (b mod 8) \<longleftrightarrow> b < n)"
  using assms
proof (induction n)
  case (Suc n)
  let ?x = "fold set_bit_in [0..<n] zeroes"
  have l: "length ?x = 512" and old: "\<And>b. b < 4096 \<Longrightarrow> bit (?x ! (b div 8)) (b mod 8) \<longleftrightarrow> b < n" using Suc by auto
  have "bit (set_bit_in n ?x ! (b div 8)) (b mod 8) \<longleftrightarrow> b < Suc n" if b: "b < 4096" for b
  proof (cases "b div 8 = n div 8")
    case True
    have "b div 8 < 512" using b by (simp add: less_mult_imp_div_less)
    then have "set_bit_in n ?x ! (b div 8) = ?x ! (b div 8) OR push_bit (n mod 8) 1" using True l by (simp add: set_bit_in_def)
    moreover have "bit (push_bit (n mod 8) (1::u8)) (b mod 8) \<longleftrightarrow> b mod 8 = n mod 8" by (auto simp: bit_simps)
    moreover have "b mod 8 = n mod 8 \<longleftrightarrow> b = n" using True by (metis div_mult_mod_eq)
    ultimately show ?thesis using old [OF b] by (auto simp: bit_or_iff)
  next
    case False
    then have "b \<noteq> n" "set_bit_in n ?x ! (b div 8) = ?x ! (b div 8)" by (auto simp: set_bit_in_def)
    then show ?thesis using old [OF b] by auto
  qed
  moreover have "length (set_bit_in n ?x) = 512" using l by (simp add: set_bit_in_def)
  ultimately show ?case by simp
qed simp

definition tree_files :: "(u8 list \<times> host) list option \<Rightarrow> afile list" where
  "tree_files root = spec_dir root 0 0 (a_new T_DIR [])"

lemma files_at_low:
  assumes f: "files_at m fl" and n: "length fl \<le> 199" and s: "unat s = 28" "length v = 512"
  shows "files_at (m\<lparr>im_disk := (im_disk m)(s := v)\<rparr>) fl"
proof -
  have "IBLOCK (inum i) \<noteq> s" if "i < length fl" for i using IBLOCK_low [of i] that n s by auto
  then have d: "dinode_at ((im_disk m)(s := v)) (inum i) = dinode_at (im_disk m) (inum i)" if "i < length fl" for i
    using that by (simp add: dinode_at_def)
  have "files_ok ((im_disk m)(s := v)) (unat (im_freeblock m)) (length fl) (\<lambda>i. dinode_at (im_disk m) (inum i))
      (\<lambda>i. file_blocks (fl ! i)) (\<lambda>i. a_data (fl ! i))"
    using f s unfolding files_at_def by (intro files_ok_low) simp_all
  then have "files_ok ((im_disk m)(s := v)) (unat (im_freeblock m)) (length fl) (\<lambda>i. dinode_at ((im_disk m)(s := v)) (inum i))
      (\<lambda>i. file_blocks (fl ! i)) (\<lambda>i. a_data (fl ! i))"
    by (rule files_ok_cong [THEN iffD1, rotated 3]) (use d in simp_all)
  moreover have "s \<noteq> 1" using s by auto
  ultimately show ?thesis using f d by (simp add: files_at_def)
qed

lemma mkfs_main_files:
  assumes "readable (Directory root)" and "fits (tree_files root)"
  shows "\<exists>m. mkfs_main root image0 = Ret () m \<and> im_len m = 1024 \<and> files_at m (tree_files root) \<and>
     (\<forall>b < 4096. bit (im_disk m (BBLOCK (of_nat b) 200) ! (b div 8)) (b mod 8) \<longleftrightarrow> b < unat (im_freeblock m))"
proof -
  let ?fl = "tree_files root"
  have fin: "runs (bindP (reads im_usedblocks) balloc) m1 (\<lambda>_ m. im_len m = 1024 \<and> files_at m ?fl \<and>
     (\<forall>b < 4096. bit (im_disk m (BBLOCK (of_nat b) 200) ! (b div 8)) (b mod 8) \<longleftrightarrow> b < unat (im_freeblock m)))"
    if m1: "image_ok m1 ?fl" for m1
  proof -
    let ?u = "im_usedblocks m1"
    have u: "unat ?u = 29 + space ?fl" using image_space [OF m1] m1 by (simp add: image_ok_def globals_ok_def)
    then have ul: "unat ?u \<le> 1024" using assms(2) by (simp add: fits_def)
    then have "sint ?u = int (unat ?u)" by (intro sint_small) simp
    then have s: "sint ?u < 4096" "nat (sint ?u) = unat ?u" using ul by linarith+
    have l: "im_len m1 = 1024" "im_freeblock m1 = ?u" "files_at m1 ?fl" "length ?fl \<le> 199" using m1 by (simp_all add: image_ok_def globals_ok_def)
    have bb: "BBLOCK (of_nat b) 200 = 28" if "b < 4096" for b
    proof -
      have "unat (of_nat b div 4096 :: u32) = 0" unfolding unat_div using that by (simp add: unat_of_nat)
      then show ?thesis by (simp add: BBLOCK_def unat_eq_0)
    qed
    have bm: "length (fold set_bit_in [0..<unat ?u] zeroes) = 512"
      "\<And>b. b < 4096 \<Longrightarrow> bit (fold set_bit_in [0..<unat ?u] zeroes ! (b div 8)) (b mod 8) \<longleftrightarrow> b < unat ?u"
      using bitmap_bits [of "unat ?u"] ul by auto
    have "files_at (m1\<lparr>im_disk := (im_disk m1)(28 := fold set_bit_in [0..<unat ?u] zeroes)\<rparr>) ?fl"
      by (rule files_at_low [OF l(3,4)]) (use bm in simp_all)
    then show ?thesis using l s ul bb bm by (simp add: runs_bindP balloc_def runs_wsect)
  qed
  have i0: "inum 0 = 1" by (simp add: inum_def)
  have dir: "runs (add_dir root (inum 0) (inum 0)) m1 (\<lambda>r m2. r = 0 \<and> image_ok m2 ?fl)" if "image_ok m1 (a_new T_DIR [])" for m1
    unfolding tree_files_def by (rule refine_dir(1) [OF that]) (use assms in \<open>simp_all add: a_new_def tree_files_def\<close>)
  have "runs (add_dir root (inum 0) (inum 0)) m1 (\<lambda>r m2. runs (if r \<noteq> 0 then panic ''exit'' else bindP (reads im_usedblocks) balloc) m2
      (\<lambda>_ m. im_len m = 1024 \<and> files_at m ?fl \<and>
        (\<forall>b < 4096. bit (im_disk m (BBLOCK (of_nat b) 200) ! (b div 8)) (b mod 8) \<longleftrightarrow> b < unat (im_freeblock m))))"
    if "image_ok m1 (a_new T_DIR [])" for m1
    by (rule runs_mono [OF dir [OF that]]) (use fin in auto)
  then have main: "runs (ialloc T_DIR) m0 (\<lambda>ri m1. runs (if ri \<noteq> ROOTINO then panic ''assert'' else bindP (add_dir root ri ri) (\<lambda>r.
       if r \<noteq> 0 then panic ''exit'' else bindP (reads im_usedblocks) balloc)) m1 (\<lambda>_ m. im_len m = 1024 \<and> files_at m ?fl \<and>
        (\<forall>b < 4096. bit (im_disk m (BBLOCK (of_nat b) 200) ! (b div 8)) (b mod 8) \<longleftrightarrow> b < unat (im_freeblock m))))"
    if "image_ok m0 []" for m0
    using that i0 by (intro runs_ialloc) (auto simp: runs_bindP)
  have "runs (mkfs_main root) image0 (\<lambda>_ m. im_len m = 1024 \<and> files_at m ?fl \<and>
        (\<forall>b < 4096. bit (im_disk m (BBLOCK (of_nat b) 200) ! (b div 8)) (b mod 8) \<longleftrightarrow> b < unat (im_freeblock m)))"
    unfolding mkfs_main_def runs_thenP runs_bindP [of "ialloc T_DIR"] by (rule runs_mono [OF runs_mkfs]) (use main in auto)
  then show ?thesis by (simp add: runs_def)
qed

text \<open>C12. The image builder writes the tree it is given. For every tree that can be read and fits, the
  program ends normally; every file and directory of the tree then has its inode, of its type and
  size, with a set of blocks of its own that hold its bytes, the entries of a directory name the inodes of its
  files, and the bitmap marks exactly the blocks in use.\<close>

theorem mkfs_image:
  assumes "readable (Directory root)" and "fits (tree_files root)"
  shows "\<exists>m. mkfs_main root image0 = Ret () m \<and> (\<forall>j < length (tree_files root).
     (let f = tree_files root ! j; d = dinode_at (im_disk m) (inum j) in
      d_type d = a_type f \<and> unat (d_size d) = a_size f \<and>
      map (\<lambda>x. im_disk m (fblock (im_disk m) d (x div 512)) ! (x mod 512)) [0..<length (a_data f)] = a_data f \<and>
      (\<forall>b \<in> blocks (im_disk m) d (file_blocks f). 29 \<le> unat b \<and> unat b < 1024 \<and>
         bit (im_disk m (BBLOCK b 200) ! (unat b div 8)) (unat b mod 8)) \<and>
      (\<forall>i < length (tree_files root). i \<noteq> j \<longrightarrow>
         blocks (im_disk m) d (file_blocks f) \<inter> blocks (im_disk m) (dinode_at (im_disk m) (inum i)) (file_blocks (tree_files root ! i)) = {})))"
proof -
  let ?fl = "tree_files root"
  obtain m where m: "mkfs_main root image0 = Ret () m" "files_at m ?fl"
    and bm: "\<And>b. b < 4096 \<Longrightarrow> bit (im_disk m (BBLOCK (of_nat b) 200) ! (b div 8)) (b mod 8) \<longleftrightarrow> b < unat (im_freeblock m)"
    using mkfs_main_files [OF assms] by blast
  let ?D = "\<lambda>i. dinode_at (im_disk m) (inum i)"
  have f: "files_ok (im_disk m) (unat (im_freeblock m)) (length ?fl) ?D (\<lambda>i. file_blocks (?fl ! i)) (\<lambda>i. a_data (?fl ! i))"
    and n: "\<And>j. j < length ?fl \<Longrightarrow> is_inode (?fl ! j) (?D j)" using m(2) by (simp_all add: files_at_def)
  have 1: "map (\<lambda>x. im_disk m (fblock (im_disk m) (?D j) (x div 512)) ! (x mod 512)) [0..<length (a_data (?fl ! j))] = a_data (?fl ! j)"
    if "j < length ?fl" for j
    using files_okD(2) [OF f that] by (intro nth_equalityI) (simp_all add: stores_def)
  have 2: "29 \<le> unat b \<and> unat b < 1024 \<and> bit (im_disk m (BBLOCK b 200) ! (unat b div 8)) (unat b mod 8)"
    if "j < length ?fl" "b \<in> blocks (im_disk m) (?D j) (file_blocks (?fl ! j))" for j b
  proof -
    have u: "29 \<le> unat b" "unat b < unat (im_freeblock m)" using files_okD(1) [OF f that(1)] that(2) by (simp_all add: mapped_def)
    then have "unat b < 1024" using files_okD(7) [OF f] by simp
    then show ?thesis using u bm [of "unat b"] by simp
  qed
  show ?thesis using m(1) n 1 2 files_okD(3) [OF f] by (auto simp: is_inode_def Let_def)
qed

text \<open>A directory with one file.\<close>

definition demo_tree :: "(u8 list \<times> host) list option" where
  "demo_tree = Some [([97], Regular [[1, 2, 3]])]"

lemma demo_tree_files:
  "tree_files demo_tree =
    [\<lparr>a_type = T_DIR, a_data = link_bytes 1 dot @ link_bytes 1 dotdot @ link_bytes 2 [97], a_closed = True\<rparr>,
     \<lparr>a_type = T_FILE, a_data = [1, 2, 3], a_closed = False\<rparr>]"
  by (simp add: tree_files_def demo_tree_def spec_dir.simps spec_entries.simps a_append_def a_new_def a_close_def dot_def dotdot_def inum_def)

lemma demo_tree_fits: "readable (Directory demo_tree)" "fits (tree_files demo_tree)"
proof -
  show "readable (Directory demo_tree)" by (simp add: demo_tree_def)
  have l: "length (link_bytes i nm) = 16" for i nm by (simp add: link_bytes_def name_field_def)
  have "space (tree_files demo_tree) = 2"
    by (simp add: space_def demo_tree_files file_blocks_def l nblks_def cost_def lessThan_Suc)
  then show "fits (tree_files demo_tree)" by (simp add: fits_def) (simp add: demo_tree_files l)
qed

theorem mkfs_image_witness:
  "\<exists>m. mkfs_main demo_tree image0 = Ret () m \<and> d_type (dinode_at (im_disk m) 2) = T_FILE \<and>
     map (\<lambda>x. im_disk m (fblock (im_disk m) (dinode_at (im_disk m) 2) (x div 512)) ! (x mod 512)) [0..<3] = [1, 2, 3]"
proof -
  obtain m where m: "mkfs_main demo_tree image0 = Ret () m"
    and j: "\<forall>j < length (tree_files demo_tree). let f = tree_files demo_tree ! j; d = dinode_at (im_disk m) (inum j) in
      d_type d = a_type f \<and> map (\<lambda>x. im_disk m (fblock (im_disk m) d (x div 512)) ! (x mod 512)) [0..<length (a_data f)] = a_data f"
    using mkfs_image [OF demo_tree_fits] by (auto simp: Let_def)
  show ?thesis by (rule exI [of _ m]) (use m j [rule_format, of 1] in \<open>simp add: demo_tree_files inum_def Let_def upt_rec\<close>)
qed

end
