(* ===== verification/Grep.thy ===== *)
theory Grep
  imports Prelude
begin

text \<open>
  The pattern matcher of \<^verbatim>\<open>user/grep.c\<close> and the loop that feeds it. Patterns and texts are lists of
  bytes without the terminating zero. The reference is a regular expression with its language: a
  pattern is a sequence of characters and starred characters, anchored at either end or not.
\<close>

section \<open>The matcher\<close>

abbreviation "CARET \<equiv> 94 :: u8"
abbreviation "DOLLAR \<equiv> 36 :: u8"
abbreviation "DOT \<equiv> 46 :: u8"
abbreviation "STAR \<equiv> 42 :: u8"

function (sequential) matchhere :: "u8 list \<Rightarrow> u8 list \<Rightarrow> bool" and matchstar :: "u8 \<Rightarrow> u8 list \<Rightarrow> u8 list \<Rightarrow> bool" where
  "matchhere [] tx = True"
| "matchhere (c # re) tx =
    (if take 1 re = [STAR] then matchstar c (tl re) tx
     else if c = DOLLAR \<and> re = [] then tx = []
     else if tx \<noteq> [] \<and> (c = DOT \<or> c = hd tx) then matchhere re (tl tx)
     else False)"
| "matchstar c re tx =
    (if matchhere re tx then True
     else if tx \<noteq> [] \<and> (hd tx = c \<or> c = DOT) then matchstar c re (tl tx)
     else False)"
  by pat_completeness auto
termination
  by (relation "inv_image (less_than <*lex*> less_than <*lex*> less_than)
    (\<lambda>x. case x of Inl (re, tx) \<Rightarrow> (length re, length tx, 0::nat) | Inr (c, re, tx) \<Rightarrow> (length re, length tx, 1))")
    (auto simp: neq_Nil_conv)

fun match_any :: "u8 list \<Rightarrow> u8 list \<Rightarrow> bool" where
  "match_any re tx = (if matchhere re tx then True else case tx of [] \<Rightarrow> False | _ # ts \<Rightarrow> match_any re ts)"

definition match :: "u8 list \<Rightarrow> u8 list \<Rightarrow> bool" where
  "match re tx = (if take 1 re = [CARET] then matchhere (tl re) tx else match_any re tx)"

section \<open>Regular expressions\<close>

datatype pat = One u8 | Many u8

text \<open>A pattern, and whether it must reach the end of the text.\<close>

fun parse_re :: "u8 list \<Rightarrow> pat list \<times> bool" where
  "parse_re [] = ([], False)"
| "parse_re [c] = (if c = DOLLAR then ([], True) else ([One c], False))"
| "parse_re (c # d # re) =
    (if d = STAR then (let (ps, e) = parse_re re in (Many c # ps, e))
     else (let (ps, e) = parse_re (d # re) in (One c # ps, e)))"

definition atom :: "u8 \<Rightarrow> u8 \<Rightarrow> bool" where
  "atom c x \<longleftrightarrow> c = DOT \<or> c = x"

fun lang :: "pat list \<Rightarrow> u8 list set" where
  "lang [] = {[]}"
| "lang (One c # ps) = {x # w | x w. atom c x \<and> w \<in> lang ps}"
| "lang (Many c # ps) = {u @ w | u w. (\<forall>x \<in> set u. atom c x) \<and> w \<in> lang ps}"

definition prefix_match :: "pat list \<times> bool \<Rightarrow> u8 list \<Rightarrow> bool" where
  "prefix_match r tx \<longleftrightarrow> (\<exists>u v. tx = u @ v \<and> u \<in> lang (fst r) \<and> (snd r \<longrightarrow> v = []))"

section \<open>Equivalence\<close>

lemma prefix_match_One:
  "prefix_match (One c # ps, e) tx \<longleftrightarrow> tx \<noteq> [] \<and> atom c (hd tx) \<and> prefix_match (ps, e) (tl tx)"
  by (cases tx) (auto simp: prefix_match_def Cons_eq_append_conv)

lemma prefix_match_Many_iff:
  "prefix_match (Many c # ps, e) tx \<longleftrightarrow> (\<exists>u w v. tx = u @ w @ v \<and> (\<forall>x \<in> set u. atom c x) \<and> w \<in> lang ps \<and> (e \<longrightarrow> v = []))"
proof -
  have "prefix_match (Many c # ps, e) tx \<longleftrightarrow> (\<exists>u w v. tx = (u @ w) @ v \<and> (\<forall>x \<in> set u. atom c x) \<and> w \<in> lang ps \<and> (e \<longrightarrow> v = []))"
    unfolding prefix_match_def by (simp only: lang.simps fst_conv snd_conv mem_Collect_eq) blast
  then show ?thesis by simp
qed

lemma prefix_match_Many:
  "prefix_match (Many c # ps, e) tx \<longleftrightarrow>
     prefix_match (ps, e) tx \<or> tx \<noteq> [] \<and> atom c (hd tx) \<and> prefix_match (Many c # ps, e) (tl tx)"
proof
  assume "prefix_match (Many c # ps, e) tx"
  then obtain u w v where t: "tx = u @ w @ v" "\<forall>x \<in> set u. atom c x" "w \<in> lang ps" "e \<longrightarrow> v = []"
    unfolding prefix_match_Many_iff by blast
  show "prefix_match (ps, e) tx \<or> tx \<noteq> [] \<and> atom c (hd tx) \<and> prefix_match (Many c # ps, e) (tl tx)"
  proof (cases u)
    case Nil
    then show ?thesis using t by (auto simp: prefix_match_def)
  next
    case (Cons x u')
    then have "tl tx = u' @ w @ v" "\<forall>x \<in> set u'. atom c x" using t by auto
    then have "prefix_match (Many c # ps, e) (tl tx)" using t(3,4) unfolding prefix_match_Many_iff by blast
    then show ?thesis using Cons t by auto
  qed
next
  assume "prefix_match (ps, e) tx \<or> tx \<noteq> [] \<and> atom c (hd tx) \<and> prefix_match (Many c # ps, e) (tl tx)"
  then show "prefix_match (Many c # ps, e) tx"
  proof
    assume "prefix_match (ps, e) tx"
    then obtain w v where "tx = [] @ w @ v" "w \<in> lang ps" "e \<longrightarrow> v = []" by (auto simp: prefix_match_def)
    then show ?thesis unfolding prefix_match_Many_iff by (metis empty_iff empty_set)
  next
    assume a: "tx \<noteq> [] \<and> atom c (hd tx) \<and> prefix_match (Many c # ps, e) (tl tx)"
    then obtain u w v where t: "tl tx = u @ w @ v" "\<forall>x \<in> set u. atom c x" "w \<in> lang ps" "e \<longrightarrow> v = []"
      unfolding prefix_match_Many_iff by blast
    have "tx = (hd tx # u) @ w @ v" using a t(1) by (metis append_Cons list.collapse)
    moreover have "\<forall>x \<in> set (hd tx # u). atom c x" using a t(2) by simp
    ultimately show ?thesis using t(3,4) unfolding prefix_match_Many_iff by blast
  qed
qed

lemma matchhere_matchstar:
  "matchhere re tx = prefix_match (parse_re re) tx"
  "matchstar c re tx = prefix_match (Many c # fst (parse_re re), snd (parse_re re)) tx"
proof (induction re tx and c re tx rule: matchhere_matchstar.induct)
  case (1 tx)
  then show ?case by (simp add: prefix_match_def)
next
  case (2 c re tx)
  show ?case
  proof (cases re)
    case Nil
    then show ?thesis
      using 2(2) by (auto simp: prefix_match_One prefix_match_def [of "([], e)" for e] atom_def)
  next
    case (Cons d re')
    obtain ps e where p: "parse_re re' = (ps, e)" by (cases "parse_re re'")
    obtain ps' e' where p': "parse_re (d # re') = (ps', e')" by (cases "parse_re (d # re')")
    show ?thesis
    proof (cases "d = STAR")
      case True
      then show ?thesis using 2(1) Cons p by simp
    next
      case False
      then show ?thesis using 2(2) Cons p' by (auto simp: prefix_match_One atom_def)
    qed
  qed
next
  case (3 c re tx)
  show ?case using 3 by (subst prefix_match_Many) (auto simp: atom_def)
qed

lemma match_any_iff: "match_any re tx \<longleftrightarrow> (\<exists>pre suf. tx = pre @ suf \<and> matchhere re suf)"
proof (induction re tx rule: match_any.induct)
  case (1 re tx)
  show ?case
  proof (cases tx)
    case Nil
    then show ?thesis by simp
  next
    case (Cons t ts)
    have "(\<exists>pre suf. tx = pre @ suf \<and> matchhere re suf) \<longleftrightarrow> matchhere re tx \<or> (\<exists>pre suf. ts = pre @ suf \<and> matchhere re suf)"
      unfolding Cons by (auto simp: Cons_eq_append_conv)
    then show ?thesis using 1 Cons by simp
  qed
qed

text \<open>C38. The recursive matcher decides the regular language of its pattern: \<^verbatim>\<open>match\<close> succeeds exactly when some
  part of the text is a word of the language, a part that starts at the beginning if the pattern
  starts with \<^verbatim>\<open>^\<close> and one that reaches the end if it ends with \<^verbatim>\<open>$\<close>.\<close>

theorem match_language:
  "match re tx \<longleftrightarrow>
     (\<exists>pre u v. tx = pre @ u @ v \<and> u \<in> lang (fst (parse_re (if take 1 re = [CARET] then tl re else re))) \<and>
        (take 1 re = [CARET] \<longrightarrow> pre = []) \<and> (snd (parse_re (if take 1 re = [CARET] then tl re else re)) \<longrightarrow> v = []))"
proof (cases "take 1 re = [CARET]")
  case True
  then show ?thesis by (auto simp: match_def matchhere_matchstar(1) prefix_match_def)
next
  case False
  then show ?thesis unfolding match_def match_any_iff by (auto simp: matchhere_matchstar(1) prefix_match_def)
qed

theorem match_language_witness:
  "match [98, 42, 99, 36] [97, 98, 98, 99] \<and>
   (\<exists>pre u. [97, 98, 98, 99] = pre @ u \<and> u \<in> lang [Many 98, One 99])"
proof -
  have m: "match [98, 42, 99, 36] [97, 98, 98, 99]" by (simp add: match_def)
  with match_language [of "[98, 42, 99, 36]" "[97, 98, 98, 99]"] show ?thesis by auto
qed

section \<open>Lines of the input\<close>

text \<open>
  \<^verbatim>\<open>strchr(p, '\n')\<close> on the rest of the buffer: the distance of the first newline, \<open>None\<close> if a zero byte
  comes first. The search runs off the buffer if there is neither.
\<close>

datatype grep_error = OffEnd | BeforeBuf

fun strchr_nl :: "u8 list \<Rightarrow> grep_error + nat option" where
  "strchr_nl [] = Inl OffEnd"
| "strchr_nl (c # cs) = (if c = 0 then Inr None else if c = 10 then Inr (Some 0)
     else map_sum id (map_option Suc) (strchr_nl cs))"

text \<open>The inner loop of \<^verbatim>\<open>grep\<close>; a line that matches is written out, the newline of any other one
  stays overwritten. Each step moves \<open>p\<close>, so the length of the buffer bounds their number.\<close>

primrec grep_lines :: "nat \<Rightarrow> u8 list \<Rightarrow> u8 list \<Rightarrow> nat \<Rightarrow> u8 list list \<Rightarrow> grep_error + (u8 list \<times> nat \<times> u8 list list)" where
  "grep_lines 0 re buf p out = Inr (buf, p, out)"
| "grep_lines (Suc fuel) re buf p out = (case strchr_nl (drop p buf) of
     Inl e \<Rightarrow> Inl e
   | Inr None \<Rightarrow> Inr (buf, p, out)
   | Inr (Some d) \<Rightarrow>
       (let line = take d (drop p buf) in
        if match re line then grep_lines fuel re buf (p + d + 1) (out @ [line @ [10]])
        else grep_lines fuel re (buf[p + d := 0]) (p + d + 1) out))"

text \<open>The outer loop; \<open>rs\<close> are the results of the calls of \<^verbatim>\<open>read\<close>, an empty one is the end of the file.
  \<open>m\<close> is the signed count of bytes kept from earlier reads. The result is the buffer, which is a global array, and the lines
  written.\<close>

primrec grep_loop :: "u8 list \<Rightarrow> u8 list list \<Rightarrow> int \<Rightarrow> u8 list \<Rightarrow> u8 list list \<Rightarrow> grep_error + (u8 list \<times> u8 list list)" where
  "grep_loop re [] m buf out = Inr (buf, out)"
| "grep_loop re (r # rs) m buf out =
    (if r = [] then Inr (buf, out) else if m < 0 then Inl BeforeBuf else
     (let m0 = nat m; buf1 = take m0 buf @ r @ drop (m0 + length r) buf; m1 = m0 + length r in
      case grep_lines (length buf + 1) re buf1 0 out of
        Inl e \<Rightarrow> Inl e
      | Inr (buf2, p, out') \<Rightarrow>
          (let m2 = (if p = 0 then 0 else int m1) in
           if m2 > 0 then
             (let m3 = m2 - int p in grep_loop re rs m3 (take (nat m3) (drop p buf2) @ drop (nat m3) buf2) out')
           else grep_loop re rs m2 buf2 out')))"

definition grep :: "u8 list \<Rightarrow> u8 list list \<Rightarrow> u8 list \<Rightarrow> grep_error + (u8 list \<times> u8 list list)" where
  "grep re rs buf = grep_loop re rs 0 buf []"

text \<open>The loop of \<^verbatim>\<open>main\<close> over the files, all of which can be opened; the buffer goes from one file to the next.\<close>

primrec grep_files :: "u8 list \<Rightarrow> u8 list list list \<Rightarrow> u8 list \<Rightarrow> grep_error + u8 list list" where
  "grep_files re [] buf = Inr []"
| "grep_files re (rs # rss) buf = (case grep re rs buf of
     Inl e \<Rightarrow> Inl e
   | Inr (buf', out) \<Rightarrow> map_sum id (\<lambda>out'. out @ out') (grep_files re rss buf'))"

text \<open>The lines of a text that end in a newline.\<close>

function complete_lines :: "u8 list \<Rightarrow> u8 list list" where
  "complete_lines xs = (case dropWhile (\<lambda>c. c \<noteq> 10) xs of [] \<Rightarrow> []
     | c # ys \<Rightarrow> takeWhile (\<lambda>c. c \<noteq> 10) xs # complete_lines ys)"
  by pat_completeness auto
termination
proof (relation "measure length")
  fix xs ys :: "u8 list" and c
  assume "dropWhile (\<lambda>c. c \<noteq> 10) xs = c # ys"
  then show "(ys, xs) \<in> measure length" using length_dropWhile_le [of "\<lambda>c. c \<noteq> 10" xs] by simp
qed simp

declare complete_lines.simps [simp del]

lemma at_newline:
  "10 \<notin> set xs \<Longrightarrow> dropWhile (\<lambda>c. c \<noteq> (10 :: u8)) (xs @ 10 # ys) = 10 # ys"
  "10 \<notin> set xs \<Longrightarrow> takeWhile (\<lambda>c. c \<noteq> (10 :: u8)) (xs @ 10 # ys) = xs"
  "10 \<notin> set xs \<Longrightarrow> dropWhile (\<lambda>c. c \<noteq> (10 :: u8)) xs = []"
  by (induction xs) auto

lemma complete_lines_nl: "10 \<notin> set xs \<Longrightarrow> complete_lines (xs @ 10 # ys) = xs # complete_lines ys"
  by (subst complete_lines.simps) (simp add: at_newline)

lemma complete_lines_none: "10 \<notin> set xs \<Longrightarrow> complete_lines xs = []"
  by (subst complete_lines.simps) (simp add: at_newline)

lemma strchr_nl_text:
  "0 \<notin> set xs \<Longrightarrow> 10 \<notin> set xs \<Longrightarrow> strchr_nl (xs @ 0 # zs) = Inr None"
  "0 \<notin> set xs \<Longrightarrow> 10 \<notin> set xs \<Longrightarrow> strchr_nl (xs @ 10 # zs) = Inr (Some (length xs))"
  by (induction xs) auto

lemma grep_lines_text:
  assumes "drop p buf = xs @ 0 # zs" "0 \<notin> set xs" "length xs < fuel"
  shows "\<exists>buf' p'. grep_lines fuel re buf p out = Inr (buf', p', out @ map (\<lambda>l. l @ [10]) (filter (match re) (complete_lines xs)))"
  using assms
proof (induction fuel arbitrary: p buf xs out)
  case (Suc fuel)
  show ?case
  proof (cases "10 \<in> set xs")
    case False
    then show ?thesis using strchr_nl_text(1) [OF Suc.prems(2) False, of zs] Suc.prems(1) by (simp add: complete_lines_none)
  next
    case True
    then obtain ys xs' where x: "xs = ys @ 10 # xs'" "10 \<notin> set ys" by (meson split_list_first)
    let ?p = "p + length ys + 1"
    have d: "strchr_nl (drop p buf) = Inr (Some (length ys))" "take (length ys) (drop p buf) = ys"
      using Suc.prems(1,2) x strchr_nl_text(2) [of ys] by simp_all
    have rest: "drop ?p buf = xs' @ 0 # zs"
      using arg_cong [OF Suc.prems(1), of "drop (length ys + 1)"] by (simp add: x add.commute add.left_commute)
    then have rest': "drop ?p (buf[p + length ys := 0]) = xs' @ 0 # zs" by simp
    have n: "0 \<notin> set xs'" "length xs' < fuel" using Suc.prems(2,3) x by simp_all
    show ?thesis
      using Suc.IH [OF rest n, of "out @ [ys @ [10]]"] Suc.IH [OF rest' n, of out] d
      by (auto simp: x(1) complete_lines_nl [OF x(2)] Let_def)
  qed
qed simp

text \<open>C40. What \<^verbatim>\<open>grep\<close> does with a file that one \<^verbatim>\<open>read\<close> brings in, shorter than the buffer and without zero bytes. It does not mark the end
  of what it has read: it writes the matching lines, in order, of the text that starts with the bytes of the file and goes on with what the buffer
  holds behind them, up to the first zero byte there. So it writes exactly the matching lines of the file if the rest of the buffer is zero, as
  it is for the first file; after a longer file it searches lines of that one again.\<close>

theorem grep_one_read:
  assumes "length buf = 1024" "r \<noteq> []" "0 \<notin> set r" "drop (length r) buf = old @ 0 # zs" "0 \<notin> set old"
  shows "\<exists>buf'. grep re [r, []] buf = Inr (buf', map (\<lambda>l. l @ [10]) (filter (match re) (complete_lines (r @ old))))"
proof -
  have "length r + length old < 1024" using arg_cong [OF assms(4), of length] assms(1) by simp
  then obtain buf' p' where "grep_lines 1025 re (r @ drop (length r) buf) 0 [] =
      Inr (buf', p', map (\<lambda>l. l @ [10]) (filter (match re) (complete_lines (r @ old))))"
    using grep_lines_text [of 0 "r @ drop (length r) buf" "r @ old" zs 1025 re "[]"] assms by auto
  then show ?thesis using assms(1,2) by (simp add: grep_def Let_def)
qed

theorem grep_one_read_witness:
  "(\<exists>buf'. grep [97] [[97, 98, 10, 99, 10], []] (replicate 1024 0) = Inr (buf', [[97, 98, 10]])) \<and>
   (\<exists>buf'. grep [97] [[122], []] ([97, 98, 10, 97, 10] @ replicate 1019 0) = Inr (buf', [[97, 10]]))"
proof
  have c: "complete_lines [97, 98, 10, 99, 10] = [[97, 98], [99]]" "complete_lines [122, 98, 10, 97, 10] = [[122, 98], [97]]"
    by (simp_all add: complete_lines.simps)
  have z: "replicate 1019 (0 :: u8) = 0 # replicate 1018 0" using replicate_Suc [of 1018 "0 :: u8"] by simp
  show "\<exists>buf'. grep [97] [[97, 98, 10, 99, 10], []] (replicate 1024 0) = Inr (buf', [[97, 98, 10]])"
    using grep_one_read [of "replicate 1024 0" "[97, 98, 10, 99, 10]" "[]" "replicate 1018 0" "[97]"] c z
    by (simp add: match_def)
  show "\<exists>buf'. grep [97] [[122], []] ([97, 98, 10, 97, 10] @ replicate 1019 0) = Inr (buf', [[97, 10]])"
    using grep_one_read [of "[97, 98, 10, 97, 10] @ replicate 1019 0" "[122]" "[98, 10, 97, 10]" "replicate 1018 0" "[97]"] c z
    by (simp add: match_def)
qed

end
