(* ===== verification/Sh.thy ===== *)
theory Sh
  imports Prelude "HOL-Library.Sublist"
begin

text \<open>
  The shell (\<^verbatim>\<open>user/sh.c\<close>): the parser of command lines and what a parsed command does. A \<^verbatim>\<open>char*\<close> into
  the line is the part of the line from there on, without the terminating zero; the parsing position
  \<^verbatim>\<open>*ps\<close> is the state of the parser. A token is the pair of pointers \<^verbatim>\<open>q\<close> and \<^verbatim>\<open>eq\<close> to its start and
  its end. \<^verbatim>\<open>malloc\<close> does not fail in this model. The outcome \<open>Spin\<close> stands for a parser that runs out
  of its step count; \<open>parsecmd\<close> gives it enough.
\<close>

section \<open>Commands\<close>

type_synonym cptr = "u8 list"
type_synonym token = "cptr \<times> cptr"

datatype 'w cmd =
    Exec "'w list"
  | Redir "'w cmd" 'w nat nat
  | Pipe "'w cmd" "'w cmd"
  | List "'w cmd" "'w cmd"
  | Back "'w cmd"

definition MAXARGS :: nat where [simp]: "MAXARGS = 10"
definition O_RDONLY :: nat where [simp]: "O_RDONLY = 0"
definition O_WRONLY :: nat where [simp]: "O_WRONLY = 1"
definition O_RDWR :: nat where [simp]: "O_RDWR = 2"
definition O_CREATE :: nat where [simp]: "O_CREATE = 0x200"

definition execcmd :: "'w cmd" where "execcmd = Exec []"
definition redircmd :: "'w cmd \<Rightarrow> 'w \<Rightarrow> nat \<Rightarrow> nat \<Rightarrow> 'w cmd" where "redircmd subcmd file mode fd = Redir subcmd file mode fd"
definition pipecmd :: "'w cmd \<Rightarrow> 'w cmd \<Rightarrow> 'w cmd" where "pipecmd left right = Pipe left right"
definition listcmd :: "'w cmd \<Rightarrow> 'w cmd \<Rightarrow> 'w cmd" where "listcmd left right = List left right"
definition backcmd :: "'w cmd \<Rightarrow> 'w cmd" where "backcmd subcmd = Back subcmd"

lemmas cmd_defs = execcmd_def redircmd_def pipecmd_def listcmd_def backcmd_def

text \<open>The argument \<^verbatim>\<open>parseexec\<close> stores in the \<^verbatim>\<open>execcmd\<close> it started with, below the redirections around it.\<close>

fun add_arg :: "'w cmd \<Rightarrow> 'w \<Rightarrow> 'w cmd" where
  "add_arg (Exec ws) w = Exec (ws @ [w])"
| "add_arg (Redir c f m fd) w = Redir (add_arg c w) f m fd"
| "add_arg c w = c"

section \<open>Tokens\<close>

text \<open>\<^verbatim>\<open>" \t\r\n\v"\<close> and \<^verbatim>\<open>"<|>&;()"\<close>.\<close>

definition whitespace :: "u8 list" where "whitespace = [32, 9, 13, 10, 11]"
definition symbols :: "u8 list" where "symbols = [60, 124, 62, 38, 59, 40, 41]"

definition wordchar :: "u8 \<Rightarrow> bool" where
  "wordchar c \<longleftrightarrow> c \<notin> set whitespace \<and> c \<notin> set symbols"

definition skip_ws :: "cptr \<Rightarrow> cptr" where
  "skip_ws s = dropWhile (\<lambda>c. c \<in> set whitespace) s"

text \<open>The kind of the token, its two ends and the rest of the line. The kind is the symbol itself, \<^verbatim>\<open>'+'\<close> for
  \<^verbatim>\<open>>>\<close>, \<^verbatim>\<open>'a'\<close> for a word and 0 at the end.\<close>

definition gettoken :: "(cptr, u8 \<times> token) prog" where
  "gettoken = (\<lambda>s. let q = skip_ws s in
     case q of
       [] \<Rightarrow> Ret (0, q, q) (skip_ws q)
     | c # r \<Rightarrow>
         if c \<in> {124, 40, 41, 59, 38, 60} then Ret (c, q, r) (skip_ws r)
         else if c = 62 then
           (if take 1 r = [62] then Ret (43, q, tl r) (skip_ws (tl r)) else Ret (c, q, r) (skip_ws r))
         else let eq = dropWhile wordchar q in Ret (97, q, eq) (skip_ws eq))"

definition peek :: "u8 list \<Rightarrow> (cptr, bool) prog" where
  "peek toks = (\<lambda>s. let s' = skip_ws s in Ret (s' \<noteq> [] \<and> hd s' \<in> set toks) s')"

section \<open>The parser\<close>

primrec parseredirs :: "nat \<Rightarrow> token cmd \<Rightarrow> (cptr, token cmd) prog" where
  "parseredirs 0 cmd = spin"
| "parseredirs (Suc n) cmd = bindP (peek [60, 62]) (\<lambda>b.
     if b then
       bindP gettoken (\<lambda>(tok, _).
       bindP gettoken (\<lambda>(t, q).
       if t \<noteq> 97 then panic ''missing file for redirection'' else
       parseredirs n
         (if tok = 60 then redircmd cmd q O_RDONLY 0
          else if tok = 62 then redircmd cmd q (O_WRONLY + O_CREATE) 1
          else redircmd cmd q (O_WRONLY + O_CREATE) 1)))
     else ret cmd)"

text \<open>The loop of \<^verbatim>\<open>parseexec\<close> over the arguments, and the loop of \<^verbatim>\<open>parseline\<close> over \<^verbatim>\<open>&\<close>.\<close>

primrec parseargs :: "nat \<Rightarrow> token cmd \<Rightarrow> nat \<Rightarrow> (cptr, token cmd) prog" where
  "parseargs 0 r argc = spin"
| "parseargs (Suc n) r argc = bindP (peek [124, 41, 38, 59]) (\<lambda>b.
     if b then ret r else
     bindP gettoken (\<lambda>(tok, q).
     if tok = 0 then ret r
     else if tok \<noteq> 97 then panic ''syntax''
     else if argc + 1 \<ge> MAXARGS then panic ''too many args''
     else bindP (parseredirs n (add_arg r q)) (\<lambda>r. parseargs n r (argc + 1))))"

primrec parseback :: "nat \<Rightarrow> token cmd \<Rightarrow> (cptr, token cmd) prog" where
  "parseback 0 cmd = spin"
| "parseback (Suc n) cmd = bindP (peek [38]) (\<lambda>b.
     if b then thenP gettoken (parseback n (backcmd cmd)) else ret cmd)"

fun parseline :: "nat \<Rightarrow> (cptr, token cmd) prog"
  and parsepipe :: "nat \<Rightarrow> (cptr, token cmd) prog"
  and parseblock :: "nat \<Rightarrow> (cptr, token cmd) prog"
  and parseexec :: "nat \<Rightarrow> (cptr, token cmd) prog" where
  "parseline 0 = spin"
| "parseline (Suc n) = bindP (parsepipe n) (\<lambda>cmd.
     bindP (parseback n cmd) (\<lambda>cmd.
     bindP (peek [59]) (\<lambda>b.
     if b then thenP gettoken (bindP (parseline n) (\<lambda>r. ret (listcmd cmd r))) else ret cmd)))"
| "parsepipe 0 = spin"
| "parsepipe (Suc n) = bindP (parseexec n) (\<lambda>cmd.
     bindP (peek [124]) (\<lambda>b.
     if b then thenP gettoken (bindP (parsepipe n) (\<lambda>r. ret (pipecmd cmd r))) else ret cmd))"
| "parseblock 0 = spin"
| "parseblock (Suc n) = bindP (peek [40]) (\<lambda>b.
     if \<not> b then panic ''parseblock'' else
     thenP gettoken
    (bindP (parseline n) (\<lambda>cmd.
     bindP (peek [41]) (\<lambda>b.
     if \<not> b then panic ''syntax - missing )'' else
     thenP gettoken (parseredirs n cmd)))))"
| "parseexec 0 = spin"
| "parseexec (Suc n) = bindP (peek [40]) (\<lambda>b.
     if b then parseblock n else
     bindP (parseredirs n execcmd) (\<lambda>r. parseargs n r 0))"

text \<open>\<^verbatim>\<open>nulterminate\<close>: zero bytes in the line (with its own zero at the end) at the ends of the tokens.\<close>

definition put_nul :: "token \<Rightarrow> u8 list \<Rightarrow> u8 list" where
  "put_nul t buf = buf[length buf - 1 - length (snd t) := 0]"

fun nulterminate :: "token cmd \<Rightarrow> u8 list \<Rightarrow> u8 list" where
  "nulterminate (Exec ws) buf = fold put_nul ws buf"
| "nulterminate (Redir c f m fd) buf = put_nul f (nulterminate c buf)"
| "nulterminate (Pipe l r) buf = nulterminate r (nulterminate l buf)"
| "nulterminate (List l r) buf = nulterminate r (nulterminate l buf)"
| "nulterminate (Back c) buf = nulterminate c buf"

text \<open>The command and the line as \<^verbatim>\<open>nulterminate\<close> leaves it.\<close>

definition parse_fuel :: "cptr \<Rightarrow> nat" where
  "parse_fuel s = 4 * length s + 5"

definition parsecmd :: "cptr \<Rightarrow> (cptr, token cmd \<times> u8 list) prog" where
  "parsecmd line = thenP (modify (\<lambda>_. line))
    (bindP (parseline (parse_fuel line)) (\<lambda>cmd.
     thenP (peek [])
    (bindP (reads (\<lambda>s. s)) (\<lambda>s.
     if s \<noteq> [] then panic ''syntax'' else ret (cmd, nulterminate cmd (line @ [0]))))))"

text \<open>The C string at a position of a buffer.\<close>

definition cstring_at :: "u8 list \<Rightarrow> nat \<Rightarrow> u8 list" where
  "cstring_at buf i = takeWhile (\<lambda>c. c \<noteq> 0) (drop i buf)"

definition token_text :: "token \<Rightarrow> u8 list" where
  "token_text t = take (length (fst t) - length (snd t)) (fst t)"
section \<open>The parser ends\<close>

text \<open>\<open>fine P o\<close>: the outcome is a result with \<open>P\<close> or a panic, and neither a fault nor an endless loop.\<close>

definition fine :: "('a \<Rightarrow> 's \<Rightarrow> bool) \<Rightarrow> ('a, 's) outcome \<Rightarrow> bool" where
  "fine P oc = (case oc of Ret v t \<Rightarrow> P v t | Panic _ \<Rightarrow> True | _ \<Rightarrow> False)"

lemma fine_simps [simp]: "fine P (Ret v t) = P v t" "fine P (Panic msg)" "\<not> fine P (Fault x)" "\<not> fine P (Switch t)" "\<not> fine P (Spin t)"
  by (simp_all add: fine_def)

lemma fine_bindP: "fine P (bindP m f s) = fine (\<lambda>v t. fine P (f v t)) (m s)"
  by (auto simp: fine_def split: outcome.splits)

lemma fine_thenP: "fine P (thenP m n s) = fine (\<lambda>v t. fine P (n t)) (m s)"
  by (auto simp: fine_def split: outcome.splits)

lemma fine_mono: "fine P oc \<Longrightarrow> (\<And>v t. P v t \<Longrightarrow> Q v t) \<Longrightarrow> fine Q oc"
  by (auto simp: fine_def split: outcome.splits)

definition token_ok :: "cptr \<Rightarrow> token \<Rightarrow> bool" where
  "token_ok line t \<longleftrightarrow> suffix (fst t) line \<and> (\<exists>w. fst t = w @ snd t \<and> w \<noteq> [] \<and> (\<forall>c \<in> set w. wordchar c)) \<and>
     (snd t = [] \<or> \<not> wordchar (hd (snd t)))"

lemma skip_ws_suffix: "suffix (skip_ws s) s"
  unfolding skip_ws_def by (rule suffix_dropWhile)

lemma skip_ws_length: "length (skip_ws s) \<le> length s"
  using skip_ws_suffix by (rule suffix_length_le)

lemma skip_ws_idem [simp]: "skip_ws (skip_ws s) = skip_ws s"
  unfolding skip_ws_def by (induction s) simp_all

lemma skip_ws_Nil [simp]: "skip_ws [] = []"
  by (simp add: skip_ws_def)

lemma skip_ws_hd: "skip_ws s \<noteq> [] \<Longrightarrow> hd (skip_ws s) \<notin> set whitespace"
  unfolding skip_ws_def by (rule hd_dropWhile)

lemma suffix_Cons': "suffix (c # r) s \<Longrightarrow> suffix r s"
  by (meson suffix_ConsD)

text \<open>A token takes at least one byte, unless the line is at its end; a word is delimited on both sides.\<close>

lemma gettoken_fine:
  "fine (\<lambda>(tok, q) s'. suffix s' s \<and> (skip_ws s \<noteq> [] \<longrightarrow> length s' < length s) \<and> (skip_ws s = [] \<longrightarrow> tok = 0) \<and>
     (tok = 97 \<longrightarrow> token_ok s q)) (gettoken s)"
proof (cases "skip_ws s")
  case Nil
  then show ?thesis by (simp add: gettoken_def)
next
  case (Cons c r)
  have q: "suffix (c # r) s" using skip_ws_suffix [of s] Cons by simp
  have r: "suffix r s" and lr: "length r < length s" using q suffix_ConsD suffix_length_le [OF q] by auto
  have sk: "suffix (skip_ws x) s \<and> length (skip_ws x) < length s" if "suffix x r" for x
  proof -
    have "suffix (skip_ws x) r" using skip_ws_suffix that by (rule suffix_order.trans)
    then show ?thesis using r lr suffix_length_le suffix_order.trans by fastforce
  qed
  have tl: "suffix (tl r) r" by (rule suffix_tl)
  show ?thesis
  proof (cases "c \<in> {124, 40, 41, 59, 38, 60} \<or> c = 62")
    case True
    then show ?thesis using Cons sk [of r] sk [OF tl] by (auto simp: gettoken_def Let_def)
  next
    case False
    let ?e = "dropWhile wordchar (c # r)"
    have "c \<notin> set whitespace" using skip_ws_hd [of s] Cons by simp
    then have wc: "wordchar c" using False by (auto simp: wordchar_def symbols_def)
    then have e: "?e = dropWhile wordchar r" by simp
    have se: "suffix ?e r" unfolding e by (rule suffix_dropWhile)
    have "token_ok s (c # r, ?e)" unfolding token_ok_def fst_conv snd_conv
    proof (intro conjI exI)
      show "suffix (c # r) s" by (rule q)
      show "c # r = takeWhile wordchar (c # r) @ ?e" by simp
      show "takeWhile wordchar (c # r) \<noteq> []" using wc by simp
      show "\<forall>c \<in> set (takeWhile wordchar (c # r)). wordchar c" by (meson set_takeWhileD)
      show "?e = [] \<or> \<not> wordchar (hd ?e)" using hd_dropWhile by blast
    qed
    then show ?thesis using Cons False sk [OF se] by (auto simp: gettoken_def Let_def)
  qed
qed

lemma peek_fine: "fine (\<lambda>b s'. s' = skip_ws s \<and> (b \<longrightarrow> s' \<noteq> [])) (peek toks s)"
  by (simp add: peek_def Let_def)

lemma token_ok_suffix: "token_ok s t \<Longrightarrow> suffix s line \<Longrightarrow> token_ok line t"
  unfolding token_ok_def by (meson suffix_order.trans)

text \<open>The postcondition of all parsing routines on the position \<open>s\<close> of the line \<open>line\<close>.\<close>

definition parsed :: "cptr \<Rightarrow> cptr \<Rightarrow> token cmd \<Rightarrow> cptr \<Rightarrow> bool" where
  "parsed line s c s' \<longleftrightarrow> suffix s' s \<and> (\<forall>t \<in> set_cmd c. token_ok line t)"

lemma fine_parsed: "fine (parsed line s') oc \<Longrightarrow> suffix s' s \<Longrightarrow> fine (parsed line s) oc"
  by (erule fine_mono) (auto simp: parsed_def intro: suffix_order.trans)

lemma set_add_arg: "set_cmd (add_arg c w) \<subseteq> insert w (set_cmd c)"
  by (induction c) auto

lemma parseredirs_fine:
  assumes "length s < n" and "suffix s line" and "\<forall>t \<in> set_cmd c. token_ok line t"
  shows "fine (parsed line s) (parseredirs n c s)"
  using assms
proof (induction n arbitrary: s c)
  case (Suc n)
  note sk = skip_ws_suffix [of s]
  show ?case
    unfolding parseredirs.simps fine_bindP
  proof (rule fine_mono [OF peek_fine], goal_cases)
    case (1 b s1)
    show ?case
    proof (cases b)
      case False
      then show ?thesis using 1 Suc.prems(3) sk by (simp add: parsed_def)
    next
      case True
      have s1: "s1 = skip_ws s" "skip_ws s1 \<noteq> []" using 1 True by auto
      show ?thesis unfolding if_P [OF True] fine_bindP
      proof (rule fine_mono [OF gettoken_fine], goal_cases)
        case (1 v s2)
        obtain tok q1 where v: "v = (tok, q1)" by (cases v)
        have s2: "suffix s2 s1" "length s2 < length s1" using 1 s1(2) v by auto
        show ?case unfolding v prod.case fine_bindP
        proof (rule fine_mono [OF gettoken_fine], goal_cases)
          case (1 v' s3)
          obtain t q where v': "v' = (t, q)" by (cases v')
          have s3: "suffix s3 s2" "t = 97 \<longrightarrow> token_ok s2 q" using 1 v' by auto
          have suf: "suffix s3 s" "suffix s2 s" using s3 s2 s1 sk by (auto intro: suffix_order.trans)
          have tq: "t = 97 \<Longrightarrow> token_ok line q" using s3(2) suf(2) Suc.prems(2) by (meson token_ok_suffix suffix_order.trans)
          have len: "length s3 < n" using s2(2) Suc.prems(1) suffix_length_le [OF s3(1)] s1(1) skip_ws_length [of s] by simp
          have sl: "suffix s3 line" using suf(1) Suc.prems(2) by (rule suffix_order.trans)
          have "fine (parsed line s) (parseredirs n (redircmd c q m fd) s3)" if "t = 97" for m fd
            by (rule fine_parsed [OF Suc.IH [OF len sl] suf(1)]) (use that tq Suc.prems(3) in \<open>auto simp: redircmd_def\<close>)
          then show ?case by (simp add: v' split del: if_split) (simp split: if_split)
        qed
      qed
    qed
  qed
qed simp
text \<open>Stepping over \<^verbatim>\<open>peek\<close> and \<^verbatim>\<open>gettoken\<close>.\<close>

lemma fine_peek: "(\<And>b. (b \<Longrightarrow> skip_ws s \<noteq> []) \<Longrightarrow> fine P (f b (skip_ws s))) \<Longrightarrow> fine P (bindP (peek toks) f s)"
  unfolding fine_bindP by (rule fine_mono [OF peek_fine]) auto

lemma fine_gettoken:
  assumes "\<And>tok q s'. suffix s' s \<Longrightarrow> (skip_ws s \<noteq> [] \<Longrightarrow> length s' < length s) \<Longrightarrow> (skip_ws s = [] \<Longrightarrow> tok = 0) \<Longrightarrow>
    (tok = 97 \<Longrightarrow> token_ok s q) \<Longrightarrow> fine P (f (tok, q) s')"
  shows "fine P (bindP gettoken f s)"
  unfolding fine_bindP by (rule fine_mono [OF gettoken_fine]) (use assms in auto)

lemma fine_gettoken': "(\<And>s'. suffix s' s \<Longrightarrow> (skip_ws s \<noteq> [] \<Longrightarrow> length s' < length s) \<Longrightarrow> fine P (m s')) \<Longrightarrow> fine P (thenP gettoken m s)"
  unfolding thenP_def by (rule fine_gettoken) blast

lemma fine_bindI:
  assumes "fine (parsed line s) (m s)" and "\<And>c s'. suffix s' s \<Longrightarrow> \<forall>t \<in> set_cmd c. token_ok line t \<Longrightarrow> fine P (f c s')"
  shows "fine P (bindP m f s)"
  unfolding fine_bindP by (rule fine_mono [OF assms(1)]) (use assms(2) in \<open>auto simp: parsed_def\<close>)

lemma parseargs_fine:
  assumes "length s < n" and "suffix s line" and "\<forall>t \<in> set_cmd c. token_ok line t"
  shows "fine (parsed line s) (parseargs n c argc s)"
  using assms
proof (induction n arbitrary: s c argc)
  case (Suc n)
  let ?s = "skip_ws s"
  have sl: "suffix ?s line" using skip_ws_suffix [of s] Suc.prems(2) by (rule suffix_order.trans)
  show ?case unfolding parseargs.simps
  proof (rule fine_peek)
    fix b
    show "fine (parsed line s) ((if b then ret c else
     bindP gettoken (\<lambda>(tok, q).
     if tok = 0 then ret c else if tok \<noteq> 97 then panic ''syntax'' else if argc + 1 \<ge> MAXARGS then panic ''too many args''
     else bindP (parseredirs n (add_arg c q)) (\<lambda>r. parseargs n r (argc + 1)))) ?s)"
    proof (cases b)
      case True
      then show ?thesis using Suc.prems(3) skip_ws_suffix by (simp add: parsed_def)
    next
      case False
      show ?thesis unfolding if_not_P [OF False]
      proof (rule fine_gettoken, unfold prod.case)
        fix tok :: u8 and q s'
        assume s': "suffix s' ?s" "skip_ws ?s \<noteq> [] \<Longrightarrow> length s' < length ?s" "skip_ws ?s = [] \<Longrightarrow> tok = 0" "tok = 97 \<Longrightarrow> token_ok ?s q"
        have ss: "suffix s' s" using s'(1) skip_ws_suffix by (rule suffix_order.trans)
        have s'l: "suffix s' line" using s'(1) sl by (rule suffix_order.trans)
        have "fine (parsed line s) (bindP (parseredirs n (add_arg c q)) (\<lambda>r. parseargs n r (argc + 1)) s')" if t: "tok = 97"
        proof -
          have len: "length s' < n" using s'(2,3) t Suc.prems(1) skip_ws_length [of s] by (cases "skip_ws ?s = []") auto
          have tok: "\<forall>t \<in> set_cmd (add_arg c q). token_ok line t"
            using set_add_arg [of c q] Suc.prems(3) token_ok_suffix [OF s'(4) [OF t] sl] by auto
          show ?thesis
          proof (rule fine_bindI [where m = "parseredirs n (add_arg c q)", OF parseredirs_fine [OF len s'l tok]])
            fix r s'' assume r: "suffix s'' s'" "\<forall>t \<in> set_cmd r. token_ok line t"
            have l: "length s'' < n" using suffix_length_le [OF r(1)] len by simp
            have x: "suffix s'' line" "suffix s'' s" using r(1) s'l ss by (auto intro: suffix_order.trans)
            show "fine (parsed line s) (parseargs n r (argc + 1) s'')"
              by (rule fine_parsed [OF Suc.IH [OF l x(1) r(2)] x(2)])
          qed
        qed
        then show "fine (parsed line s) ((if tok = 0 then ret c else if tok \<noteq> 97 then panic ''syntax''
          else if argc + 1 \<ge> MAXARGS then panic ''too many args''
          else bindP (parseredirs n (add_arg c q)) (\<lambda>r. parseargs n r (argc + 1))) s')"
          using Suc.prems(3) ss by (simp add: parsed_def)
      qed
    qed
  qed
qed simp

lemma parseback_fine:
  assumes "length s < n" and "\<forall>t \<in> set_cmd c. token_ok line t"
  shows "fine (parsed line s) (parseback n c s)"
  using assms
proof (induction n arbitrary: s c)
  case (Suc n)
  let ?s = "skip_ws s"
  show ?case unfolding parseback.simps
  proof (rule fine_peek)
    fix b assume b: "b \<Longrightarrow> ?s \<noteq> []"
    show "fine (parsed line s) ((if b then thenP gettoken (parseback n (backcmd c)) else ret c) ?s)"
    proof (cases b)
      case True
      show ?thesis unfolding if_P [OF True]
      proof (rule fine_gettoken')
        fix s' assume s': "suffix s' ?s" "skip_ws ?s \<noteq> [] \<Longrightarrow> length s' < length ?s"
        have l: "length s' < n" using s'(2) b True Suc.prems(1) skip_ws_length [of s] by auto
        have ss: "suffix s' s" using s'(1) skip_ws_suffix by (rule suffix_order.trans)
        show "fine (parsed line s) (parseback n (backcmd c) s')"
          by (rule fine_parsed [OF Suc.IH [OF l] ss]) (use Suc.prems(2) in \<open>simp add: backcmd_def\<close>)
      qed
    next
      case False
      then show ?thesis using Suc.prems(2) skip_ws_suffix by (simp add: parsed_def)
    qed
  qed
qed simp

text \<open>A binary operator: the operator is taken off the line and the right side parsed.\<close>

lemma fine_operator:
  assumes b: "b \<Longrightarrow> skip_ws s \<noteq> []" and c: "\<forall>t \<in> set_cmd c. token_ok line t" and s: "suffix s line"
    and m: "\<And>s'. suffix s' line \<Longrightarrow> length s' < length s \<Longrightarrow> fine (parsed line s') (m s')"
    and f: "\<And>d. set_cmd (f d) = set_cmd c \<union> set_cmd d"
  shows "fine (parsed line s) ((if b then thenP gettoken (bindP m (\<lambda>r. ret (f r))) else ret c) (skip_ws s))"
proof (cases b)
  case True
  show ?thesis unfolding if_P [OF True]
  proof (rule fine_gettoken')
    fix s' assume s': "suffix s' (skip_ws s)" "skip_ws (skip_ws s) \<noteq> [] \<Longrightarrow> length s' < length (skip_ws s)"
    have ss: "suffix s' s" using s'(1) skip_ws_suffix by (rule suffix_order.trans)
    have l: "length s' < length s" using s'(2) b True skip_ws_length [of s] by auto
    show "fine (parsed line s) (bindP m (\<lambda>r. ret (f r)) s')"
    proof (rule fine_bindI [where m = m, OF m [OF suffix_order.trans [OF ss s] l]])
      fix r s'' assume "suffix s'' s'" "\<forall>t \<in> set_cmd r. token_ok line t"
      then show "fine (parsed line s) (ret (f r) s'')" using c f ss by (auto simp: parsed_def intro: suffix_order.trans)
    qed
  qed
next
  case False
  then show ?thesis using c skip_ws_suffix by (simp add: parsed_def)
qed

lemma parse_fine:
  "suffix s line \<Longrightarrow> 4 * length s + 4 \<le> n \<Longrightarrow> fine (parsed line s) (parseline n s)"
  "suffix s line \<Longrightarrow> 4 * length s + 3 \<le> n \<Longrightarrow> fine (parsed line s) (parsepipe n s)"
  "suffix s line \<Longrightarrow> 4 * length s + 1 \<le> n \<Longrightarrow> fine (parsed line s) (parseblock n s)"
  "suffix s line \<Longrightarrow> 4 * length s + 2 \<le> n \<Longrightarrow> fine (parsed line s) (parseexec n s)"
proof (induction n arbitrary: s)
  case (Suc n)
  {
    case 1
    show ?case unfolding parseline.simps
    proof (rule fine_bindI [where m = "parsepipe n", OF Suc.IH(2)])
      show "suffix s line" "4 * length s + 3 \<le> n" using 1 by simp_all
      fix c s1 assume c: "suffix s1 s" "\<forall>t \<in> set_cmd c. token_ok line t"
      have l1: "length s1 \<le> length s" using c(1) by (rule suffix_length_le)
      show "fine (parsed line s) (bindP (parseback n c) (\<lambda>cmd. bindP (peek [59]) (\<lambda>b.
        if b then thenP gettoken (bindP (parseline n) (\<lambda>r. ret (listcmd cmd r))) else ret cmd)) s1)"
      proof (rule fine_bindI [where m = "parseback n c", OF parseback_fine [OF _ c(2)]])
        show "length s1 < n" using l1 1 by simp
        fix d s2 assume d: "suffix s2 s1" "\<forall>t \<in> set_cmd d. token_ok line t"
        have s2: "suffix s2 s" "suffix s2 line" using d(1) c(1) 1(1) by (auto intro: suffix_order.trans)
        have l2: "length s2 \<le> length s" using s2(1) by (rule suffix_length_le)
        show "fine (parsed line s) (bindP (peek [59]) (\<lambda>b.
          if b then thenP gettoken (bindP (parseline n) (\<lambda>r. ret (listcmd d r))) else ret d) s2)"
        proof (rule fine_peek, rule fine_parsed [OF fine_operator s2(1)])
          fix s' assume "suffix s' line" "length s' < length s2"
          then show "fine (parsed line s') (parseline n s')" using l2 1 by (intro Suc.IH(1)) simp_all
        qed (use d(2) s2(2) in \<open>auto simp: listcmd_def\<close>)
      qed
    qed
  next
    case 2
    show ?case unfolding parsepipe.simps
    proof (rule fine_bindI [where m = "parseexec n", OF Suc.IH(4)])
      show "suffix s line" "4 * length s + 2 \<le> n" using 2 by simp_all
      fix c s1 assume c: "suffix s1 s" "\<forall>t \<in> set_cmd c. token_ok line t"
      have l1: "length s1 \<le> length s" using c(1) by (rule suffix_length_le)
      show "fine (parsed line s) (bindP (peek [124]) (\<lambda>b.
          if b then thenP gettoken (bindP (parsepipe n) (\<lambda>r. ret (pipecmd c r))) else ret c) s1)"
      proof (rule fine_peek, rule fine_parsed [OF fine_operator c(1)])
        fix s' assume "suffix s' line" "length s' < length s1"
        then show "fine (parsed line s') (parsepipe n s')" using l1 2 by (intro Suc.IH(2)) simp_all
      qed (use c 2(1) in \<open>auto simp: pipecmd_def intro: suffix_order.trans\<close>)
    qed
  next
    case 3
    show ?case unfolding parseblock.simps
    proof (rule fine_peek)
      fix b assume b: "b \<Longrightarrow> skip_ws s \<noteq> []"
      show "fine (parsed line s) ((if \<not> b then panic ''parseblock'' else thenP gettoken (bindP (parseline n) (\<lambda>cmd.
         bindP (peek [41]) (\<lambda>b. if \<not> b then panic ''syntax - missing )'' else thenP gettoken (parseredirs n cmd))))) (skip_ws s))"
      proof (cases b)
        case True
        show ?thesis unfolding if_not_P [OF not_not [THEN iffD2, OF True]]
        proof (rule fine_gettoken')
          fix s1 assume s1: "suffix s1 (skip_ws s)" "skip_ws (skip_ws s) \<noteq> [] \<Longrightarrow> length s1 < length (skip_ws s)"
          have ss: "suffix s1 s" using s1(1) skip_ws_suffix by (rule suffix_order.trans)
          have sl: "suffix s1 line" using ss 3(1) by (rule suffix_order.trans)
          have l1: "length s1 < length s" using s1(2) b True skip_ws_length [of s] by auto
          show "fine (parsed line s) (bindP (parseline n) (\<lambda>cmd. bindP (peek [41]) (\<lambda>b.
             if \<not> b then panic ''syntax - missing )'' else thenP gettoken (parseredirs n cmd))) s1)"
          proof (rule fine_bindI [where m = "parseline n", OF Suc.IH(1) [OF sl]])
            show "4 * length s1 + 4 \<le> n" using l1 3 by simp
            fix c s2 assume c: "suffix s2 s1" "\<forall>t \<in> set_cmd c. token_ok line t"
            show "fine (parsed line s) (bindP (peek [41]) (\<lambda>b.
               if \<not> b then panic ''syntax - missing )'' else thenP gettoken (parseredirs n c)) s2)"
            proof (rule fine_peek)
              fix b'
              have "fine (parsed line s) (thenP gettoken (parseredirs n c) (skip_ws s2))"
              proof (rule fine_gettoken')
                fix s3 assume "suffix s3 (skip_ws s2)"
                then have s3: "suffix s3 s1" using c(1) skip_ws_suffix by (meson suffix_order.trans)
                have l3: "length s3 < n" using suffix_length_le [OF s3] l1 3 by simp
                show "fine (parsed line s) (parseredirs n c s3)"
                  by (rule fine_parsed [OF parseredirs_fine [OF l3 suffix_order.trans [OF s3 sl] c(2)] suffix_order.trans [OF s3 ss]])
              qed
              then show "fine (parsed line s) ((if \<not> b' then panic ''syntax - missing )'' else thenP gettoken (parseredirs n c)) (skip_ws s2))"
                by (cases b') simp_all
            qed
          qed
        qed
      qed simp
    qed
  next
    case 4
    let ?s = "skip_ws s"
    have sl: "suffix ?s line" using skip_ws_suffix 4(1) by (rule suffix_order.trans)
    have l: "length ?s \<le> length s" by (rule skip_ws_length)
    show ?case unfolding parseexec.simps
    proof (rule fine_peek)
      fix b
      have "fine (parsed line s) (parseblock n ?s)"
        by (rule fine_parsed [OF Suc.IH(3) [OF sl] skip_ws_suffix]) (use 4 l in simp)
      moreover have "fine (parsed line s) (bindP (parseredirs n execcmd) (\<lambda>r. parseargs n r 0) ?s)"
      proof (rule fine_bindI [where m = "parseredirs n execcmd", OF parseredirs_fine [OF _ sl]])
        show "length ?s < n" using l 4 by simp
        fix c s' assume c: "suffix s' ?s" "\<forall>t \<in> set_cmd c. token_ok line t"
        have l': "length s' < n" using suffix_length_le [OF c(1)] l 4 by simp
        show "fine (parsed line s) (parseargs n c 0 s')"
          by (rule fine_parsed [OF parseargs_fine [OF l' suffix_order.trans [OF c(1) sl] c(2)] suffix_order.trans [OF c(1) skip_ws_suffix]])
      qed (simp add: execcmd_def)
      ultimately show "fine (parsed line s) ((if b then parseblock n else bindP (parseredirs n execcmd) (\<lambda>r. parseargs n r 0)) ?s)"
        by (cases b) simp_all
    qed
  }
qed simp_all
section \<open>The strings of a command\<close>

lemma length_put_nul [simp]: "length (put_nul t buf) = length buf"
  by (simp add: put_nul_def)

definition nul_pos :: "nat \<Rightarrow> token \<Rightarrow> nat" where
  "nul_pos n t = n - 1 - length (snd t)"

lemma put_nul_nth: "i < length buf \<Longrightarrow> put_nul t buf ! i = (if i = nul_pos (length buf) t then 0 else buf ! i)"
  by (simp add: put_nul_def nul_pos_def nth_list_update)

lemma fold_put_nul:
  "length (fold put_nul ts buf) = length buf \<and>
   (\<forall>i < length buf. fold put_nul ts buf ! i = (if \<exists>t \<in> set ts. i = nul_pos (length buf) t then 0 else buf ! i))"
  by (induction ts arbitrary: buf) (auto simp: put_nul_nth)

lemma nulterminate_nth:
  "length (nulterminate c buf) = length buf \<and>
   (\<forall>i < length buf. nulterminate c buf ! i = (if \<exists>t \<in> set_cmd c. i = nul_pos (length buf) t then 0 else buf ! i))"
  by (induction c arbitrary: buf) (auto simp: put_nul_nth fold_put_nul)

lemma suffix_nth: "suffix r line \<Longrightarrow> j < length r \<Longrightarrow> line ! (length line - length r + j) = r ! j"
  by (auto simp: suffix_def nth_append)

lemma takeWhile_eqI:
  assumes "n < length xs" "\<And>j. j < n \<Longrightarrow> P (xs ! j)" "\<not> P (xs ! n)"
  shows "takeWhile P xs = take n xs"
  using assms by (intro takeWhile_eq_take_P_nth) auto

lemma nulterminate_strings:
  assumes ok: "\<forall>t \<in> set_cmd c. token_ok line t" and t: "t \<in> set_cmd c" and z: "0 \<notin> set line"
  shows "cstring_at (nulterminate c (line @ [0])) (length line - length (fst t)) = token_text t"
proof -
  let ?b = "nulterminate c (line @ [0])" and ?i = "length line - length (fst t)"
  obtain w where w: "fst t = w @ snd t" "w \<noteq> []" "\<forall>c \<in> set w. wordchar c" and s: "suffix (fst t) line"
    using ok t unfolding token_ok_def by blast
  have fl: "length (fst t) \<le> length line" using s by (rule suffix_length_le)
  have lb: "length ?b = length line + 1" and nb: "\<And>i. i \<le> length line \<Longrightarrow>
      ?b ! i = (if \<exists>t \<in> set_cmd c. i = length line - length (snd t) then 0 else (line @ [0]) ! i)"
    using nulterminate_nth [of c "line @ [0]"] by (simp_all add: nul_pos_def)
  have wj: "?b ! (?i + j) = w ! j \<and> w ! j \<noteq> 0" if j: "j < length w" for j
  proof -
    have lt: "?i + j < length line" using j w(1) fl by simp
    have lj: "line ! (?i + j) = w ! j" using suffix_nth [OF s, of j] j w(1) by (simp add: nth_append)
    have no: "?i + j \<noteq> length line - length (snd t')" if t': "t' \<in> set_cmd c" for t'
    proof
      assume e: "?i + j = length line - length (snd t')"
      have ok': "token_ok line t'" using ok t' by blast
      have s': "suffix (snd t') line" using ok' unfolding token_ok_def by (metis suffixI suffix_order.trans)
      have "snd t' \<noteq> []" using e lt by auto
      then have "hd (snd t') = line ! (?i + j)" using suffix_nth [OF s', of 0] e by (simp add: hd_conv_nth)
      moreover have "\<not> wordchar (hd (snd t'))" using ok' \<open>snd t' \<noteq> []\<close> unfolding token_ok_def by blast
      ultimately show False using lj w(3) j by (metis nth_mem)
    qed
    have "w ! j \<noteq> 0" using lj lt z by (metis nth_mem)
    then show ?thesis using nb [of "?i + j"] no lt lj by (auto simp: nth_append)
  qed
  have we: "?b ! (?i + length w) = 0" using nb [of "?i + length w"] t fl w(1) by auto
  have lw: "?i + length w < length ?b" using lb w(1) fl by simp
  have "takeWhile (\<lambda>c. c \<noteq> 0) (drop ?i ?b) = take (length w) (drop ?i ?b)"
    by (rule takeWhile_eqI) (use lw wj we in auto)
  also have "\<dots> = w" by (rule nth_equalityI) (use lw wj in auto)
  finally show ?thesis using w(1) by (simp add: cstring_at_def token_text_def)
qed

text \<open>C30. The parser ends on every line, with a command or with an error message, never looping or reading past the
  line. In the buffer that \<^verbatim>\<open>nulterminate\<close> leaves, the C string each argument and file name of the command
  points to is exactly the word of the line it was parsed from: no zero byte falls into another word.\<close>

theorem parsecmd_ends:
  assumes "0 \<notin> set line"
  shows "(\<exists>msg. parsecmd line s = Panic msg) \<or>
     (\<exists>cmd buf. parsecmd line s = Ret (cmd, buf) [] \<and>
        (\<forall>t \<in> set_cmd cmd. cstring_at buf (length line - length (fst t)) = token_text t \<and>
           token_text t \<noteq> [] \<and> (\<forall>c \<in> set (token_text t). wordchar c)))"
proof -
  have "fine (parsed line line) (parseline (parse_fuel line) line)" by (rule parse_fine) (simp_all add: parse_fuel_def)
  then consider (panic) msg where "parseline (parse_fuel line) line = Panic msg"
    | (ok) cmd s' where "parseline (parse_fuel line) line = Ret cmd s'" "\<forall>t \<in> set_cmd cmd. token_ok line t"
    by (cases "parseline (parse_fuel line) line") (auto simp: parsed_def)
  then show ?thesis
  proof cases
    case panic
    then show ?thesis by (simp add: parsecmd_def)
  next
    case (ok cmd s')
    have tt: "token_text t \<noteq> [] \<and> (\<forall>c \<in> set (token_text t). wordchar c)" if "t \<in> set_cmd cmd" for t
      using ok(2) that unfolding token_ok_def token_text_def by (metis append_eq_conv_conj append_same_eq diff_add_inverse2 length_append)
    show ?thesis
    proof (cases "skip_ws s' = []")
      case True
      then have "parsecmd line s = Ret (cmd, nulterminate cmd (line @ [0])) []" using ok(1) by (simp add: parsecmd_def peek_def)
      then show ?thesis using nulterminate_strings [OF ok(2) _ assms] tt by blast
    next
      case False
      then show ?thesis using ok(1) by (simp add: parsecmd_def peek_def)
    qed
  qed
qed
section \<open>Writing commands\<close>

text \<open>
  A command as a line. A command that is not simple is put in parentheses where the grammar needs a
  simple one; the four functions follow the four levels of the parser.
\<close>

definition show_redir :: "u8 list \<times> nat \<times> nat \<Rightarrow> u8 list" where
  "show_redir = (\<lambda>(f, m, fd). (if fd = 0 then 60 else 62) # f @ [32])"

text \<open>Where the chain of calls on the same command starts, for each of the four functions.\<close>

fun show_rank :: "nat \<Rightarrow> 'w cmd \<Rightarrow> nat" where
  "show_rank i (Pipe _ _) = (i + 3) mod 4"
| "show_rank i (Back _) = (i + 2) mod 4"
| "show_rank i (List _ _) = (i + 1) mod 4"
| "show_rank i c = i mod 4"

lemma show_rank_less: "show_rank i c < 4" "show_rank i c < 4 + n"
  by (cases c; simp add: trans_less_add1)+

function (sequential) show_exec :: "u8 list cmd \<Rightarrow> u8 list" and show_pipe :: "u8 list cmd \<Rightarrow> u8 list"
  and show_back :: "u8 list cmd \<Rightarrow> u8 list" and show_line :: "u8 list cmd \<Rightarrow> u8 list" where
  "show_exec (Exec ws) = concat (map (\<lambda>w. w @ [32]) ws)"
| "show_exec (Redir c f m fd) = show_exec c @ show_redir (f, m, fd)"
| "show_exec c = 40 # show_line c @ [41]"
| "show_pipe (Pipe l r) = show_exec l @ 124 # show_pipe r"
| "show_pipe c = show_exec c"
| "show_back (Back c) = show_back c @ [38]"
| "show_back c = show_pipe c"
| "show_line (List l r) = show_back l @ 59 # show_line r"
| "show_line c = show_back c"
  by pat_completeness auto
termination
  by (relation "measure (\<lambda>x. case x of
      Inl (Inl c) \<Rightarrow> 4 * size c + show_rank 0 c
    | Inl (Inr c) \<Rightarrow> 4 * size c + show_rank 1 c
    | Inr (Inl c) \<Rightarrow> 4 * size c + show_rank 2 c
    | Inr (Inr c) \<Rightarrow> 4 * size c + show_rank 3 c)") (auto simp: show_rank_less)

definition word_ok :: "u8 list \<Rightarrow> bool" where
  "word_ok w \<longleftrightarrow> w \<noteq> [] \<and> (\<forall>c \<in> set w. wordchar c)"

definition redir_ok :: "u8 list \<times> nat \<times> nat \<Rightarrow> bool" where
  "redir_ok = (\<lambda>(f, m, fd). word_ok f \<and> (m = O_RDONLY \<and> fd = 0 \<or> m = O_WRONLY + O_CREATE \<and> fd = 1))"

fun cmd_ok :: "u8 list cmd \<Rightarrow> bool" where
  "cmd_ok (Exec ws) \<longleftrightarrow> length ws < MAXARGS \<and> (\<forall>w \<in> set ws. word_ok w)"
| "cmd_ok (Redir c f m fd) \<longleftrightarrow> cmd_ok c \<and> redir_ok (f, m, fd)"
| "cmd_ok (Pipe l r) \<longleftrightarrow> cmd_ok l \<and> cmd_ok r"
| "cmd_ok (List l r) \<longleftrightarrow> cmd_ok l \<and> cmd_ok r"
| "cmd_ok (Back c) \<longleftrightarrow> cmd_ok c"

abbreviation "texts \<equiv> map_cmd token_text"

definition ends :: "u8 set \<Rightarrow> cptr \<Rightarrow> bool" where
  "ends D r \<longleftrightarrow> skip_ws r = [] \<or> hd (skip_ws r) \<in> D"

lemma ends_mono: "ends D r \<Longrightarrow> D \<subseteq> E \<Longrightarrow> ends E r"
  by (auto simp: ends_def)

lemma ends_sym [simp]: "c \<in> set symbols \<Longrightarrow> ends D (c # r) = (c \<in> D)"
  by (auto simp: ends_def skip_ws_def symbols_def whitespace_def)

lemma skip_ws_sym [simp]: "c \<in> set symbols \<Longrightarrow> skip_ws (c # r) = c # r"
  by (auto simp: skip_ws_def symbols_def whitespace_def)

lemma skip_ws_blank [simp]: "skip_ws (32 # r) = skip_ws r"
  by (simp add: skip_ws_def whitespace_def)

lemma skip_ws_word [simp]: "word_ok w \<Longrightarrow> skip_ws (w @ r) = w @ r"
  by (cases w) (auto simp: skip_ws_def word_ok_def wordchar_def)

lemma peek_skip [simp]: "peek toks (skip_ws s) = peek toks s"
  by (simp add: peek_def)

lemma gettoken_skip [simp]: "gettoken (skip_ws s) = gettoken s"
  by (simp add: gettoken_def)

lemma parse_skip:
  "parseredirs (Suc n) c (skip_ws s) = parseredirs (Suc n) c s" "parseargs (Suc n) c k (skip_ws s) = parseargs (Suc n) c k s"
  "parseback (Suc n) c (skip_ws s) = parseback (Suc n) c s" "parseexec (Suc n) (skip_ws s) = parseexec (Suc n) s"
  "parsepipe (Suc (Suc n)) (skip_ws s) = parsepipe (Suc (Suc n)) s" "parseline (Suc (Suc (Suc n))) (skip_ws s) = parseline (Suc (Suc (Suc n))) s"
  by simp_all

lemma gettoken_sym: "c \<in> {124, 40, 41, 59, 38, 60} \<Longrightarrow> gettoken (c # r) = Ret (c, c # r, r) (skip_ws r)"
  by (auto simp: gettoken_def symbols_def Let_def)

lemma word_ok_Cons: "word_ok (c # w) \<Longrightarrow> c \<notin> set symbols \<and> c \<notin> set whitespace"
  by (simp add: word_ok_def wordchar_def)

lemma gettoken_word: "word_ok w \<Longrightarrow> gettoken (w @ 32 # r) = Ret (97, w @ 32 # r, 32 # r) (skip_ws r)"
proof -
  assume w: "word_ok w"
  then obtain c w' where cw: "w = c # w'" by (auto simp: word_ok_def neq_Nil_conv)
  have d: "dropWhile wordchar (w @ 32 # r) = 32 # r" using w by (simp add: word_ok_def wordchar_def whitespace_def dropWhile_append)
  have "c \<notin> {124, 40, 41, 59, 38, 60}" "c \<noteq> 62" using word_ok_Cons [of c w'] w cw by (auto simp: symbols_def)
  moreover have "skip_ws (w @ 32 # r) = c # w' @ 32 # r" using skip_ws_word [OF w, of "32 # r"] cw by simp
  ultimately show ?thesis using d cw by (simp add: gettoken_def Let_def)
qed

lemma token_text_word [simp]: "token_text (w @ r, r) = w"
  by (simp add: token_text_def)

lemma texts_add_arg: "map_cmd f (add_arg c w) = add_arg (map_cmd f c) (f w)"
  by (induction c) auto

lemma not_redir: "ends (- {60, 62}) r \<Longrightarrow> peek [60, 62] r = Ret False (skip_ws r)"
  by (auto simp: peek_def ends_def Let_def)

abbreviation "show_redirs rs \<equiv> concat (map show_redir rs)"
abbreviation "redirs \<equiv> foldl (\<lambda>c (f, m, fd). Redir c f m fd)"

lemma parseredirs_show:
  assumes "\<forall>x \<in> set rs. redir_ok x" and "ends (- {60, 62}) r" and "length (show_redirs rs @ r) < n"
  shows "\<exists>d. parseredirs n c (show_redirs rs @ r) = Ret d (skip_ws r) \<and> texts d = redirs (texts c) rs"
  using assms
proof (induction rs arbitrary: n c)
  case Nil
  then obtain k where "n = Suc k" by (cases n) auto
  then show ?case using not_redir [OF Nil(2)] by simp
next
  case (Cons x rs)
  obtain f m fd where x: "x = (f, m, fd)" by (cases x)
  have ok: "word_ok f" "m = O_RDONLY \<and> fd = 0 \<or> m = O_WRONLY + O_CREATE \<and> fd = 1" using Cons.prems(1) x by (auto simp: redir_ok_def)
  obtain k where n: "n = Suc k" using Cons.prems(3) by (cases n) auto
  let ?r = "show_redirs rs @ r"
  let ?c = "if fd = 0 then 60 else (62 :: u8)"
  have kl: "length ?r < k" using Cons.prems(3) n x by (simp add: show_redir_def)
  obtain k' where k: "k = Suc k'" using kl by (cases k) auto
  have pk: "peek [60, 62] (?c # f @ 32 # ?r) = Ret True (?c # f @ 32 # ?r)" by (simp add: peek_def symbols_def)
  have g1: "\<exists>q. gettoken (?c # f @ 32 # ?r) = Ret (?c, q) (f @ 32 # ?r)"
  proof (cases "fd = 0")
    case True
    then show ?thesis using gettoken_sym [of 60 "f @ 32 # ?r"] ok(1) by simp
  next
    case False
    have "take 1 (f @ 32 # ?r) \<noteq> [62]" using ok(1) by (cases f) (auto simp: word_ok_def wordchar_def symbols_def)
    then show ?thesis using False ok(1) by (simp add: gettoken_def symbols_def)
  qed
  let ?d = "redircmd c (f @ 32 # ?r, 32 # ?r) m fd"
  have "parseredirs n c (show_redirs (x # rs) @ r) = parseredirs k ?d (skip_ws ?r)"
    using pk g1 gettoken_word [OF ok(1), of ?r] ok(2) unfolding n by (auto simp: x show_redir_def)
  also have "\<dots> = parseredirs k ?d ?r" unfolding k by (rule parse_skip(1))
  finally show ?case using Cons.IH [OF _ Cons.prems(2) kl, of ?d] Cons.prems(1) x by (auto simp: redircmd_def)
qed

definition stop_exec :: "u8 set" where "stop_exec = {124, 41, 38, 59}"

lemma stop_not_redir: "ends stop_exec r \<Longrightarrow> ends (- {60, 62}) r"
  by (rule ends_mono) (auto simp: stop_exec_def)

lemma parseargs_stop:
  assumes "ends stop_exec r" "0 < n"
  shows "parseargs n c k r = Ret c (skip_ws r)"
proof -
  obtain n' where "n = Suc n'" using assms(2) by (cases n) auto
  then show ?thesis using assms(1)
    by (cases "skip_ws r = []") (auto simp: peek_def ends_def stop_exec_def gettoken_def)
qed

lemma parseargs_show:
  assumes "\<forall>w \<in> set ws. word_ok w" "k + length ws < MAXARGS" "\<forall>x \<in> set rs. redir_ok x" "ends stop_exec r" "ws \<noteq> []"
    and "length (concat (map (\<lambda>w. w @ [32]) ws) @ show_redirs rs @ r) < n"
  shows "\<exists>d. parseargs n c k (concat (map (\<lambda>w. w @ [32]) ws) @ show_redirs rs @ r) = Ret d (skip_ws r) \<and>
     texts d = redirs (foldl add_arg (texts c) ws) rs"
  using assms
proof (induction ws arbitrary: n c k)
  case (Cons w ws)
  let ?r = "concat (map (\<lambda>w. w @ [32]) ws) @ show_redirs rs @ r"
  have w: "word_ok w" using Cons.prems(1) by simp
  obtain n' where n: "n = Suc n'" using Cons.prems(6) by (cases n) auto
  have nl: "length ?r < n'" using Cons.prems(6) n by simp
  have pk: "peek [124, 41, 38, 59] (w @ 32 # ?r) = Ret False (w @ 32 # ?r)"
    using w word_ok_Cons [of "hd w" "tl w"] by (cases w) (auto simp: peek_def word_ok_def skip_ws_def wordchar_def symbols_def)
  let ?c = "add_arg c (w @ 32 # ?r, 32 # ?r)"
  have st: "parseargs n c k (concat (map (\<lambda>w. w @ [32]) (w # ws)) @ show_redirs rs @ r) =
      bindP (parseredirs n' ?c) (\<lambda>d. parseargs n' d (k + 1)) (skip_ws ?r)"
    using pk gettoken_word [OF w, of ?r] Cons.prems(2) unfolding n by simp
  obtain n'' where n'': "n' = Suc n''" using nl by (cases n') auto
  have sk: "parseredirs n' ?c (skip_ws ?r) = parseredirs n' ?c ?r" unfolding n'' by (rule parse_skip(1))
  show ?case
  proof (cases "ws = []")
    case True
    have e: "?r = show_redirs rs @ r" using True by simp
    obtain d where d: "parseredirs n' ?c ?r = Ret d (skip_ws r)" "texts d = redirs (texts ?c) rs"
      using parseredirs_show [OF Cons.prems(3) stop_not_redir [OF Cons.prems(4)], of n' ?c] nl unfolding e by blast
    have "parseargs n' d (k + 1) (skip_ws r) = Ret d (skip_ws r)"
      using parseargs_stop [OF Cons.prems(4), of n' d "k + 1"] n'' parse_skip(2) by simp
    then show ?thesis using st sk d True by (auto simp: texts_add_arg)
  next
    case False
    have nr: "ends (- {60, 62}) ?r"
    proof -
      obtain v vs where v: "ws = v # vs" using False by (meson list.exhaust)
      then have vo: "word_ok v" using Cons.prems(1) by simp
      then have "skip_ws ?r = ?r" "hd ?r = hd v" using v by (auto simp: word_ok_def)
      moreover have "hd v \<notin> {60, 62}" using vo by (cases v) (auto simp: word_ok_def wordchar_def symbols_def)
      ultimately show ?thesis by (simp add: ends_def)
    qed
    have "parseredirs n' ?c ?r = Ret ?c (skip_ws ?r)" unfolding n'' using not_redir [OF nr] by simp
    moreover have "parseargs n' ?c (k + 1) (skip_ws ?r) = parseargs n' ?c (k + 1) ?r" unfolding n'' by (rule parse_skip(2))
    ultimately have "parseargs n c k (concat (map (\<lambda>w. w @ [32]) (w # ws)) @ show_redirs rs @ r) = parseargs n' ?c (k + 1) ?r"
      using st sk by simp
    then show ?thesis using Cons.IH [of "k + 1" n' ?c] Cons.prems(1-4) nl False by (auto simp: texts_add_arg)
  qed
qed simp
text \<open>What each level of the parser makes of a printed command.\<close>

lemma fuelE: assumes "4 * k + 4 \<le> n" obtains m where "n = Suc (Suc (Suc m))"
  using assms that by (cases n; cases "n - 1"; cases "n - 2") auto

definition shown :: "(cptr \<Rightarrow> (token cmd, cptr) outcome) \<Rightarrow> cptr \<Rightarrow> cptr \<Rightarrow> u8 list cmd \<Rightarrow> bool" where
  "shown m s r c \<longleftrightarrow> (\<exists>d. m s = Ret d (skip_ws r) \<and> texts d = c)"

lemma peek_end: "ends D r \<Longrightarrow> set toks \<inter> D = {} \<Longrightarrow> peek toks r = Ret False (skip_ws r)"
  by (auto simp: peek_def ends_def Let_def)

lemma peek_sym: "c \<in> set symbols \<Longrightarrow> peek toks (c # r) = Ret (c \<in> set toks) (c # r)"
  by (simp add: peek_def)

lemma parseexec_words:
  assumes "cmd_ok (Exec ws)" "\<forall>x \<in> set rs. redir_ok x" "ends stop_exec r"
    and n: "4 * length (show_exec (Exec ws) @ show_redirs rs @ r) + 2 \<le> n"
  shows "shown (parseexec n) (show_exec (Exec ws) @ show_redirs rs @ r) r (redirs (Exec ws) rs)"
proof -
  let ?s = "show_exec (Exec ws) @ show_redirs rs @ r"
  obtain n' where n': "n = Suc n'" "length ?s < n'" using n by (cases n) auto
  then obtain n'' where n'': "n' = Suc n''" by (cases n') auto
  have np: "peek [40] ?s = Ret False (skip_ws ?s)"
  proof (cases ws)
    case Nil
    show ?thesis
    proof (cases rs)
      case Nil
      then show ?thesis using \<open>ws = []\<close> assms(3) peek_end [of stop_exec r "[40]"] by (simp add: stop_exec_def)
    next
      case (Cons x rs')
      then show ?thesis using \<open>ws = []\<close> by (cases x) (auto simp: show_redir_def peek_sym symbols_def)
    qed
  next
    case (Cons w ws')
    then have w: "word_ok w" using assms(1) by simp
    then have "hd w \<noteq> 40" by (cases w) (auto simp: word_ok_def wordchar_def symbols_def)
    then show ?thesis using Cons w by (auto simp: peek_def word_ok_def)
  qed
  have st: "parseexec n ?s = bindP (parseredirs n' execcmd) (\<lambda>d. parseargs n' d 0) ?s"
  proof -
    have "parseexec n ?s = bindP (parseredirs n' execcmd) (\<lambda>d. parseargs n' d 0) (skip_ws ?s)"
      unfolding n'(1) parseexec.simps using np by simp
    moreover have "parseredirs n' execcmd (skip_ws ?s) = parseredirs n' execcmd ?s" unfolding n'' by (rule parse_skip(1))
    ultimately show ?thesis by simp
  qed
  show ?thesis
  proof (cases "ws = []")
    case True
    obtain d where "parseredirs n' execcmd ?s = Ret d (skip_ws r)" "texts d = redirs (texts execcmd) rs"
      using parseredirs_show [OF assms(2) stop_not_redir [OF assms(3)], of n' execcmd] n'(2) True by auto
    moreover have "parseargs n' d 0 (skip_ws r) = Ret d (skip_ws r)"
      using parseargs_stop [OF assms(3), of n' d 0] n'' parse_skip(2) by simp
    ultimately show ?thesis using st True by (auto simp: shown_def execcmd_def)
  next
    case False
    have nr: "parseredirs n' execcmd ?s = Ret execcmd (skip_ws ?s)"
    proof -
      obtain w ws' where w: "ws = w # ws'" using False by (meson list.exhaust)
      then have wo: "word_ok w" using assms(1) by simp
      then have "hd w \<notin> {60, 62}" by (cases w) (auto simp: word_ok_def wordchar_def symbols_def)
      then have "ends (- {60, 62}) ?s" using w wo by (auto simp: ends_def word_ok_def)
      then show ?thesis using not_redir n'' by simp
    qed
    obtain d where "parseargs n' execcmd 0 ?s = Ret d (skip_ws r)" "texts d = redirs (foldl add_arg (texts execcmd) ws) rs"
      using parseargs_show [of ws 0 rs r n' execcmd] assms(1-3) n'(2) False by auto
    moreover have "foldl add_arg (Exec us) ws = Exec (us @ ws)" for us :: "u8 list list" by (induction ws arbitrary: us) auto
    moreover have "parseargs n' execcmd 0 (skip_ws ?s) = parseargs n' execcmd 0 ?s" unfolding n'' by (rule parse_skip(2))
    ultimately show ?thesis using st nr by (auto simp: shown_def execcmd_def)
  qed
qed

lemma parseblock_show:
  assumes L: "\<And>n r. ends {41} r \<Longrightarrow> 4 * length (show_line c @ r) + 4 \<le> n \<Longrightarrow> shown (parseline n) (show_line c @ r) r c"
    and "\<forall>x \<in> set rs. redir_ok x" "ends stop_exec r" and n: "4 * length (40 # show_line c @ 41 # show_redirs rs @ r) + 2 \<le> n"
  shows "shown (parseexec n) (40 # show_line c @ 41 # show_redirs rs @ r) r (redirs c rs)"
proof -
  let ?t = "show_redirs rs @ r"
  obtain m where m: "n = Suc (Suc m)" "4 * length (show_line c @ 41 # ?t) + 4 \<le> m"
    using n by (cases n; cases "n - 1") auto
  obtain j where j: "m = Suc (Suc (Suc j))" using m(2) by (rule fuelE)
  obtain d where d: "parseline m (show_line c @ 41 # ?t) = Ret d (41 # ?t)" "texts d = c"
    using L [of "41 # ?t" m] m(2) by (auto simp: shown_def symbols_def)
  have "parseline m (skip_ws (show_line c @ 41 # ?t)) = Ret d (41 # ?t)" unfolding j parse_skip using d(1) j by simp
  moreover have "parseredirs m d (skip_ws ?t) = parseredirs m d ?t" unfolding j by (rule parse_skip(1))
  ultimately have "parseexec n (40 # show_line c @ 41 # ?t) = parseredirs m d ?t"
    unfolding m(1) by (simp add: peek_sym gettoken_sym symbols_def del: parseline.simps)
  moreover obtain d' where "parseredirs m d ?t = Ret d' (skip_ws r)" "texts d' = redirs (texts d) rs"
    using parseredirs_show [OF assms(2) stop_not_redir [OF assms(3)], of m d] m(2) by auto
  ultimately show ?thesis using d(2) by (auto simp: shown_def)
qed

lemma parseback_show:
  assumes "ends {41, 59} r" "k + 1 \<le> n"
  shows "parseback n d (replicate k 38 @ r) = Ret ((Back ^^ k) d) (skip_ws r)"
  using assms(2)
proof (induction k arbitrary: n d)
  case 0
  then obtain m where "n = Suc m" by (cases n) auto
  then show ?case using peek_end [OF assms(1), of "[38]"] by simp
next
  case (Suc k)
  obtain m where m: "n = Suc (Suc m)" using Suc.prems by (cases n; cases "n - 1") auto
  have "parseback n d (replicate (Suc k) 38 @ r) = parseback (Suc m) (Back d) (skip_ws (replicate k 38 @ r))"
    unfolding m by (simp add: peek_sym gettoken_sym symbols_def backcmd_def)
  also have "\<dots> = (Ret ((Back ^^ k) (Back d)) (skip_ws r))" unfolding parse_skip using Suc.IH [of "Suc m" "Back d"] Suc.prems m by simp
  finally show ?case by (simp add: funpow_swap1)
qed

lemma texts_Back: "texts ((Back ^^ k) d) = (Back ^^ k) (texts d)"
  by (induction k) simp_all

text \<open>From a level to the next one, on the same command.\<close>

lemma pipe_of_exec:
  assumes "shown (parseexec n) (s @ r) r c" "ends {41, 38, 59} r"
  shows "shown (parsepipe (Suc n)) (s @ r) r c"
  using assms peek_end [OF assms(2), of "[124]"] by (auto simp: shown_def)

lemma back_of_pipe:
  assumes P: "\<And>r. ends {41, 38, 59} r \<Longrightarrow> 4 * length (show_pipe c @ r) + 3 \<le> n \<Longrightarrow> shown (parsepipe n) (show_pipe c @ r) r c"
    and r: "ends {41, 59} r" and n: "4 * length (show_pipe c @ replicate k 38 @ r) + 3 \<le> n"
  shows "shown (bindP (parsepipe n) (parseback n)) (show_pipe c @ replicate k 38 @ r) r ((Back ^^ k) c)"
proof -
  let ?r = "replicate k 38 @ r"
  have "ends {41, 38, 59} ?r" using r by (cases k) (auto simp: symbols_def intro: ends_mono)
  then obtain d where d: "parsepipe n (show_pipe c @ ?r) = Ret d (skip_ws ?r)" "texts d = c"
    using P [of ?r] n by (auto simp: shown_def)
  obtain m where m: "n = Suc m" "k + 1 \<le> Suc m" using n by (cases n) auto
  have "parseback n d (skip_ws ?r) = Ret ((Back ^^ k) d) (skip_ws r)"
    unfolding m(1) parse_skip using parseback_show [OF r m(2), of d] by simp
  then show ?thesis using d by (auto simp: shown_def texts_Back)
qed

lemma parseline_eq:
  "parseline (Suc n) s = bindP (bindP (parsepipe n) (parseback n)) (\<lambda>cmd. bindP (peek [59]) (\<lambda>b.
     if b then thenP gettoken (bindP (parseline n) (\<lambda>r. ret (listcmd cmd r))) else ret cmd)) s"
  by (simp split: outcome.splits)

lemma line_of_back:
  assumes "shown (bindP (parsepipe n) (parseback n)) (s @ r) r c" "ends {41} r"
  shows "shown (parseline (Suc n)) (s @ r) r c"
  using assms peek_end [OF assms(2), of "[59]"] unfolding shown_def parseline_eq by auto

lemma pipe_show:
  assumes E: "shown (parseexec n) (show_exec l @ 124 # show_pipe t @ r) (124 # show_pipe t @ r) l"
    and P: "shown (parsepipe n) (show_pipe t @ r) r t" and n: "2 \<le> n"
  shows "shown (parsepipe (Suc n)) (show_exec l @ 124 # show_pipe t @ r) r (Pipe l t)"
proof -
  obtain m where m: "n = Suc (Suc m)" using n by (cases n; cases "n - 1") auto
  obtain d where d: "parseexec n (show_exec l @ 124 # show_pipe t @ r) = Ret d (124 # show_pipe t @ r)" "texts d = l"
    using E by (auto simp: shown_def symbols_def)
  obtain e where e: "parsepipe n (skip_ws (show_pipe t @ r)) = Ret e (skip_ws r)" "texts e = t"
    using P unfolding m parse_skip by (auto simp: shown_def)
  show ?thesis using d e unfolding shown_def
    by (simp add: peek_sym gettoken_sym symbols_def pipecmd_def)
qed

lemma line_show:
  assumes B: "shown (bindP (parsepipe n) (parseback n)) (show_back l @ 59 # show_line t @ r) (59 # show_line t @ r) l"
    and L: "shown (parseline n) (show_line t @ r) r t" and n: "3 \<le> n"
  shows "shown (parseline (Suc n)) (show_back l @ 59 # show_line t @ r) r (List l t)"
proof -
  obtain m where m: "n = Suc (Suc (Suc m))" using n by (cases n; cases "n - 1"; cases "n - 2") auto
  obtain d where d: "bindP (parsepipe n) (parseback n) (show_back l @ 59 # show_line t @ r) = Ret d (59 # show_line t @ r)" "texts d = l"
    using B by (auto simp: shown_def symbols_def simp del: bindP_apply)
  obtain e where e: "parseline n (skip_ws (show_line t @ r)) = Ret e (skip_ws r)" "texts e = t"
    using L unfolding m parse_skip by (auto simp: shown_def simp del: parseline.simps)
  show ?thesis unfolding shown_def parseline_eq using d e
    by (simp only: bindP_apply [of _ _ "show_back l @ 59 # show_line t @ r"] outcome.case) (simp add: peek_sym gettoken_sym symbols_def listcmd_def)
qed

lemma pipe_plain:
  assumes IH: "\<And>rs r n. cmd_ok c \<Longrightarrow> \<forall>x \<in> set rs. redir_ok x \<Longrightarrow> ends stop_exec r \<Longrightarrow>
      4 * length (show_exec c @ show_redirs rs @ r) + 2 \<le> n \<Longrightarrow> shown (parseexec n) (show_exec c @ show_redirs rs @ r) r (redirs c rs)"
    and c: "cmd_ok c" "ends {41, 38, 59} r" "4 * length (show_pipe c @ r) + 3 \<le> n" and e: "show_pipe c = show_exec c"
  shows "shown (parsepipe n) (show_pipe c @ r) r c"
proof -
  obtain j where j: "n = Suc j" using c(3) by (cases n) auto
  have "shown (parseexec j) (show_exec c @ show_redirs [] @ r) r (redirs c [])"
    by (rule IH) (use c e j in \<open>auto simp: stop_exec_def intro: ends_mono\<close>)
  then show ?thesis unfolding j e using pipe_of_exec [of j "show_exec c" r c] c(2) by simp
qed

lemma line_plain:
  assumes IH: "\<And>k r n. cmd_ok c \<Longrightarrow> ends {41, 59} r \<Longrightarrow> 4 * length (show_back c @ replicate k 38 @ r) + 3 \<le> n \<Longrightarrow>
      shown (bindP (parsepipe n) (parseback n)) (show_back c @ replicate k 38 @ r) r ((Back ^^ k) c)"
    and c: "cmd_ok c" "ends {41} r" "4 * length (show_line c @ r) + 4 \<le> n" and e: "show_line c = show_back c"
  shows "shown (parseline n) (show_line c @ r) r c"
proof -
  obtain j where j: "n = Suc j" using c(3) by (cases n) auto
  have "shown (bindP (parsepipe j) (parseback j)) (show_back c @ replicate 0 38 @ r) r ((Back ^^ 0) c)"
    by (rule IH) (use c e j in \<open>auto intro: ends_mono\<close>)
  then show ?thesis unfolding j e using line_of_back [of j "show_back c" r c] c(2) by simp
qed

declare parseline.simps [simp del] parsepipe.simps [simp del] parseexec.simps [simp del] bindP_apply [simp del]

lemma parse_show:
  "cmd_ok c \<Longrightarrow> \<forall>x \<in> set rs. redir_ok x \<Longrightarrow> ends stop_exec r \<Longrightarrow> 4 * length (show_exec c @ show_redirs rs @ r) + 2 \<le> n \<Longrightarrow>
     shown (parseexec n) (show_exec c @ show_redirs rs @ r) r (redirs c rs)"
  "cmd_ok c \<Longrightarrow> ends {41, 38, 59} r \<Longrightarrow> 4 * length (show_pipe c @ r) + 3 \<le> n \<Longrightarrow> shown (parsepipe n) (show_pipe c @ r) r c"
  "cmd_ok c \<Longrightarrow> ends {41, 59} r \<Longrightarrow> 4 * length (show_back c @ replicate k 38 @ r) + 3 \<le> n \<Longrightarrow>
     shown (bindP (parsepipe n) (parseback n)) (show_back c @ replicate k 38 @ r) r ((Back ^^ k) c)"
  "cmd_ok c \<Longrightarrow> ends {41} r \<Longrightarrow> 4 * length (show_line c @ r) + 4 \<le> n \<Longrightarrow> shown (parseline n) (show_line c @ r) r c"
proof (induction c and c and c and c arbitrary: rs r n and r n and k r n and r n
    rule: show_exec_show_pipe_show_back_show_line.induct, goal_cases)
  case (1 ws rs r n)
  then show ?case by (intro parseexec_words)
next
  case (2 c f m fd rs r n)
  then show ?case using 2(1) [of "(f, m, fd) # rs" r n] by auto
next
  case (3 l t rs r n)
  show ?case using parseblock_show [of "Pipe l t" rs r n] 3 by simp
next
  case (4 l t rs r n)
  show ?case using parseblock_show [of "List l t" rs r n] 4 by simp
next
  case (5 c rs r n)
  show ?case using parseblock_show [of "Back c" rs r n] 5 by simp
next
  case (6 l t r n)
  obtain m where m: "n = Suc m" using 6(5) by (cases n) auto
  have "shown (parseexec m) (show_exec l @ show_redirs [] @ 124 # show_pipe t @ r) (124 # show_pipe t @ r) (redirs l [])"
    by (rule 6(1)) (use 6 m in \<open>auto simp: stop_exec_def symbols_def\<close>)
  moreover have "shown (parsepipe m) (show_pipe t @ r) r t" by (rule 6(2)) (use 6 m in auto)
  ultimately show ?case unfolding m using pipe_show [of m l t r] 6(5) m by simp
next
  case (7 ws r n)
  show ?case by (rule pipe_plain [OF 7(1)]) (use 7(2-4) in simp_all)
next
  case (8 c f m fd r n)
  show ?case by (rule pipe_plain [OF 8(1)]) (use 8(2-4) in simp_all)
next
  case (9 l t r n)
  show ?case by (rule pipe_plain [OF 9(1)]) (use 9(2-4) in simp_all)
next
  case (10 c r n)
  show ?case by (rule pipe_plain [OF 10(1)]) (use 10(2-4) in simp_all)
next
  case (11 c k r n)
  show ?case using 11(1) [of r "Suc k" n] 11(2-4) by (simp add: funpow_swap1 replicate_app_Cons_same)
next
  case (12 ws k r n)
  show ?case using back_of_pipe [of "Exec ws" n r k] 12 by simp
next
  case (13 c f m fd k r n)
  show ?case using back_of_pipe [of "Redir c f m fd" n r k] 13 by simp
next
  case (14 l t k r n)
  show ?case using back_of_pipe [of "Pipe l t" n r k] 14 by simp
next
  case (15 l t k r n)
  show ?case using back_of_pipe [of "List l t" n r k] 15 by simp
next
  case (16 l t r n)
  obtain m where m: "n = Suc m" using 16(5) by (cases n) auto
  have "shown (bindP (parsepipe m) (parseback m)) (show_back l @ replicate 0 38 @ 59 # show_line t @ r) (59 # show_line t @ r) ((Back ^^ 0) l)"
    by (rule 16(1)) (use 16 m in \<open>auto simp: symbols_def\<close>)
  moreover have "shown (parseline m) (show_line t @ r) r t" by (rule 16(2)) (use 16 m in auto)
  ultimately show ?case unfolding m using line_show [of m l t r] 16(5) m by simp
next
  case (17 ws r n)
  show ?case by (rule line_plain [OF 17(1)]) (use 17(2-4) in simp_all)
next
  case (18 c f m fd r n)
  show ?case by (rule line_plain [OF 18(1)]) (use 18(2-4) in simp_all)
next
  case (19 l t r n)
  show ?case by (rule line_plain [OF 19(1)]) (use 19(2-4) in simp_all)
next
  case (20 c r n)
  show ?case by (rule line_plain [OF 20(1)]) (use 20(2-4) in simp_all)
qed

declare bindP_apply [simp]

text \<open>C31. Every command can be written down and read back: the line printed for a command tree, with parentheses where a
  part is not a simple command, is parsed into the same tree, with all arguments, redirections,
  pipes, lists and background commands in place.\<close>

theorem parsecmd_show:
  assumes "cmd_ok c"
  shows "\<exists>d buf. parsecmd (show_line c) s = Ret (d, buf) [] \<and> texts d = c"
proof -
  have "shown (parseline (parse_fuel (show_line c))) (show_line c @ []) [] c"
    by (rule parse_show(4)) (use assms in \<open>auto simp: ends_def parse_fuel_def\<close>)
  then obtain d where "parseline (parse_fuel (show_line c)) (show_line c) = Ret d []" "texts d = c" by (auto simp: shown_def)
  then show ?thesis by (simp add: parsecmd_def peek_def bindP_apply)
qed

text \<open>The command \<^verbatim>\<open>(ls -l; ls) | wc > f\<close>.\<close>

definition demo_cmd :: "u8 list cmd" where
  "demo_cmd = Pipe (List (Exec [[108, 115], [45, 108]]) (Exec [[108, 115]])) (Redir (Exec [[119, 99]]) [102] 0x201 1)"

theorem parsecmd_show_witness:
  "show_line demo_cmd = [40, 108, 115, 32, 45, 108, 32, 59, 108, 115, 32, 41, 124, 119, 99, 32, 62, 102, 32] \<and>
   (\<exists>d buf. parsecmd (show_line demo_cmd) [] = Ret (d, buf) [] \<and> texts d = demo_cmd)"
proof
  have "cmd_ok demo_cmd" by (simp add: demo_cmd_def word_ok_def redir_ok_def wordchar_def whitespace_def symbols_def)
  then show "\<exists>d buf. parsecmd (show_line demo_cmd) [] = Ret (d, buf) [] \<and> texts d = demo_cmd" by (rule parsecmd_show)
qed (simp add: demo_cmd_def show_redir_def)

theorem parsecmd_ends_witness:
  "(\<exists>msg. parsecmd [97, 32, 60] [] = Panic msg) \<or>
   (\<exists>cmd buf. parsecmd [97, 32, 60] [] = Ret (cmd, buf) [] \<and> (\<forall>t \<in> set_cmd cmd. token_text t \<noteq> []))"
  using parsecmd_ends [of "[97, 32, 60]" "[]"] by fastforce

section \<open>Running commands\<close>

text \<open>
  What a process does with a command, as the tree of its system calls with their possible results:
  \<open>Fork\<close> has the continuations of a failed call, of the child and of the parent; \<open>ExecCall\<close>, \<open>Open\<close> and \<open>Chdir\<close>
  go on with the given action when they fail.
\<close>

datatype act =
    ExitCall
  | ExecCall "u8 list list" act
  | Open "u8 list" nat act "nat \<Rightarrow> act"
  | Close nat act
  | Dup nat act
  | MkPipe act "nat \<Rightarrow> nat \<Rightarrow> act"
  | Fork act act act
  | WaitCall act
  | Chdir "u8 list" act act
  | Print string "u8 list list" act

definition nl :: string where "nl = [CHR 0x0A]"

definition panic_sh :: "string \<Rightarrow> act" where
  "panic_sh msg = Print (msg @ nl) [] ExitCall"

definition fork1 :: "act \<Rightarrow> act \<Rightarrow> act" where
  "fork1 child parent = Fork (panic_sh ''fork'') child parent"

primrec runcmd :: "u8 list cmd \<Rightarrow> act" where
  "runcmd (Exec argv) = (case argv of [] \<Rightarrow> ExitCall
     | a # _ \<Rightarrow> ExecCall argv (Print (''exec %s failed'' @ nl) [a] ExitCall))"
| "runcmd (Redir c file mode fd) = Close fd (Open file mode (Print (''open %s failed'' @ nl) [file] ExitCall) (\<lambda>_. runcmd c))"
| "runcmd (List left right) = fork1 (runcmd left) (WaitCall (runcmd right))"
| "runcmd (Pipe left right) = MkPipe (panic_sh ''pipe'') (\<lambda>p0 p1.
     fork1 (Close 1 (Dup p1 (Close p0 (Close p1 (runcmd left)))))
    (fork1 (Close 0 (Dup p0 (Close p0 (Close p1 (runcmd right)))))
    (Close p0 (Close p1 (WaitCall (WaitCall ExitCall))))))"
| "runcmd (Back c) = fork1 (runcmd c) ExitCall"

text \<open>The child of the shell's loop parses the line and runs the command.\<close>

definition run_line :: "u8 list \<Rightarrow> act" where
  "run_line line = (case parsecmd line [] of
     Ret (cmd, _) _ \<Rightarrow> runcmd (texts cmd)
   | Panic msg \<Rightarrow> panic_sh msg
   | _ \<Rightarrow> ExitCall)"

text \<open>The loop of \<^verbatim>\<open>main\<close>; \<open>lines\<close> are the lines \<^verbatim>\<open>gets\<close> returns, an empty one is the end of the input.\<close>

primrec sh_loop :: "u8 list list \<Rightarrow> act" where
  "sh_loop [] = Print ''$ '' [] ExitCall"
| "sh_loop (buf # lines) = Print ''$ '' []
    (if buf = [] then ExitCall
     else if take 3 buf = [99, 100, 32] then
       (let dir = drop 3 (butlast buf) in Chdir dir (Print (''cannot cd %s'' @ nl) [dir] (sh_loop lines)) (sh_loop lines))
     else fork1 (run_line buf) (WaitCall (sh_loop lines)))"

text \<open>
  \<^verbatim>\<open>main\<close> opens the console until the descriptors 0, 1 and 2 are in use. Each call of \<^verbatim>\<open>open\<close> takes a
  descriptor that was free, so the fourth one is at least 3.
\<close>

primrec open_console :: "nat \<Rightarrow> act \<Rightarrow> act" where
  "open_console 0 k = k"
| "open_console (Suc n) k = Open [99, 111, 110, 115, 111, 108, 101] O_RDWR k
     (\<lambda>fd. if fd \<ge> 3 then Close fd k else open_console n k)"

definition sh_main :: "u8 list list \<Rightarrow> act" where
  "sh_main lines = open_console 4 (sh_loop lines)"

end
