(* ===== verification/Spec2Isabelle.thy ===== *)
theory Spec2Isabelle
  imports Vm_Props Boot Utils Threads_Sem Trap Proc_Props Fs_Content Mkfs Umalloc Grep Sh
begin

text \<open>
  A verification of the xv6 variant in \<^verbatim>\<open>src/\<close>: a Unix-like teaching kernel for the x86 with kernel threads
  (\<^verbatim>\<open>clone\<close>, \<^verbatim>\<open>join\<close>) and the system calls \<^verbatim>\<open>setpark\<close>, \<^verbatim>\<open>park\<close> and \<^verbatim>\<open>unpark\<close>, a user-level library of mutexes, condition
  variables and semaphores on top of these calls, the user programs, and the host program that makes the disk image.

  \<^bold>\<open>How the parts fit together.\<close> The boot loader copies the kernel from the disk (\<^verbatim>\<open>bootmain.c\<close>); \<^verbatim>\<open>main.c\<close> finds the processors
  (\<^verbatim>\<open>mp.c\<close>), programs the interrupt controllers, sets up page tables, buffer cache, file table and first process, and enters the
  scheduler. User programs enter the kernel by a trap (\<^verbatim>\<open>trap.c\<close>), which dispatches system calls (\<^verbatim>\<open>syscall.c\<close>, \<^verbatim>\<open>sysproc.c\<close>,
  \<^verbatim>\<open>sysfile.c\<close>). File calls go through open files (\<^verbatim>\<open>file.c\<close>) to pipes (\<^verbatim>\<open>pipe.c\<close>), the console (\<^verbatim>\<open>console.c\<close>) or inodes
  (\<^verbatim>\<open>fs.c\<close>), from there to the buffer cache (\<^verbatim>\<open>bio.c\<close>) and the disk driver (\<^verbatim>\<open>ide.c\<close>). The image the file system starts from is
  written by \<^verbatim>\<open>tools/mkfs.c\<close>. The threads of a process share its memory; the library of \<^verbatim>\<open>user/\<close> lets them exclude and
  await each other, with a queue of process ids in user memory and \<^verbatim>\<open>park\<close> and \<^verbatim>\<open>unpark\<close> in the kernel.

  \<^bold>\<open>Conventions.\<close> \<open>Prelude\<close> has the outcome monad every routine is written in: a routine maps a state to \<open>Ret\<close> (it returned),
  \<open>Panic\<close>, \<open>Fault\<close> (an access C forbids: a null pointer, an index out of range), \<open>Switch\<close> (the processor was given away) or \<open>Spin\<close> (it
  polls for something that does not happen). The state of the kernel is one record (\<open>Kernel_State\<close>) with a field per
  global variable and tables of records for the structures of \<^verbatim>\<open>proc.h\<close>, \<^verbatim>\<open>buf.h\<close>, \<^verbatim>\<open>file.h\<close>; pointers into tables are indices,
  memory is a function from addresses to bytes. Integers are words of their width; \<^verbatim>\<open>int\<close> results are \<open>int\<close>, with \<open>int32\<close> where
  the arithmetic can leave 32 bits. Definitions have the names of
  the C functions they translate, with a suffix \<open>_loop\<close> for a loop body.

  \<^bold>\<open>Kernel.\<close>
  \<^item> \<open>Spinlock\<close> (\<^verbatim>\<open>spinlock.c\<close>), \<open>Sched\<close> and \<open>Proc\<close> (\<^verbatim>\<open>proc.c\<close>): locks and interrupt nesting; sleep, wakeup, park, unpark, kill;
    processes, threads, the scheduler. What other processes do while one sleeps is an argument (\<open>env\<close>). Shown: locks exclude and are
    restored, a wakeup or unpark between the decision to sleep and the sleep is not lost, unpark wakes a parked process. \<open>Proc_Props\<close>: what
    entry, page and pid a new process gets, and the thread that \<^verbatim>\<open>clone\<close> starts.
  \<^item> \<open>Bytes\<close>, \<open>Cstring\<close> (\<^verbatim>\<open>string.c\<close>, \<^verbatim>\<open>ulib.c\<close>): little-endian words in memory and the string routines with their bounds.
  \<^item> \<open>Kalloc\<close> (\<^verbatim>\<open>kalloc.c\<close>), \<open>Vm\<close> and \<open>Vm_Props\<close> (\<^verbatim>\<open>vm.c\<close>): the free list implements a stack of pages (locale \<open>page_alloc\<close>,
    interpreted as \<open>kmem\<close>); page tables are abstracted to a function from addresses to entries, and \<^verbatim>\<open>mappages\<close> changes what the processor
    translates on its range and nowhere else.
  \<^item> \<open>Pipe\<close> (\<^verbatim>\<open>pipe.c\<close>): a ring buffer with free-running counters implements a queue of bytes, errors included.
  \<^item> \<open>Ide\<close> (\<^verbatim>\<open>ide.c\<close>), \<open>Bio\<close> (\<^verbatim>\<open>bio.c\<close>): the request queue and the doubly linked list of buffers; the list implements a
    move-to-front list and the cache a store of blocks (locale \<open>block_store\<close>, interpreted as \<open>bcache\<close>).
  \<^item> \<open>Fs_Format\<close> (\<^verbatim>\<open>fs.h\<close>), \<open>Inode\<close> and \<open>Fs\<close> (\<^verbatim>\<open>fs.c\<close>), \<open>Fs_Props\<close>, \<open>Fs_Content\<close>: disk layout with its round trips, bitmap,
    inode cache, block map, files, directories, paths. Shown: inodes and file contents, within the blocks a file has, are read back as they were
    written, and nothing else on the disk changes.
  \<^item> \<open>File\<close> (\<^verbatim>\<open>file.c\<close>), \<open>Console_Out\<close>, \<open>Console\<close>, \<open>Kbd\<close> (\<^verbatim>\<open>console.c\<close>, \<^verbatim>\<open>uart.c\<close>, \<^verbatim>\<open>kbd.c\<close>), \<open>Exec\<close> (\<^verbatim>\<open>exec.c\<close>), \<open>Syscall\<close>,
    \<open>Sysfile\<close>, \<open>Trap\<close>: the definitions of the remaining routines, up to the trap handler.
  \<^item> \<open>Mmu\<close> (\<^verbatim>\<open>mmu.h\<close>), \<open>Devices\<close> (\<^verbatim>\<open>lapic.c\<close>, \<^verbatim>\<open>ioapic.c\<close>, \<^verbatim>\<open>picirq.c\<close>, \<^verbatim>\<open>timer.c\<close>, set-up routines of \<^verbatim>\<open>uart.c\<close>, \<^verbatim>\<open>console.c\<close>,
    \<^verbatim>\<open>ide.c\<close>, \<^verbatim>\<open>vm.c\<close>, \<^verbatim>\<open>trap.c\<close>), \<open>Mp\<close> (\<^verbatim>\<open>mp.c\<close>), \<open>Boot\<close> (\<^verbatim>\<open>bootmain.c\<close>, \<^verbatim>\<open>main.c\<close>): a record \<open>machine\<close> around the kernel
    with the registers of the controllers. Shown: descriptors decode to what was put in, only the system call gate is open to user programs, the masks of
    the controllers follow \<^verbatim>\<open>irqmask\<close>, the processors of a valid table are found, the loader brings the segments of the image to their addresses.

  \<^bold>\<open>User level.\<close>
  \<^item> \<open>Pidqueue\<close> (\<^verbatim>\<open>pidqueue.c\<close>, \<^verbatim>\<open>spinlock.c\<close>): the linked queue implements a first-in first-out list (locale \<open>fifo\<close>, interpreted as
    \<open>pidq\<close>).
  \<^item> \<open>Threads\<close>, \<open>Threads_Inv\<close>, \<open>Threads_Sem\<close> (\<^verbatim>\<open>mutex.c\<close>, \<^verbatim>\<open>condvar.c\<close>, \<^verbatim>\<open>semaphore.c\<close>): every routine as a sequence of atomic steps: one access to a
    lock word, to \<^verbatim>\<open>flag\<close> or to \<^verbatim>\<open>value\<close>, one operation on a queue (whose lock is held then), or one system call. A step relation interleaves any
    number of threads, and \<^verbatim>\<open>malloc\<close> may fail at any time. Its invariants: mutual exclusion, no lost wakeup, progress, the value of a semaphore
    as a 32-bit \<^verbatim>\<open>int\<close>, and no fault but the one of \<^verbatim>\<open>queue_add\<close> without memory. Threads that are killed or exit inside the library are not
    modelled.
  \<^item> \<open>Umalloc\<close> (\<^verbatim>\<open>umalloc.c\<close>): blocks handed out are apart and no byte is lost, for every sequence of calls with requests of at most 0x7fffff0
    bytes, so that the byte count of \<^verbatim>\<open>sbrk\<close> is positive as an \<^verbatim>\<open>int\<close>; what a request close to \<open>2\<^sup>3\<^sup>2\<close> gets is stated separately.
  \<^item> \<open>Usys\<close> (\<^verbatim>\<open>printf.c\<close>, \<^verbatim>\<open>threads.c\<close>, \<^verbatim>\<open>stat\<close>), \<open>Utils\<close> (\<^verbatim>\<open>cat.c\<close>, \<^verbatim>\<open>wc.c\<close>, \<^verbatim>\<open>ls.c\<close>, \<^verbatim>\<open>echo.c\<close>, \<^verbatim>\<open>init.c\<close>, \<^verbatim>\<open>kill.c\<close>, \<^verbatim>\<open>ln.c\<close>, \<^verbatim>\<open>mkdir.c\<close>,
    \<^verbatim>\<open>rm.c\<close>, \<^verbatim>\<open>zombie.c\<close>), \<open>Grep\<close> (\<^verbatim>\<open>grep.c\<close>), \<open>Sh\<close> (\<^verbatim>\<open>sh.c\<close>): programs as the system calls they make, for all answers of the kernel. Shown:
    the programs of \<open>Utils\<close> use no missing argument, \<^verbatim>\<open>cat\<close> copies, \<^verbatim>\<open>wc\<close> counts, what \<^verbatim>\<open>grep\<close> searches, the matcher decides its language, the shell's parser ends and inverts printing.

  \<^bold>\<open>Image builder.\<close> \<open>Mkfs\<close> (\<^verbatim>\<open>mkfs.c\<close>): the image of every readable directory tree that fits has the tree's files, apart from each other;
  below, the kernel's \<^verbatim>\<open>readi\<close> returns their bytes from a disk that holds the image.

  \<^bold>\<open>Bounds.\<close> Loops over a finite structure recurse on it. Other loops have a number of rounds as an argument, computed from the state
  where they are called, and end in \<open>Spin\<close> or in what the loop returns when it runs out: \<^verbatim>\<open>mappages\<close> one round per page of the range, \<^verbatim>\<open>readi\<close> and
  \<^verbatim>\<open>writei\<close> one per byte, \<^verbatim>\<open>iderw\<close> one per buffer that can be queued, a user program one per answer of the kernel, since every round makes a call;
  \<^verbatim>\<open>mpinit\<close> one per byte of the table, which it exceeds only on an unknown entry, where the C code loops for ever. The theorems are about all
  rounds, with the results of routines that run to the end. \<open>Grep\<close>, \<open>Umalloc\<close> and the string routines, whose loops depend on
  memory contents, use \<open>partial_function (option)\<close> or \<open>while_option\<close>, and termination is part of the theorems.

  \<^bold>\<open>Not modelled.\<close> The assembly files (\<^verbatim>\<open>*.S\<close>): the context switch is the outcome \<open>Switch\<close> and the trap entry the argument of \<open>trap\<close>.
  What a process does after a sleep in \<^verbatim>\<open>bget\<close> and \<^verbatim>\<open>ilock\<close>: these end in \<open>Switch\<close>, and the process does not come back; in \<^verbatim>\<open>iderw\<close> it
  does, but only disk interrupts run in between. In \<^verbatim>\<open>idewait\<close> the disk is taken to become ready.
  The memory model of the processor: threads interleave atomic steps. Hardware beyond its
  registers: the disk answers from a map of sectors, interrupts arrive as calls of \<open>trap\<close>. The test programs (\<^verbatim>\<open>usertests.c\<close>, \<^verbatim>\<open>forktest.c\<close>, \<^verbatim>\<open>stressfs.c\<close>,
  \<^verbatim>\<open>tester.c\<close>, \<^verbatim>\<open>p1test.c\<close> to \<^verbatim>\<open>p4test.c\<close>, \<^verbatim>\<open>part2.c\<close>, \<^verbatim>\<open>part4-cv.c\<close>, \<^verbatim>\<open>part4-sem.c\<close>), which exercise the code above. Declarations without code
  (\<^verbatim>\<open>defs.h\<close>, \<^verbatim>\<open>types.h\<close>).
\<close>

section \<open>The image builder and the kernel\<close>

lemma image_sector_ok: "unat b < 1024 \<Longrightarrow> sector_ok 1 b"
proof -
  assume "unat b < 1024"
  then have "take_bit 28 (unat b) = unat b" by (intro take_bit_nat_eq_self) simp
  then have "take_bit 28 b = b" by (simp add: word_unat_eq_iff unsigned_take_bit_eq)
  moreover have "mask 28 = (0x0fffffff :: u32)" by (simp add: mask_eq_exp_minus_1)
  ultimately show ?thesis by (simp add: sector_ok_def take_bit_eq_mask)
qed

text \<open>A file of an image, its inode loaded by the kernel, is ready for \<^verbatim>\<open>readi\<close>, and its contents are the bytes
  that were appended.\<close>

lemma image_file_ready:
  assumes m: "files_at m fl" "j < length fl" "length fl \<le> 199" "\<not> a_closed (fl ! j)" "a_type (fl ! j) \<noteq> T_DEV"
    and k: "bio_ok p k" "hold k = Map.empty" "k_disk k 1 = im_disk m"
    and ip: "ip < length (k_icache k)" "i_dev (k_icache k ! ip) = 1" "i_inum (k_icache k ! ip) = inum j"
      "inode_dinode (k_icache k ! ip) = dinode_at (im_disk m) (inum j)"
  shows "file_ready p k ip (file_blocks (fl ! j))" "file_contents k ip = a_data (fl ! j)"
proof -
  let ?i = "k_icache k ! ip" and ?d = "dinode_at (im_disk m) (inum j)" and ?n = "file_blocks (fl ! j)" and ?fb = "unat (im_freeblock m)"
  have f: "files_ok (im_disk m) ?fb (length fl) (\<lambda>i. dinode_at (im_disk m) (inum i)) (\<lambda>i. file_blocks (fl ! i)) (\<lambda>i. a_data (fl ! i))"
    and n: "is_inode (fl ! j) ?d" using m(1,2) by (simp_all add: files_at_def)
  have mp: "mapped (im_disk m) ?fb ?d ?n" and st: "stores (im_disk m) ?d ?n (a_data (fl ! j))" using files_okD(1,2) [OF f m(2)] by simp_all
  have ia: "i_addrs ?i = d_addrs ?d" "i_size ?i = d_size ?d" "i_type ?i = d_type ?d" unfolding ip(4) [symmetric] by (simp_all add: inode_dinode_def)
  have fb: "file_block (k_disk k) ?i bn = fblock (im_disk m) ?d bn" for bn
    by (simp add: file_block_def fblock_def ia ip(2) k(3))
  have sz: "unat (i_size ?i) = length (a_data (fl ! j))" using n m(4) by (simp add: ia is_inode_def a_size_def)
  have r: "29 \<le> unat b" "block_ok k 1 b" if "b \<in> blocks (im_disk m) ?d ?n" for b
  proof -
    show 29: "29 \<le> unat b" using mp that by (simp add: mapped_def)
    have lt: "unat b < 1024" using mp that files_okD(7) [OF f] by (fastforce simp: mapped_def)
    show "block_ok k 1 b" using 29 image_sector_ok [OF lt] files_okD(4) [OF f lt] k by (auto simp: block_ok_def unheld_def)
  qed
  have bl: "fblock (im_disk m) ?d bn \<in> blocks (im_disk m) ?d ?n" if "bn < ?n" for bn using that by (simp add: blocks_def)
  have b12: "d_addrs ?d ! 12 \<in> blocks (im_disk m) ?d ?n" if "12 < ?n" using that by (simp add: blocks_def)
  have inj: "inj_on (file_block (k_disk k) ?i) {..<?n}" using mp unfolding mapped_def fb by simp
  have n12: "fblock (im_disk m) ?d bn \<noteq> d_addrs ?d ! 12" if "bn < ?n" "12 < ?n" for bn
  proof -
    have "d_addrs ?d ! 12 \<notin> fblock (im_disk m) ?d ` {..<?n}" using mp that by (simp add: mapped_def)
    then show ?thesis using that(1) by (metis imageI lessThan_iff)
  qed
  have "?n \<le> 140" using mp by (simp add: mapped_def)
  then have fo: "file_ok k ?i ?n"
    using r(2) bl b12 n12 inj unfolding file_ok_def ia ip(2) by (simp add: fb)
  have low: "unat (IBLOCK (inum j)) < 28" using IBLOCK_low [of j] m(2,3) by simp
  have "inode_block_ok k ?i ?n"
    unfolding inode_block_ok_def fb ia ip(2,3)
  proof (intro conjI allI impI)
    show "sector_ok 1 (IBLOCK (inum j))" using low by (intro image_sector_ok) simp
    show "unheld k 1 (IBLOCK (inum j))" using k(2) by (simp add: unheld_def)
    show "fblock (im_disk m) ?d bn \<noteq> IBLOCK (inum j)" if "bn < ?n" for bn using r(1) [OF bl [OF that]] low by auto
    show "d_addrs ?d ! NDIRECT \<noteq> IBLOCK (inum j)" if "NDIRECT < ?n" using r(1) b12 that low by fastforce
  qed
  then show "file_ready p k ip ?n"
    using k(1,2) ip(1) fo n m(5) sz st by (simp add: file_ready_def room_def ia is_inode_def stores_def)
  show "file_contents k ip = a_data (fl ! j)"
    using st by (intro nth_equalityI) (simp_all add: file_contents_def sz file_byte_def fb ip(2) k(3) stores_def)
qed

text \<open>C11. The kernel reads what the image builder wrote. On a disk that holds the image of a tree, with the
  inode of a regular file of the tree loaded, \<^verbatim>\<open>readi\<close> returns the bytes of that file from the given
  offset, as many as asked for or as there are.\<close>

theorem kernel_reads_image:
  assumes "readable (Directory root)" "fits (tree_files root)" "mkfs_main root image0 = Ret () m"
    and "j < length (tree_files root)" "a_type (tree_files root ! j) = T_FILE" "\<not> a_closed (tree_files root ! j)"
    and "bio_ok p k" "hold k = Map.empty" "k_disk k 1 = im_disk m"
    and "ip < length (k_icache k)" "i_dev (k_icache k ! ip) = 1" "i_inum (k_icache k ! ip) = inum j"
      "inode_dinode (k_icache k ! ip) = disk_inode k 1 (inum j)"
    and "unat off \<le> length (a_data (tree_files root ! j))" "unat off + unat n < 4294967296"
  shows "\<exists>k'. readi es ip off n k =
     Ret (int (length (take (unat n) (drop (unat off) (a_data (tree_files root ! j))))),
       take (unat n) (drop (unat off) (a_data (tree_files root ! j)))) k'"
proof -
  have f: "files_at m (tree_files root)" and l: "length (tree_files root) \<le> 199"
    using mkfs_main_files [OF assms(1,2)] assms(2,3) by (auto simp: fits_def)
  note r = image_file_ready [OF f assms(4) l assms(6) _ assms(7-12)]
  have t: "a_type (tree_files root ! j) \<noteq> T_DEV" "inode_dinode (k_icache k ! ip) = dinode_at (im_disk m) (inum j)"
    using assms(5,9,13) by (simp_all add: disk_inode_def dinode_at_def)
  have s: "off \<le> i_size (k_icache k ! ip)"
    using assms(14) r(2) [OF t] by (simp add: word_le_nat_alt file_contents_def) (metis length_map length_upt diff_zero)
  have "runs (readi es ip off n) k (\<lambda>v _. v = (int (length (take (unat n) (drop (unat off) (a_data (tree_files root ! j))))),
       take (unat n) (drop (unat off) (a_data (tree_files root ! j)))))"
    by (rule runs_readi [OF r(1) [OF t] HOL.refl s assms(15)]) (simp only: r(2) [OF t])
  then show ?thesis by (auto simp: runs_def)
qed

definition boot_kernel :: "image \<Rightarrow> kernel" where
  "boot_kernel m = demo_disk\<lparr>k_disk := \<lambda>_. im_disk m,
     k_icache := [load_dinode (dinode_at (im_disk m) 2) (demo_inode\<lparr>i_inum := 2\<rparr>)]\<rparr>"

lemma boot_kernel_ok: "bio_ok 0 (boot_kernel m)" "hold (boot_kernel m) = Map.empty" "k_disk (boot_kernel m) d = im_disk m"
  "k_icache (boot_kernel m) = [load_dinode (dinode_at (im_disk m) 2) (demo_inode\<lparr>i_inum := 2\<rparr>)]"
proof -
  have "bio_ok 0 (demo_disk\<lparr>k_disk := \<lambda>_. im_disk m\<rparr>)"
    using demo_bufs_ok by (simp add: bio_ok_def disk_ready_def demo_disk_def) (simp add: demo_kernel_def)
  then show "bio_ok 0 (boot_kernel m)" by (simp add: boot_kernel_def)
  show "hold (boot_kernel m) = Map.empty" using demo_hold by (auto simp: fun_eq_iff hold_def boot_kernel_def split: if_splits)
qed (simp_all add: boot_kernel_def)

theorem kernel_reads_image_witness:
  "\<exists>m k'. mkfs_main demo_tree image0 = Ret () m \<and> readi [] 0 1 10 (boot_kernel m) = Ret (2, [2, 3]) k'"
proof -
  obtain m where m: "mkfs_main demo_tree image0 = Ret () m" using mkfs_main_files [OF demo_tree_fits] by auto
  have f: "tree_files demo_tree ! 1 = \<lparr>a_type = T_FILE, a_data = [1, 2, 3], a_closed = False\<rparr>" "1 < length (tree_files demo_tree)"
    by (simp_all add: demo_tree_files)
  have i: "i_dev (k_icache (boot_kernel m) ! 0) = 1" "i_inum (k_icache (boot_kernel m) ! 0) = inum 1"
    "inode_dinode (k_icache (boot_kernel m) ! 0) = disk_inode (boot_kernel m) 1 (inum 1)"
    by (simp_all add: boot_kernel_ok load_dinode_def demo_inode_def inum_def disk_inode_def dinode_at_def inode_dinode_def)
  have "\<exists>k'. readi [] 0 1 10 (boot_kernel m) =
     Ret (int (length (take (unat (10::u32)) (drop (unat (1::u32)) (a_data (tree_files demo_tree ! 1))))),
       take (unat (10::u32)) (drop (unat (1::u32)) (a_data (tree_files demo_tree ! 1)))) k'"
    by (rule kernel_reads_image [OF demo_tree_fits m f(2) _ _ boot_kernel_ok(1,2,3) _ i]) (simp_all add: f(1) [unfolded One_nat_def] boot_kernel_ok(4))
  then show ?thesis using m by (auto simp: f(1) [unfolded One_nat_def])
qed

end
